(* ===== verification/Prelude.thy ===== *)
theory Prelude
  imports Main "HOL-Library.Word"
begin

text \<open>
  Shared vocabulary of the development: machine integers at the widths of the
  i386 build (the Makefile compiles with \<^verbatim>\<open>-m32 -march=i386\<close>, little endian),
  byte sequences, and the result type of everything that can fail.

  A failing run is a value.  \<open>Abort\<close> is a failed \<^verbatim>\<open>assert\<close> of the C++ decoder,
  \<open>Throw e\<close> is \<^verbatim>\<open>lj_err_throw\<close> / \<^verbatim>\<open>lj_err_msg\<close> unwinding out of the library, and
  \<open>Undef\<close> is an access the C code does not check: a read or write outside the block
  it was given, a null or wild pointer, a shift by 32 or more.  Theorems that say a
  routine returns \<open>Inr\<close> therefore say that it runs into none of these.
\<close>

unbundle bit_operations_syntax

type_synonym u8 = "8 word"
type_synonym u16 = "16 word"
type_synonym u32 = "32 word"
type_synonym u64 = "64 word"
type_synonym bytes = "u8 list"

named_theorems bytes_simps "unfolding rules for byte-level encodings"

section \<open>Results\<close>

text \<open>
  Errors by their names.  The decompiled functions throw numbers instead, which are offsets
  into the table of messages: \<open>Err_offset\<close>.
\<close>

datatype lj_error =
    LJ_ERR_BCBAD
  | LJ_ERR_BCFMT
  | LJ_ERR_ERRMEM
  | LJ_ERR_STROV
  | LJ_ERR_STKOV
  | LUA_ERRERR
  | LJ_ERR_TABOV
  | LJ_ERR_NILIDX
  | LJ_ERR_NANIDX
  | LJ_ERR_NEXTIDX
  | LJ_ERR_XMODE
  | LJ_ERR_XLINES
  | LJ_ERR_XLSTR
  | LJ_ERR_XLCOM
  | LJ_ERR_XSTR
  | LJ_ERR_XESC
  | LJ_ERR_XLDELIM
  | LJ_ERR_XNUMBER
  | LJ_ERR_STRDUMP
  | LJ_ERR_BADTYPE
  | LUA_ERRFILE
  | Err_offset nat

datatype fault = Abort | Throw lj_error | Undef

type_synonym 'a res = "fault + 'a"

definition rbind :: "'a res \<Rightarrow> ('a \<Rightarrow> 'b res) \<Rightarrow> 'b res" where
  "rbind m f = (case m of Inl e \<Rightarrow> Inl e | Inr a \<Rightarrow> f a)"

lemma rbind_simps [simp]:
  "rbind (Inl e) f = Inl e"
  "rbind (Inr a) f = f a"
  by (simp_all add: rbind_def)

lemma rbind_eq_Inr: "rbind m f = Inr b \<longleftrightarrow> (\<exists>a. m = Inr a \<and> f a = Inr b)"
  by (cases m) simp_all

lemma rbind_eq_Inl:
  "rbind m f = Inl e \<longleftrightarrow> m = Inl e \<or> (\<exists>a. m = Inr a \<and> f a = Inl e)"
  by (cases m) auto

lemma rbind_assoc [simp]: "rbind (rbind m f) g = rbind m (\<lambda>a. rbind (f a) g)"
  by (cases m) simp_all

lemma rbind_cong [fundef_cong]:
  "m = m' \<Longrightarrow> (\<And>a. m' = Inr a \<Longrightarrow> f a = f' a) \<Longrightarrow> rbind m f = rbind m' f'"
  by (cases m') simp_all

text \<open>A function of the result.\<close>

definition rmap :: "('a \<Rightarrow> 'b) \<Rightarrow> 'a res \<Rightarrow> 'b res" where "rmap f m = rbind m (\<lambda>x. Inr (f x))"

lemma rmap_simps [simp]: "rmap f (Inr x) = Inr (f x)" "rmap f (Inl e) = Inl e"
  by (simp_all add: rmap_def)

lemma rbind_rmap [simp]: "rbind (rmap f m) g = rbind m (\<lambda>x. g (f x))"
  by (cases m) simp_all

lemma rmap_rbind [simp]: "rmap f (rbind m g) = rbind m (\<lambda>x. rmap f (g x))"
  by (cases m) simp_all

lemma rmap_if [simp]: "rmap f (if b then x else y) = (if b then rmap f x else rmap f y)"
  by simp

text \<open>A C \<^verbatim>\<open>for\<close> loop over the elements of a list, stopped by the first fault.\<close>

fun fold_res :: "('a \<Rightarrow> 's \<Rightarrow> 's res) \<Rightarrow> 'a list \<Rightarrow> 's \<Rightarrow> 's res" where
  "fold_res f [] s = Inr s"
| "fold_res f (x # xs) s = rbind (f x s) (fold_res f xs)"

lemma fold_res_append: "fold_res f (xs @ ys) s = rbind (fold_res f xs s) (fold_res f ys)"
  by (induction xs arbitrary: s) (simp_all add: rbind_def split: sum.splits)

lemma fold_res_invariant:
  assumes "\<And>x s. x \<in> set xs \<Longrightarrow> I s \<Longrightarrow> \<exists>s'. f x s = Inr s' \<and> I s'" and "I s"
  shows "\<exists>s'. fold_res f xs s = Inr s' \<and> I s'"
  using assms
proof (induction xs arbitrary: s)
  case (Cons x xs)
  then obtain s' where "f x s = Inr s'" "I s'" by (meson list.set_intros(1))
  then show ?case using Cons by simp
qed simp

text \<open>A C \<^verbatim>\<open>assert\<close>, and a check that only the model makes.\<close>

definition c_assert :: "bool \<Rightarrow> unit res" where
  "c_assert b = (if b then Inr () else Inl Abort)"

definition in_range :: "bool \<Rightarrow> unit res" where
  "in_range b = (if b then Inr () else Inl Undef)"

lemma c_assert_simps [simp]:
  "c_assert True = Inr ()" "c_assert False = Inl Abort"
  "c_assert b = Inr u \<longleftrightarrow> b"
  by (simp_all add: c_assert_def)

lemma in_range_simps [simp]:
  "in_range True = Inr ()" "in_range False = Inl Undef"
  "in_range b = Inr u \<longleftrightarrow> b"
  by (simp_all add: in_range_def)

section \<open>Bytes and words\<close>

text \<open>The \<open>n\<close>-th byte of a word in little-endian order, and words from their bytes.\<close>

definition byte_n :: "nat \<Rightarrow> 'a::len word \<Rightarrow> u8" where
  "byte_n n w = ucast (drop_bit (8 * n) w)"

definition le32 :: "u8 \<Rightarrow> u8 \<Rightarrow> u8 \<Rightarrow> u8 \<Rightarrow> u32" where
  "le32 b0 b1 b2 b3 =
     (ucast b0 OR push_bit 8 (ucast b1)) OR push_bit 16 (ucast b2) OR push_bit 24 (ucast b3)"

definition le16 :: "u8 \<Rightarrow> u8 \<Rightarrow> u16" where
  "le16 b0 b1 = ucast b0 OR push_bit 8 (ucast b1)"

definition bytes32 :: "u32 \<Rightarrow> bytes" where
  "bytes32 w = [byte_n 0 w, byte_n 1 w, byte_n 2 w, byte_n 3 w]"

definition bytes16 :: "u16 \<Rightarrow> bytes" where
  "bytes16 w = [byte_n 0 w, byte_n 1 w]"

lemma unat_of_nat_eq:
  "n < 2 ^ LENGTH('a) \<Longrightarrow> unat (word_of_nat n :: 'a::len word) = n"
  by (simp add: unsigned_of_nat take_bit_nat_eq_self)

lemma bit_byte_n [bit_simps]: "bit (byte_n n w) i \<longleftrightarrow> i < 8 \<and> bit w (8 * n + i)"
  by (auto simp: byte_n_def bit_simps add.commute)

lemma le32_bytes:
  "le32 (byte_n 0 w) (byte_n 1 w) (byte_n 2 w) (byte_n 3 w) = w"
proof (rule bit_word_eqI)
  fix i assume "i < LENGTH(32)"
  then have "i < 8 \<or> (8 \<le> i \<and> i < 16) \<or> (16 \<le> i \<and> i < 24) \<or> (24 \<le> i \<and> i < 32)"
    by auto
  then show "bit (le32 (byte_n 0 w) (byte_n 1 w) (byte_n 2 w) (byte_n 3 w)) i = bit w i"
    by (elim disjE) (auto simp: le32_def bit_simps)
qed

lemma le32_bytes_Suc [simp]:
  "le32 (byte_n 0 w) (byte_n (Suc 0) w) (byte_n 2 w) (byte_n 3 w) = w"
  using le32_bytes [of w] by simp

lemma byte_n_le32 [simp]:
  "byte_n 0 (le32 a b c d) = a" "byte_n (Suc 0) (le32 a b c d) = b"
  "byte_n 2 (le32 a b c d) = c" "byte_n 3 (le32 a b c d) = d"
  by (rule bit_word_eqI; auto simp: le32_def bit_simps dest: bit_imp_le_length)+

lemma le16_bytes: "le16 (byte_n 0 w) (byte_n 1 w) = w"
proof (rule bit_word_eqI)
  fix i assume "i < LENGTH(16)"
  then have "i < 8 \<or> (8 \<le> i \<and> i < 16)" by auto
  then show "bit (le16 (byte_n 0 w) (byte_n 1 w)) i = bit w i"
    by (elim disjE) (auto simp: le16_def bit_simps)
qed

lemma le16_bytes_Suc [simp]: "le16 (byte_n 0 w) (byte_n (Suc 0) w) = w"
  using le16_bytes [of w] by simp

lemma byte_n_le16 [simp]:
  "byte_n 0 (le16 a b) = a" "byte_n (Suc 0) (le16 a b) = b"
  by (rule bit_word_eqI; auto simp: le16_def bit_simps dest: bit_imp_le_length)+

lemma unat_drop_bit: "unat (drop_bit n v) = unat (v :: 'a::len word) div 2 ^ n"
  by (simp add: drop_bit_nat_def [symmetric] unsigned_drop_bit_eq take_bit_nat_eq_self)

lemma unat_ge_numeral:
  "(numeral k :: 'a::len word) \<le> v \<longleftrightarrow> unat (numeral k :: 'a word) \<le> unat v"
  by (rule word_le_nat_alt)

lemma take_bit_self: "unat v < 2 ^ n \<Longrightarrow> take_bit n v = (v :: 'a::len word)"
  by (simp add: word_unat_eq_iff unsigned_take_bit_eq take_bit_nat_eq_self)

lemma bit_less_exp: "unat v < 2 ^ n \<Longrightarrow> bit (v :: 'a::len word) i \<Longrightarrow> i < n"
  using bit_take_bit_iff [of n v i] take_bit_self [of v n] by simp

lemma u8_less: "unat (b::u8) < 256"
  using unsigned_less [of b] by simp

lemma u16_less: "unat (w::u16) < 65536"
  using unsigned_less [of w] by simp

lemma u32_less: "unat (w::u32) < 4294967296"
  using unsigned_less [of w] by simp

lemma u64_less: "unat (w::u64) < 18446744073709551616"
  using unsigned_less [of w] by simp

lemma and_7f: "v AND 0x7f = take_bit 7 (v :: 'a::len word)"
  by (simp add: take_bit_eq_mask mask_eq_exp_minus_1)

lemma or_80: "v OR 0x80 = set_bit 7 (v :: 'a::len word)"
  by (simp add: set_bit_eq_or push_bit_eq_mult)

lemma sint_below: "0 \<le> m \<Longrightarrow> m < 2 ^ 31 \<Longrightarrow> sint (word_of_int m :: u32) = m"
  by (simp add: signed_of_int signed_take_bit_int_eq_self)

lemma sint_small: "unat a < 2 ^ 31 \<Longrightarrow> sint (a :: u32) = int (unat a)"
proof -
  assume "unat a < 2 ^ 31"
  then have "int (unat a) < int (2 ^ 31)" by (simp only: of_nat_less_iff)
  then have "uint a < 2 ^ 31" unfolding uint_nat by (simp only: of_nat_power of_nat_numeral)
  then show ?thesis using sint_below [of "uint a"] by simp
qed

lemma length_bytes32 [simp]: "length (bytes32 w) = 4"
  by (simp add: bytes32_def)

lemma length_bytes16 [simp]: "length (bytes16 w) = 2"
  by (simp add: bytes16_def)

end
