(* ===== verification/Scipio.thy ===== *)
theory Scipio
  imports Prelude
begin

text \<open>
  The asset decoder \<^verbatim>\<open>uabdec\<close>: \<^verbatim>\<open>NewSpecific\<close> and \<^verbatim>\<open>DigitalSea_Scipio\<close> of
  \<^verbatim>\<open>src/AssetDecoder.cpp\<close>.  The input is the content of the bundle file.  Its last four
  bytes hold, big end first, the size of a wrapper block that precedes them; what is left
  is decrypted in eight-byte blocks, with four small ciphers used in turn, and the last
  one to eight bytes are copied as they are.
\<close>

section \<open>The key and the arrays\<close>

definition key_bytes :: bytes where
  "key_bytes =
    [0xBC, 0x4B, 0x77, 0x1D, 0xE8, 0xC0, 0x96, 0x00, 0x8C, 0xA2, 0x69, 0x00, 0xB9, 0xCB, 0xDA, 0x35,
     0xC2, 0xCE, 0x63, 0x00, 0xA5, 0x6B, 0x5A, 0x00, 0x2E, 0x71, 0x92, 0x14, 0x19, 0xDE, 0x92, 0x00,
     0x93, 0x62, 0x0B, 0x00, 0x46, 0x56, 0xDF, 0x03, 0xC2, 0x63, 0x50, 0x00, 0xD5, 0x93, 0x72, 0x00,
     0xA3, 0x5B, 0x5E, 0x00, 0xCB, 0xAF, 0xC3, 0x30, 0x76, 0xA6, 0x1C, 0x01, 0xAD, 0x4E, 0x78, 0x00,
     0x02, 0xB9, 0x4B, 0x00, 0x8C, 0xF4, 0x49, 0x00, 0x54, 0x39, 0x81, 0x05]"

text \<open>
  \<^verbatim>\<open>dec_key\<close> is an array of 19 words into which the key bytes are copied; the C code
  writes \<^verbatim>\<open>dec_key[k + 4]\<close> for word \<open>k\<close>, the first four words being the array header.
\<close>

fun words_of :: "bytes \<Rightarrow> u32 list" where
  "words_of (a # b # c # d # bs) = le32 a b c d # words_of bs"
| "words_of _ = []"

definition dec_key :: "u32 list" where
  "dec_key = words_of key_bytes"

text \<open>
  \<^verbatim>\<open>NewSpecific\<close> allocates the 16 header bytes and \<open>n\<close> zeroed elements.  The size is
  computed in \<^verbatim>\<open>size_t\<close>, 32 bits here.  A length that is negative as an \<^verbatim>\<open>int\<close> makes
  \<^verbatim>\<open>malloc\<close> fail (a null pointer that is written through) or, when adding 16 wraps
  around, yields a block smaller than its header; both are \<open>Undef\<close>.
\<close>

definition NewSpecific :: "nat \<Rightarrow> u32 \<Rightarrow> bytes res" where
  "NewSpecific element_size n =
     (let ByteLen = n * word_of_nat element_size;
          ByteLenAlloc = ByteLen + 16
      in if unat n * element_size + 16 < 2 ^ 31
         then Inr (replicate (unat ByteLenAlloc - 16) 0)
         else Inl Undef)"

section \<open>The four block ciphers\<close>

text \<open>
  A block is the pair \<^verbatim>\<open>v184[4]\<close>, \<^verbatim>\<open>v184[5]\<close>.  All arithmetic is on unsigned 32-bit
  words.  \<open>delta\<close> is the round constant, \<open>sum0 = 2 * delta\<close> the first sum.
\<close>

definition delta :: u32 where "delta = 117423365"
definition sum0 :: u32 where "sum0 = 234846730"

type_synonym block = "u32 \<times> u32"

text \<open>Mode 0: XXTEA on two words, two rounds (\<^verbatim>\<open>v84\<close> counts 2, 1).\<close>

definition mx :: "u32 list \<Rightarrow> u32 \<Rightarrow> nat \<Rightarrow> u32 \<Rightarrow> u32 \<Rightarrow> u32" where
  "mx k s i y z =
     ((drop_bit 5 z XOR 4 * y) + (drop_bit 3 y XOR 16 * z)) XOR ((s XOR y) + (k ! i XOR z))"

fun xxtea_rounds :: "u32 list \<Rightarrow> nat \<Rightarrow> u32 \<Rightarrow> u32 \<Rightarrow> block \<Rightarrow> block" where
  "xxtea_rounds k 0 v83 v202 (w0, w1) = (w0, w1)"
| "xxtea_rounds k (Suc v84) v83 v202 (w0, w1) =
     (let v189 = unat (drop_bit 2 v83 AND 3);
          v89 = w0;
          v197 = unat ((drop_bit 2 v83 AND 3) XOR (1 AND 3));
          v93 = w1 - mx k v83 v197 v202 v89;
          v96 = v93;
          v100 = w0 - mx k v83 v189 v93 v96
      in xxtea_rounds k v84 (v83 - delta) v100 (v100, v93))"

definition xxtea_dec :: "u32 list \<Rightarrow> block \<Rightarrow> block" where
  "xxtea_dec k b = xxtea_rounds k 2 sum0 (fst b) b"

text \<open>Mode 1: TEA; the loop runs while the sum is not zero.\<close>

definition tea_round :: "u32 list \<Rightarrow> u32 \<Rightarrow> block \<Rightarrow> block" where
  "tea_round k v77 b =
     (let v68 = fst b; v70 = snd b;
          v201 = k ! 0; v196 = k ! 1; v75 = k ! 2; v188 = k ! 3;
          v70 = v70 - ((v75 + 16 * v68) XOR (v77 + v68) XOR (v188 + drop_bit 5 v68));
          v68 = v68 - ((v201 + 16 * v70) XOR (v77 + v70) XOR (v196 + drop_bit 5 v70))
      in (v68, v70))"

definition tea_dec :: "u32 list \<Rightarrow> block \<Rightarrow> block" where
  "tea_dec k b = tea_round k (sum0 - delta) (tea_round k sum0 b)"

text \<open>Mode 2: exclusive or with two key words and the block's offset \<^verbatim>\<open>v178\<close>.\<close>

definition xor_dec :: "u32 list \<Rightarrow> u32 \<Rightarrow> block \<Rightarrow> block" where
  "xor_dec k v178 b = ((k ! 13 XOR v178) XOR fst b, (k ! 2 XOR v178) XOR snd b)"

text \<open>Mode 3: XTEA; \<^verbatim>\<open>v106\<close> runs 5, 4 and indexes key words 1, 0.\<close>

definition xtea_round :: "u32 list \<Rightarrow> u32 \<Rightarrow> nat \<Rightarrow> block \<Rightarrow> block" where
  "xtea_round k v105 v106 b =
     (let v190 = fst b; v198 = snd b;
          v107 = unat (drop_bit 11 v105 AND 3);
          v104 = v198 - ((v190 + (16 * v190 XOR drop_bit 5 v190)) XOR (v105 + k ! v107));
          v190 = v190 - ((v104 + (16 * v104 XOR drop_bit 5 v104)) XOR
                         (v105 + k ! (v106 - 4) - delta))
      in (v190, v104))"

definition xtea_dec :: "u32 list \<Rightarrow> block \<Rightarrow> block" where
  "xtea_dec k b = xtea_round k (sum0 - delta) 4 (xtea_round k sum0 5 b)"

text \<open>The dispatch on \<^verbatim>\<open>v177\<close> (0, 1, 3 and otherwise), for the block at offset \<open>off\<close>.\<close>

definition dec_block :: "u32 list \<Rightarrow> nat \<Rightarrow> u32 \<Rightarrow> block \<Rightarrow> block" where
  "dec_block k v177 off b =
     (if v177 \<noteq> 0
      then if 1 < v177
           then if v177 = 3 then xtea_dec k b else xor_dec k off b
           else tea_dec k b
      else xxtea_dec k b)"

section \<open>The decoder\<close>

text \<open>A checked read: \<open>*p_max_length <= i\<close> fails the assertion.\<close>

definition rd :: "bytes \<Rightarrow> nat \<Rightarrow> u8 res" where
  "rd a i = (if length a \<le> i then Inl Abort else Inr (a ! i))"

definition wr :: "bytes \<Rightarrow> nat \<Rightarrow> u8 \<Rightarrow> bytes res" where
  "wr a i x = (if length a \<le> i then Inl Abort else Inr (a[i := x]))"

text \<open>The four bytes before the end, checked last byte first.\<close>

definition wrapper_size :: "bytes \<Rightarrow> u32 res" where
  "wrapper_size a =
     (let n = word_of_nat (length a) :: u32 in
      rbind (rd a (unat (n - 1))) (\<lambda>buf_last_byte.
      rbind (rd a (unat (n - 2))) (\<lambda>buf_2ndLast_byte.
      rbind (rd a (unat (n - 3))) (\<lambda>buf_3rdLast_byte.
      rbind (rd a (unat (n - 4))) (\<lambda>b4.
      Inr ((ucast buf_last_byte + push_bit 8 (ucast buf_2ndLast_byte)) OR
           push_bit 16 (ucast buf_3rdLast_byte) OR push_bit 24 (ucast b4)))))))"

text \<open>
  The wrapper block is copied out and decrypted with a running key \<^verbatim>\<open>v29\<close>; its bytes are
  \<^verbatim>\<open>char\<close>, so they enter the key sign-extended; \<^verbatim>\<open>v193\<close> is unsigned.  The copy loop runs
  while \<^verbatim>\<open>v187 + v21 < max_length - 4\<close>, that is, for as many bytes as the wrapper has.
  Nothing reads the decrypted wrapper afterwards.
\<close>

fun wrapper_copy :: "bytes \<Rightarrow> nat \<Rightarrow> nat \<Rightarrow> bytes res" where
  "wrapper_copy a base 0 = Inr []"
| "wrapper_copy a base (Suc n) =
     rbind (rd a base) (\<lambda>v26. rbind (wrapper_copy a (Suc base) n) (\<lambda>r. Inr (v26 # r)))"

fun wrapper_dec :: "u32 \<Rightarrow> bytes \<Rightarrow> bytes" where
  "wrapper_dec v193 [] = []"
| "wrapper_dec v193 (c # cs) =
     (let gcbuf_i = scast c :: u32;
          dec_i = ucast (gcbuf_i XOR drop_bit 8 v193) :: u8;
          v38 = v193 + gcbuf_i;
          v41 = 205 * v38
      in dec_i # wrapper_dec (v41 + 207) cs)"

text \<open>
  One pass of the block loop: eight checked reads, the cipher, eight checked writes.
  The indices are built with \<^verbatim>\<open>v45 | 1\<close> to \<^verbatim>\<open>v45 | 7\<close>.
\<close>

definition load_block :: "bytes \<Rightarrow> nat \<Rightarrow> block res" where
  "load_block a v45 =
     rbind (rd a v45) (\<lambda>v199. rbind (rd a (v45 OR 1)) (\<lambda>v194.
     rbind (rd a (v45 OR 2)) (\<lambda>v51. rbind (rd a (v45 OR 3)) (\<lambda>v53.
     rbind (rd a (v45 OR 4)) (\<lambda>v200. rbind (rd a (v45 OR 5)) (\<lambda>v195.
     rbind (rd a (v45 OR 6)) (\<lambda>v59. rbind (rd a (v45 OR 7)) (\<lambda>v61.
     Inr (le32 v199 v194 v51 v53, le32 v200 v195 v59 v61)))))))))"

definition store_block :: "bytes \<Rightarrow> nat \<Rightarrow> block \<Rightarrow> bytes res" where
  "store_block d v45 b =
     rbind (wr d v45 (byte_n 0 (fst b))) (\<lambda>d. rbind (wr d (v45 OR 1) (byte_n 1 (fst b))) (\<lambda>d.
     rbind (wr d (v45 OR 2) (byte_n 2 (fst b))) (\<lambda>d. rbind (wr d (v45 OR 3) (byte_n 3 (fst b))) (\<lambda>d.
     rbind (wr d (v45 OR 4) (byte_n 0 (snd b))) (\<lambda>d. rbind (wr d (v45 OR 5) (byte_n 1 (snd b))) (\<lambda>d.
     rbind (wr d (v45 OR 6) (byte_n 2 (snd b))) (\<lambda>d. wr d (v45 OR 7) (byte_n 3 (snd b)))))))))"

lemma load_block_in: "load_block a i = Inr b \<Longrightarrow> i < length a"
  by (auto simp: load_block_def rd_def rbind_eq_Inr split: if_splits)

function block_loop :: "bytes \<Rightarrow> bytes \<Rightarrow> nat \<Rightarrow> nat \<Rightarrow> nat \<Rightarrow> (bytes \<times> nat) res" where
  "block_loop a d minus8 v47 v45 =
     rbind (load_block a v45) (\<lambda>b.
     rbind (store_block d v45 (dec_block dec_key v47 (word_of_nat v45) b)) (\<lambda>d.
     if v45 + 8 < minus8 then block_loop a d minus8 ((v47 + 1) mod 4) (v45 + 8)
     else Inr (d, v45 + 8)))"
  by pat_completeness auto
termination
  by (relation "measure (\<lambda>(a, d, minus8, v47, v45). length a - v45)") (auto dest: load_block_in)

declare block_loop.simps [simp del]

function tail_loop :: "bytes \<Rightarrow> bytes \<Rightarrow> nat \<Rightarrow> bytes res" where
  "tail_loop a d v45 =
     (if v45 < length d
      then rbind (rd a v45) (\<lambda>v164. rbind (wr d v45 v164) (\<lambda>d. tail_loop a d (Suc v45)))
      else Inr d)"
  by pat_completeness auto
termination
  by (relation "measure (\<lambda>(a, d, v45). length d - v45)") (auto simp: wr_def split: if_splits)

declare tail_loop.simps [simp del]

text \<open>
  The whole decoder.  \<^verbatim>\<open>dec_buf_size_minus8\<close> is unsigned: for a payload of fewer than
  eight bytes it wraps around, and the block loop runs until an assertion stops it.
\<close>

definition DigitalSea_Scipio :: "bytes \<Rightarrow> bytes res" where
  "DigitalSea_Scipio a =
     rbind (wrapper_size a) (\<lambda>ws.
     let dec_buf_size = word_of_nat (length a) - 4 - ws in
     rbind (NewSpecific 1 dec_buf_size) (\<lambda>dec_buf.
     rbind (if sint ws \<le> 0 then Inr []
            else rbind (NewSpecific 1 ws) (\<lambda>_.
                 rbind (wrapper_copy a (unat dec_buf_size) (unat ws)) (\<lambda>g. Inr (wrapper_dec 235 g))))
       (\<lambda>pGcBuffer.
     let minus8 = unat (word_of_nat (length dec_buf) - 8 :: u32) in
     rbind (if length dec_buf \<noteq> 8 then block_loop a dec_buf minus8 0 0 else Inr (dec_buf, 0))
       (\<lambda>(dec_buf, v45).
     tail_loop a dec_buf v45))))"


section \<open>What the decoder computes\<close>

text \<open>
  The specification works on lists of blocks: a payload of \<open>N\<close> bytes has
  \<open>(N - 1) div 8\<close> encrypted blocks, decrypted with the cipher modes 0, 1, 2, 3, 0, \<dots>
  and the offset of each block, and a plain tail of one to eight bytes.
\<close>

fun pair_up :: "u32 list \<Rightarrow> block list" where
  "pair_up (x # y # ws) = (x, y) # pair_up ws"
| "pair_up _ = []"

definition blocks_of :: "bytes \<Rightarrow> block list" where
  "blocks_of p = pair_up (words_of p)"

definition block_bytes :: "block \<Rightarrow> bytes" where
  "block_bytes b = bytes32 (fst b) @ bytes32 (snd b)"

fun chain :: "(nat \<Rightarrow> u32 \<Rightarrow> block \<Rightarrow> block) \<Rightarrow> nat \<Rightarrow> nat \<Rightarrow> block list \<Rightarrow> block list" where
  "chain f m off [] = []"
| "chain f m off (b # bs) = f m (word_of_nat off) b # chain f ((m + 1) mod 4) (off + 8) bs"

definition payload_map :: "(nat \<Rightarrow> u32 \<Rightarrow> block \<Rightarrow> block) \<Rightarrow> bytes \<Rightarrow> bytes" where
  "payload_map f p =
     (let n = 8 * ((length p - 1) div 8)
      in concat (map block_bytes (chain f 0 0 (blocks_of (take n p)))) @ drop n p)"

lemma length_block_bytes [simp]: "length (block_bytes b) = 8"
  by (simp add: block_bytes_def)

lemma blocks_of_Nil [simp]: "blocks_of [] = []"
  by (simp add: blocks_of_def)

lemma blocks_of_block_bytes [simp]: "blocks_of (block_bytes b @ bs) = b # blocks_of bs"
  by (cases b) (simp add: block_bytes_def bytes32_def blocks_of_def)

lemma blocks_of_concat [simp]: "blocks_of (concat (map block_bytes bs)) = bs"
  by (induction bs) simp_all

lemma length_concat_blocks [simp]: "length (concat (map block_bytes bs)) = 8 * length bs"
  by (induction bs) simp_all

lemma length_chain [simp]: "length (chain f m off bs) = length bs"
  by (induction bs arbitrary: m off) simp_all

lemma concat_words_of: "4 dvd length p \<Longrightarrow> concat (map bytes32 (words_of p)) = p"
proof (induction p rule: words_of.induct)
  case (1 a b c d bs)
  have "4 dvd length bs" using "1.prems" by simp presburger
  then show ?case using "1.IH" by (simp add: bytes32_def)
qed (simp_all, presburger+)

lemma length_words_of: "length (words_of p) = length p div 4"
  by (induction p rule: words_of.induct) simp_all

lemma concat_pair_up:
  "even (length ws) \<Longrightarrow> concat (map block_bytes (pair_up ws)) = concat (map bytes32 ws)"
  by (induction ws rule: pair_up.induct) (simp_all add: block_bytes_def)

lemma concat_blocks_of: "8 dvd length p \<Longrightarrow> concat (map block_bytes (blocks_of p)) = p"
  by (auto simp: blocks_of_def concat_pair_up concat_words_of length_words_of dvd_def)

lemma length_blocks_of: "8 dvd length p \<Longrightarrow> length (blocks_of p) = length p div 8"
  using length_concat_blocks [of "blocks_of p"] by (simp add: concat_blocks_of)

lemma length_payload_map [simp]: "length (payload_map f p) = length p"
  by (simp add: payload_map_def Let_def length_blocks_of)

lemma payload_map_append:
  assumes "length bs = (8 * length bs + length t - 1) div 8"
  shows "payload_map f (concat (map block_bytes bs) @ t) =
           concat (map block_bytes (chain f 0 0 bs)) @ t"
  using assms by (simp add: payload_map_def flip: assms)

lemma payload_decompose:
  obtains bs t where "p = concat (map block_bytes bs) @ t"
    and "length bs = (8 * length bs + length t - 1) div 8"
proof
  define n where "n = 8 * ((length p - 1) div 8)"
  have n: "n \<le> length p" "8 dvd n" unfolding n_def by simp_all
  show "p = concat (map block_bytes (blocks_of (take n p))) @ drop n p"
    using n by (simp add: concat_blocks_of)
  have "length (blocks_of (take n p)) = (length p - 1) div 8"
    using n by (simp add: length_blocks_of n_def)
  moreover have "8 * length (blocks_of (take n p)) + length (drop n p) = length p"
    using n by (simp add: length_blocks_of)
  ultimately show "length (blocks_of (take n p)) =
      (8 * length (blocks_of (take n p)) + length (drop n p) - 1) div 8"
    by simp
qed

lemma payload_map_inverse:
  assumes "\<And>bs. chain f 0 0 (chain g 0 0 bs) = bs"
  shows "payload_map f (payload_map g p) = p"
proof (rule payload_decompose [of p])
  fix bs t
  assume p: "p = concat (map block_bytes bs) @ t"
    and len: "length bs = (8 * length bs + length t - 1) div 8"
  then show ?thesis
    by (simp add: payload_map_append payload_map_append [of "chain g 0 0 bs"] assms)
qed

section \<open>Ciphers that undo one another\<close>

text \<open>
  The contract the block loop needs from a cipher family: for every mode and offset, \<open>enc\<close>
  and \<open>dec\<close> are inverse to each other.  Everything about whole payloads is proved from it.
\<close>

locale block_cipher =
  fixes dec enc :: "nat \<Rightarrow> u32 \<Rightarrow> block \<Rightarrow> block"
  assumes dec_enc: "dec m off (enc m off b) = b"
    and enc_dec: "enc m off (dec m off b) = b"
begin

lemma chain_dec_enc: "chain dec m off (chain enc m off bs) = bs"
  by (induction bs arbitrary: m off) (simp_all add: dec_enc)

lemma chain_enc_dec: "chain enc m off (chain dec m off bs) = bs"
  by (induction bs arbitrary: m off) (simp_all add: enc_dec)

lemma payload_dec_enc: "payload_map dec (payload_map enc p) = p"
  by (rule payload_map_inverse) (rule chain_dec_enc)

lemma payload_enc_dec: "payload_map enc (payload_map dec p) = p"
  by (rule payload_map_inverse) (rule chain_enc_dec)

lemma payload_dec_inj: "payload_map dec p = payload_map dec q \<Longrightarrow> p = q"
  using payload_enc_dec by metis

end

text \<open>The encryption that the decoder's four modes undo: the same rounds backwards.\<close>

definition xxtea_unround :: "u32 list \<Rightarrow> u32 \<Rightarrow> block \<Rightarrow> block" where
  "xxtea_unround k s b =
     (let w1 = snd b;
          w0 = fst b + mx k s (unat (drop_bit 2 s AND 3)) w1 w1;
          w1 = w1 + mx k s (unat ((drop_bit 2 s AND 3) XOR 1)) w0 w0
      in (w0, w1))"

definition xxtea_enc :: "u32 list \<Rightarrow> block \<Rightarrow> block" where
  "xxtea_enc k b = xxtea_unround k sum0 (xxtea_unround k (sum0 - delta) b)"

definition tea_unround :: "u32 list \<Rightarrow> u32 \<Rightarrow> block \<Rightarrow> block" where
  "tea_unround k s b =
     (let w1 = snd b;
          w0 = fst b + ((k ! 0 + 16 * w1) XOR (s + w1) XOR (k ! 1 + drop_bit 5 w1));
          w1 = w1 + ((k ! 2 + 16 * w0) XOR (s + w0) XOR (k ! 3 + drop_bit 5 w0))
      in (w0, w1))"

definition tea_enc :: "u32 list \<Rightarrow> block \<Rightarrow> block" where
  "tea_enc k b = tea_unround k sum0 (tea_unround k (sum0 - delta) b)"

definition xtea_unround :: "u32 list \<Rightarrow> u32 \<Rightarrow> nat \<Rightarrow> block \<Rightarrow> block" where
  "xtea_unround k s j b =
     (let w1 = snd b;
          w0 = fst b + ((w1 + (16 * w1 XOR drop_bit 5 w1)) XOR (s + k ! (j - 4) - delta));
          w1 = w1 + ((w0 + (16 * w0 XOR drop_bit 5 w0)) XOR (s + k ! unat (drop_bit 11 s AND 3)))
      in (w0, w1))"

definition xtea_enc :: "u32 list \<Rightarrow> block \<Rightarrow> block" where
  "xtea_enc k b = xtea_unround k sum0 5 (xtea_unround k (sum0 - delta) 4 b)"

definition enc_block :: "u32 list \<Rightarrow> nat \<Rightarrow> u32 \<Rightarrow> block \<Rightarrow> block" where
  "enc_block k m off b =
     (if m = 0 then xxtea_enc k b else if m = 1 then tea_enc k b
      else if m = 3 then xtea_enc k b else xor_dec k off b)"

definition xxtea_round :: "u32 list \<Rightarrow> u32 \<Rightarrow> block \<Rightarrow> block" where
  "xxtea_round k s b =
     (let w1 = snd b - mx k s (unat ((drop_bit 2 s AND 3) XOR 1)) (fst b) (fst b);
          w0 = fst b - mx k s (unat (drop_bit 2 s AND 3)) w1 w1
      in (w0, w1))"

lemma xxtea_rounds_Suc:
  "xxtea_rounds k (Suc n) s (fst b) b =
     xxtea_rounds k n (s - delta) (fst (xxtea_round k s b)) (xxtea_round k s b)"
  by (cases b) (simp add: xxtea_round_def Let_def)

lemma xxtea_rounds_0: "xxtea_rounds k 0 s y b = b"
  by (cases b) simp

lemma xxtea_round_inverse [simp]:
  "xxtea_round k s (xxtea_unround k s b) = b" "xxtea_unround k s (xxtea_round k s b) = b"
  by (cases b; simp add: xxtea_round_def xxtea_unround_def Let_def)+

lemma xxtea_dec_rounds: "xxtea_dec k b = xxtea_round k (sum0 - delta) (xxtea_round k sum0 b)"
  by (simp add: xxtea_dec_def numeral_2_eq_2 xxtea_rounds_Suc xxtea_rounds_0
      del: xxtea_rounds.simps)

lemma tea_round_inverse [simp]:
  "tea_round k s (tea_unround k s b) = b" "tea_unround k s (tea_round k s b) = b"
  by (cases b; simp add: tea_round_def tea_unround_def Let_def)+

lemma xtea_round_inverse [simp]:
  "xtea_round k s j (xtea_unround k s j b) = b" "xtea_unround k s j (xtea_round k s j b) = b"
  by (cases b; simp add: xtea_round_def xtea_unround_def Let_def)+

lemma xor_dec_involution [simp]: "xor_dec k off (xor_dec k off b) = b"
  by (cases b) (simp add: xor_dec_def flip: xor.assoc)

interpretation scipio: block_cipher "dec_block k" "enc_block k" for k
  by unfold_locales
     (auto simp: dec_block_def enc_block_def xxtea_dec_rounds xxtea_enc_def
        tea_dec_def tea_enc_def xtea_dec_def xtea_enc_def)

end
