(* ===== verification/ScipioCorrect.thy ===== *)
theory ScipioCorrect
  imports Scipio
begin

text \<open>
  Correctness of the asset decoder: the loops compute the block specification, every
  payload of eight bytes or more can be encoded so that it decodes to itself, shorter
  payloads and files without a size field fail an assertion, and the wrapper cipher is
  the inverse of its encryption.
\<close>

section \<open>One pass of the block loop\<close>

lemma or_offset: "8 dvd (off::nat) \<Longrightarrow> k < 8 \<Longrightarrow> off OR k = off + k"
proof (rule disjunctive_add_eq_or [symmetric], rule bit_eqI)
  fix i assume off: "8 dvd off" and k: "k < 8"
  have "\<not> (bit off i \<and> bit k i)"
  proof (cases "i < 3")
    case True
    have "take_bit 3 off = 0" using off by (simp add: take_bit_eq_mod mod_eq_0_iff_dvd)
    then show ?thesis using True by (metis bit_take_bit_iff bit_0_eq bot_apply bot_bool_def)
  next
    case False
    have "take_bit 3 k = k" using k by (simp add: take_bit_nat_eq_self)
    then show ?thesis using False by (metis bit_take_bit_iff)
  qed
  then show "bit (off AND k) i = bit 0 i" by (simp add: bit_and_iff)
qed

lemmas or_offsets = or_offset [where k = 1, simplified] or_offset [where k = 2, simplified]
  or_offset [where k = 3, simplified] or_offset [where k = 4, simplified]
  or_offset [where k = 5, simplified] or_offset [where k = 6, simplified]
  or_offset [where k = 7, simplified]

lemma block_bytes_Cons:
  "block_bytes b @ r =
     byte_n 0 (fst b) # byte_n 1 (fst b) # byte_n 2 (fst b) # byte_n 3 (fst b) #
     byte_n 0 (snd b) # byte_n 1 (snd b) # byte_n 2 (snd b) # byte_n 3 (snd b) # r"
  by (simp add: block_bytes_def bytes32_def)

lemma load_block_eq:
  assumes "8 dvd off" and "drop off a = block_bytes b @ r"
  shows "load_block a off = Inr b"
proof -
  have len: "off + 8 \<le> length a"
    using arg_cong [OF assms(2), of length] by simp
  then have nth: "a ! (off + i) = (block_bytes b @ r) ! i" for i
    using assms(2) by (metis add_leD1 nth_drop)
  have rd: "rd a (off + i) = Inr ((block_bytes b @ r) ! i)" if "i < 8" for i
    using len nth [of i] that by (simp add: rd_def)
  show ?thesis
    using rd [of 0] rd [of 1] rd [of 2] rd [of 3] rd [of 4] rd [of 5] rd [of 6] rd [of 7] assms(1)
    by (simp add: load_block_def or_offsets block_bytes_Cons)
qed

lemma wr_eq: "length pre = i \<Longrightarrow> wr (pre @ x # post) i y = Inr (pre @ y # post)"
  by (simp add: wr_def list_update_append)

lemma wr_ofs: "wr (pre @ xs) (length pre + i) y = map_sum id (\<lambda>ys. pre @ ys) (wr xs i y)"
  by (simp add: wr_def list_update_append)

lemma store_block_eq:
  assumes "8 dvd off" and "d = pre @ old @ post" and "length pre = off" and "length old = 8"
  shows "store_block d off b = Inr (pre @ block_bytes b @ post)"
proof -
  obtain x0 x1 x2 x3 x4 x5 x6 x7 where old: "old = [x0, x1, x2, x3, x4, x5, x6, x7]"
    using assms(4) by (auto simp: length_Suc_conv numeral_eq_Suc)
  show ?thesis
    using assms(1) wr_ofs [of pre _ 0] wr_ofs [of pre _ 1] wr_ofs [of pre _ 2]
    unfolding old assms(2) assms(3) [symmetric]
    by (simp add: store_block_def or_offsets wr_ofs block_bytes_Cons wr_def [of "_ # _"])
qed

section \<open>The block loop and the tail\<close>

lemma block_loop_eq:
  assumes "8 dvd off" and "drop off a = concat (map block_bytes (b # bs)) @ r"
    and "d = pre @ old @ post" and "length pre = off" and "length old = 8 * Suc (length bs)"
    and "off + 8 * length bs < m8 \<or> bs = []" and "m8 \<le> off + 8 * Suc (length bs)"
  shows "block_loop a d m8 m off =
     Inr (pre @ concat (map block_bytes (chain (dec_block dec_key) m off (b # bs))) @ post,
          off + 8 * Suc (length bs))"
  using assms
proof (induction bs arbitrary: b off d pre old m)
  case Nil
  let ?b = "dec_block dec_key m (word_of_nat off) b"
  have "load_block a off = Inr b"
    using Nil.prems(1,2) by (intro load_block_eq) simp_all
  moreover have "store_block d off ?b = Inr (pre @ block_bytes ?b @ post)"
    using Nil.prems by (intro store_block_eq) simp_all
  ultimately show ?case
    using Nil.prems(7) by (subst block_loop.simps) simp
next
  case (Cons c bs)
  let ?b = "dec_block dec_key m (word_of_nat off) b"
  obtain old1 old2 where old: "old = old1 @ old2" "length old1 = 8" "length old2 = 8 * Suc (length bs)"
    using Cons.prems(5) that [of "take 8 old" "drop 8 old"] by simp
  have load: "load_block a off = Inr b"
    using Cons.prems(1,2) by (intro load_block_eq) simp_all
  have store: "store_block d off ?b = Inr (pre @ block_bytes ?b @ old2 @ post)"
    using Cons.prems(1,3,4) old by (intro store_block_eq) simp_all
  have "drop (off + 8) a = drop 8 (drop off a)"
    by (simp add: add.commute)
  also have "\<dots> = concat (map block_bytes (c # bs)) @ r"
    unfolding Cons.prems(2) by simp
  finally have next_drop: "drop (off + 8) a = concat (map block_bytes (c # bs)) @ r" .
  have "block_loop a (pre @ block_bytes ?b @ old2 @ post) m8 ((m + 1) mod 4) (off + 8) =
      Inr ((pre @ block_bytes ?b) @ concat (map block_bytes
             (chain (dec_block dec_key) ((m + 1) mod 4) (off + 8) (c # bs))) @ post,
           (off + 8) + 8 * Suc (length bs))"
    using Cons.prems(1,4,6,7) old next_drop by (intro Cons.IH) auto
  moreover have "off + 8 < m8"
    using Cons.prems(6) by auto
  ultimately show ?case
    by (subst block_loop.simps) (simp add: load store)
qed

lemma tail_loop_eq:
  assumes "i \<le> length d" and "length d \<le> length a"
  shows "tail_loop a d i = Inr (take i d @ take (length d - i) (drop i a))"
  using assms
proof (induction a d i rule: tail_loop.induct)
  case (1 a d i)
  show ?case
  proof (cases "i < length d")
    case True
    have "tail_loop a (d[i := a ! i]) (Suc i) =
        Inr (take (Suc i) (d[i := a ! i]) @ take (length d - Suc i) (drop (Suc i) a))"
      using "1.IH" [OF True, of "a ! i" "d[i := a ! i]"] True "1.prems"
      by (simp add: rd_def wr_def)
    moreover have "take (Suc i) (d[i := a ! i]) = take i d @ [a ! i]"
      using True by (simp add: take_Suc_conv_app_nth)
    moreover have "take (length d - i) (drop i a) = a ! i # take (length d - Suc i) (drop (Suc i) a)"
      using True "1.prems" by (simp add: Cons_nth_drop_Suc [symmetric] take_Cons')
    ultimately show ?thesis
      using True "1.prems" by (subst tail_loop.simps) (simp add: rd_def wr_def)
  next
    case False
    then show ?thesis using "1.prems" by (subst tail_loop.simps) simp
  qed
qed


section \<open>The size field and the wrapper\<close>

lemma add_disjoint_bytes: "ucast (a::u8) + push_bit 8 (ucast (b::u8)) =
    (ucast a OR push_bit 8 (ucast b) :: u32)"
  by (rule disjunctive_add_eq_or, rule bit_word_eqI)
     (auto simp: bit_simps dest: bit_imp_le_length)

lemma wrapper_size_eq:
  assumes "length xs + 4 < 2 ^ 32"
  shows "wrapper_size (xs @ rev (bytes32 n)) = Inr n"
proof -
  let ?a = "xs @ rev (bytes32 n)"
  have len: "length ?a = length xs + 4" by simp
  have idx: "unat (word_of_nat (length ?a) - k :: u32) = length ?a - unat k"
    if "k \<le> 4" for k :: u32
  proof -
    have "unat k \<le> 4" using that by (simp add: word_le_nat_alt)
    moreover have "unat (word_of_nat (length ?a) :: u32) = length ?a"
      by (rule unat_of_nat_eq) (use assms len in simp)
    ultimately show ?thesis using len by (subst unat_sub) (simp_all add: word_le_nat_alt)
  qed
  show ?thesis
    using idx [of 1] idx [of 2] idx [of 3] idx [of 4]
    by (simp add: wrapper_size_def Let_def rd_def bytes32_def nth_append add_disjoint_bytes
        le32_def [symmetric])
qed

fun wrapper_enc :: "u32 \<Rightarrow> bytes \<Rightarrow> bytes" where
  "wrapper_enc r [] = []"
| "wrapper_enc r (p # ps) =
     (let c = p XOR ucast (drop_bit 8 r)
      in c # wrapper_enc (205 * (r + scast c) + 207) ps)"

lemma ucast_xor: "ucast (a XOR b :: u32) = (ucast a XOR ucast b :: u8)"
  by (rule bit_word_eqI) (simp add: bit_simps)

lemma ucast_scast_u8: "ucast (scast (c::u8) :: u32) = c"
  by (rule bit_word_eqI) (simp add: bit_simps)

lemma wrapper_dec_enc: "wrapper_dec r (wrapper_enc r p) = p"
  by (induction p arbitrary: r) (simp_all add: Let_def ucast_xor ucast_scast_u8 xor.assoc)

lemma wrapper_enc_dec: "wrapper_enc r (wrapper_dec r c) = c"
  by (induction c arbitrary: r) (simp_all add: Let_def ucast_xor ucast_scast_u8 xor.assoc)

lemma wrapper_copy_eq:
  "i + n \<le> length a \<Longrightarrow> wrapper_copy a i n = Inr (take n (drop i a))"
  by (induction n arbitrary: i) (simp_all add: rd_def take_Suc hd_drop_conv_nth drop_Suc tl_drop
      flip: Cons_nth_drop_Suc)

section \<open>The decoder on a well-formed file\<close>

definition scipio_file :: "bytes \<Rightarrow> bytes \<Rightarrow> bytes" where
  "scipio_file p w = p @ w @ rev (bytes32 (word_of_nat (length w)))"

lemma NewSpecific_eq: "unat n + 16 < 2 ^ 31 \<Longrightarrow> NewSpecific 1 n = Inr (replicate (unat n) 0)"
proof -
  assume n: "unat n + 16 < 2 ^ 31"
  have "unat (n + 16) = unat n + 16"
    using n by (subst unat_add_lem [THEN iffD1]) simp_all
  then show ?thesis using n by (simp add: NewSpecific_def)
qed

lemma payload_size:
  assumes "length p + length w + 20 < 2 ^ 31"
  shows "unat (word_of_nat (length (scipio_file p w)) - 4 - word_of_nat (length w) :: u32) = length p"
proof -
  have "word_of_nat (length (scipio_file p w)) - 4 - word_of_nat (length w) = (word_of_nat (length p) :: u32)"
    by (simp add: scipio_file_def)
  then show ?thesis using assms by (simp add: unat_of_nat_eq)
qed

lemma wrapper_size_file:
  assumes "length p + length w + 20 < 2 ^ 31"
  shows "wrapper_size (scipio_file p w) = Inr (word_of_nat (length w))"
  using wrapper_size_eq [of "p @ w"] assms by (simp add: scipio_file_def)

lemma wrapper_part:
  assumes "length p + length w + 20 < 2 ^ 31"
  shows "\<exists>g. (if sint (word_of_nat (length w) :: u32) \<le> 0 then Inr []
         else rbind (NewSpecific 1 (word_of_nat (length w))) (\<lambda>_.
              rbind (wrapper_copy (scipio_file p w) (length p) (unat (word_of_nat (length w) :: u32)))
                (\<lambda>g. Inr (wrapper_dec 235 g)))) = Inr g"
proof -
  have w: "unat (word_of_nat (length w) :: u32) = length w"
    by (rule unat_of_nat_eq) (use assms in simp)
  then have "NewSpecific 1 (word_of_nat (length w)) = Inr (replicate (length w) 0)"
    using assms by (subst NewSpecific_eq) simp_all
  then show ?thesis
    by (simp only: w rbind_simps) (simp add: wrapper_copy_eq scipio_file_def)
qed

lemma load_block_faults: "load_block a i = Inl e \<Longrightarrow> e = Abort"
  by (auto simp: load_block_def rd_def rbind_eq_Inl split: if_splits)

lemma store_block_short: "length d < 8 \<Longrightarrow> store_block d 0 b = Inl Abort"
  by (simp add: store_block_def wr_def rbind_def)

lemma block_loop_short: "length d < 8 \<Longrightarrow> block_loop a d m8 m 0 = Inl Abort"
  by (subst block_loop.simps)
     (cases "load_block a 0"; simp add: store_block_short load_block_faults)

lemma block_loop_payload:
  assumes "8 < length p" and "length p < 2 ^ 31"
  shows "block_loop (p @ r) (replicate (length p) 0) (length p - 8) 0 0 =
     Inr (take (8 * ((length p - 1) div 8)) (payload_map (dec_block dec_key) p) @
            replicate (length p - 8 * ((length p - 1) div 8)) 0,
          8 * ((length p - 1) div 8))"
proof (rule payload_decompose [of p])
  fix bs t
  assume p: "p = concat (map block_bytes bs) @ t"
    and len: "length bs = (8 * length bs + length t - 1) div 8"
  have lp: "length p = 8 * length bs + length t" using p by simp
  have n: "(length p - 1) div 8 = length bs" using len lp by simp
  with assms(1) obtain b bs' where bs: "bs = b # bs'" by (cases bs) auto
  have t: "0 < length t" "length t \<le> 8" using len lp assms(1) by linarith+
  have "block_loop (p @ r) (replicate (length p) 0) (length p - 8) 0 0 =
      Inr ([] @ concat (map block_bytes (chain (dec_block dec_key) 0 0 (b # bs'))) @
             replicate (length t) 0, 0 + 8 * Suc (length bs'))"
    using lp t bs p
    by (intro block_loop_eq [where r = "t @ r" and pre = "[]" and old = "replicate (8 * length bs) 0"])
       (auto simp flip: replicate_add)
  moreover have "payload_map (dec_block dec_key) p =
      concat (map block_bytes (chain (dec_block dec_key) 0 0 bs)) @ t"
    unfolding p by (rule payload_map_append) (rule len)
  ultimately show ?thesis
    using n lp bs by simp
qed

lemma scipio_decodes:
  assumes "8 \<le> length p" and small: "length p + length w + 20 < 2 ^ 31"
  shows "DigitalSea_Scipio (scipio_file p w) = Inr (payload_map (dec_block dec_key) p)"
proof -
  let ?a = "scipio_file p w" and ?n = "8 * ((length p - 1) div 8)"
  let ?q = "payload_map (dec_block dec_key) p"
  obtain g where g: "(if sint (word_of_nat (length w) :: u32) \<le> 0 then Inr []
         else rbind (NewSpecific 1 (word_of_nat (length w))) (\<lambda>_.
              rbind (wrapper_copy ?a (length p) (unat (word_of_nat (length w) :: u32)))
                (\<lambda>g. Inr (wrapper_dec 235 g)))) = Inr g"
    using wrapper_part [OF small] by blast
  have m8: "unat (word_of_nat (length p) - 8 :: u32) = length p - 8"
    using assms by (simp add: unat_sub word_le_nat_alt unat_of_nat_eq)
  have new: "NewSpecific 1 (word_of_nat (length ?a) - 4 - word_of_nat (length w)) =
      Inr (replicate (length p) 0)"
    using small payload_size [OF small] by (subst NewSpecific_eq) simp_all
  have n: "?n \<le> length p" by linarith
  have q: "drop ?n ?q = drop ?n p"
    by (rule payload_decompose [of p]) (simp add: payload_map_append)
  have loop: "(if length p \<noteq> 8 then block_loop ?a (replicate (length p) 0) (length p - 8) 0 0
       else Inr (replicate (length p) 0, 0)) =
     Inr (take ?n ?q @ replicate (length p - ?n) 0, ?n)"
    using block_loop_payload [of p "w @ rev (bytes32 (word_of_nat (length w)))"] assms
    by (simp add: scipio_file_def)
  have "tail_loop ?a (take ?n ?q @ replicate (length p - ?n) 0) ?n =
      Inr (take ?n ?q @ take (length p - ?n) (drop ?n ?a))"
    using n by (subst tail_loop_eq) (simp_all add: scipio_file_def)
  also have "take (length p - ?n) (drop ?n ?a) = drop ?n p"
    using n by (simp add: scipio_file_def)
  finally have tail: "tail_loop ?a (take ?n ?q @ replicate (length p - ?n) 0) ?n = Inr ?q"
    unfolding q [symmetric] by simp
  show ?thesis
    by (simp only: DigitalSea_Scipio_def wrapper_size_file [OF small] rbind_simps Let_def new
        payload_size [OF small] g length_replicate m8 loop prod.case tail)
qed


section \<open>Properties\<close>

text \<open>
  C3: any payload of at least eight bytes, encrypted block by block with the inverse
  ciphers and followed by a wrapper and its size field, is decoded to exactly itself,
  whatever the wrapper; no assertion fails and no access is out of range.
\<close>

theorem scipio_roundtrip:
  assumes "8 \<le> length p" and "length p + length w + 20 < 2 ^ 31"
  shows "DigitalSea_Scipio (scipio_file (payload_map (enc_block dec_key) p) w) = Inr p"
  using scipio_decodes [of "payload_map (enc_block dec_key) p" w] assms
  by (simp add: scipio.payload_dec_enc)

theorem scipio_roundtrip_witness:
  "DigitalSea_Scipio (scipio_file (payload_map (enc_block dec_key) (replicate 40 7)) [1, 2, 3]) =
     Inr (replicate 40 7)"
  by (rule scipio_roundtrip) simp_all

text \<open>
  C8: a file that is shorter than its size field, or whose payload has fewer than eight
  bytes, fails an assertion: the unsigned \<^verbatim>\<open>dec_buf_size - 8\<close> wraps around and the block
  loop, entered all the same, is stopped by the bounds check of its first block.
\<close>

theorem scipio_short_aborts:
  assumes "length a < 4 \<or>
    (\<exists>p w. a = scipio_file p w \<and> length p < 8 \<and> length p + length w + 20 < 2 ^ 31)"
  shows "DigitalSea_Scipio a = Inl Abort"
  using assms
proof (elim disjE exE conjE)
  assume a: "length a < 4"
  then consider "length a = 0" | "length a = 1" | "length a = 2" | "length a = 3" by linarith
  then have "wrapper_size a = Inl Abort"
    by cases (simp_all add: wrapper_size_def Let_def rd_def unsigned_minus_1_eq_mask mask_eq_exp_minus_1)
  then show ?thesis by (simp add: DigitalSea_Scipio_def)
next
  fix p w
  assume a: "a = scipio_file p w" and p: "length p < 8"
    and small: "length p + length w + 20 < 2 ^ 31"
  obtain g where g: "(if sint (word_of_nat (length w) :: u32) \<le> 0 then Inr []
         else rbind (NewSpecific 1 (word_of_nat (length w))) (\<lambda>_.
              rbind (wrapper_copy a (length p) (unat (word_of_nat (length w) :: u32)))
                (\<lambda>g. Inr (wrapper_dec 235 g)))) = Inr g"
    using wrapper_part [OF small] a by blast
  have new: "NewSpecific 1 (word_of_nat (length a) - 4 - word_of_nat (length w)) =
      Inr (replicate (length p) 0)"
    using small payload_size [OF small] a by (subst NewSpecific_eq) simp_all
  have loop: "(if length p \<noteq> 8 then block_loop a (replicate (length p) 0) m 0 0
      else Inr (replicate (length p) 0, 0)) = Inl Abort" for m
    using p by (simp add: block_loop_short)
  show ?thesis
    by (simp only: DigitalSea_Scipio_def wrapper_size_file [OF small, folded a] rbind_simps Let_def
        new payload_size [OF small, folded a] g length_replicate loop)
qed

theorem scipio_short_aborts_witness:
  "DigitalSea_Scipio [1, 2, 3] = Inl Abort"
  by (rule scipio_short_aborts) simp

text \<open>
  On files with the same wrapper the decoder is injective and keeps the payload's
  length, so no two payloads are confused and nothing is lost.
\<close>

theorem scipio_injective:
  assumes "8 \<le> length p" and "8 \<le> length q"
    and "length p + length w + 20 < 2 ^ 31" and "length q + length w + 20 < 2 ^ 31"
    and "DigitalSea_Scipio (scipio_file p w) = DigitalSea_Scipio (scipio_file q w)"
  shows "p = q"
proof -
  have "payload_map (dec_block dec_key) p = payload_map (dec_block dec_key) q"
    using assms by (simp add: scipio_decodes)
  then show ?thesis by (rule scipio.payload_dec_inj)
qed

theorem scipio_injective_witness:
  "DigitalSea_Scipio (scipio_file (replicate 9 1) [5]) \<noteq>
   DigitalSea_Scipio (scipio_file (replicate 9 2) [5])"
proof
  assume "DigitalSea_Scipio (scipio_file (replicate 9 1) [5]) =
    DigitalSea_Scipio (scipio_file (replicate 9 2) [5])"
  then have "(replicate 9 1 :: bytes) = replicate 9 2"
    by (intro scipio_injective [of _ _ "[5]"]) simp_all
  then show False by (simp add: numeral_eq_Suc)
qed

end
