(* ===== verification/Codec.thy ===== *)
theory Codec
  imports Prelude
begin

text \<open>
  The interface between writers and readers of the dump format.  A codec is a pair of
  an encoder, giving bytes, and a decoder, consuming a prefix of its input.  The single
  law is that decoding after encoding gives the value back and stops where the encoding
  stops; what follows from it for sequences and for prefixes is proved here once.
\<close>

type_synonym 'a reader = "bytes \<Rightarrow> ('a \<times> bytes) res"

text \<open>Read \<open>n\<close> items in a row, as the reader's \<^verbatim>\<open>for\<close> loops do.\<close>

fun read_n :: "'a reader \<Rightarrow> nat \<Rightarrow> 'a list reader" where
  "read_n r 0 bs = Inr ([], bs)"
| "read_n r (Suc n) bs =
     rbind (r bs) (\<lambda>(x, bs). rbind (read_n r n bs) (\<lambda>(xs, bs). Inr (x # xs, bs)))"

locale byte_codec =
  fixes valid :: "'a \<Rightarrow> bool" and enc :: "'a \<Rightarrow> bytes" and dec :: "'a reader"
  assumes dec_enc: "valid x \<Longrightarrow> dec (enc x @ rest) = Inr (x, rest)"
begin

lemma dec_enc_end: "valid x \<Longrightarrow> dec (enc x) = Inr (x, [])"
  using dec_enc [of x "[]"] by simp

lemma dec_list: "list_all valid xs \<Longrightarrow>
    read_n dec (length xs) (concat (map enc xs) @ rest) = Inr (xs, rest)"
  by (induction xs) (simp_all add: dec_enc)

lemma prefix_free:
  assumes "valid x" "valid y" "enc x @ r = enc y @ s"
  shows "x = y \<and> r = s"
proof -
  have "Inr (x, r) = dec (enc x @ r)" using assms(1) by (simp add: dec_enc)
  also have "\<dots> = Inr (y, s)" using assms(2,3) by (simp add: dec_enc)
  finally show ?thesis by simp
qed

lemma enc_list_inj:
  assumes "list_all valid xs" "list_all valid ys" "length xs = length ys"
    and "concat (map enc xs) @ r = concat (map enc ys) @ s"
  shows "xs = ys \<and> r = s"
proof -
  have "Inr (xs, r) = read_n dec (length xs) (concat (map enc xs) @ r)"
    using assms(1) by (simp add: dec_list)
  also have "\<dots> = Inr (ys, s)" using assms(2-4) by (simp add: dec_list)
  finally show ?thesis by simp
qed

end

text \<open>Single bytes, the simplest codec: reading past the end of the window is \<open>Undef\<close>.\<close>

fun get1 :: "u8 reader" where
  "get1 [] = Inl Undef"
| "get1 (b # bs) = Inr (b, bs)"

interpretation one_byte: byte_codec "\<lambda>_. True" "\<lambda>b. [b]" get1
  by unfold_locales simp

definition getn :: "nat \<Rightarrow> bytes reader" where
  "getn n bs = (if n \<le> length bs then Inr (take n bs, drop n bs) else Inl Undef)"

lemma getn_append [simp]: "n = length xs \<Longrightarrow> getn n (xs @ rest) = Inr (xs, rest)"
  by (simp add: getn_def)

end
