(* ===== verification/Buf.thy ===== *)
theory Buf
  imports Codec
begin

text \<open>
  String buffers: \<^verbatim>\<open>SBuf\<close> and the operations of \<^verbatim>\<open>src/src/lj_buf.c\<close> and
  \<^verbatim>\<open>src/src/lj_buf.h\<close>, with the ULEB128 numbers of \<^verbatim>\<open>lj_buf_ruleb128\<close> and
  \<^verbatim>\<open>lj_strfmt_wuleb128\<close>.  A buffer is the content between \<^verbatim>\<open>b\<close> and \<^verbatim>\<open>p\<close> and the
  size \<^verbatim>\<open>e - b\<close> of the block.  Writing past \<^verbatim>\<open>e\<close> is \<open>Undef\<close>; a request above
  \<^verbatim>\<open>LJ_MAX_BUF\<close> throws.  The allocator is taken to succeed.
\<close>

definition LJ_MAX_BUF :: nat where "LJ_MAX_BUF = 0x7fffff00"
definition LJ_MAX_STR :: nat where "LJ_MAX_STR = 0x7fffff00"
definition LJ_MIN_SBUF :: nat where "LJ_MIN_SBUF = 32"

record SBuf =
  sb_data :: bytes
  sb_size :: nat

abbreviation sbufsz :: "SBuf \<Rightarrow> nat" where "sbufsz sb \<equiv> sb_size sb"
abbreviation sbuflen :: "SBuf \<Rightarrow> nat" where "sbuflen sb \<equiv> length (sb_data sb)"

text \<open>\<^verbatim>\<open>sbufleft\<close> is a difference of pointers cast to an unsigned 32-bit number.\<close>

definition sbufleft :: "SBuf \<Rightarrow> nat" where
  "sbufleft sb = (sbufsz sb + (2 ^ 32 - sbuflen sb)) mod 2 ^ 32"

section \<open>Buffer management\<close>

definition lj_buf_init :: SBuf where
  "lj_buf_init = \<lparr>sb_data = [], sb_size = 0\<rparr>"

definition lj_buf_reset :: "SBuf \<Rightarrow> SBuf" where
  "lj_buf_reset sb = sb\<lparr>sb_data := []\<rparr>"

text \<open>The doubling loop of \<^verbatim>\<open>buf_grow\<close>; its start is at least 32.\<close>

function grow_size :: "nat \<Rightarrow> nat \<Rightarrow> nat" where
  "grow_size nsz sz = (if 0 < nsz \<and> nsz < sz then grow_size (nsz + nsz) sz else nsz)"
  by pat_completeness auto
termination by (relation "measure (\<lambda>(nsz, sz). sz - nsz)") auto

declare grow_size.simps [simp del]

definition buf_grow :: "SBuf \<Rightarrow> nat \<Rightarrow> SBuf" where
  "buf_grow sb sz =
     (let nsz = sbufsz sb;
          nsz = (if nsz < LJ_MIN_SBUF then LJ_MIN_SBUF else nsz)
      in sb\<lparr>sb_size := grow_size nsz sz\<rparr>)"

definition lj_buf_need2 :: "SBuf \<Rightarrow> nat \<Rightarrow> SBuf res" where
  "lj_buf_need2 sb sz =
     (if LJ_MAX_BUF < sz then Inl (Throw LJ_ERR_ERRMEM) else Inr (buf_grow sb sz))"

definition lj_buf_more2 :: "SBuf \<Rightarrow> nat \<Rightarrow> SBuf res" where
  "lj_buf_more2 sb sz =
     (let len = sbuflen sb in
      if LJ_MAX_BUF < sz \<or> LJ_MAX_BUF < (len + sz) mod 2 ^ 32
      then Inl (Throw LJ_ERR_ERRMEM) else Inr (buf_grow sb (len + sz)))"

definition lj_buf_need :: "SBuf \<Rightarrow> nat \<Rightarrow> SBuf res" where
  "lj_buf_need sb sz = (if sbufsz sb < sz then lj_buf_need2 sb sz else Inr sb)"

definition lj_buf_more :: "SBuf \<Rightarrow> nat \<Rightarrow> SBuf res" where
  "lj_buf_more sb sz = (if sbufleft sb < sz then lj_buf_more2 sb sz else Inr sb)"

text \<open>Shrinking halves the block whatever the content is; \<^verbatim>\<open>p\<close> keeps its offset.\<close>

definition lj_buf_shrink :: "SBuf \<Rightarrow> SBuf" where
  "lj_buf_shrink sb =
     (let osz = sbufsz sb in
      if 2 * LJ_MIN_SBUF < osz then sb\<lparr>sb_size := osz div 2\<rparr> else sb)"

text \<open>
  Writing bytes at \<^verbatim>\<open>p\<close> and moving \<^verbatim>\<open>p\<close> behind them (\<^verbatim>\<open>lj_buf_wmem\<close> or \<^verbatim>\<open>*p++ = c\<close>
  followed by \<^verbatim>\<open>setsbufP\<close>).
\<close>

definition buf_put :: "SBuf \<Rightarrow> bytes \<Rightarrow> SBuf res" where
  "buf_put sb out =
     rbind (in_range (sbuflen sb + length out \<le> sbufsz sb))
       (\<lambda>_. Inr (sb\<lparr>sb_data := sb_data sb @ out\<rparr>))"

section \<open>Put operations\<close>

definition lj_buf_putmem :: "SBuf \<Rightarrow> bytes \<Rightarrow> SBuf res" where
  "lj_buf_putmem sb q = rbind (lj_buf_more sb (length q)) (\<lambda>sb. buf_put sb q)"

definition lj_buf_putchar :: "SBuf \<Rightarrow> u8 \<Rightarrow> SBuf res" where
  "lj_buf_putchar sb c = rbind (lj_buf_more sb 1) (\<lambda>sb. buf_put sb [c])"

definition lj_buf_putb :: "SBuf \<Rightarrow> u8 \<Rightarrow> SBuf res" where
  "lj_buf_putb sb c = rbind (lj_buf_more sb 1) (\<lambda>sb. buf_put sb [c])"

definition lj_buf_putstr :: "SBuf \<Rightarrow> bytes \<Rightarrow> SBuf res" where
  "lj_buf_putstr sb s = rbind (lj_buf_more sb (length s)) (\<lambda>sb. buf_put sb s)"

text \<open>\<^verbatim>\<open>*p++ = *q--\<close> until \<^verbatim>\<open>p\<close> reaches \<^verbatim>\<open>e\<close>.\<close>

fun reverse_loop :: "bytes \<Rightarrow> nat \<Rightarrow> bytes" where
  "reverse_loop s 0 = []"
| "reverse_loop s (Suc q) = s ! q # reverse_loop s q"

definition lj_buf_putstr_reverse :: "SBuf \<Rightarrow> bytes \<Rightarrow> SBuf res" where
  "lj_buf_putstr_reverse sb s =
     rbind (lj_buf_more sb (length s)) (\<lambda>sb. buf_put sb (reverse_loop s (length s)))"

definition lower_char :: "u8 \<Rightarrow> u8" where
  "lower_char q = (let c = ucast q :: u32 in
     ucast (if 0x41 \<le> c \<and> c \<le> 0x5a then c + 0x20 else c))"

definition upper_char :: "u8 \<Rightarrow> u8" where
  "upper_char q = (let c = ucast q :: u32 in
     ucast (if 0x61 \<le> c \<and> c \<le> 0x7a then c - 0x20 else c))"

definition lj_buf_putstr_lower :: "SBuf \<Rightarrow> bytes \<Rightarrow> SBuf res" where
  "lj_buf_putstr_lower sb s =
     rbind (lj_buf_more sb (length s)) (\<lambda>sb. buf_put sb (map lower_char s))"

definition lj_buf_putstr_upper :: "SBuf \<Rightarrow> bytes \<Rightarrow> SBuf res" where
  "lj_buf_putstr_upper sb s =
     rbind (lj_buf_more sb (length s)) (\<lambda>sb. buf_put sb (map upper_char s))"

text \<open>The two \<^verbatim>\<open>do \<dots> while (--rep > 0)\<close> loops, for a positive \<^verbatim>\<open>rep\<close>.\<close>

fun rep_char_loop :: "u8 \<Rightarrow> nat \<Rightarrow> bytes" where
  "rep_char_loop c rep = c # (if 0 < rep - 1 then rep_char_loop c (rep - 1) else [])"

fun rep_str_loop :: "bytes \<Rightarrow> nat \<Rightarrow> bytes" where
  "rep_str_loop s rep = s @ (if 0 < rep - 1 then rep_str_loop s (rep - 1) else [])"

declare rep_char_loop.simps [simp del] rep_str_loop.simps [simp del]

definition lj_buf_putstr_rep :: "SBuf \<Rightarrow> bytes \<Rightarrow> int \<Rightarrow> SBuf res" where
  "lj_buf_putstr_rep sb s rep =
     (let len = length s in
      if 0 < rep \<and> len \<noteq> 0
      then let tlen = nat rep * len in
           if LJ_MAX_STR < tlen then Inl (Throw LJ_ERR_ERRMEM)
           else rbind (lj_buf_more sb tlen) (\<lambda>sb.
                if len = 1 then buf_put sb (rep_char_loop (s ! 0) (nat rep))
                else buf_put sb (rep_str_loop s (nat rep)))
      else Inr sb)"

text \<open>
  \<^verbatim>\<open>lj_buf_cat2str\<close> copies both strings to the temporary buffer and makes a string of
  them; the string made is returned with the buffer.
\<close>

definition lj_buf_tmp :: "SBuf \<Rightarrow> nat \<Rightarrow> SBuf res" where
  "lj_buf_tmp tmpbuf sz = lj_buf_need tmpbuf sz"

definition lj_buf_cat2str :: "SBuf \<Rightarrow> bytes \<Rightarrow> bytes \<Rightarrow> (SBuf \<times> bytes) res" where
  "lj_buf_cat2str tmpbuf s1 s2 =
     (let len1 = length s1; len2 = length s2 in
      rbind (lj_buf_tmp tmpbuf ((len1 + len2) mod 2 ^ 32)) (\<lambda>sb.
      rbind (in_range (len1 \<le> sbufsz sb)) (\<lambda>_.
      rbind (in_range (len1 + len2 \<le> sbufsz sb)) (\<lambda>_.
      Inr (sb, s1 @ s2)))))"

section \<open>ULEB128\<close>

function lj_strfmt_wuleb128 :: "u32 \<Rightarrow> bytes" where
  "lj_strfmt_wuleb128 v =
     (if 0x80 \<le> v
      then ucast ((v AND 0x7f) OR 0x80) # lj_strfmt_wuleb128 (drop_bit 7 v)
      else [ucast v])"
  by pat_completeness auto
termination
  by (relation "measure unat") (auto simp: word_le_nat_alt unat_drop_bit)

declare lj_strfmt_wuleb128.simps [simp del]

text \<open>
  The continuation loop of \<^verbatim>\<open>lj_buf_ruleb128\<close>.  A shift by 32 or more, that is, a sixth
  byte of a number, is undefined in C.
\<close>

fun ruleb128_loop :: "u32 \<Rightarrow> nat \<Rightarrow> u32 reader" where
  "ruleb128_loop v sh [] = Inl Undef"
| "ruleb128_loop v sh (p # ps) =
     (let sh = sh + 7 in
      if 32 \<le> sh then Inl Undef
      else let v = v OR push_bit sh (ucast p AND 0x7f) in
           if 0x80 \<le> p then ruleb128_loop v sh ps else Inr (v, ps))"

fun lj_buf_ruleb128 :: "u32 reader" where
  "lj_buf_ruleb128 [] = Inl Undef"
| "lj_buf_ruleb128 (p # ps) =
     (let v = ucast p :: u32 in
      if 0x80 \<le> v then ruleb128_loop (v AND 0x7f) 0 ps else Inr (v, ps))"

end
