(* ===== verification/BufCorrect.thy ===== *)
theory BufCorrect
  imports Buf
begin

text \<open>
  What the buffer operations promise: a buffer's block has a power-of-two size and holds
  its content, every put operation appends exactly its output or throws the memory error,
  and no byte is written outside the block.  ULEB128 numbers are a codec.
\<close>

section \<open>The buffer invariant\<close>

definition sbuf_ok :: "SBuf \<Rightarrow> bool" where
  "sbuf_ok sb \<longleftrightarrow> sbuflen sb \<le> sbufsz sb \<and>
     (sbufsz sb = 0 \<or> (\<exists>k \<le> 26. sbufsz sb = LJ_MIN_SBUF * 2 ^ k))"

lemma sbuf_okD: "sbuf_ok sb \<Longrightarrow> sbuflen sb \<le> sbufsz sb \<and> sbufsz sb \<le> 2 ^ 31"
proof -
  assume ok: "sbuf_ok sb"
  have "LJ_MIN_SBUF * 2 ^ k \<le> 2 ^ 31" if "k \<le> 26" for k
    using power_increasing [OF that, of "2::nat"] by (simp add: LJ_MIN_SBUF_def)
  with ok show ?thesis by (auto simp: sbuf_ok_def)
qed

lemma sbuf_ok_init [simp]: "sbuf_ok lj_buf_init"
  by (simp add: sbuf_ok_def lj_buf_init_def)

lemma sbuf_ok_reset: "sbuf_ok sb \<Longrightarrow> sbuf_ok (lj_buf_reset sb)"
  by (simp add: sbuf_ok_def lj_buf_reset_def)

lemma sbufleft_ok: "sbuf_ok sb \<Longrightarrow> sbufleft sb = sbufsz sb - sbuflen sb"
  using sbuf_okD [of sb] by (auto simp: sbufleft_def le_mod_geq)

lemma grow_size_power:
  assumes "k \<le> 26" "sz \<le> 2 ^ 31"
  shows "\<exists>j \<le> 26. grow_size (32 * 2 ^ k) sz = 32 * 2 ^ j \<and> sz \<le> 32 * 2 ^ j"
  using assms(1)
proof (induction "26 - k" arbitrary: k)
  case 0
  then have "k = 26" by simp
  then show ?case using assms(2) by (subst grow_size.simps) (auto intro!: exI [of _ 26])
next
  case (Suc d)
  show ?case
  proof (cases "32 * 2 ^ k < sz")
    case True
    have "grow_size (32 * 2 ^ k) sz = grow_size (32 * 2 ^ Suc k) sz"
      using True by (subst grow_size.simps) simp
    then show ?thesis using Suc.hyps(1) [of "Suc k"] Suc.hyps(2) by simp
  next
    case False
    then show ?thesis using Suc.prems by (subst grow_size.simps) (auto intro!: exI [of _ k])
  qed
qed

lemma buf_grow_ok:
  assumes "sbuf_ok sb" "sz \<le> 2 ^ 31"
  shows "sbuf_ok (buf_grow sb sz) \<or> \<not> sbuflen sb \<le> sz" "sz \<le> sbufsz (buf_grow sb sz)"
    "sb_data (buf_grow sb sz) = sb_data sb"
proof -
  obtain k where k: "k \<le> 26" "(if sbufsz sb < LJ_MIN_SBUF then LJ_MIN_SBUF else sbufsz sb) = 32 * 2 ^ k"
    using assms(1) by (force simp: sbuf_ok_def LJ_MIN_SBUF_def)
  obtain j where "j \<le> 26" "grow_size (32 * 2 ^ k) sz = 32 * 2 ^ j" "sz \<le> 32 * 2 ^ j"
    using grow_size_power [OF k(1) assms(2)] by blast
  moreover from this have "buf_grow sb sz = sb\<lparr>sb_size := 32 * 2 ^ j\<rparr>"
    by (simp only: buf_grow_def Let_def k(2))
  ultimately show "sbuf_ok (buf_grow sb sz) \<or> \<not> sbuflen sb \<le> sz" "sz \<le> sbufsz (buf_grow sb sz)"
    "sb_data (buf_grow sb sz) = sb_data sb"
    by (auto simp: sbuf_ok_def LJ_MIN_SBUF_def)
qed

lemma lj_buf_more_cases:
  assumes "sbuf_ok sb"
  obtains sb' where "lj_buf_more sb n = Inr sb'" "sbuf_ok sb'" "sb_data sb' = sb_data sb"
      "sbuflen sb + n \<le> sbufsz sb'"
  | "lj_buf_more sb n = Inl (Throw LJ_ERR_ERRMEM)" "LJ_MAX_BUF < sbuflen sb + n"
proof (cases "sbufleft sb < n \<and> (LJ_MAX_BUF < n \<or> LJ_MAX_BUF < (sbuflen sb + n) mod 2 ^ 32)")
  case True
  have "LJ_MAX_BUF < sbuflen sb + n"
    using True mod_less_eq_dividend [of "sbuflen sb + n" "2 ^ 32"] by linarith
  then show ?thesis using True that(2) by (simp add: lj_buf_more_def lj_buf_more2_def Let_def)
next
  case False
  note ok = sbuf_okD [OF assms]
  show ?thesis
  proof (cases "sbufleft sb < n")
    case True
    then have n: "n \<le> LJ_MAX_BUF" "(sbuflen sb + n) mod 2 ^ 32 \<le> LJ_MAX_BUF" using False by auto
    then have "sbuflen sb + n < 2 ^ 32" using ok by (simp add: LJ_MAX_BUF_def)
    then have sz: "sbuflen sb + n \<le> 2 ^ 31" using n by (simp add: LJ_MAX_BUF_def)
    have "lj_buf_more sb n = Inr (buf_grow sb (sbuflen sb + n))"
      using True n by (simp add: lj_buf_more_def lj_buf_more2_def Let_def)
    then show ?thesis using buf_grow_ok [OF assms sz] that(1) by auto
  next
    case False
    then show ?thesis using assms ok
      by (intro that(1) [of sb]) (auto simp: lj_buf_more_def sbufleft_ok)
  qed
qed

section \<open>Appending\<close>

text \<open>
  \<open>appends n out f\<close>: on a good buffer \<open>f\<close> appends \<open>out\<close>, or throws the memory error,
  and that only when the content and the \<open>n\<close> bytes requested exceed \<^verbatim>\<open>LJ_MAX_BUF\<close>.
\<close>

definition appends :: "nat \<Rightarrow> bytes \<Rightarrow> (SBuf \<Rightarrow> SBuf res) \<Rightarrow> bool" where
  "appends n out f \<longleftrightarrow> length out \<le> n \<and> (\<forall>sb. sbuf_ok sb \<longrightarrow>
     (case f sb of Inr sb' \<Rightarrow> sbuf_ok sb' \<and> sb_data sb' = sb_data sb @ out
                 | Inl e \<Rightarrow> e = Throw LJ_ERR_ERRMEM \<and> LJ_MAX_BUF < sbuflen sb + n))"

lemma appendsE:
  assumes "appends n out f" "sbuf_ok sb"
  obtains sb' where "f sb = Inr sb'" "sbuf_ok sb'" "sb_data sb' = sb_data sb @ out"
  | "f sb = Inl (Throw LJ_ERR_ERRMEM)" "LJ_MAX_BUF < sbuflen sb + n"
  using assms by (cases "f sb") (force simp: appends_def)+

lemma appends_length: "appends n out f \<Longrightarrow> length out \<le> n"
  by (simp add: appends_def)

lemma appends_more_put:
  assumes "length out \<le> n"
  shows "appends n out (\<lambda>sb. rbind (lj_buf_more sb n) (\<lambda>sb. buf_put sb out))"
  unfolding appends_def
proof (intro conjI assms allI impI)
  fix sb assume ok: "sbuf_ok sb"
  show "case rbind (lj_buf_more sb n) (\<lambda>sb. buf_put sb out) of
      Inl e \<Rightarrow> e = Throw LJ_ERR_ERRMEM \<and> LJ_MAX_BUF < sbuflen sb + n
    | Inr sb' \<Rightarrow> sbuf_ok sb' \<and> sb_data sb' = sb_data sb @ out"
    by (rule lj_buf_more_cases [OF ok, of n])
       (use assms in \<open>auto simp: buf_put_def sbuf_ok_def\<close>)
qed

lemma appends_Nil [intro]: "appends 0 [] Inr"
  by (simp add: appends_def)

lemma appends_bind:
  assumes "appends n o1 f" "appends m o2 g"
  shows "appends (n + m) (o1 @ o2) (\<lambda>sb. rbind (f sb) g)"
  unfolding appends_def
proof (intro conjI allI impI)
  show "length (o1 @ o2) \<le> n + m" using assms by (simp add: appends_def)
  fix sb assume "sbuf_ok sb"
  with assms(1) show "case rbind (f sb) g of
      Inl e \<Rightarrow> e = Throw LJ_ERR_ERRMEM \<and> LJ_MAX_BUF < sbuflen sb + (n + m)
    | Inr sb' \<Rightarrow> sbuf_ok sb' \<and> sb_data sb' = sb_data sb @ o1 @ o2"
  proof (rule appendsE)
    fix sb' assume 1: "f sb = Inr sb'" "sbuf_ok sb'" "sb_data sb' = sb_data sb @ o1"
    show ?thesis
    proof (rule appendsE [OF assms(2) 1(2)])
      fix sb2 assume "g sb' = Inr sb2" "sbuf_ok sb2" "sb_data sb2 = sb_data sb' @ o2"
      then show ?thesis by (simp only: 1(1,3) rbind_simps sum.case append_assoc simp_thms)
    next
      assume g: "g sb' = Inl (Throw LJ_ERR_ERRMEM)" "LJ_MAX_BUF < sbuflen sb' + m"
      have "length o1 \<le> n" by (rule appends_length [OF assms(1)])
      with g(2) have "LJ_MAX_BUF < sbuflen sb + (n + m)" unfolding 1(3) by simp
      then show ?thesis by (simp only: 1(1) g(1) rbind_simps sum.case simp_thms)
    qed
  qed simp
qed

lemma appends_cong: "appends n out f \<Longrightarrow> (\<And>sb. f sb = g sb) \<Longrightarrow> appends n out g"
  by (simp add: appends_def)

lemma appends_weaken:
  assumes "appends n out f" "n \<le> m"
  shows "appends m out f"
  unfolding appends_def
proof (intro conjI allI impI)
  show "length out \<le> m" using appends_length [OF assms(1)] assms(2) by simp
  fix sb assume "sbuf_ok sb"
  with assms(1) show "case f sb of
      Inl e \<Rightarrow> e = Throw LJ_ERR_ERRMEM \<and> LJ_MAX_BUF < sbuflen sb + m
    | Inr sb' \<Rightarrow> sbuf_ok sb' \<and> sb_data sb' = sb_data sb @ out"
    by (rule appendsE) (use assms(2) in simp_all)
qed

lemma appends_Inr:
  assumes "appends n out f" "sbuf_ok sb" "f sb = Inr sb'"
  shows "sbuf_ok sb' \<and> sb_data sb' = sb_data sb @ out"
  using assms by (auto simp: appends_def)

lemma appends_fits:
  assumes "appends n out f" "sbuf_ok sb" "sbuflen sb + n \<le> LJ_MAX_BUF"
  shows "\<exists>sb'. f sb = Inr sb' \<and> sbuf_ok sb' \<and> sb_data sb' = sb_data sb @ out"
  using assms(1,2) by (rule appendsE) (use assms(3) in auto)

text \<open>The interface of an operation that appends a value to a buffer.\<close>

fun put_all :: "(SBuf \<Rightarrow> 'a \<Rightarrow> SBuf res) \<Rightarrow> 'a list \<Rightarrow> SBuf \<Rightarrow> SBuf res" where
  "put_all put [] sb = Inr sb"
| "put_all put (x # xs) sb = rbind (put sb x) (put_all put xs)"

locale buf_appender =
  fixes put :: "SBuf \<Rightarrow> 'a \<Rightarrow> SBuf res" and out :: "'a \<Rightarrow> bytes" and need :: "'a \<Rightarrow> nat"
  assumes put: "appends (need x) (out x) (\<lambda>sb. put sb x)"
begin

lemma put_list: "appends (sum_list (map need xs)) (concat (map out xs)) (put_all put xs)"
proof (induction xs)
  case Nil
  show ?case using appends_Nil by (auto elim: appends_cong)
next
  case (Cons x xs)
  show ?case using appends_bind [OF put [of x] Cons.IH] by (auto intro: appends_cong)
qed

lemma put_never_undef: "sbuf_ok sb \<Longrightarrow> put_all put xs sb \<noteq> Inl Undef"
  by (rule appendsE [OF put_list [of xs], of sb]) auto

end

section \<open>The put operations\<close>

lemma reverse_loop_rev: "n \<le> length s \<Longrightarrow> reverse_loop s n = rev (take n s)"
  by (induction n) (simp_all add: take_Suc_conv_app_nth)

lemma rep_str_loop_eq: "0 < n \<Longrightarrow> rep_str_loop s n = concat (replicate n s)"
proof (induction n)
  case (Suc n)
  then show ?case by (subst rep_str_loop.simps) (cases n, auto)
qed simp

lemma rep_char_loop_eq: "0 < n \<Longrightarrow> rep_char_loop c n = replicate n c"
proof (induction n)
  case (Suc n)
  then show ?case by (subst rep_char_loop.simps) (cases n, auto)
qed simp

lemma length_concat_replicate: "length (concat (replicate n s)) = n * length s"
  by (induction n) simp_all

lemma concat_replicate_single: "length s = 1 \<Longrightarrow> replicate n (s ! 0) = concat (replicate n s)"
  by (cases s) (induction n, simp_all)

lemma putstr_rep_appends:
  "appends (nat rep * length s) (concat (replicate (nat rep) s)) (\<lambda>sb. lj_buf_putstr_rep sb s rep)"
proof (cases "0 < rep \<and> length s \<noteq> 0")
  case True
  note more = appends_more_put [of "concat (replicate (nat rep) s)" "nat rep * length s"]
  show ?thesis
  proof (cases "LJ_MAX_STR < nat rep * length s")
    case True2: True
    then show ?thesis using True
      by (simp add: lj_buf_putstr_rep_def appends_def length_concat_replicate Let_def
          LJ_MAX_STR_def LJ_MAX_BUF_def)
  next
    case False
    have "(if length s = 1 then buf_put sb (rep_char_loop (s ! 0) (nat rep))
        else buf_put sb (rep_str_loop s (nat rep))) = buf_put sb (concat (replicate (nat rep) s))" for sb
      using True by (simp add: rep_str_loop_eq rep_char_loop_eq concat_replicate_single)
    then show ?thesis using True False more
      by (simp add: lj_buf_putstr_rep_def Let_def length_concat_replicate)
  qed
next
  case False
  then show ?thesis using appends_Nil by (auto simp: lj_buf_putstr_rep_def)
qed

text \<open>The put operations as data, so that sequences of them can be spoken of.\<close>

datatype buf_op =
    Op_putmem bytes
  | Op_putchar u8
  | Op_putb u8
  | Op_putstr bytes
  | Op_reverse bytes
  | Op_lower bytes
  | Op_upper bytes
  | Op_rep bytes int

fun buf_exec :: "SBuf \<Rightarrow> buf_op \<Rightarrow> SBuf res" where
  "buf_exec sb (Op_putmem q) = lj_buf_putmem sb q"
| "buf_exec sb (Op_putchar c) = lj_buf_putchar sb c"
| "buf_exec sb (Op_putb c) = lj_buf_putb sb c"
| "buf_exec sb (Op_putstr s) = lj_buf_putstr sb s"
| "buf_exec sb (Op_reverse s) = lj_buf_putstr_reverse sb s"
| "buf_exec sb (Op_lower s) = lj_buf_putstr_lower sb s"
| "buf_exec sb (Op_upper s) = lj_buf_putstr_upper sb s"
| "buf_exec sb (Op_rep s n) = lj_buf_putstr_rep sb s n"

fun buf_out :: "buf_op \<Rightarrow> bytes" where
  "buf_out (Op_putmem q) = q"
| "buf_out (Op_putchar c) = [c]"
| "buf_out (Op_putb c) = [c]"
| "buf_out (Op_putstr s) = s"
| "buf_out (Op_reverse s) = rev s"
| "buf_out (Op_lower s) = map lower_char s"
| "buf_out (Op_upper s) = map upper_char s"
| "buf_out (Op_rep s n) = concat (replicate (nat n) s)"

interpretation buf_ops: buf_appender buf_exec buf_out "\<lambda>x. length (buf_out x)"
proof unfold_locales
  fix x
  show "appends (length (buf_out x)) (buf_out x) (\<lambda>sb. buf_exec sb x)"
  proof (cases x)
    case (Op_rep s n)
    then show ?thesis using putstr_rep_appends [of n s] by (simp add: length_concat_replicate)
  qed (use appends_more_put [OF order_refl, of "buf_out x"] in
      \<open>simp_all add: lj_buf_putmem_def lj_buf_putchar_def lj_buf_putb_def lj_buf_putstr_def
         lj_buf_putstr_reverse_def lj_buf_putstr_lower_def lj_buf_putstr_upper_def
         reverse_loop_rev\<close>)
qed

lemma sum_list_length: "sum_list (map (\<lambda>x. length (f x)) xs) = length (concat (map f xs))"
  by (induction xs) simp_all

section \<open>ULEB128 numbers\<close>

lemma u8_ge_0x80: "0x80 \<le> (b::u8) \<longleftrightarrow> bit b 7"
proof -
  define q where "q = unat b div 128"
  have "q < 2" using u8_less [of b] by (simp add: q_def)
  then have "q = 0 \<or> q = 1" by linarith
  moreover have "128 \<le> unat b \<longleftrightarrow> 0 < q" by (simp add: q_def div_greater_zero_iff)
  moreover have "bit b 7 \<longleftrightarrow> odd q"
    using bit_unsigned_iff [of b 7, where 'a = nat] by (simp add: q_def bit_iff_odd)
  ultimately show ?thesis by (auto simp: word_le_nat_alt)
qed

lemma uleb_byte_low: "ucast (ucast ((v AND 0x7f) OR 0x80 :: u32) :: u8) AND 0x7f = (v AND 0x7f :: u32)"
  unfolding and_7f or_80 by (auto intro!: bit_word_eqI simp: bit_simps)

lemma uleb_byte_high: "0x80 \<le> (ucast ((v AND 0x7f) OR 0x80 :: u32) :: u8)"
  unfolding u8_ge_0x80 or_80 by (simp add: bit_simps)

lemma uleb_join:
  "(acc OR push_bit s (v AND 0x7f)) OR push_bit (s + 7) (drop_bit 7 v) = acc OR push_bit s (v :: 'a::len word)"
  unfolding and_7f
proof (rule bit_word_eqI)
  fix i assume "i < LENGTH('a)"
  then show "bit ((acc OR push_bit s (take_bit 7 v)) OR push_bit (s + 7) (drop_bit 7 v)) i =
      bit (acc OR push_bit s v) i"
    by (cases "i < s + 7") (auto simp: bit_simps)
qed

lemma ruleb128_loop_wuleb128:
  assumes "sh + 7 < 32" and "unat v < 2 ^ (32 - (sh + 7))"
  shows "ruleb128_loop acc sh (lj_strfmt_wuleb128 v @ rest) = Inr (acc OR push_bit (sh + 7) v, rest)"
  using assms
proof (induction v arbitrary: acc sh rule: lj_strfmt_wuleb128.induct)
  case (1 v)
  show ?case
  proof (cases "0x80 \<le> v")
    case True
    have ge: "2 ^ 7 \<le> unat v" using True by (simp add: word_le_nat_alt)
    then have "(2::nat) ^ 7 < 2 ^ (32 - (sh + 7))" using 1(3) by linarith
    then have "7 < 32 - (sh + 7)" by (rule power_less_imp_less_exp [rotated]) simp
    then have sh: "sh + 7 + 7 < 32" by simp
    have "(2::nat) ^ (32 - (sh + 7)) = 2 ^ (32 - (sh + 7 + 7)) * 2 ^ 7"
    proof -
      have "32 - (sh + 7) = (32 - (sh + 7 + 7)) + 7" using sh by simp
      then show ?thesis by (simp only: power_add)
    qed
    then have small: "unat (drop_bit 7 v) < 2 ^ (32 - (sh + 7 + 7))"
      using 1(3) unfolding unat_drop_bit by (simp add: less_mult_imp_div_less)
    show ?thesis
      using 1(1) [OF True sh small, of "acc OR push_bit (sh + 7) (v AND 0x7f)"] True sh
        uleb_byte_high [of v] uleb_byte_low [of v] uleb_join [of acc "sh + 7" v]
      by (subst lj_strfmt_wuleb128.simps) (simp add: Let_def)
  next
    case False
    have v: "bit v i \<Longrightarrow> i < 7" for i
      using False by (intro bit_less_exp [of v 7]) (simp_all add: word_le_nat_alt)
    have lo: "ucast (ucast v :: u8) AND 0x7f = v"
      unfolding and_7f
    proof (rule bit_word_eqI)
      fix i assume "i < LENGTH(32)"
      then show "bit (take_bit 7 (ucast (ucast v :: u8) :: u32)) i = bit v i"
        using v [of i] by (cases "i < 7") (auto simp: bit_simps)
    qed
    have hi: "\<not> 0x80 \<le> (ucast v :: u8)"
      using v [of 7] unfolding u8_ge_0x80 by (auto simp: bit_simps)
    show ?thesis
      using 1(2) lo hi False by (subst lj_strfmt_wuleb128.simps) (simp add: Let_def)
  qed
qed

lemma uleb_single: "\<not> 0x80 \<le> v \<Longrightarrow> ucast (ucast v :: u8) = (v :: u32)"
proof (rule bit_word_eqI)
  fix i assume "\<not> 0x80 \<le> v" "i < LENGTH(32)"
  moreover from this have "bit v i \<Longrightarrow> i < 7"
    by (intro bit_less_exp [of v 7]) (simp_all add: word_le_nat_alt)
  ultimately show "bit (ucast (ucast v :: u8) :: u32) i = bit v i"
    by (auto simp: bit_simps)
qed

lemma ucast_u8_ge: "0x80 \<le> (ucast (b::u8) :: u32) \<longleftrightarrow> 0x80 \<le> b"
  by (simp add: word_le_nat_alt unsigned_ucast_eq take_bit_nat_eq_self order_less_le_trans [OF u8_less])

lemma lj_buf_ruleb128_eq:
  "lj_buf_ruleb128 (p # ps) =
     (if 0x80 \<le> p then ruleb128_loop (ucast p AND 0x7f) 0 ps else Inr (ucast p, ps))"
  by (simp add: Let_def ucast_u8_ge)

interpretation uleb: byte_codec "\<lambda>_. True" lj_strfmt_wuleb128 lj_buf_ruleb128
proof unfold_locales
  fix v rest
  show "lj_buf_ruleb128 (lj_strfmt_wuleb128 v @ rest) = Inr (v, rest)"
  proof (cases "0x80 \<le> v")
    case True
    have "unat (drop_bit 7 v) < 2 ^ 25"
      using u32_less [of v] by (simp add: unat_drop_bit less_mult_imp_div_less)
    then have "ruleb128_loop (v AND 0x7f) 0 (lj_strfmt_wuleb128 (drop_bit 7 v) @ rest) = Inr (v, rest)"
      using uleb_join [of 0 0 v] by (simp add: ruleb128_loop_wuleb128)
    then show ?thesis using True uleb_byte_high [of v] uleb_byte_low [of v]
      by (subst lj_strfmt_wuleb128.simps) (simp add: lj_buf_ruleb128_eq del: lj_buf_ruleb128.simps)
  next
    case False
    then have "\<not> 0x80 \<le> (ucast v :: u8)" by (metis uleb_single ucast_u8_ge)
    with False show ?thesis
      by (subst lj_strfmt_wuleb128.simps)
         (simp add: lj_buf_ruleb128_eq uleb_single del: lj_buf_ruleb128.simps)
  qed
qed

lemma length_wuleb128_le:
  "unat v < 2 ^ (7 * Suc n) \<Longrightarrow> length (lj_strfmt_wuleb128 v) \<le> Suc n"
proof (induction n arbitrary: v)
  case 0
  then have "\<not> 0x80 \<le> v" by (simp add: word_le_nat_alt)
  then show ?case by (subst lj_strfmt_wuleb128.simps) simp
next
  case (Suc n)
  have "7 * Suc (Suc n) = 7 * Suc n + 7" by simp
  then have "(2::nat) ^ (7 * Suc (Suc n)) = 2 ^ (7 * Suc n) * 2 ^ 7"
    by (simp only: power_add)
  then have "unat (drop_bit 7 v) < 2 ^ (7 * Suc n)"
    using Suc.prems unfolding unat_drop_bit by (simp only: less_mult_imp_div_less)
  then have "length (lj_strfmt_wuleb128 (drop_bit 7 v)) \<le> Suc n" by (rule Suc.IH)
  then show ?case by (subst lj_strfmt_wuleb128.simps) simp
qed

lemma length_wuleb128: "length (lj_strfmt_wuleb128 v) \<le> 5"
  using length_wuleb128_le [of v 4] u32_less [of v] by simp

lemma wuleb128_not_Nil [simp]: "lj_strfmt_wuleb128 v \<noteq> []"
  by (subst lj_strfmt_wuleb128.simps) simp

section \<open>Properties\<close>

text \<open>
  C9: any sequence of put operations on a good buffer either appends exactly the outputs
  of its operations, in order, and leaves a good buffer, or throws the memory error, and
  that only when the content would exceed \<^verbatim>\<open>LJ_MAX_BUF\<close>.  No byte is ever written
  outside the block.
\<close>

theorem buf_ops_append:
  assumes "sbuf_ok sb"
  shows "case put_all buf_exec ops sb of
      Inr sb' \<Rightarrow> sbuf_ok sb' \<and> sb_data sb' = sb_data sb @ concat (map buf_out ops)
    | Inl e \<Rightarrow> e = Throw LJ_ERR_ERRMEM \<and>
        LJ_MAX_BUF < length (sb_data sb @ concat (map buf_out ops))"
  by (rule appendsE [OF buf_ops.put_list [of ops] assms]) (simp_all add: sum_list_length)

theorem buf_ops_append_witness:
  "case put_all buf_exec [Op_reverse [1, 2], Op_rep [3] 40, Op_upper [0x61]] lj_buf_init of
      Inr sb' \<Rightarrow> sbuf_ok sb' \<and>
        sb_data sb' = sb_data lj_buf_init @ concat (map buf_out [Op_reverse [1, 2], Op_rep [3] 40, Op_upper [0x61]])
    | Inl e \<Rightarrow> e = Throw LJ_ERR_ERRMEM \<and>
        LJ_MAX_BUF < length (sb_data lj_buf_init @
          concat (map buf_out [Op_reverse [1, 2], Op_rep [3] 40, Op_upper [0x61]]))"
  by (rule buf_ops_append) simp

text \<open>
  C10: every 32-bit number survives ULEB128: the reader returns the number written and
  stops right behind it, whatever follows, with no shift out of range.
\<close>

theorem uleb128_roundtrip:
  "lj_buf_ruleb128 (lj_strfmt_wuleb128 v @ rest) = Inr (v, rest) \<and>
   length (lj_strfmt_wuleb128 v) \<in> {1..5}"
  using length_wuleb128 [of v] uleb.dec_enc [of v rest] by (simp add: Suc_le_eq)

end
