(* ===== verification/Obj.thy ===== *)
theory Obj
  imports Prelude
begin

text \<open>
  Values and the small integer and floating-point helpers of \<^verbatim>\<open>src/src/lj_obj.h\<close>,
  \<^verbatim>\<open>src/src/lj_obj.c\<close> and \<^verbatim>\<open>src/src/lj_def.h\<close>.  Numbers are the 64-bit patterns of IEEE
  doubles (\<^verbatim>\<open>LJ_DUALNUM\<close> is 0 on this target, so there are no integer values); what the
  code needs of them is the conversion from and to 32-bit integers, comparison and the
  test for NaN and minus zero.
\<close>

section \<open>Bit helpers\<close>

definition lj_rol :: "u32 \<Rightarrow> nat \<Rightarrow> u32" where
  "lj_rol x n = push_bit n x OR drop_bit ((32 - n) mod 32) x"

definition lj_ror :: "u32 \<Rightarrow> nat \<Rightarrow> u32" where
  "lj_ror x n = push_bit ((32 - n) mod 32) x OR drop_bit n x"

text \<open>\<^verbatim>\<open>lj_bswap\<close> is \<^verbatim>\<open>__builtin_bswap32\<close> here.\<close>

definition lj_bswap :: "u32 \<Rightarrow> u32" where
  "lj_bswap x = le32 (byte_n 3 x) (byte_n 2 x) (byte_n 1 x) (byte_n 0 x)"

text \<open>The index of the highest bit set; \<^verbatim>\<open>__builtin_clz(x) ^ 31\<close> for a positive argument.\<close>

fun fls :: "nat \<Rightarrow> nat" where
  "fls n = (if n < 2 then 0 else Suc (fls (n div 2)))"

declare fls.simps [simp del]

definition lj_fls :: "u32 \<Rightarrow> nat" where
  "lj_fls x = fls (unat x)"

lemma fls_bounds: "0 < n \<Longrightarrow> 2 ^ fls n \<le> n \<and> n < 2 ^ Suc (fls n)"
proof (induction n rule: fls.induct)
  case (1 n)
  show ?case
  proof (cases "n < 2")
    case True
    then show ?thesis using 1 by (simp add: fls.simps)
  next
    case False
    then have "2 ^ fls (n div 2) \<le> n div 2 \<and> n div 2 < 2 ^ Suc (fls (n div 2))"
      using 1 by simp
    moreover have "2 * (n div 2) \<le> n" "n < 2 * (n div 2) + 2" by simp_all
    ultimately have "2 * 2 ^ fls (n div 2) \<le> n" "n < 2 * 2 ^ Suc (fls (n div 2))"
      by (linarith, simp only: power_Suc, linarith)
    then show ?thesis using False by (subst (1 2) fls.simps) simp
  qed
qed

lemma fls_less: "0 < n \<Longrightarrow> n < 2 ^ k \<Longrightarrow> fls n < k"
proof -
  assume n: "0 < n" "n < 2 ^ k"
  then have "(2::nat) ^ fls n < 2 ^ k" using fls_bounds [of n] by linarith
  then show ?thesis by simp
qed

lemma fls_unique: "2 ^ k \<le> n \<Longrightarrow> n < 2 ^ Suc k \<Longrightarrow> fls n = k"
proof -
  assume n: "2 ^ k \<le> n" "n < 2 ^ Suc k"
  have "(0::nat) < 2 ^ k" by simp
  then have "0 < n" using n(1) by (rule less_le_trans)
  then have "fls n < Suc k" "2 ^ k < (2::nat) ^ Suc (fls n)"
    using fls_less [of n "Suc k"] fls_bounds [of n] n by (auto intro: le_less_trans)
  then show ?thesis by (simp only: power_strict_increasing_iff)
qed

lemma lj_bswap_bswap [simp]: "lj_bswap (lj_bswap x) = x"
  by (simp add: lj_bswap_def)

section \<open>Numbers\<close>

definition mk_num :: "bool \<Rightarrow> nat \<Rightarrow> nat \<Rightarrow> u64" where
  "mk_num neg e man = word_of_nat ((if neg then 2 ^ 63 else 0) + e * 2 ^ 52 + man)"

definition num_neg :: "u64 \<Rightarrow> bool" where "num_neg x = (2 ^ 63 \<le> unat x)"
definition num_exp :: "u64 \<Rightarrow> nat" where "num_exp x = unat x div 2 ^ 52 mod 2 ^ 11"
definition num_man :: "u64 \<Rightarrow> nat" where "num_man x = unat x mod 2 ^ 52"

definition num_nan :: "u64 \<Rightarrow> bool" where
  "num_nan x = (num_exp x = 2047 \<and> num_man x \<noteq> 0)"

definition mzero :: u64 where "mzero = 0x8000000000000000"

text \<open>The comparison \<^verbatim>\<open>==\<close> of two doubles.\<close>

definition num_eq :: "u64 \<Rightarrow> u64 \<Rightarrow> bool" where
  "num_eq x y = (\<not> num_nan x \<and> \<not> num_nan y \<and>
     (x = y \<or> (x = 0 \<or> x = mzero) \<and> (y = 0 \<or> y = mzero)))"

text \<open>\<^verbatim>\<open>(lua_Number)k\<close> for an \<^verbatim>\<open>int32_t\<close>, which is exact.\<close>

definition int2num :: "u32 \<Rightarrow> u64" where
  "int2num k =
     (if k = 0 then 0
      else let neg = (2 ^ 31 \<le> unat k);
               m = (if neg then 2 ^ 32 - unat k else unat k);
               e = fls m
           in mk_num neg (1023 + e) (m * 2 ^ (52 - e) - 2 ^ 52))"

text \<open>
  \<^verbatim>\<open>(int32_t)n\<close>: truncation towards zero, and the ``integer indefinite'' value of the
  x86 conversion for NaN and everything out of range.
\<close>

definition lj_num2int :: "u64 \<Rightarrow> u32" where
  "lj_num2int x =
     (let e = num_exp x;
          m = (2 ^ 52 + num_man x) div 2 ^ (52 - (e - 1023))
      in if e < 1023 then 0
         else if 1023 + 31 \<le> e then 0x80000000
         else if num_neg x then - word_of_nat m else word_of_nat m)"

lemma mk_num_fields:
  assumes "e < 2 ^ 11" "man < 2 ^ 52"
  shows "num_neg (mk_num neg e man) = neg" "num_exp (mk_num neg e man) = e"
    "num_man (mk_num neg e man) = man"
proof -
  have lt: "e * 2 ^ 52 + man < 2 ^ 63" using assms by simp
  have c: "(if neg then 2 ^ 63 else 0) + e * 2 ^ 52 + man = ((if neg then 2 ^ 11 else 0) + e) * 2 ^ 52 + man"
    by simp
  have u: "unat (mk_num neg e man) = (if neg then 2 ^ 63 else 0) + e * 2 ^ 52 + man"
    using lt unfolding mk_num_def by (subst unat_of_nat_eq) auto
  show "num_neg (mk_num neg e man) = neg" using lt by (simp add: num_neg_def u)
  show "num_man (mk_num neg e man) = man"
    using assms(2) unfolding num_man_def u c by (simp only: mod_mult_self3 mod_less)
  have "(((if neg then 2 ^ 11 else 0) + e) * 2 ^ 52 + man) div 2 ^ 52 = (if neg then 2 ^ 11 else 0) + e"
    using assms(2) by (simp only: div_mult_self3 div_less)
  then show "num_exp (mk_num neg e man) = e"
    using assms(1) unfolding num_exp_def u c by simp
qed

lemma int2num_magnitude:
  assumes "k \<noteq> 0"
  defines "m \<equiv> (if 2 ^ 31 \<le> unat k then 2 ^ 32 - unat k else unat (k::u32))"
  shows "0 < m" "m \<le> 2 ^ 31" "fls m \<le> 31"
    "num_neg (int2num k) = (2 ^ 31 \<le> unat k)" "num_exp (int2num k) = 1023 + fls m"
    "2 ^ 52 + num_man (int2num k) = m * 2 ^ (52 - fls m)"
proof -
  have k: "0 < unat k" using assms(1) by (simp add: unat_gt_0)
  then show m: "0 < m" "m \<le> 2 ^ 31" using u32_less [of k] by (auto simp: m_def)
  then show e: "fls m \<le> 31" using fls_less [of m 32] by simp
  have split: "(2::nat) ^ 52 = 2 ^ fls m * 2 ^ (52 - fls m)"
    "(2::nat) ^ 53 = 2 ^ Suc (fls m) * 2 ^ (52 - fls m)"
    using e by (simp_all flip: power_add)
  have "2 ^ 52 \<le> m * 2 ^ (52 - fls m)" "m * 2 ^ (52 - fls m) < 2 ^ 53"
    unfolding split using fls_bounds [OF m(1)] by (simp_all only: mult_le_mono1 mult_less_mono1 zero_less_power zero_less_numeral)
  then have "2 ^ 52 \<le> m * 2 ^ (52 - fls m)" "m * 2 ^ (52 - fls m) - 2 ^ 52 < 2 ^ 52" by simp_all
  moreover have "int2num k = mk_num (2 ^ 31 \<le> unat k) (1023 + fls m) (m * 2 ^ (52 - fls m) - 2 ^ 52)"
    using assms(1) by (simp add: int2num_def Let_def m_def)
  moreover have "1023 + fls m < 2 ^ 11" using e by simp
  ultimately show "num_neg (int2num k) = (2 ^ 31 \<le> unat k)" "num_exp (int2num k) = 1023 + fls m"
    "2 ^ 52 + num_man (int2num k) = m * 2 ^ (52 - fls m)"
    by (simp_all only: mk_num_fields le_add_diff_inverse)
qed

lemma lj_num2int_int2num [simp]: "lj_num2int (int2num k) = k"
proof (cases "k = 0")
  case True
  then show ?thesis by (simp add: lj_num2int_def int2num_def num_exp_def)
next
  case False
  define m where "m = (if 2 ^ 31 \<le> unat k then 2 ^ 32 - unat k else unat k)"
  note f = int2num_magnitude [OF False, folded m_def]
  show ?thesis
  proof (cases "fls m = 31")
    case True
    then have "2 ^ 31 \<le> m" using fls_bounds [OF f(1)] by simp
    then have "unat k = 2 ^ 31" using f(2) by (auto simp: m_def split: if_splits)
    then have "0x80000000 = k" by (simp add: word_unat_eq_iff)
    moreover have "num_exp (int2num k) = 1054" using True f(5) by simp
    ultimately show ?thesis by (simp add: lj_num2int_def Let_def)
  next
    case False
    then have e: "fls m < 31" using f(3) by simp
    have "lj_num2int (int2num k) = (if 2 ^ 31 \<le> unat k then - word_of_nat m else word_of_nat m)"
    proof -
      have "(2 ^ 52 + num_man (int2num k)) div 2 ^ (52 - fls m) = m" unfolding f(6) by simp
      then show ?thesis using e by (simp add: lj_num2int_def Let_def f(4,5))
    qed
    also have "\<dots> = k"
      using u32_less [of k] by (simp add: m_def of_nat_diff)
    finally show ?thesis .
  qed
qed

lemma num_eq_int2num: "num_eq x (int2num k) \<Longrightarrow> x = int2num k \<or> x = mzero"
proof (cases "k = 0")
  case False
  then have "num_exp (int2num k) \<noteq> 0" using int2num_magnitude(5) [OF False] by simp
  then have "int2num k \<noteq> 0" "int2num k \<noteq> mzero" by (auto simp: num_exp_def mzero_def)
  then show "num_eq x (int2num k) \<Longrightarrow> ?thesis" by (simp add: num_eq_def)
qed (auto simp: num_eq_def int2num_def)

lemma int2num_not_nan: "\<not> num_nan (int2num k)"
proof (cases "k = 0")
  case False
  then show ?thesis using int2num_magnitude(3,5) [OF False] by (simp add: num_nan_def)
qed (simp add: int2num_def num_nan_def num_exp_def)

lemma num_eq_int2num_refl [simp]: "num_eq (int2num k) (int2num k)"
  by (simp add: num_eq_def int2num_not_nan)

section \<open>Values\<close>

text \<open>
  A string object is its hash and its content; two string objects are the same object
  when both agree, which the interning of \<^verbatim>\<open>lj_str_new\<close> provides.  Other collectable
  objects are their type tag and address.
\<close>

record gcstr =
  s_hash :: u32
  s_data :: bytes

datatype TValue =
    VNil
  | VFalse
  | VTrue
  | VLightud u32
  | VStr gcstr
  | VGC nat u32
  | VNum u64

fun tvisstr :: "TValue \<Rightarrow> bool" where
  "tvisstr (VStr _) = True"
| "tvisstr _ = False"

text \<open>The high word of a number is below the first type tag, \<^verbatim>\<open>LJ_TISNUM = ~13u\<close>.\<close>

definition LJ_TISNUM :: u32 where "LJ_TISNUM = 0xfffffff2"

definition num_lo :: "u64 \<Rightarrow> u32" where "num_lo x = ucast x"
definition num_hi :: "u64 \<Rightarrow> u32" where "num_hi x = ucast (drop_bit 32 x)"

definition num_lohi :: "u32 \<Rightarrow> u32 \<Rightarrow> u64" where
  "num_lohi lo hi = ucast lo OR push_bit 32 (ucast hi)"

fun tv_ok :: "TValue \<Rightarrow> bool" where
  "tv_ok (VNum x) = (num_hi x < LJ_TISNUM)"
| "tv_ok _ = True"

fun lj_obj_equal :: "TValue \<Rightarrow> TValue \<Rightarrow> bool" where
  "lj_obj_equal VNil VNil = True"
| "lj_obj_equal VFalse VFalse = True"
| "lj_obj_equal VTrue VTrue = True"
| "lj_obj_equal (VLightud a) (VLightud b) = (a = b)"
| "lj_obj_equal (VStr s) (VStr t) = (s = t)"
| "lj_obj_equal (VGC i a) (VGC j b) = (i = j \<and> a = b)"
| "lj_obj_equal (VNum x) (VNum y) = num_eq x y"
| "lj_obj_equal _ _ = False"

lemma num_lohi_split [simp]: "num_lohi (num_lo x) (num_hi x) = x"
  by (rule bit_word_eqI) (auto simp: num_lohi_def num_lo_def num_hi_def bit_simps)

lemma num_lo_lohi [simp]: "num_lo (num_lohi lo hi) = lo"
  by (rule bit_word_eqI) (auto simp: num_lohi_def num_lo_def bit_simps)

lemma num_hi_lohi [simp]: "num_hi (num_lohi lo hi) = hi"
  by (rule bit_word_eqI) (auto simp: num_lohi_def num_hi_def bit_simps dest: bit_imp_le_length)

end
