(* ===== verification/Tab.thy ===== *)
theory Tab
  imports Obj
begin

text \<open>
  Lua tables: \<^verbatim>\<open>src/src/lj_tab.c\<close> and \<^verbatim>\<open>src/src/lj_tab.h\<close>.  A table has an array part
  and a hash part; the hash part is a vector of nodes chained by index, with insertion by
  Brent's variation, and both parts are resized together.  Setters return the table and
  the slot the caller is to write; getters return the value or \<open>None\<close> for a null pointer.
  Following a null or wild pointer and running a chain for ever are \<open>Undef\<close>.
\<close>

definition LJ_MAX_HBITS :: nat where "LJ_MAX_HBITS = 26"
definition LJ_MAX_ABITS :: nat where "LJ_MAX_ABITS = 28"
definition LJ_MAX_ASIZE :: nat where "LJ_MAX_ASIZE = 2 ^ 27 + 1"
definition LJ_MAX_COLOSIZE :: nat where "LJ_MAX_COLOSIZE = 16"

record node =
  n_key :: TValue
  n_val :: TValue
  n_next :: "nat option"

record GCtab =
  t_nomm :: u8
  t_colo :: int
  t_array :: "TValue list"
  t_node :: "node list"
  t_hmask :: u32
  t_freetop :: nat

datatype slot = ASlot nat | HSlot nat

definition blank_node :: node where
  "blank_node = \<lparr>n_key = VNil, n_val = VNil, n_next = None\<rparr>"

abbreviation asize :: "GCtab \<Rightarrow> nat" where "asize t \<equiv> length (t_array t)"

text \<open>Writing through the \<^verbatim>\<open>TValue *\<close> a setter returned.\<close>

fun store :: "GCtab \<Rightarrow> slot \<Rightarrow> TValue \<Rightarrow> GCtab" where
  "store t (ASlot i) v = t\<lparr>t_array := (t_array t)[i := v]\<rparr>"
| "store t (HSlot i) v = t\<lparr>t_node := (t_node t)[i := (t_node t ! i)\<lparr>n_val := v\<rparr>]\<rparr>"

section \<open>Object hashing\<close>

definition HASH_BIAS :: u32 where "HASH_BIAS = - 0x04c11db7"

definition hashrot :: "u32 \<Rightarrow> u32 \<Rightarrow> u32" where
  "hashrot lo hi =
     (let lo = lo XOR hi; hi = lj_rol hi 14;
          lo = lo - hi; hi = lj_rol hi 5;
          hi = hi XOR lo; hi = hi - lj_rol lo 13
      in hi)"

definition hsize2hbits :: "u32 \<Rightarrow> nat" where
  "hsize2hbits s = (if s \<noteq> 0 then if s = 1 then 1 else 1 + lj_fls (s - 1) else 0)"

definition hashmask :: "GCtab \<Rightarrow> u32 \<Rightarrow> nat" where
  "hashmask t hash = unat (hash AND t_hmask t)"

text \<open>The hash of a key before masking; nil hashes like a null reference.\<close>

fun keyhash :: "TValue \<Rightarrow> u32" where
  "keyhash (VStr s) = s_hash s"
| "keyhash (VNum x) = hashrot (num_lo x) (push_bit 1 (num_hi x))"
| "keyhash VFalse = 0"
| "keyhash VTrue = 1"
| "keyhash (VLightud a) = hashrot a (a + HASH_BIAS)"
| "keyhash (VGC _ a) = hashrot a (a + HASH_BIAS)"
| "keyhash VNil = hashrot 0 HASH_BIAS"

definition hashkey :: "GCtab \<Rightarrow> TValue \<Rightarrow> nat" where
  "hashkey t key = hashmask t (keyhash key)"

section \<open>Creation and destruction\<close>

definition newhpart :: "GCtab \<Rightarrow> nat \<Rightarrow> GCtab res" where
  "newhpart t hbits =
     (if LJ_MAX_HBITS < hbits then Inl (Throw LJ_ERR_TABOV)
      else let hsize = 2 ^ hbits in
           Inr (t\<lparr>t_node := replicate hsize blank_node, t_freetop := hsize,
                  t_hmask := word_of_nat hsize - 1\<rparr>))"

definition clearhpart :: "GCtab \<Rightarrow> GCtab" where
  "clearhpart t = t\<lparr>t_node := map (\<lambda>_. blank_node) (t_node t)\<rparr>"

definition clearapart :: "GCtab \<Rightarrow> GCtab" where
  "clearapart t = t\<lparr>t_array := map (\<lambda>_. VNil) (t_array t)\<rparr>"

text \<open>
  Slots are not initialised by \<^verbatim>\<open>newtab\<close>; the array argument of \<open>newtab\<close> stands for what
  the memory held.  A table without hash part uses the global nil node.
\<close>

definition newtab :: "TValue list \<Rightarrow> nat \<Rightarrow> GCtab res" where
  "newtab mem hbits =
     (let n = length mem;
          t = \<lparr>t_nomm = 0xff, t_colo = 0, t_array = [], t_node = [blank_node], t_hmask = 0,
               t_freetop = 0\<rparr>
      in rbind
        (if LJ_MAX_COLOSIZE \<noteq> 0 \<and> 0 < n \<and> n \<le> LJ_MAX_COLOSIZE
         then Inr (t\<lparr>t_colo := int n, t_array := mem\<rparr>)
         else if 0 < n
              then if LJ_MAX_ASIZE < n then Inl (Throw LJ_ERR_TABOV)
                   else Inr (t\<lparr>t_array := mem\<rparr>)
              else Inr t)
        (\<lambda>t. if hbits \<noteq> 0 then newhpart t hbits else Inr t))"

definition lj_tab_new :: "nat \<Rightarrow> nat \<Rightarrow> GCtab res" where
  "lj_tab_new n hbits =
     (if LJ_MAX_ASIZE < n then Inl (Throw LJ_ERR_TABOV)
      else rbind (newtab (replicate n VNil) hbits) (\<lambda>t.
           let t = clearapart t in
           Inr (if t_hmask t > 0 then clearhpart t else t)))"

definition lj_tab_new_ah :: "int \<Rightarrow> u32 \<Rightarrow> GCtab res" where
  "lj_tab_new_ah a h = lj_tab_new (if 0 < a then nat (a + 1) else 0) (hsize2hbits h)"

definition lj_tab_new1 :: "u32 \<Rightarrow> GCtab res" where
  "lj_tab_new1 ahsize = lj_tab_new (unat (ahsize AND 0xffffff)) (unat (drop_bit 24 ahsize))"

text \<open>Copying a table rebases the node pointers, which are indices here.\<close>

definition lj_tab_dup :: "GCtab \<Rightarrow> GCtab res" where
  "lj_tab_dup kt =
     rbind (newtab (replicate (asize kt) VNil) (if t_hmask kt > 0 then lj_fls (t_hmask kt) + 1 else 0))
       (\<lambda>t. let t = t\<lparr>t_nomm := 0, t_array := t_array kt\<rparr> in
       Inr (if t_hmask kt > 0 then t\<lparr>t_freetop := t_freetop kt, t_node := t_node kt\<rparr> else t))"

definition lj_tab_clear :: "GCtab \<Rightarrow> GCtab" where
  "lj_tab_clear t =
     (let t = clearapart t in
      if t_hmask t > 0 then clearhpart (t\<lparr>t_freetop := unat (t_hmask t) + 1\<rparr>) else t)"

section \<open>Chains\<close>

text \<open>
  \<^verbatim>\<open>do { if (\<dots>) return \<dots>; } while ((n = nextnode(n)))\<close>, with the number of nodes as the
  bound on the steps.
\<close>

fun chain_find :: "nat \<Rightarrow> (TValue \<Rightarrow> bool) \<Rightarrow> node list \<Rightarrow> nat \<Rightarrow> nat option res" where
  "chain_find 0 P ns n = Inl Undef"
| "chain_find (Suc f) P ns n =
     rbind (in_range (n < length ns)) (\<lambda>_.
     if P (n_key (ns ! n)) then Inr (Some n)
     else case n_next (ns ! n) of None \<Rightarrow> Inr None | Some m \<Rightarrow> chain_find f P ns m)"

definition find_key :: "GCtab \<Rightarrow> (TValue \<Rightarrow> bool) \<Rightarrow> nat \<Rightarrow> nat option res" where
  "find_key t P n = chain_find (length (t_node t)) P (t_node t) n"

definition num_key :: "u64 \<Rightarrow> TValue \<Rightarrow> bool" where
  "num_key x k = (case k of VNum y \<Rightarrow> num_eq y x | _ \<Rightarrow> False)"

definition str_key :: "gcstr \<Rightarrow> TValue \<Rightarrow> bool" where
  "str_key s k = (case k of VStr s' \<Rightarrow> s' = s | _ \<Rightarrow> False)"

section \<open>Getters\<close>

definition hslot_val :: "GCtab \<Rightarrow> nat option \<Rightarrow> TValue option" where
  "hslot_val t r = map_option (\<lambda>n. n_val (t_node t ! n)) r"

definition lj_tab_getinth :: "GCtab \<Rightarrow> u32 \<Rightarrow> TValue option res" where
  "lj_tab_getinth t key =
     (let k = int2num key in
      rbind (find_key t (num_key k) (hashkey t (VNum k))) (\<lambda>r. Inr (hslot_val t r)))"

definition lj_tab_getint :: "GCtab \<Rightarrow> u32 \<Rightarrow> TValue option res" where
  "lj_tab_getint t key =
     (if unat key < asize t then Inr (Some (t_array t ! unat key)) else lj_tab_getinth t key)"

definition lj_tab_getstr :: "GCtab \<Rightarrow> gcstr \<Rightarrow> TValue option res" where
  "lj_tab_getstr t key =
     rbind (find_key t (str_key key) (hashkey t (VStr key))) (\<lambda>r. Inr (hslot_val t r))"

definition gen_lookup :: "GCtab \<Rightarrow> TValue \<Rightarrow> TValue option res" where
  "gen_lookup t key =
     rbind (find_key t (\<lambda>k. lj_obj_equal k key) (hashkey t key)) (\<lambda>r. Inr (hslot_val t r))"

definition niltv :: "TValue option \<Rightarrow> TValue" where
  "niltv r = (case r of None \<Rightarrow> VNil | Some v \<Rightarrow> v)"

definition lj_tab_get :: "GCtab \<Rightarrow> TValue \<Rightarrow> TValue res" where
  "lj_tab_get t key =
     rbind (case key of
         VStr s \<Rightarrow> lj_tab_getstr t s
       | VNum nk \<Rightarrow>
           (let k = lj_num2int nk in
            if num_eq nk (int2num k) then lj_tab_getint t k else gen_lookup t key)
       | VNil \<Rightarrow> Inr None
       | _ \<Rightarrow> gen_lookup t key)
     (\<lambda>r. Inr (niltv r))"

section \<open>Setters\<close>

text \<open>
  Setters, insertion and resizing call each other.  They take the insertion function \<open>nk\<close>
  of the level below as an argument; \<open>newkey_fuel\<close> ties the knot.
\<close>

type_synonym newkey = "GCtab \<Rightarrow> TValue \<Rightarrow> (GCtab \<times> slot) res"

definition set_found :: "newkey \<Rightarrow> GCtab \<Rightarrow> TValue \<Rightarrow> nat option \<Rightarrow> (GCtab \<times> slot) res" where
  "set_found nk t key r = (case r of Some n \<Rightarrow> Inr (t, HSlot n) | None \<Rightarrow> nk t key)"

definition setinth_with :: "newkey \<Rightarrow> GCtab \<Rightarrow> u32 \<Rightarrow> (GCtab \<times> slot) res" where
  "setinth_with nk t key =
     (let k = int2num key in
      rbind (find_key t (num_key k) (hashkey t (VNum k))) (set_found nk t (VNum k)))"

definition setint_with :: "newkey \<Rightarrow> GCtab \<Rightarrow> u32 \<Rightarrow> (GCtab \<times> slot) res" where
  "setint_with nk t key =
     (if unat key < asize t then Inr (t, ASlot (unat key)) else setinth_with nk t key)"

definition setstr_with :: "newkey \<Rightarrow> GCtab \<Rightarrow> gcstr \<Rightarrow> (GCtab \<times> slot) res" where
  "setstr_with nk t key =
     rbind (find_key t (str_key key) (hashkey t (VStr key))) (set_found nk t (VStr key))"

definition gen_set :: "newkey \<Rightarrow> GCtab \<Rightarrow> TValue \<Rightarrow> (GCtab \<times> slot) res" where
  "gen_set nk t key =
     rbind (find_key t (\<lambda>k. lj_obj_equal k key) (hashkey t key)) (set_found nk t key)"

definition set_with :: "newkey \<Rightarrow> GCtab \<Rightarrow> TValue \<Rightarrow> (GCtab \<times> slot) res" where
  "set_with nk t key =
     (let t = t\<lparr>t_nomm := 0\<rparr> in
      case key of
        VStr s \<Rightarrow> setstr_with nk t s
      | VNum x \<Rightarrow>
          (let k = lj_num2int x in
           if num_eq x (int2num k) then setint_with nk t k
           else if num_nan x then Inl (Throw LJ_ERR_NANIDX)
           else gen_set nk t key)
      | VNil \<Rightarrow> Inl (Throw LJ_ERR_NILIDX)
      | _ \<Rightarrow> gen_set nk t key)"

section \<open>Resizing\<close>

definition reinsert_array :: "newkey \<Rightarrow> TValue list \<Rightarrow> nat \<Rightarrow> GCtab \<Rightarrow> GCtab res" where
  "reinsert_array nk array nasize =
     fold_res (\<lambda>i t.
       if array ! i \<noteq> VNil
       then rbind (setinth_with nk t (word_of_nat i)) (\<lambda>(t, s). Inr (store t s (array ! i)))
       else Inr t) [nasize ..< length array]"

definition reinsert_hash :: "newkey \<Rightarrow> node list \<Rightarrow> GCtab \<Rightarrow> GCtab res" where
  "reinsert_hash nk =
     fold_res (\<lambda>n t.
       if n_val n \<noteq> VNil
       then rbind (set_with nk t (n_key n)) (\<lambda>(t, s). Inr (store t s (n_val n)))
       else Inr t)"

definition resize_with :: "newkey \<Rightarrow> GCtab \<Rightarrow> nat \<Rightarrow> nat \<Rightarrow> GCtab res" where
  "resize_with nk t nasize hbits =
     (let oldnode = t_node t; oldarray = t_array t; oldasize = asize t; oldhmask = t_hmask t in
      rbind
        (if oldasize < nasize
         then if LJ_MAX_ASIZE < nasize then Inl (Throw LJ_ERR_TABOV)
              else Inr (t\<lparr>t_colo := (if LJ_MAX_COLOSIZE \<noteq> 0 \<and> 0 < t_colo t then t_colo t - 128 else t_colo t),
                          t_array := oldarray @ replicate (nasize - oldasize) VNil\<rparr>)
         else Inr t) (\<lambda>t.
      rbind
        (if hbits \<noteq> 0 then rbind (newhpart t hbits) (\<lambda>t. Inr (clearhpart t))
         else Inr (t\<lparr>t_node := [blank_node], t_hmask := 0, t_freetop := 0\<rparr>)) (\<lambda>t.
      rbind
        (if nasize < oldasize
         then reinsert_array nk oldarray nasize (t\<lparr>t_array := take nasize oldarray\<rparr>)
         else Inr t) (\<lambda>t.
      if oldhmask > 0 then reinsert_hash nk oldnode t else Inr t))))"

text \<open>Bins of integer keys, one per power of two.\<close>

definition countint :: "TValue \<Rightarrow> nat list \<Rightarrow> nat \<times> nat list" where
  "countint key bins =
     (case key of
        VNum nk \<Rightarrow>
          (let k = lj_num2int nk in
           if unat k < LJ_MAX_ASIZE \<and> num_eq nk (int2num k)
           then let b = (if 2 < sint k then lj_fls (k - 1) else 0)
                in (1, bins[b := bins ! b + 1])
           else (0, bins))
      | _ \<Rightarrow> (0, bins))"

function countarray_loop :: "TValue list \<Rightarrow> nat \<Rightarrow> nat \<Rightarrow> nat \<Rightarrow> nat list \<Rightarrow> nat \<times> nat list" where
  "countarray_loop array b i na bins =
     (if b < LJ_MAX_ABITS
      then let top = 2 * 2 ^ b;
               top' = (if length array \<le> top then length array - 1 else top)
           in if length array \<le> top \<and> top' < i then (na, bins)
              else let n = length (filter (\<lambda>j. array ! j \<noteq> VNil) [i ..< Suc top'])
                   in countarray_loop array (Suc b) (max i (Suc top')) (na + n) (bins[b := bins ! b + n])
      else (na, bins))"
  by pat_completeness auto
termination by (relation "measure (\<lambda>(_, b, _). LJ_MAX_ABITS - b)") auto

declare countarray_loop.simps [simp del]

definition countarray :: "GCtab \<Rightarrow> nat list \<Rightarrow> nat \<times> nat list" where
  "countarray t bins = (if asize t = 0 then (0, bins) else countarray_loop (t_array t) 0 0 0 bins)"

fun counthash :: "node list \<Rightarrow> nat list \<Rightarrow> nat \<times> nat \<times> nat list" where
  "counthash [] bins = (0, 0, bins)"
| "counthash (n # ns) bins =
     (if n_val n \<noteq> VNil
      then let (c, bins) = countint (n_key n) bins;
               (total, na, bins) = counthash ns bins
           in (total + 1, na + c, bins)
      else counthash ns bins)"

function bestasize_loop :: "nat list \<Rightarrow> nat \<Rightarrow> nat \<Rightarrow> nat \<Rightarrow> nat \<Rightarrow> nat \<Rightarrow> (nat \<times> nat) res" where
  "bestasize_loop bins nn b sm na sz =
     (if 2 ^ b < 2 * nn \<and> sm \<noteq> nn
      then rbind (in_range (b < length bins)) (\<lambda>_.
           let sm' = (if 0 < bins ! b then sm + bins ! b else sm)
           in if 0 < bins ! b \<and> 2 ^ b < 2 * sm'
              then bestasize_loop bins nn (Suc b) sm' sm' (2 * 2 ^ b + 1)
              else bestasize_loop bins nn (Suc b) sm' na sz)
      else Inr (na, sz))"
  by pat_completeness auto
termination
  by (relation "measure (\<lambda>(bins, nn, b, _). length bins - b)") auto

declare bestasize_loop.simps [simp del]

definition bestasize :: "nat list \<Rightarrow> nat \<Rightarrow> (nat \<times> nat) res" where
  "bestasize bins narray = bestasize_loop bins narray 0 0 0 0"

definition rehash_with :: "newkey \<Rightarrow> GCtab \<Rightarrow> TValue \<Rightarrow> GCtab res" where
  "rehash_with nk t ek =
     (let bins = replicate LJ_MAX_ABITS 0;
          (na1, bins) = countarray t bins;
          (th, nh, bins) = counthash (t_node t) bins;
          (ne, bins) = countint ek bins
      in rbind (bestasize bins (na1 + nh + ne)) (\<lambda>(na, nasize).
         let total = 1 + na1 + th - na
         in resize_with nk t nasize (hsize2hbits (word_of_nat total))))"

section \<open>Insertion\<close>

text \<open>\<^verbatim>\<open>do { if (freenode == nodebase) \<dots> } while (!tvisnil(&(--freenode)->key))\<close>.\<close>

fun find_free :: "node list \<Rightarrow> nat \<Rightarrow> nat option" where
  "find_free ns 0 = None"
| "find_free ns (Suc f) = (if n_key (ns ! f) = VNil then Some f else find_free ns f)"

text \<open>\<^verbatim>\<open>while (noderef(collide->next) != n) collide = nextnode(collide)\<close>.\<close>

fun find_pred :: "nat \<Rightarrow> node list \<Rightarrow> nat \<Rightarrow> nat \<Rightarrow> nat res" where
  "find_pred 0 ns n c = Inl Undef"
| "find_pred (Suc f) ns n c =
     rbind (in_range (c < length ns)) (\<lambda>_.
     if n_next (ns ! c) = Some n then Inr c
     else case n_next (ns ! c) of None \<Rightarrow> Inl Undef | Some d \<Rightarrow> find_pred f ns n d)"

text \<open>The loop that moves string keys whose main node is \<open>n\<close> back behind \<open>n\<close>.\<close>

fun rechain :: "nat \<Rightarrow> (TValue \<Rightarrow> nat) \<Rightarrow> nat \<Rightarrow> nat \<Rightarrow> node list \<Rightarrow> node list res" where
  "rechain 0 h n fr ns = Inl Undef"
| "rechain (Suc f) h n fr ns =
     (case n_next (ns ! fr) of
        None \<Rightarrow> Inr ns
      | Some nn \<Rightarrow>
          rbind (in_range (nn < length ns)) (\<lambda>_.
          if tvisstr (n_key (ns ! nn)) \<and> n_val (ns ! nn) \<noteq> VNil \<and> h (n_key (ns ! nn)) = n
          then let ns = ns[fr := (ns ! fr)\<lparr>n_next := n_next (ns ! nn)\<rparr>];
                   ns = ns[nn := (ns ! nn)\<lparr>n_next := n_next (ns ! n)\<rparr>];
                   ns = ns[n := (ns ! n)\<lparr>n_next := Some nn\<rparr>]
               in rechain f h n fr ns
          else rechain f h n nn ns))"

definition write_key :: "GCtab \<Rightarrow> nat \<Rightarrow> TValue \<Rightarrow> (GCtab \<times> slot) res" where
  "write_key t n key =
     (let key = (if key = VNum mzero then VNum 0 else key)
      in Inr (t\<lparr>t_node := (t_node t)[n := (t_node t ! n)\<lparr>n_key := key\<rparr>]\<rparr>, HSlot n))"

definition newkey_body :: "newkey \<Rightarrow> newkey" where
  "newkey_body nk t key =
     (let n = hashkey t key; ns = t_node t in
      if n_val (ns ! n) \<noteq> VNil \<or> t_hmask t = 0
      then case find_free ns (t_freetop t) of
             None \<Rightarrow> rbind (rehash_with nk t key) (\<lambda>t. set_with nk t key)
           | Some fr \<Rightarrow>
               let t = t\<lparr>t_freetop := fr\<rparr>; collide = hashkey t (n_key (ns ! n)) in
               if collide \<noteq> n
               then rbind (find_pred (length ns) ns n collide) (\<lambda>c.
                    let ns = ns[c := (ns ! c)\<lparr>n_next := Some fr\<rparr>];
                        ns = ns[fr := ns ! n];
                        ns = ns[n := (ns ! n)\<lparr>n_next := None, n_val := VNil\<rparr>]
                    in rbind (rechain (length ns) (hashkey t) n fr ns) (\<lambda>ns.
                       write_key (t\<lparr>t_node := ns\<rparr>) n key))
               else let ns = ns[fr := (ns ! fr)\<lparr>n_next := n_next (ns ! n)\<rparr>];
                        ns = ns[n := (ns ! n)\<lparr>n_next := Some fr\<rparr>]
                    in write_key (t\<lparr>t_node := ns\<rparr>) fr key
      else write_key t n key)"

fun newkey_fuel :: "nat \<Rightarrow> newkey" where
  "newkey_fuel 0 t key = Inl Undef"
| "newkey_fuel (Suc f) t key = newkey_body (newkey_fuel f) t key"

text \<open>
  An insertion rehashes at most once, since the resized table has room for everything it
  held and for the new key; two levels are enough.
\<close>

definition lj_tab_newkey :: newkey where "lj_tab_newkey = newkey_fuel 2"

definition lj_tab_setinth :: "GCtab \<Rightarrow> u32 \<Rightarrow> (GCtab \<times> slot) res" where
  "lj_tab_setinth = setinth_with lj_tab_newkey"

definition lj_tab_setstr :: "GCtab \<Rightarrow> gcstr \<Rightarrow> (GCtab \<times> slot) res" where
  "lj_tab_setstr = setstr_with lj_tab_newkey"

definition lj_tab_set :: "GCtab \<Rightarrow> TValue \<Rightarrow> (GCtab \<times> slot) res" where
  "lj_tab_set = set_with lj_tab_newkey"

definition lj_tab_resize :: "GCtab \<Rightarrow> nat \<Rightarrow> nat \<Rightarrow> GCtab res" where
  "lj_tab_resize = resize_with lj_tab_newkey"

definition lj_tab_rehash :: "GCtab \<Rightarrow> GCtab res" where
  "lj_tab_rehash t = rehash_with lj_tab_newkey t VNil"

definition lj_tab_reasize :: "GCtab \<Rightarrow> nat \<Rightarrow> GCtab res" where
  "lj_tab_reasize t nasize =
     lj_tab_resize t (nasize + 1) (if t_hmask t > 0 then lj_fls (t_hmask t) + 1 else 0)"

section \<open>Traversal\<close>

text \<open>
  The traversal index of a key: array indices first, then the hash slots.  The fallback
  for a despecialised \<^verbatim>\<open>ITERN\<close> reads the index from a control word.
\<close>

definition keyindex :: "GCtab \<Rightarrow> TValue \<Rightarrow> u32 res" where
  "keyindex t key =
     (let k = (case key of VNum nk \<Rightarrow> lj_num2int nk | _ \<Rightarrow> 0) in
      if (case key of VNum nk \<Rightarrow> unat k < asize t \<and> num_eq nk (int2num k) | _ \<Rightarrow> False)
      then Inr k
      else if key \<noteq> VNil
      then rbind (find_key t (\<lambda>k. lj_obj_equal k key) (hashkey t key)) (\<lambda>r.
           case r of
             Some n \<Rightarrow> Inr (word_of_nat (asize t) + word_of_nat n)
           | None \<Rightarrow>
               (case key of
                  VNum x \<Rightarrow> if num_hi x = 0xfffe7fff then Inr (num_lo x - 1)
                            else Inl (Throw LJ_ERR_NEXTIDX)
                | _ \<Rightarrow> Inl (Throw LJ_ERR_NEXTIDX)))
      else Inr (- 1))"

fun next_array :: "TValue list \<Rightarrow> nat \<Rightarrow> nat \<Rightarrow> (nat \<times> TValue) option" where
  "next_array array i 0 = None"
| "next_array array i (Suc f) =
     (if i < length array
      then if array ! i \<noteq> VNil then Some (i, array ! i) else next_array array (Suc i) f
      else None)"

fun next_hash :: "node list \<Rightarrow> nat \<Rightarrow> nat \<Rightarrow> (TValue \<times> TValue) option" where
  "next_hash ns i 0 = None"
| "next_hash ns i (Suc f) =
     (if i < length ns
      then if n_val (ns ! i) \<noteq> VNil then Some (n_key (ns ! i), n_val (ns ! i))
           else next_hash ns (Suc i) f
      else None)"

definition lj_tab_next :: "GCtab \<Rightarrow> TValue \<Rightarrow> (TValue \<times> TValue) option res" where
  "lj_tab_next t key =
     rbind (keyindex t key) (\<lambda>i.
     let i = unat (i + 1) in
     case next_array (t_array t) i (asize t - i) of
       Some (j, v) \<Rightarrow> Inr (Some (VNum (int2num (word_of_nat j)), v))
     | None \<Rightarrow> Inr (next_hash (t_node t) (max i (asize t) - asize t)
                     (unat (t_hmask t) + 1 - (max i (asize t) - asize t))))"

end
