(* ===== verification/TabChain.thy ===== *)
theory TabChain
  imports Tab
begin

text \<open>
  The node vector of a table's hash part: chains, the invariant that lookups rest on, and
  its preservation by the ways an insertion changes the vector.
\<close>

section \<open>Chains as lists of indices\<close>

text \<open>\<open>chain ns i xs\<close>: following \<^verbatim>\<open>next\<close> from node \<open>i\<close> visits \<open>xs\<close> and ends.\<close>

inductive chain :: "node list \<Rightarrow> nat \<Rightarrow> nat list \<Rightarrow> bool" for ns where
  last: "i < length ns \<Longrightarrow> n_next (ns ! i) = None \<Longrightarrow> chain ns i [i]"
| step: "i < length ns \<Longrightarrow> n_next (ns ! i) = Some k \<Longrightarrow> chain ns k xs \<Longrightarrow> chain ns i (i # xs)"

inductive_cases chain_NilE [elim!]: "chain ns i []"
inductive_cases chain_ConsE: "chain ns i (j # xs)"
inductive_simps chain_Nil [simp]: "chain ns i []"

lemma chain_Some: "chain ns i ys \<Longrightarrow> n_next (ns ! i) = Some k \<Longrightarrow> \<exists>zs. ys = i # zs \<and> chain ns k zs"
  by (erule chain.cases) simp_all

lemma chain_None: "chain ns i ys \<Longrightarrow> n_next (ns ! i) = None \<Longrightarrow> ys = [i]"
  by (erule chain.cases) simp_all

lemma chain_det: "chain ns i xs \<Longrightarrow> chain ns i ys \<Longrightarrow> xs = ys"
proof (induction arbitrary: ys rule: chain.induct)
  case (last i)
  then show ?case using chain_None by blast
next
  case (step i k xs)
  then show ?case using chain_Some by blast
qed

lemma chain_lt: "chain ns i xs \<Longrightarrow> j \<in> set xs \<Longrightarrow> j < length ns"
  by (induction rule: chain.induct) auto

lemma chain_start: "chain ns i xs \<Longrightarrow> i \<in> set xs"
  by (auto elim: chain.cases)

lemma chain_suffix:
  "chain ns i xs \<Longrightarrow> j \<in> set xs \<Longrightarrow> \<exists>as bs. xs = as @ j # bs \<and> chain ns j (j # bs)"
proof (induction rule: chain.induct)
  case (last i)
  then show ?case by (auto intro: chain.last intro!: exI [of _ "[]"])
next
  case (step i k xs)
  show ?case
  proof (cases "j = i")
    case True
    then show ?thesis using step
      by (intro exI [of _ "[]"] exI [of _ xs]) (simp add: chain.step)
  next
    case False
    then obtain as bs where "xs = as @ j # bs" "chain ns j (j # bs)" using step by auto
    then show ?thesis by (intro exI [of _ "i # as"] exI [of _ bs]) simp
  qed
qed

lemma chain_not_own_tail: "chain ns i (i # xs) \<Longrightarrow> i \<notin> set xs"
proof
  assume c: "chain ns i (i # xs)" and i: "i \<in> set xs"
  obtain k where "chain ns k xs" using c i by (auto elim: chain_ConsE)
  then obtain as bs where "xs = as @ i # bs" "chain ns i (i # bs)"
    using chain_suffix i by blast
  then have "i # xs = i # bs" using chain_det [OF c] by blast
  with \<open>xs = as @ i # bs\<close> have "length bs = length as + Suc (length bs)" by simp
  then show False by simp
qed

lemma chain_distinct: "chain ns i xs \<Longrightarrow> distinct xs"
proof (induction rule: chain.induct)
  case (step i k xs)
  then have "chain ns i (i # xs)" by (auto intro: chain.step)
  then show ?case using chain_not_own_tail step by auto
qed simp

lemma chain_length: "chain ns i xs \<Longrightarrow> length xs \<le> length ns"
proof -
  assume c: "chain ns i xs"
  have "set xs \<subseteq> {..<length ns}" using chain_lt [OF c] by auto
  then have "card (set xs) \<le> length ns" by (metis card_lessThan card_mono finite_lessThan)
  then show ?thesis using distinct_card [OF chain_distinct [OF c]] by simp
qed

lemma chain_cong:
  assumes "chain ns i xs" "length ns' = length ns" "\<And>j. j \<in> set xs \<Longrightarrow> n_next (ns' ! j) = n_next (ns ! j)"
  shows "chain ns' i xs"
  using assms(1,3)
proof (induction rule: chain.induct)
  case (last i)
  then show ?case using assms(2) by (auto intro: chain.last)
next
  case (step i k xs)
  then show ?case using assms(2) by (intro chain.step) auto
qed

text \<open>Renaming nodes carries chains along.\<close>

lemma chain_rename:
  assumes "chain ns i xs"
    and "\<And>j. j < length ns \<Longrightarrow> f j < length ns' \<and> n_next (ns' ! f j) = map_option f (n_next (ns ! j))"
  shows "chain ns' (f i) (map f xs)"
  using assms(1)
proof (induction rule: chain.induct)
  case (last i)
  then show ?case using assms(2) by (auto intro: chain.last)
next
  case (step i k xs)
  then show ?case using assms(2) [of i] by (auto intro: chain.step)
qed

text \<open>Inserting the node \<open>f\<close> behind \<open>n\<close>.\<close>

definition ins :: "nat \<Rightarrow> nat \<Rightarrow> nat list \<Rightarrow> nat list" where
  "ins n f xs = concat (map (\<lambda>x. if x = n then [n, f] else [x]) xs)"

lemma ins_simps [simp]: "ins n f [] = []" "ins n f (x # xs) = (if x = n then [n, f] else [x]) @ ins n f xs"
  by (simp_all add: ins_def)

lemma set_ins: "set (ins n f xs) = set xs \<union> (if n \<in> set xs then {f} else {})"
  by (induction xs) auto

lemma chain_insert:
  assumes "chain ns i xs" "length ns' = length ns" "f < length ns" "f \<noteq> n" "f \<notin> set xs"
    and n: "n_next (ns' ! n) = Some f" and f: "n_next (ns' ! f) = n_next (ns ! n)"
    and o: "\<And>j. j \<noteq> n \<Longrightarrow> j \<noteq> f \<Longrightarrow> n_next (ns' ! j) = n_next (ns ! j)"
  shows "chain ns' i (ins n f xs)"
  using assms(1,5)
proof (induction rule: chain.induct)
  case (last i)
  show ?case
  proof (cases "i = n")
    case True
    then show ?thesis using last assms(2-4) n f by (auto intro!: chain.last chain.step [where k = f])
  next
    case False
    then show ?thesis using last assms(2) o [of i] by (auto intro: chain.last)
  qed
next
  case (step i k xs)
  then have IH: "chain ns' k (ins n f xs)" by simp
  show ?case
  proof (cases "i = n")
    case True
    then have "chain ns' f (f # ins n f xs)" using step assms(2,3) f IH by (auto intro: chain.step)
    then show ?thesis using True step assms(2) n by (auto intro: chain.step)
  next
    case False
    then show ?thesis using step assms(2) o [of i] IH by (auto intro: chain.step)
  qed
qed

section \<open>Searching a chain\<close>

lemma find_SomeD: "List.find P xs = Some x \<Longrightarrow> x \<in> set xs \<and> P x"
  by (induction xs) (auto split: if_splits)

lemma chain_find_eq:
  "chain ns i xs \<Longrightarrow> length xs \<le> fuel \<Longrightarrow>
   chain_find fuel P ns i = Inr (List.find (\<lambda>j. P (n_key (ns ! j))) xs)"
proof (induction arbitrary: fuel rule: chain.induct)
  case (last i)
  then show ?case by (cases fuel) auto
next
  case (step i k xs)
  then show ?case by (cases fuel) auto
qed

lemma find_pred_eq:
  "chain ns i xs \<Longrightarrow> length xs \<le> fuel \<Longrightarrow> n \<in> set xs \<Longrightarrow> n \<noteq> i \<Longrightarrow>
   \<exists>c. find_pred fuel ns n i = Inr c \<and> c < length ns \<and> n_next (ns ! c) = Some n"
proof (induction arbitrary: fuel rule: chain.induct)
  case (step i k xs)
  then obtain fuel' where fuel: "fuel = Suc fuel'" by (cases fuel) auto
  show ?case
  proof (cases "k = n")
    case True
    then show ?thesis using step fuel by auto
  next
    case False
    then show ?thesis using step fuel by auto
  qed
qed simp

lemma rechain_eq:
  assumes "chain ns i xs" "length xs \<le> fuel" "\<And>j. j \<in> set xs \<Longrightarrow> j \<noteq> i \<Longrightarrow> h (n_key (ns ! j)) \<noteq> n"
  shows "rechain fuel h n i ns = Inr ns"
  using assms
proof (induction arbitrary: fuel rule: chain.induct)
  case (last i)
  then show ?case by (cases fuel) auto
next
  case (step i k xs)
  then obtain fuel' where fuel: "fuel = Suc fuel'" by (cases fuel) auto
  have c: "chain ns i (i # xs)" using step by (auto intro: chain.step)
  then have "k \<noteq> i" using chain_not_own_tail chain_start step.hyps(3) by metis
  then show ?case using step fuel chain_start [OF step.hyps(3)] chain_lt [OF step.hyps(3)]
      chain_not_own_tail [OF c] by (auto intro!: step.IH)
qed

lemma find_free_Some:
  "find_free ns f = Some i \<Longrightarrow> i < f \<and> n_key (ns ! i) = VNil \<and> (\<forall>j. i < j \<longrightarrow> j < f \<longrightarrow> n_key (ns ! j) \<noteq> VNil)"
  by (induction f) (auto split: if_splits simp: less_Suc_eq)

lemma find_free_None: "find_free ns f = None \<longleftrightarrow> (\<forall>j < f. n_key (ns ! j) \<noteq> VNil)"
  by (induction f) (auto simp: less_Suc_eq)

section \<open>The node invariant\<close>

text \<open>
  Chains end; no two nodes have the same successor; a free node has no successor, no value
  and is no one's successor; a used node is on the chain that starts at the main position
  of its key; keys are distinct; and behind a node that holds the key of another chain
  there is no key whose main position is that node.
\<close>

definition chains_end :: "node list \<Rightarrow> bool" where
  "chains_end ns \<longleftrightarrow> (\<forall>i < length ns. \<exists>xs. chain ns i xs)"

definition next_inj :: "node list \<Rightarrow> bool" where
  "next_inj ns \<longleftrightarrow> (\<forall>i < length ns. \<forall>j < length ns. \<forall>k.
     n_next (ns ! i) = Some k \<longrightarrow> n_next (ns ! j) = Some k \<longrightarrow> i = j)"

definition next_used :: "node list \<Rightarrow> bool" where
  "next_used ns \<longleftrightarrow> (\<forall>i < length ns. \<forall>k. n_next (ns ! i) = Some k \<longrightarrow> n_key (ns ! k) \<noteq> VNil)"

definition free_blank :: "node list \<Rightarrow> bool" where
  "free_blank ns \<longleftrightarrow> (\<forall>i < length ns. n_key (ns ! i) = VNil \<longrightarrow>
     n_next (ns ! i) = None \<and> n_val (ns ! i) = VNil)"

definition anchored :: "(TValue \<Rightarrow> nat) \<Rightarrow> node list \<Rightarrow> bool" where
  "anchored h ns \<longleftrightarrow> (\<forall>i < length ns. n_key (ns ! i) \<noteq> VNil \<longrightarrow>
     (\<exists>xs. chain ns (h (n_key (ns ! i))) xs \<and> i \<in> set xs))"

definition keys_distinct :: "node list \<Rightarrow> bool" where
  "keys_distinct ns \<longleftrightarrow> (\<forall>i < length ns. \<forall>j < length ns.
     n_key (ns ! i) = n_key (ns ! j) \<longrightarrow> n_key (ns ! i) \<noteq> VNil \<longrightarrow> i = j)"

definition foreign_ok :: "(TValue \<Rightarrow> nat) \<Rightarrow> node list \<Rightarrow> bool" where
  "foreign_ok h ns \<longleftrightarrow> (\<forall>i < length ns. \<forall>j xs.
     n_key (ns ! i) \<noteq> VNil \<longrightarrow> h (n_key (ns ! i)) \<noteq> i \<longrightarrow>
     chain ns i xs \<longrightarrow> j \<in> set xs \<longrightarrow> h (n_key (ns ! j)) \<noteq> i)"

definition nodes_ok :: "(TValue \<Rightarrow> nat) \<Rightarrow> node list \<Rightarrow> bool" where
  "nodes_ok h ns \<longleftrightarrow> chains_end ns \<and> next_inj ns \<and> next_used ns \<and> free_blank ns \<and>
     anchored h ns \<and> keys_distinct ns \<and> foreign_ok h ns"

lemma nodes_chain: "nodes_ok h ns \<Longrightarrow> i < length ns \<Longrightarrow> \<exists>xs. chain ns i xs"
  by (simp add: nodes_ok_def chains_end_def)

lemma nodes_inj:
  assumes "nodes_ok h ns" "i < length ns" "j < length ns" "n_next (ns ! i) = Some k"
    "n_next (ns ! j) = Some k"
  shows "i = j"
  using assms unfolding nodes_ok_def next_inj_def by blast

lemma nodes_used: "nodes_ok h ns \<Longrightarrow> i < length ns \<Longrightarrow> n_next (ns ! i) = Some k \<Longrightarrow> n_key (ns ! k) \<noteq> VNil"
  unfolding nodes_ok_def next_used_def by blast

lemma nodes_free: "nodes_ok h ns \<Longrightarrow> i < length ns \<Longrightarrow> n_key (ns ! i) = VNil \<Longrightarrow>
    n_next (ns ! i) = None \<and> n_val (ns ! i) = VNil"
  unfolding nodes_ok_def free_blank_def by blast

lemma nodes_anchor: "nodes_ok h ns \<Longrightarrow> i < length ns \<Longrightarrow> n_key (ns ! i) \<noteq> VNil \<Longrightarrow>
    \<exists>xs. chain ns (h (n_key (ns ! i))) xs \<and> i \<in> set xs"
  unfolding nodes_ok_def anchored_def by blast

lemma nodes_dist:
  assumes "nodes_ok h ns" "i < length ns" "j < length ns" "n_key (ns ! i) = n_key (ns ! j)"
    "n_key (ns ! i) \<noteq> VNil"
  shows "i = j"
  using assms unfolding nodes_ok_def keys_distinct_def by blast

lemma nodes_foreign:
  assumes "nodes_ok h ns" "i < length ns" "n_key (ns ! i) \<noteq> VNil" "h (n_key (ns ! i)) \<noteq> i"
    "chain ns i xs" "j \<in> set xs"
  shows "h (n_key (ns ! j)) \<noteq> i"
  using assms unfolding nodes_ok_def foreign_ok_def by blast

text \<open>A free node is on no chain but its own, and no key has it as its main position.\<close>

lemma nodes_free_chain:
  assumes "chain ns i xs" "nodes_ok h ns" "f \<in> set xs" "n_key (ns ! f) = VNil"
  shows "i = f"
  using assms
proof (induction rule: chain.induct)
  case (step i k xs)
  have "k \<noteq> f" using nodes_used [OF step.prems(1) step.hyps(1,2)] step.prems(3) by auto
  then show ?case using step by auto
qed simp

lemma nodes_free_anchor:
  assumes ok: "nodes_ok h ns" and "f < length ns" "n_key (ns ! f) = VNil" "i < length ns"
    "n_key (ns ! i) \<noteq> VNil"
  shows "h (n_key (ns ! i)) \<noteq> f"
proof
  assume "h (n_key (ns ! i)) = f"
  then obtain xs where "chain ns f xs" "i \<in> set xs" using nodes_anchor [OF ok assms(4,5)] by auto
  moreover have "n_next (ns ! f) = None" using nodes_free [OF ok assms(2,3)] by simp
  ultimately have "xs = [f]" using chain_None by blast
  with \<open>i \<in> set xs\<close> assms show False by simp
qed

text \<open>The map a node vector stands for: the value at the key, or nil.\<close>

definition node_map :: "node list \<Rightarrow> TValue \<Rightarrow> TValue" where
  "node_map ns k =
     (case List.find (\<lambda>i. n_key (ns ! i) = k) [0 ..< length ns] of
        None \<Rightarrow> VNil
      | Some i \<Rightarrow> n_val (ns ! i))"

lemma node_map_in:
  assumes "nodes_ok h ns" "i < length ns" "n_key (ns ! i) = k" "k \<noteq> VNil"
  shows "node_map ns k = n_val (ns ! i)"
proof -
  obtain j where j: "List.find (\<lambda>i. n_key (ns ! i) = k) [0 ..< length ns] = Some j"
    using assms(2,3) by (cases "List.find (\<lambda>i. n_key (ns ! i) = k) [0 ..< length ns]")
      (auto simp: find_None_iff)
  then have "j < length ns" "n_key (ns ! j) = k" using find_SomeD [OF j] by auto
  then have "j = i" using assms(2-4) by (intro nodes_dist [OF assms(1)]) simp_all
  then show ?thesis using j by (simp add: node_map_def)
qed

lemma node_map_out: "(\<And>i. i < length ns \<Longrightarrow> n_key (ns ! i) \<noteq> k) \<Longrightarrow> node_map ns k = VNil"
proof -
  assume "\<And>i. i < length ns \<Longrightarrow> n_key (ns ! i) \<noteq> k"
  then have "List.find (\<lambda>i. n_key (ns ! i) = k) [0 ..< length ns] = None"
    by (auto simp: find_None_iff)
  then show ?thesis by (simp add: node_map_def)
qed

text \<open>Looking a key up from its main position finds its node, if there is one.\<close>

lemma chain_find_key:
  assumes "nodes_ok h ns" "h k < length ns" "k \<noteq> VNil"
    and P: "\<And>i. i < length ns \<Longrightarrow> P (n_key (ns ! i)) \<longleftrightarrow> n_key (ns ! i) = k"
  shows "(\<exists>i < length ns. chain_find (length ns) P ns (h k) = Inr (Some i) \<and> n_key (ns ! i) = k) \<or>
    (chain_find (length ns) P ns (h k) = Inr None \<and> (\<forall>i < length ns. n_key (ns ! i) \<noteq> k))"
proof -
  obtain xs where xs: "chain ns (h k) xs" using nodes_chain [OF assms(1,2)] by blast
  have eq: "chain_find (length ns) P ns (h k) = Inr (List.find (\<lambda>j. P (n_key (ns ! j))) xs)"
    using chain_find_eq [OF xs chain_length [OF xs]] .
  show ?thesis
  proof (cases "List.find (\<lambda>j. P (n_key (ns ! j))) xs")
    case None
    have "n_key (ns ! i) \<noteq> k" if i: "i < length ns" for i
    proof
      assume k: "n_key (ns ! i) = k"
      then obtain ys where ys: "chain ns (h k) ys" "i \<in> set ys"
        using nodes_anchor [OF assms(1) i] assms(3) by auto
      then have "i \<in> set xs" using chain_det [OF xs ys(1)] by simp
      then show False using None P [OF i] k by (auto simp: find_None_iff)
    qed
    then show ?thesis using eq None by simp
  next
    case (Some i)
    then have "i \<in> set xs" and Pi: "P (n_key (ns ! i))" using find_SomeD [OF Some] by auto
    then have "i < length ns" using chain_lt [OF xs] by blast
    moreover from this have "n_key (ns ! i) = k" using P Pi by blast
    ultimately show ?thesis using eq Some by (intro disjI1 exI [of _ i]) simp
  qed
qed

lemma node_map_eqI:
  assumes ok: "nodes_ok h ns" "nodes_ok h' ns'"
    and 1: "\<And>i. i < length ns \<Longrightarrow> n_key (ns ! i) \<noteq> VNil \<Longrightarrow> n_val (ns ! i) \<noteq> VNil \<Longrightarrow>
      \<exists>j < length ns'. n_key (ns' ! j) = n_key (ns ! i) \<and> n_val (ns' ! j) = n_val (ns ! i)"
    and 2: "\<And>i. i < length ns' \<Longrightarrow> n_key (ns' ! i) \<noteq> VNil \<Longrightarrow> n_val (ns' ! i) \<noteq> VNil \<Longrightarrow>
      \<exists>j < length ns. n_key (ns ! j) = n_key (ns' ! i) \<and> n_val (ns ! j) = n_val (ns' ! i)"
  shows "node_map ns = node_map ns'"
proof
  fix k
  have sym: "node_map ms k = node_map ms' k"
    if ok: "nodes_ok g ms" "nodes_ok g' ms'" and nn: "node_map ms k \<noteq> VNil"
      and 1: "\<And>i. i < length ms \<Longrightarrow> n_key (ms ! i) \<noteq> VNil \<Longrightarrow> n_val (ms ! i) \<noteq> VNil \<Longrightarrow>
        \<exists>j < length ms'. n_key (ms' ! j) = n_key (ms ! i) \<and> n_val (ms' ! j) = n_val (ms ! i)"
    for g g' ms ms'
  proof -
    obtain i where f: "List.find (\<lambda>i. n_key (ms ! i) = k) [0 ..< length ms] = Some i"
      using nn by (cases "List.find (\<lambda>i. n_key (ms ! i) = k) [0 ..< length ms]")
        (auto simp: node_map_def)
    then have i: "i < length ms" "n_key (ms ! i) = k" using find_SomeD [OF f] by auto
    have v: "node_map ms k = n_val (ms ! i)" using f by (simp add: node_map_def)
    then have k: "k \<noteq> VNil" using nn nodes_free [OF ok(1) i(1)] i(2) by auto
    then obtain j where "j < length ms'" "n_key (ms' ! j) = k" "n_val (ms' ! j) = n_val (ms ! i)"
      using 1 [OF i(1)] i(2) v nn by auto
    then show ?thesis using node_map_in [OF ok(2) _ _ k] v by simp
  qed
  show "node_map ns k = node_map ns' k"
  proof (cases "node_map ns k = VNil")
    case True
    then show ?thesis using sym [OF ok(2,1) _ 2] by (cases "node_map ns' k = VNil") auto
  next
    case False
    then show ?thesis by (rule sym [OF ok _ 1])
  qed
qed

section \<open>Writing the key into its main position\<close>

lemma nodes_write:
  assumes ok: "nodes_ok h ns" and n: "n < length ns" "n_val (ns ! n) = VNil"
    and k: "h k = n" "k \<noteq> VNil" "\<forall>i < length ns. n_key (ns ! i) \<noteq> k"
  defines "ns' \<equiv> ns[n := (ns ! n)\<lparr>n_key := k\<rparr>]"
  shows "nodes_ok h ns'" "node_map ns' = node_map ns"
proof -
  have len [simp]: "length ns' = length ns" by (simp add: ns'_def)
  have nx [simp]: "i < length ns \<Longrightarrow> n_next (ns' ! i) = n_next (ns ! i)" for i
    using n(1) by (cases "i = n") (simp_all add: ns'_def)
  have vl [simp]: "i < length ns \<Longrightarrow> n_val (ns' ! i) = n_val (ns ! i)" for i
    using n(1) by (cases "i = n") (simp_all add: ns'_def)
  have ky: "n_key (ns' ! i) = (if i = n then k else n_key (ns ! i))" for i
    using n(1) by (cases "i = n") (simp_all add: ns'_def)
  have ch: "chain ns' i xs = chain ns i xs" for i xs
    using chain_cong [of ns i xs ns'] chain_cong [of ns' i xs ns] chain_lt [of ns i xs]
      chain_lt [of ns' i xs] by auto
  have "chains_end ns'" using nodes_chain [OF ok] by (simp add: chains_end_def ch)
  moreover have "next_inj ns'" using nodes_inj [OF ok] by (auto simp: next_inj_def)
  moreover have "next_used ns'" using nodes_used [OF ok] k(2) by (auto simp: next_used_def ky)
  moreover have "free_blank ns'" using nodes_free [OF ok] k(2) by (auto simp: free_blank_def ky)
  moreover have "anchored h ns'"
    unfolding anchored_def
  proof (intro allI impI)
    fix i assume i: "i < length ns'" "n_key (ns' ! i) \<noteq> VNil"
    obtain xs where "chain ns n xs" using nodes_chain [OF ok n(1)] by blast
    then show "\<exists>xs. chain ns' (h (n_key (ns' ! i))) xs \<and> i \<in> set xs"
      using i nodes_anchor [OF ok, of i] chain_start k(1) by (auto simp: ky ch)
  qed
  moreover have "keys_distinct ns'"
    unfolding keys_distinct_def
  proof (intro allI impI)
    fix i j assume ij: "i < length ns'" "j < length ns'" "n_key (ns' ! i) = n_key (ns' ! j)"
      "n_key (ns' ! i) \<noteq> VNil"
    then show "i = j"
      using nodes_dist [OF ok, of i j] k(3) by (auto simp: ky split: if_splits)
  qed
  moreover have "foreign_ok h ns'"
    unfolding foreign_ok_def
  proof (intro allI impI)
    fix i j xs
    assume i: "i < length ns'" "n_key (ns' ! i) \<noteq> VNil" "h (n_key (ns' ! i)) \<noteq> i"
      "chain ns' i xs" "j \<in> set xs"
    then have "i \<noteq> n" using k(1) by (auto simp: ky)
    then show "h (n_key (ns' ! j)) \<noteq> i"
      using i nodes_foreign [OF ok, of i xs j] k(1) by (auto simp: ky ch)
  qed
  ultimately show ok': "nodes_ok h ns'" by (simp add: nodes_ok_def)
  show "node_map ns' = node_map ns"
    by (rule node_map_eqI [OF ok' ok]) (use n(2) in \<open>auto simp: ky split: if_splits\<close>)
qed

section \<open>Putting the key into a free node behind its main position\<close>

lemma nodes_append:
  assumes ok: "nodes_ok h ns" and n: "n < length ns" "n_key (ns ! n) \<noteq> VNil" "h (n_key (ns ! n)) = n"
    and f: "f < length ns" "n_key (ns ! f) = VNil"
    and k: "h k = n" "k \<noteq> VNil" "\<forall>i < length ns. n_key (ns ! i) \<noteq> k"
    and len: "length ns' = length ns"
    and at_n: "ns' ! n = (ns ! n)\<lparr>n_next := Some f\<rparr>"
    and at_f: "ns' ! f = \<lparr>n_key = k, n_val = VNil, n_next = n_next (ns ! n)\<rparr>"
    and other: "\<forall>i. i \<noteq> n \<longrightarrow> i \<noteq> f \<longrightarrow> ns' ! i = ns ! i"
  shows "nodes_ok h ns'" "node_map ns' = node_map ns"
proof -
  have fn: "f \<noteq> n" using n f by auto
  have nx: "n_next (ns' ! i) = (if i = n then Some f else if i = f then n_next (ns ! n) else n_next (ns ! i))" for i
    using fn by (simp add: at_n at_f other)
  have ky: "n_key (ns' ! i) = (if i = f then k else n_key (ns ! i))" for i
    using fn by (cases "i = n") (simp_all add: at_n at_f other)
  have vl: "n_val (ns' ! i) = n_val (ns ! i)" if "i < length ns" for i
    using fn nodes_free [OF ok f] by (cases "i = n"; cases "i = f") (simp_all add: at_n at_f other)
  have f_next: "n_next (ns ! f) = None" using nodes_free [OF ok f] by simp
  have ins: "chain ns' i (ins n f xs)" if "chain ns i xs" "i \<noteq> f" for i xs
  proof (rule chain_insert [OF that(1) len f(1) fn])
    show "f \<notin> set xs" using nodes_free_chain [OF that(1) ok _ f(2)] that(2) by blast
  qed (simp_all add: nx fn)
  obtain ts where ts: "chain ns n (n # ts)"
  proof -
    obtain xs where "chain ns n xs" using nodes_chain [OF ok n(1)] by blast
    then show ?thesis using that by (auto elim: chain.cases)
  qed
  have f_ts: "f \<notin> set (n # ts)" using nodes_free_chain [OF ts ok _ f(2)] fn by blast
  have "ins n f ts = ts" if "n \<notin> set ts" for ts using that by (induction ts) auto
  then have "chain ns' n (n # f # ts)"
    using ins [OF ts] fn chain_not_own_tail [OF ts] by simp
  then have cf: "chain ns' f (f # ts)"
    using chain_Some [of ns' n "n # f # ts" f] by (simp add: nx)
  have c': "\<exists>xs. chain ns i xs \<and> ys = ins n f xs"
    if c: "chain ns' i ys" and i: "i < length ns" and nf: "i \<noteq> f" for i ys
  proof -
    obtain xs where "chain ns i xs" using nodes_chain [OF ok i] by blast
    then show ?thesis using ins [OF _ nf] chain_det [OF c] by blast
  qed
  have "chains_end ns'"
    unfolding chains_end_def
  proof (intro allI impI)
    fix i assume "i < length ns'"
    then show "\<exists>xs. chain ns' i xs"
      using nodes_chain [OF ok, of i] ins [of i] cf len by (cases "i = f") auto
  qed
  moreover have "next_inj ns'"
    unfolding next_inj_def
  proof (intro allI impI)
    fix i j l assume ij: "i < length ns'" "j < length ns'" "n_next (ns' ! i) = Some l" "n_next (ns' ! j) = Some l"
    have nf: "n_next (ns ! i) \<noteq> Some f" if "i < length ns" for i
      using nodes_used [OF ok that, of f] f(2) by auto
    show "i = j"
      using ij nodes_inj [OF ok, of i j l] nodes_inj [OF ok, of i n l] nodes_inj [OF ok, of n j l]
        nf [of i] nf [of j] nf [OF n(1)] n(1) len fn by (auto simp: nx split: if_splits)
  qed
  moreover have "next_used ns'"
    using nodes_used [OF ok] n(1) k(2) len by (auto simp: next_used_def nx ky)
  moreover have "free_blank ns'"
    using nodes_free [OF ok] n(2) k(2) len vl by (auto simp: free_blank_def nx ky)
  moreover have "anchored h ns'"
    unfolding anchored_def
  proof (intro allI impI)
    fix i assume i: "i < length ns'" "n_key (ns' ! i) \<noteq> VNil"
    show "\<exists>xs. chain ns' (h (n_key (ns' ! i))) xs \<and> i \<in> set xs"
    proof (cases "i = f")
      case True
      then show ?thesis using \<open>chain ns' n (n # f # ts)\<close> k(1)
        by (intro exI [of _ "n # f # ts"]) (simp add: ky)
    next
      case False
      then have ki: "n_key (ns' ! i) = n_key (ns ! i)" "n_key (ns ! i) \<noteq> VNil" using i(2) by (simp_all add: ky)
      obtain xs where xs: "chain ns (h (n_key (ns ! i))) xs" "i \<in> set xs"
        using nodes_anchor [OF ok _ ki(2)] i(1) len by auto
      have "h (n_key (ns ! i)) \<noteq> f" using nodes_free_anchor [OF ok f _ ki(2)] i(1) len by simp
      then show ?thesis using ins [OF xs(1)] xs(2) ki by (auto simp: set_ins)
    qed
  qed
  moreover have "keys_distinct ns'"
    unfolding keys_distinct_def
  proof (intro allI impI)
    fix i j assume ij: "i < length ns'" "j < length ns'" "n_key (ns' ! i) = n_key (ns' ! j)"
      "n_key (ns' ! i) \<noteq> VNil"
    then show "i = j"
      using nodes_dist [OF ok, of i j] k(3) len by (auto simp: ky split: if_splits)
  qed
  moreover have "foreign_ok h ns'"
    unfolding foreign_ok_def
  proof (intro allI impI)
    fix i j xs
    assume i: "i < length ns'" "n_key (ns' ! i) \<noteq> VNil" "h (n_key (ns' ! i)) \<noteq> i"
      and c: "chain ns' i xs" and j: "j \<in> set xs"
    show "h (n_key (ns' ! j)) \<noteq> i"
    proof (cases "i = f")
      case True
      have "j \<in> set (f # ts)" using c j chain_det [OF cf] True by auto
      moreover have "h (n_key (ns ! j)) \<noteq> f" if "j \<in> set ts"
      proof (rule nodes_free_anchor [OF ok f])
        show "j < length ns" using chain_lt [OF ts] that by simp
        show "n_key (ns ! j) \<noteq> VNil" using nodes_free_chain [OF ts ok, of j] that n(2) by auto
      qed
      ultimately show ?thesis using True k(1) fn f_ts by (auto simp: ky)
    next
      case False
      then obtain ys where ys: "chain ns i ys" "xs = ins n f ys" using c' [OF c] i(1) len by auto
      have "h (n_key (ns ! l)) \<noteq> i" if "l \<in> set ys" for l
        using nodes_foreign [OF ok _ _ _ ys(1) that] i len False by (simp add: ky)
      moreover have "i \<noteq> n" using i(3) n(3) False by (auto simp: ky)
      ultimately show ?thesis using j k(1) by (auto simp: ys(2) set_ins ky split: if_splits)
    qed
  qed
  ultimately show ok': "nodes_ok h ns'" by (simp add: nodes_ok_def)
  show "node_map ns' = node_map ns"
  proof (rule node_map_eqI [OF ok' ok])
    fix i assume i: "i < length ns'" "n_key (ns' ! i) \<noteq> VNil" "n_val (ns' ! i) \<noteq> VNil"
    then have "i \<noteq> f" by (auto simp: at_f)
    then show "\<exists>j < length ns. n_key (ns ! j) = n_key (ns' ! i) \<and> n_val (ns ! j) = n_val (ns' ! i)"
      using i len vl by (auto simp: ky)
  next
    fix i assume i: "i < length ns" "n_key (ns ! i) \<noteq> VNil" "n_val (ns ! i) \<noteq> VNil"
    then have "i \<noteq> f" using f(2) by auto
    then show "\<exists>j < length ns'. n_key (ns' ! j) = n_key (ns ! i) \<and> n_val (ns' ! j) = n_val (ns ! i)"
      using i len vl by (auto simp: ky)
  qed
qed

section \<open>Moving a foreign key out of the main position\<close>

definition swp :: "nat \<Rightarrow> nat \<Rightarrow> nat \<Rightarrow> nat" where
  "swp n f i = (if i = n then f else if i = f then n else i)"

lemma swp_swp [simp]: "swp n f (swp n f i) = i"
  by (simp add: swp_def)

lemma nodes_move:
  assumes ok: "nodes_ok h ns" and n: "n < length ns" "n_key (ns ! n) \<noteq> VNil" "h (n_key (ns ! n)) \<noteq> n"
    and f: "f < length ns" "n_key (ns ! f) = VNil"
    and c: "c < length ns" "n_next (ns ! c) = Some n"
    and len: "length ns' = length ns"
    and at_n: "ns' ! n = blank_node"
    and at_f: "ns' ! f = ns ! n"
    and at_c: "ns' ! c = (ns ! c)\<lparr>n_next := Some f\<rparr>"
    and other: "\<forall>i. i \<noteq> n \<longrightarrow> i \<noteq> f \<longrightarrow> i \<noteq> c \<longrightarrow> ns' ! i = ns ! i"
  shows "nodes_ok h ns'" "node_map ns' = node_map ns"
    "chain ns n xs \<Longrightarrow> chain ns' f (map (swp n f) xs)"
proof -
  let ?s = "swp n f"
  have fn: "f \<noteq> n" using n f by auto
  have f_blank: "n_next (ns ! f) = None" "n_val (ns ! f) = VNil" using nodes_free [OF ok f] by simp_all
  obtain ts where ts: "chain ns n (n # ts)"
  proof -
    obtain xs where "chain ns n xs" using nodes_chain [OF ok n(1)] by blast
    then show ?thesis using that by (auto elim: chain.cases)
  qed
  have cn: "c \<noteq> n"
  proof
    assume "c = n"
    then have "n \<in> set ts" using ts c(2) chain_Some [OF ts] chain_start by auto
    then show False using chain_not_own_tail [OF ts] by simp
  qed
  have cf: "c \<noteq> f" using f_blank c by auto
  have next_n: "n_next (ns ! n) \<noteq> Some n" using nodes_inj [OF ok n(1) c(1) _ c(2)] cn by auto
  have next_f: "i < length ns \<Longrightarrow> n_next (ns ! i) \<noteq> Some f" for i
    using nodes_used [OF ok, of i f] f(2) by auto
  have slt: "i < length ns \<Longrightarrow> ?s i < length ns" for i using n(1) f(1) by (simp add: swp_def)
  have ky: "i < length ns \<Longrightarrow> n_key (ns' ! ?s i) = n_key (ns ! i)" for i
    using fn cn cf f f_blank by (cases "i = c") (auto simp: swp_def at_n at_f at_c other blank_node_def)
  have vl: "i < length ns \<Longrightarrow> n_val (ns' ! ?s i) = n_val (ns ! i)" for i
    using fn cn cf f f_blank by (cases "i = c") (auto simp: swp_def at_n at_f at_c other blank_node_def)
  have nx: "n_next (ns' ! ?s i) = map_option ?s (n_next (ns ! i))" if i: "i < length ns" for i
  proof (cases "i = c")
    case True
    then show ?thesis using cn cf c by (simp add: swp_def at_c)
  next
    case False
    have "n_next (ns ! i) \<noteq> Some n" using nodes_inj [OF ok i c(1) _ c(2)] False by auto
    then have "map_option ?s (n_next (ns ! i)) = n_next (ns ! i)"
      using next_f [OF i] by (cases "n_next (ns ! i)") (auto simp: swp_def)
    then show ?thesis using fn False f_blank
      by (auto simp: swp_def at_n at_f other blank_node_def)
  qed
  have ch: "chain ns' (?s i) (map ?s xs)" if "chain ns i xs" for i xs
    using that by (rule chain_rename) (simp add: len slt nx)
  have ch': "\<exists>ys. chain ns (?s i) ys \<and> xs = map ?s ys" if c: "chain ns' i xs" and i: "i < length ns" for i xs
  proof -
    obtain ys where ys: "chain ns (?s i) ys" using nodes_chain [OF ok slt [OF i]] by blast
    then show ?thesis using ch [OF ys] chain_det [OF c] by auto
  qed
  have ky': "i < length ns \<Longrightarrow> n_key (ns' ! i) = n_key (ns ! ?s i)" for i
    using ky [of "?s i"] slt by simp
  have vl': "i < length ns \<Longrightarrow> n_val (ns' ! i) = n_val (ns ! ?s i)" for i
    using vl [of "?s i"] slt by simp
  have nx': "i < length ns \<Longrightarrow> n_next (ns' ! i) = map_option ?s (n_next (ns ! ?s i))" for i
    using nx [of "?s i"] slt by simp
  have inj: "?s i = ?s j \<longleftrightarrow> i = j" for i j by (metis swp_swp)
  have none_n: "h (n_key (ns ! i)) \<noteq> n" if i: "i < length ns" "n_key (ns ! i) \<noteq> VNil" for i
  proof
    assume "h (n_key (ns ! i)) = n"
    then obtain xs where "chain ns n xs" "i \<in> set xs" using nodes_anchor [OF ok i] by auto
    then show False using nodes_foreign [OF ok n(1,2,3)] \<open>h (n_key (ns ! i)) = n\<close> by blast
  qed
  have anchor_fix: "?s (h (n_key (ns ! i))) = h (n_key (ns ! i))" if "i < length ns" "n_key (ns ! i) \<noteq> VNil" for i
    using none_n [OF that] nodes_free_anchor [OF ok f that] by (simp add: swp_def)
  have "chains_end ns'"
    unfolding chains_end_def
  proof (intro allI impI)
    fix i assume "i < length ns'"
    then obtain xs where "chain ns (?s i) xs" using nodes_chain [OF ok slt] len by auto
    then show "\<exists>xs. chain ns' i xs" using ch [of "?s i" xs] by auto
  qed
  moreover have "next_inj ns'"
    unfolding next_inj_def
  proof (intro allI impI)
    fix i j l assume ij: "i < length ns'" "j < length ns'" "n_next (ns' ! i) = Some l" "n_next (ns' ! j) = Some l"
    then have "n_next (ns ! ?s i) = Some (?s l)" "n_next (ns ! ?s j) = Some (?s l)"
      using len by (auto simp: nx' inj)
    then have "?s i = ?s j" using nodes_inj [OF ok slt slt] ij len by simp
    then show "i = j" by (simp add: inj)
  qed
  moreover have "next_used ns'"
    unfolding next_used_def
  proof (intro allI impI)
    fix i l assume i: "i < length ns'" "n_next (ns' ! i) = Some l"
    then have nl: "n_next (ns ! ?s i) = Some (?s l)" using len by (auto simp: nx')
    obtain xs where xs: "chain ns (?s i) xs" using nodes_chain [OF ok slt] i(1) len by auto
    then have "\<exists>zs. chain ns (?s l) zs" using chain_Some [OF xs nl] by blast
    then have "?s l < length ns" using chain_lt chain_start by blast
    then have "l < length ns" using slt [of "?s l"] by simp
    then show "n_key (ns' ! l) \<noteq> VNil"
      using nodes_used [OF ok _ nl] slt i(1) len by (simp add: ky')
  qed
  moreover have "free_blank ns'"
    using nodes_free [OF ok slt] len by (auto simp: free_blank_def ky' vl' nx')
  moreover have "anchored h ns'"
    unfolding anchored_def
  proof (intro allI impI)
    fix i assume i: "i < length ns'" "n_key (ns' ! i) \<noteq> VNil"
    then have ki: "?s i < length ns" "n_key (ns ! ?s i) \<noteq> VNil" using slt len by (simp_all add: ky')
    obtain xs where xs: "chain ns (h (n_key (ns ! ?s i))) xs" "?s i \<in> set xs"
      using nodes_anchor [OF ok ki] by blast
    have "i \<in> ?s ` set xs" using xs(2) by (intro image_eqI [of _ _ "?s i"]) simp_all
    then show "\<exists>xs. chain ns' (h (n_key (ns' ! i))) xs \<and> i \<in> set xs"
      using ch [OF xs(1)] anchor_fix [OF ki] i(1) len by (auto simp: ky')
  qed
  moreover have "keys_distinct ns'"
    unfolding keys_distinct_def
  proof (intro allI impI)
    fix i j assume ij: "i < length ns'" "j < length ns'" "n_key (ns' ! i) = n_key (ns' ! j)"
      "n_key (ns' ! i) \<noteq> VNil"
    then have "?s i = ?s j" using nodes_dist [OF ok slt slt] len by (simp add: ky')
    then show "i = j" by (simp add: inj)
  qed
  moreover have "foreign_ok h ns'"
    unfolding foreign_ok_def
  proof (intro allI impI)
    fix i j xs
    assume i: "i < length ns'" "n_key (ns' ! i) \<noteq> VNil" "h (n_key (ns' ! i)) \<noteq> i"
      and c': "chain ns' i xs" and j: "j \<in> set xs"
    obtain ys where ys: "chain ns (?s i) ys" "xs = map ?s ys" using ch' [OF c'] i(1) len by auto
    have j': "?s j \<in> set ys" using j ys(2) by auto
    have ki: "?s i < length ns" "n_key (ns ! ?s i) \<noteq> VNil" using i slt len by (simp_all add: ky')
    have "j < length ns" using chain_lt [OF c' j] len by simp
    then have kj: "n_key (ns' ! j) = n_key (ns ! ?s j)" by (rule ky')
    show "h (n_key (ns' ! j)) \<noteq> i"
    proof (cases "n_key (ns ! ?s j) = VNil")
      case True
      then have "?s i = ?s j" using nodes_free_chain [OF ys(1) ok j'] by simp
      then show ?thesis using True ki by simp
    next
      case False
      have jl: "?s j < length ns" using chain_lt [OF ys(1) j'] .
      have "h (n_key (ns ! ?s i)) \<noteq> ?s i"
        using i(3) anchor_fix [OF ki] i(1) len by (metis ky' inj)
      then have "h (n_key (ns ! ?s j)) \<noteq> ?s i" using nodes_foreign [OF ok ki _ ys(1) j'] by simp
      then show ?thesis using anchor_fix [OF jl False] by (metis kj swp_swp)
    qed
  qed
  ultimately show ok': "nodes_ok h ns'" by (simp add: nodes_ok_def)
  show "node_map ns' = node_map ns"
  proof (rule node_map_eqI [OF ok' ok])
    fix i assume i: "i < length ns'"
    then show "\<exists>j < length ns. n_key (ns ! j) = n_key (ns' ! i) \<and> n_val (ns ! j) = n_val (ns' ! i)"
      using slt [of i] len by (auto simp: ky' vl')
  next
    fix i assume i: "i < length ns"
    then show "\<exists>j < length ns'. n_key (ns' ! j) = n_key (ns ! i) \<and> n_val (ns' ! j) = n_val (ns ! i)"
      using slt [of i] len ky [OF i] vl [OF i] by auto
  qed
  show "chain ns n xs \<Longrightarrow> chain ns' f (map ?s xs)" using ch [of n xs] by (simp add: swp_def)
qed

end
