(* ===== verification/TabCorrect.thy ===== *)
theory TabCorrect
  imports TabChain
begin

text \<open>
  Tables as maps: what lookups and setters compute, for every table that satisfies the
  invariant, and that setters keep the invariant.
\<close>

section \<open>Keys\<close>

text \<open>Keys that can be stored: not nil, not NaN, and zero without a sign.\<close>

fun key_ok :: "TValue \<Rightarrow> bool" where
  "key_ok VNil = False"
| "key_ok (VNum x) = (\<not> num_nan x \<and> x \<noteq> mzero)"
| "key_ok _ = True"

definition norm_key :: "TValue \<Rightarrow> TValue" where
  "norm_key k = (if k = VNum mzero then VNum 0 else k)"

lemma key_ok_not_nil: "key_ok k \<Longrightarrow> k \<noteq> VNil"
  by auto

lemma int2num_not_mzero [simp]: "int2num k \<noteq> mzero"
proof (cases "k = 0")
  case False
  then have "num_exp (int2num k) \<noteq> 0" using int2num_magnitude(5) [OF False] by simp
  then show ?thesis by (auto simp: num_exp_def mzero_def)
qed (simp add: int2num_def mzero_def)

declare int2num_not_nan [simp]

lemma num_key_iff: "key_ok k \<Longrightarrow> num_key (int2num i) k \<longleftrightarrow> k = VNum (int2num i)"
  by (cases k) (auto simp: num_key_def dest: num_eq_int2num)

lemma num_key_nil [simp]: "\<not> num_key x VNil"
  by (simp add: num_key_def)

lemma str_key_iff: "str_key s k \<longleftrightarrow> k = VStr s"
  by (cases k) (auto simp: str_key_def)

lemma lj_obj_equal_iff: "key_ok k \<Longrightarrow> key_ok k' \<Longrightarrow> lj_obj_equal k k' \<longleftrightarrow> k = k'"
  by (cases k; cases k') (auto simp: num_eq_def)

lemma lj_obj_equal_nil: "lj_obj_equal VNil k \<longleftrightarrow> k = VNil"
  by (cases k) auto

text \<open>The array index of a key, if it has one.\<close>

definition arr_index :: "nat \<Rightarrow> TValue \<Rightarrow> nat option" where
  "arr_index n k =
     (case k of
        VNum x \<Rightarrow> (let i = lj_num2int x in
                   if num_eq x (int2num i) \<and> unat i < n then Some (unat i) else None)
      | _ \<Rightarrow> None)"

lemma arr_index_int [simp]:
  "arr_index n (VNum (int2num k)) = (if unat k < n then Some (unat k) else None)"
  by (simp add: arr_index_def)

lemma arr_index_Some:
  assumes "arr_index n k = Some i" "key_ok k"
  shows "i < n \<and> k = VNum (int2num (word_of_nat i))"
proof -
  obtain x where k: "k = VNum x" using assms(1) by (cases k) (auto simp: arr_index_def)
  then have x: "num_eq x (int2num (lj_num2int x))" "i = unat (lj_num2int x)" "i < n"
    using assms(1) by (auto simp: arr_index_def Let_def split: if_splits)
  then have "x = int2num (lj_num2int x)" using assms(2) k num_eq_int2num by auto
  then show ?thesis using k x by simp
qed

section \<open>The table invariant and the map\<close>

definition hash_ok :: "GCtab \<Rightarrow> bool" where
  "hash_ok t \<longleftrightarrow> length (t_node t) = unat (t_hmask t) + 1 \<and>
     (\<exists>hb \<le> LJ_MAX_HBITS. t_hmask t = mask hb) \<and>
     (if t_hmask t = 0 then t_node t = [blank_node] \<and> t_freetop t = 0
      else t_freetop t \<le> length (t_node t) \<and>
        (\<forall>i. t_freetop t \<le> i \<longrightarrow> i < length (t_node t) \<longrightarrow> n_key (t_node t ! i) \<noteq> VNil))"

definition tab_ok :: "GCtab \<Rightarrow> bool" where
  "tab_ok t \<longleftrightarrow> nodes_ok (hashkey t) (t_node t) \<and> hash_ok t \<and> asize t \<le> LJ_MAX_ASIZE \<and>
     (\<forall>i < length (t_node t). n_key (t_node t ! i) \<noteq> VNil \<longrightarrow>
        key_ok (n_key (t_node t ! i)) \<and> arr_index (asize t) (n_key (t_node t ! i)) = None)"

definition tab_map :: "GCtab \<Rightarrow> TValue \<Rightarrow> TValue" where
  "tab_map t k =
     (if key_ok k
      then case arr_index (asize t) k of
             Some i \<Rightarrow> t_array t ! i
           | None \<Rightarrow> node_map (t_node t) k
      else VNil)"

lemma hashkey_less: "tab_ok t \<Longrightarrow> hashkey t k < length (t_node t)"
proof -
  assume "tab_ok t"
  then have "length (t_node t) = unat (t_hmask t) + 1" by (simp add: tab_ok_def hash_ok_def)
  moreover have "keyhash k AND t_hmask t \<le> t_hmask t" by (rule word_and_le1)
  ultimately show ?thesis by (simp add: hashkey_def hashmask_def word_le_nat_alt)
qed

lemma hashkey_cong: "t_hmask t = t_hmask t' \<Longrightarrow> hashkey t = hashkey t'"
  by (rule ext) (simp add: hashkey_def hashmask_def)

lemma find_key_cases:
  assumes "tab_ok t" "key_ok k"
    and P: "\<And>k'. key_ok k' \<Longrightarrow> P k' \<longleftrightarrow> k' = k" and nil: "\<not> P VNil"
  shows "(\<exists>i < length (t_node t). find_key t P (hashkey t k) = Inr (Some i) \<and> n_key (t_node t ! i) = k) \<or>
    (find_key t P (hashkey t k) = Inr None \<and> (\<forall>i < length (t_node t). n_key (t_node t ! i) \<noteq> k))"
  unfolding find_key_def
proof (rule chain_find_key)
  show "nodes_ok (hashkey t) (t_node t)" using assms(1) by (simp add: tab_ok_def)
  show "hashkey t k < length (t_node t)" by (rule hashkey_less [OF assms(1)])
  show "k \<noteq> VNil" using assms(2) by auto
  fix i assume "i < length (t_node t)"
  then show "P (n_key (t_node t ! i)) \<longleftrightarrow> n_key (t_node t ! i) = k"
    using assms(1) P nil \<open>k \<noteq> VNil\<close> by (cases "n_key (t_node t ! i) = VNil") (auto simp: tab_ok_def)
qed

section \<open>Lookups\<close>

lemma lookup_key:
  assumes "tab_ok t" "key_ok k" "arr_index (asize t) k = None"
    and "\<And>k'. key_ok k' \<Longrightarrow> P k' \<longleftrightarrow> k' = k" "\<not> P VNil"
  shows "\<exists>r. find_key t P (hashkey t k) = Inr r \<and> niltv (hslot_val t r) = tab_map t k"
proof -
  have ok: "nodes_ok (hashkey t) (t_node t)" using assms(1) by (simp add: tab_ok_def)
  have m: "tab_map t k = node_map (t_node t) k" using assms(2,3) by (simp add: tab_map_def)
  have "(\<exists>i < length (t_node t). find_key t P (hashkey t k) = Inr (Some i) \<and> n_key (t_node t ! i) = k) \<or>
    (find_key t P (hashkey t k) = Inr None \<and> (\<forall>i < length (t_node t). n_key (t_node t ! i) \<noteq> k))"
    using assms(4,5) by (rule find_key_cases [OF assms(1,2)])
  then show ?thesis
  proof (elim disjE exE conjE)
    fix i assume i: "i < length (t_node t)" "find_key t P (hashkey t k) = Inr (Some i)" "n_key (t_node t ! i) = k"
    have "node_map (t_node t) k = n_val (t_node t ! i)"
      by (rule node_map_in [OF ok i(1,3) key_ok_not_nil [OF assms(2)]])
    then show ?thesis using i(2) m by (simp add: hslot_val_def niltv_def)
  next
    assume "find_key t P (hashkey t k) = Inr None" "\<forall>i < length (t_node t). n_key (t_node t ! i) \<noteq> k"
    then show ?thesis using node_map_out [of "t_node t" k] m by (simp add: hslot_val_def niltv_def)
  qed
qed

lemma lj_tab_getint_map: "tab_ok t \<Longrightarrow> \<exists>r. lj_tab_getint t k = Inr r \<and> niltv r = tab_map t (VNum (int2num k))"
  using lookup_key [of t "VNum (int2num k)" "num_key (int2num k)"]
  by (cases "unat k < asize t")
     (auto simp: lj_tab_getint_def lj_tab_getinth_def num_key_iff tab_map_def niltv_def Let_def)

lemma gen_lookup_map:
  "tab_ok t \<Longrightarrow> key_ok k \<Longrightarrow> arr_index (asize t) k = None \<Longrightarrow>
   \<exists>r. gen_lookup t k = Inr r \<and> niltv r = tab_map t k"
  using lookup_key [of t k "\<lambda>k'. lj_obj_equal k' k"] key_ok_not_nil [of k]
  by (force simp: gen_lookup_def lj_obj_equal_iff lj_obj_equal_nil)

lemma chain_find_never:
  assumes "tab_ok t" "n < length (t_node t)" "\<And>k. \<not> P k"
  shows "find_key t P n = Inr None"
proof -
  obtain xs where xs: "chain (t_node t) n xs"
    using nodes_chain [of "hashkey t" "t_node t" n] assms by (auto simp: tab_ok_def)
  show ?thesis using chain_find_eq [OF xs chain_length [OF xs], of P] assms(3)
    by (simp add: find_key_def find_None_iff)
qed

lemma gen_lookup_nan: "tab_ok t \<Longrightarrow> num_nan x \<Longrightarrow> gen_lookup t (VNum x) = Inr None"
proof -
  assume t: "tab_ok t" and x: "num_nan x"
  have "\<not> lj_obj_equal k (VNum x)" for k using x by (cases k) (auto simp: num_eq_def)
  then show ?thesis using chain_find_never [OF t hashkey_less [OF t]]
    by (simp add: gen_lookup_def hslot_val_def)
qed

lemma tab_map_not_ok: "\<not> key_ok k \<Longrightarrow> tab_map t k = VNil"
  by (simp add: tab_map_def)

lemma num2int_mzero [simp]: "lj_num2int mzero = 0" "int2num 0 = 0"
  by (simp_all add: lj_num2int_def mzero_def num_exp_def int2num_def)

lemma num_eq_mzero [simp]: "num_eq mzero 0"
  by (simp add: num_eq_def num_nan_def mzero_def num_exp_def num_man_def)

lemma lj_tab_get_map:
  assumes "tab_ok t"
  shows "lj_tab_get t k = Inr (tab_map t (norm_key k))"
proof (cases k)
  case VNil
  then show ?thesis by (simp add: lj_tab_get_def norm_key_def niltv_def tab_map_def)
next
  case (VStr s)
  have "arr_index (asize t) (VStr s) = None" by (simp add: arr_index_def)
  then obtain r where "find_key t (str_key s) (hashkey t (VStr s)) = Inr r"
    "niltv (hslot_val t r) = tab_map t (VStr s)"
    using lookup_key [OF assms, of "VStr s" "str_key s"] by (auto simp: str_key_iff)
  then show ?thesis by (simp add: lj_tab_get_def lj_tab_getstr_def norm_key_def VStr)
next
  case (VNum x)
  show ?thesis
  proof (cases "num_eq x (int2num (lj_num2int x))")
    case True
    have "norm_key k = VNum (int2num (lj_num2int x))"
    proof (cases "x = mzero")
      case x: True
      then show ?thesis using VNum by (simp add: norm_key_def)
    next
      case False
      then show ?thesis using True VNum num_eq_int2num by (auto simp: norm_key_def)
    qed
    then show ?thesis using True VNum lj_tab_getint_map [OF assms, of "lj_num2int x"]
      by (auto simp: lj_tab_get_def Let_def)
  next
    case False
    then have nk: "norm_key k = VNum x"
      using VNum by (auto simp: norm_key_def)
    show ?thesis
    proof (cases "num_nan x")
      case True
      then show ?thesis using False VNum gen_lookup_nan [OF assms True] nk
        by (simp add: lj_tab_get_def niltv_def tab_map_def)
    next
      case nan: False
      have "x \<noteq> mzero" using False by auto
      then have "key_ok k" using nan VNum by simp
      moreover have "arr_index (asize t) k = None" using False VNum by (simp add: arr_index_def)
      ultimately obtain r where "gen_lookup t k = Inr r" "niltv r = tab_map t k"
        using gen_lookup_map [OF assms] by blast
      then show ?thesis using False nk by (simp add: lj_tab_get_def VNum Let_def)
    qed
  qed
next
  case VFalse
  with gen_lookup_map [OF assms, of k] show ?thesis
    by (auto simp: lj_tab_get_def norm_key_def arr_index_def)
next
  case VTrue
  with gen_lookup_map [OF assms, of k] show ?thesis
    by (auto simp: lj_tab_get_def norm_key_def arr_index_def)
next
  case (VLightud a)
  with gen_lookup_map [OF assms, of k] show ?thesis
    by (auto simp: lj_tab_get_def norm_key_def arr_index_def)
next
  case (VGC i a)
  with gen_lookup_map [OF assms, of k] show ?thesis
    by (auto simp: lj_tab_get_def norm_key_def arr_index_def)
qed

section \<open>Insertion when there is room\<close>

definition n_used :: "node list \<Rightarrow> nat" where
  "n_used ns = length (filter (\<lambda>n. n_key n \<noteq> VNil) ns)"

definition has_room :: "GCtab \<Rightarrow> bool" where
  "has_room t \<longleftrightarrow> t_hmask t \<noteq> 0 \<and> n_used (t_node t) < length (t_node t)"

lemma n_used_less: "n_used ns < length ns \<Longrightarrow> \<exists>i < length ns. n_key (ns ! i) = VNil"
proof (rule ccontr)
  assume lt: "n_used ns < length ns" and "\<not> (\<exists>i < length ns. n_key (ns ! i) = VNil)"
  then have "filter (\<lambda>n. n_key n \<noteq> VNil) ns = ns" by (auto simp: filter_id_conv in_set_conv_nth)
  with lt show False by (simp add: n_used_def)
qed

lemma n_used_card: "n_used ns = card {i. i < length ns \<and> n_key (ns ! i) \<noteq> VNil}"
  by (simp add: n_used_def length_filter_conv_card)

lemma n_used_add:
  assumes "length ns' = length ns"
    and "\<And>i. i < length ns \<Longrightarrow> i \<noteq> f \<Longrightarrow> n_key (ns' ! i) \<noteq> VNil \<Longrightarrow> n_key (ns ! i) \<noteq> VNil"
  shows "n_used ns' \<le> Suc (n_used ns)"
proof -
  have "{i. i < length ns' \<and> n_key (ns' ! i) \<noteq> VNil} \<subseteq> insert f {i. i < length ns \<and> n_key (ns ! i) \<noteq> VNil}"
    using assms by auto
  then have "n_used ns' \<le> card (insert f {i. i < length ns \<and> n_key (ns ! i) \<noteq> VNil})"
    unfolding n_used_card by (intro card_mono) auto
  also have "\<dots> \<le> Suc (n_used ns)" unfolding n_used_card by (rule card_insert_le_m1) auto
  finally show ?thesis .
qed

text \<open>What an insertion of a new key \<open>k\<close> gives: the node of the key, everything else as it was.\<close>

definition newkey_post :: "GCtab \<Rightarrow> TValue \<Rightarrow> GCtab \<times> slot \<Rightarrow> bool" where
  "newkey_post t k r \<longleftrightarrow>
     (case r of
        (t', HSlot i) \<Rightarrow> tab_ok t' \<and> i < length (t_node t') \<and> n_key (t_node t' ! i) = k \<and>
          t_array t' = t_array t \<and> t_hmask t' = t_hmask t \<and> length (t_node t') = length (t_node t) \<and>
          node_map (t_node t') = node_map (t_node t) \<and> n_used (t_node t') \<le> Suc (n_used (t_node t))
      | (t', ASlot i) \<Rightarrow> False)"

lemma newkey_postI:
  assumes t: "tab_ok t" "t_hmask t \<noteq> 0" and k: "key_ok k" "arr_index (asize t) k = None"
    and ns: "nodes_ok (hashkey t) ns'" "node_map ns' = node_map (t_node t)" "length ns' = length (t_node t)"
    and i: "i < length ns'" "n_key (ns' ! i) = k"
    and keys: "\<And>j. j < length ns' \<Longrightarrow> j \<noteq> i \<Longrightarrow> n_key (ns' ! j) \<noteq> VNil \<Longrightarrow> j \<noteq> f \<Longrightarrow>
      n_key (ns' ! j) = n_key (t_node t ! j)"
    and f: "n_key (ns' ! f) = VNil \<or> n_key (ns' ! f) = k \<or> (\<exists>l < length (t_node t). n_key (ns' ! f) = n_key (t_node t ! l))"
    and cnt: "n_used ns' \<le> Suc (n_used (t_node t))"
    and ft: "ft \<le> length ns'" "\<And>j. ft \<le> j \<Longrightarrow> j < length ns' \<Longrightarrow> n_key (ns' ! j) \<noteq> VNil"
  shows "newkey_post t k (t\<lparr>t_freetop := ft, t_node := ns'\<rparr>, HSlot i)"
proof -
  let ?t = "t\<lparr>t_freetop := ft, t_node := ns'\<rparr>"
  have h: "hashkey ?t = hashkey t" by (rule hashkey_cong) simp
  have "key_ok (n_key (ns' ! j)) \<and> arr_index (asize t) (n_key (ns' ! j)) = None"
    if j: "j < length ns'" "n_key (ns' ! j) \<noteq> VNil" for j
  proof -
    have old: "key_ok (n_key (t_node t ! l)) \<and> arr_index (asize t) (n_key (t_node t ! l)) = None"
      if "l < length (t_node t)" "n_key (t_node t ! l) \<noteq> VNil" for l
      using t(1) that by (simp add: tab_ok_def)
    show ?thesis
      using keys [OF j(1)] j f k i(2) old ns(3) by (cases "j = i"; cases "j = f") auto
  qed
  moreover have "hash_ok ?t" using t ns(3) ft by (auto simp: tab_ok_def hash_ok_def)
  ultimately have "tab_ok ?t" using t(1) ns(1) h by (simp add: tab_ok_def)
  then show ?thesis using ns i cnt by (simp add: newkey_post_def)
qed

lemma write_key_eq: "key_ok k \<Longrightarrow> write_key t n k =
    Inr (t\<lparr>t_node := (t_node t)[n := (t_node t ! n)\<lparr>n_key := k\<rparr>]\<rparr>, HSlot n)"
  by (auto simp: write_key_def)

lemma find_free_room:
  assumes "tab_ok t" "has_room t"
  obtains fr where "find_free (t_node t) (t_freetop t) = Some fr" "fr < length (t_node t)"
    "n_key (t_node t ! fr) = VNil" "\<And>j. fr < j \<Longrightarrow> j < length (t_node t) \<Longrightarrow> n_key (t_node t ! j) \<noteq> VNil"
proof -
  have ft: "t_freetop t \<le> length (t_node t)"
    and full: "\<And>i. t_freetop t \<le> i \<Longrightarrow> i < length (t_node t) \<Longrightarrow> n_key (t_node t ! i) \<noteq> VNil"
    using assms by (simp_all add: tab_ok_def hash_ok_def has_room_def)
  obtain j where j: "j < length (t_node t)" "n_key (t_node t ! j) = VNil"
    using assms(2) n_used_less by (auto simp: has_room_def)
  then have "j < t_freetop t" using full [of j] by (cases "t_freetop t \<le> j") auto
  then have "find_free (t_node t) (t_freetop t) \<noteq> None" using j(2) by (auto simp: find_free_None)
  then obtain fr where fr: "find_free (t_node t) (t_freetop t) = Some fr" by blast
  have "n_key (t_node t ! l) \<noteq> VNil" if "fr < l" "l < length (t_node t)" for l
    using find_free_Some [OF fr] full [of l] that by (cases "l < t_freetop t") auto
  then show ?thesis using that [OF fr] find_free_Some [OF fr] ft by auto
qed

lemma hashkey_update [simp]:
  "hashkey (t\<lparr>t_freetop := x\<rparr>) = hashkey t" "hashkey (t\<lparr>t_node := ns\<rparr>) = hashkey t"
  "hashkey (t\<lparr>t_array := a\<rparr>) = hashkey t" "hashkey (t\<lparr>t_nomm := b\<rparr>) = hashkey t"
  by (rule hashkey_cong; simp)+

lemma newkey_direct:
  assumes t: "tab_ok t" "t_hmask t \<noteq> 0" and k: "key_ok k" "arr_index (asize t) k = None"
    and fresh: "\<forall>i < length (t_node t). n_key (t_node t ! i) \<noteq> k"
    and v: "n_val (t_node t ! hashkey t k) = VNil"
  shows "\<exists>r. newkey_body nk t k = Inr r \<and> newkey_post t k r"
proof -
  let ?n = "hashkey t k" let ?ns = "t_node t"
  let ?ns' = "?ns[?n := (?ns ! ?n)\<lparr>n_key := k\<rparr>]"
  have ok: "nodes_ok (hashkey t) ?ns" using t(1) by (simp add: tab_ok_def)
  have n: "?n < length ?ns" by (rule hashkey_less [OF t(1)])
  note w = nodes_write [OF ok n v refl key_ok_not_nil [OF k(1)] fresh]
  have ky: "n_key (?ns' ! j) = (if j = ?n then k else n_key (?ns ! j))" for j
    using n by (cases "j = ?n") simp_all
  have "newkey_post t k (t\<lparr>t_freetop := t_freetop t, t_node := ?ns'\<rparr>, HSlot ?n)"
  proof (rule newkey_postI [OF t k w, where f = ?n])
    show "n_used ?ns' \<le> Suc (n_used ?ns)" by (rule n_used_add [where f = ?n]) (simp_all add: ky)
    show "t_freetop t \<le> length ?ns'" using t by (simp add: tab_ok_def hash_ok_def)
    show "t_freetop t \<le> j \<Longrightarrow> j < length ?ns' \<Longrightarrow> n_key (?ns' ! j) \<noteq> VNil" for j
      using t k(1) by (auto simp: ky tab_ok_def hash_ok_def)
  qed (use n in \<open>simp_all add: ky\<close>)
  moreover have "newkey_body nk t k = Inr (t\<lparr>t_freetop := t_freetop t, t_node := ?ns'\<rparr>, HSlot ?n)"
    using v t(2) by (simp add: newkey_body_def Let_def write_key_eq k(1))
  ultimately show ?thesis by blast
qed

lemma newkey_behind:
  assumes t: "tab_ok t" "has_room t" and k: "key_ok k" "arr_index (asize t) k = None"
    and fresh: "\<forall>i < length (t_node t). n_key (t_node t ! i) \<noteq> k"
    and v: "n_val (t_node t ! hashkey t k) \<noteq> VNil"
    and main: "hashkey t (n_key (t_node t ! hashkey t k)) = hashkey t k"
  shows "\<exists>r. newkey_body nk t k = Inr r \<and> newkey_post t k r"
proof -
  let ?n = "hashkey t k" let ?ns = "t_node t"
  have ok: "nodes_ok (hashkey t) ?ns" using t(1) by (simp add: tab_ok_def)
  have n: "?n < length ?ns" by (rule hashkey_less [OF t(1)])
  have kn: "n_key (?ns ! ?n) \<noteq> VNil" using nodes_free [OF ok n] v by blast
  obtain fr where fr: "find_free ?ns (t_freetop t) = Some fr" "fr < length ?ns"
    "n_key (?ns ! fr) = VNil" "\<And>j. fr < j \<Longrightarrow> j < length ?ns \<Longrightarrow> n_key (?ns ! j) \<noteq> VNil"
    using find_free_room [OF t] by metis
  have fn: "fr \<noteq> ?n" using kn fr(3) by auto
  define ns1 where "ns1 = ?ns[fr := (?ns ! fr)\<lparr>n_next := n_next (?ns ! ?n)\<rparr>]"
  define ns2 where "ns2 = ns1[?n := (ns1 ! ?n)\<lparr>n_next := Some fr\<rparr>]"
  define ns' where "ns' = ns2[fr := (ns2 ! fr)\<lparr>n_key := k\<rparr>]"
  have len: "length ns' = length ?ns" by (simp add: ns'_def ns2_def ns1_def)
  have at_n: "ns' ! ?n = (?ns ! ?n)\<lparr>n_next := Some fr\<rparr>" using fn n by (simp add: ns'_def ns2_def ns1_def)
  have at_f: "ns' ! fr = \<lparr>n_key = k, n_val = VNil, n_next = n_next (?ns ! ?n)\<rparr>"
    using fn fr(2) nodes_free [OF ok fr(2,3)] by (simp add: ns'_def ns2_def ns1_def)
  have other: "\<forall>i. i \<noteq> ?n \<longrightarrow> i \<noteq> fr \<longrightarrow> ns' ! i = ?ns ! i" by (simp add: ns'_def ns2_def ns1_def)
  note a = nodes_append [OF ok n kn main fr(2,3) refl key_ok_not_nil [OF k(1)] fresh len at_n at_f other]
  have ky: "n_key (ns' ! j) = (if j = fr then k else n_key (?ns ! j))" for j
    using fn by (cases "j = ?n"; cases "j = fr") (simp_all add: at_n at_f other)
  have hm: "t_hmask t \<noteq> 0" using t(2) by (simp add: has_room_def)
  have "newkey_post t k (t\<lparr>t_freetop := fr, t_node := ns'\<rparr>, HSlot fr)"
  proof (rule newkey_postI [OF t(1) hm k a len, where f = fr])
    show "n_used ns' \<le> Suc (n_used ?ns)" by (rule n_used_add [OF len, where f = fr]) (simp add: ky)
    show "fr \<le> j \<Longrightarrow> j < length ns' \<Longrightarrow> n_key (ns' ! j) \<noteq> VNil" for j
      using fr(4) [of j] k(1) len by (auto simp: ky)
  qed (use fr(2) len in \<open>simp_all add: ky\<close>)
  moreover have "newkey_body nk t k = Inr (t\<lparr>t_freetop := fr, t_node := ns'\<rparr>, HSlot fr)"
    using v fr(1) main by (simp add: newkey_body_def Let_def write_key_eq k(1) ns'_def ns2_def ns1_def)
  ultimately show ?thesis by blast
qed

lemma newkey_moving:
  assumes t: "tab_ok t" "has_room t" and k: "key_ok k" "arr_index (asize t) k = None"
    and fresh: "\<forall>i < length (t_node t). n_key (t_node t ! i) \<noteq> k"
    and v: "n_val (t_node t ! hashkey t k) \<noteq> VNil"
    and main: "hashkey t (n_key (t_node t ! hashkey t k)) \<noteq> hashkey t k"
  shows "\<exists>r. newkey_body nk t k = Inr r \<and> newkey_post t k r"
proof -
  define n where "n = hashkey t k" define ns where "ns = t_node t"
  have ok: "nodes_ok (hashkey t) ns" using t(1) by (simp add: tab_ok_def ns_def)
  have n: "n < length ns" using hashkey_less [OF t(1)] by (simp add: n_def ns_def)
  have kn: "n_key (ns ! n) \<noteq> VNil" using nodes_free [OF ok n] v by (auto simp: n_def ns_def)
  have main': "hashkey t (n_key (ns ! n)) \<noteq> n" using main by (simp add: n_def ns_def)
  obtain fr where fr: "find_free ns (t_freetop t) = Some fr" "fr < length ns"
    "n_key (ns ! fr) = VNil" "\<And>j. fr < j \<Longrightarrow> j < length ns \<Longrightarrow> n_key (ns ! j) \<noteq> VNil"
    using find_free_room [OF t] unfolding ns_def by metis
  have fn: "fr \<noteq> n" using kn fr(3) by auto
  obtain as where as: "chain ns (hashkey t (n_key (ns ! n))) as" "n \<in> set as"
    using nodes_anchor [OF ok n kn] by blast
  obtain c where c: "find_pred (length ns) ns n (hashkey t (n_key (ns ! n))) = Inr c"
    "c < length ns" "n_next (ns ! c) = Some n"
    using find_pred_eq [OF as(1) chain_length [OF as(1)] as(2)] main' by metis
  obtain xs where xs: "chain ns n xs" using nodes_chain [OF ok n] by blast
  have cf: "c \<noteq> fr" using nodes_free [OF ok fr(2,3)] c(3) by auto
  have cn: "c \<noteq> n"
  proof
    assume "c = n"
    then obtain zs where zs: "xs = n # zs" "chain ns n zs" using chain_Some [OF xs] c(3) by auto
    show False using chain_det [OF xs zs(2)] zs(1) by simp
  qed
  define ns1 where "ns1 = ns[c := (ns ! c)\<lparr>n_next := Some fr\<rparr>]"
  define ns2 where "ns2 = ns1[fr := ns1 ! n]"
  define ns3 where "ns3 = ns2[n := (ns2 ! n)\<lparr>n_next := None, n_val := VNil\<rparr>]"
  define ns0 where "ns0 = ns3[n := blank_node]"
  have len3: "length ns3 = length ns" and len: "length ns0 = length ns"
    by (simp_all add: ns0_def ns3_def ns2_def ns1_def)
  have at_n: "ns0 ! n = blank_node" using n len3 by (simp add: ns0_def)
  have at_n3: "ns3 ! n = (ns ! n)\<lparr>n_next := None, n_val := VNil\<rparr>"
    using n fn cn by (simp add: ns3_def ns2_def ns1_def)
  have at_f: "ns0 ! fr = ns ! n" using n fr(2) fn cn by (simp add: ns0_def ns3_def ns2_def ns1_def)
  have at_c: "ns0 ! c = (ns ! c)\<lparr>n_next := Some fr\<rparr>"
    using c(2) cn cf by (simp add: ns0_def ns3_def ns2_def ns1_def)
  have other: "\<forall>i. i \<noteq> n \<longrightarrow> i \<noteq> fr \<longrightarrow> i \<noteq> c \<longrightarrow> ns0 ! i = ns ! i"
    by (simp add: ns0_def ns3_def ns2_def ns1_def)
  note m = nodes_move [OF ok n kn main' fr(2,3) c(2,3) len at_n at_f at_c other]
  have nx3: "n_next (ns3 ! j) = n_next (ns0 ! j)" for j
    using n len3 by (cases "j = n") (simp_all add: ns0_def at_n3 blank_node_def)
  have ky0: "n_key (ns0 ! j) = (if j = n then VNil else if j = fr then n_key (ns ! n) else n_key (ns ! j))" for j
    using fn cn cf by (cases "j = c") (simp_all add: at_n at_f at_c other blank_node_def)
  have ch3: "chain ns3 fr (map (swp n fr) xs)"
    by (rule chain_cong [OF m(3) [OF xs]]) (simp_all add: len len3 nx3)
  have re: "rechain (length ns) (hashkey t) n fr ns3 = Inr ns3"
  proof (rule rechain_eq [OF ch3])
    show "length (map (swp n fr) xs) \<le> length ns" using chain_length [OF xs] by simp
    fix j assume j: "j \<in> set (map (swp n fr) xs)" "j \<noteq> fr"
    then obtain l where l: "l \<in> set xs" "j = swp n fr l" by auto
    have "l \<noteq> fr" using nodes_free_chain [OF xs ok l(1)] fr(3) fn by auto
    moreover have "l \<noteq> n" using j(2) l(2) by (auto simp: swp_def)
    ultimately have "j = l" "j \<noteq> n" using l(2) by (auto simp: swp_def)
    moreover have "n_key (ns3 ! j) = n_key (ns0 ! j)" using \<open>j \<noteq> n\<close> by (simp add: ns0_def)
    ultimately have "n_key (ns3 ! j) = n_key (ns ! l)" using j(2) by (simp add: ky0)
    then show "hashkey t (n_key (ns3 ! j)) \<noteq> n"
      using nodes_foreign [OF ok n kn main' xs l(1)] by simp
  qed
  define ns' where "ns' = ns3[n := (ns3 ! n)\<lparr>n_key := k\<rparr>]"
  have ns': "ns' = ns0[n := (ns0 ! n)\<lparr>n_key := k\<rparr>]"
    using n len3 by (cases "ns ! n") (simp add: ns'_def ns0_def at_n3 blank_node_def)
  have fresh0: "\<forall>i < length ns0. n_key (ns0 ! i) \<noteq> k"
    using fresh k(1) n by (auto simp: ky0 len ns_def)
  have v0: "n_val (ns0 ! n) = VNil" by (simp add: at_n blank_node_def)
  have n0: "n < length ns0" using n len by simp
  note w = nodes_write [OF m(1) n0 v0 n_def [symmetric] key_ok_not_nil [OF k(1)] fresh0, folded ns']
  have ky: "n_key (ns' ! j) = (if j = n then k else n_key (ns0 ! j))" for j
    using n0 by (cases "j = n") (simp_all add: ns')
  have len': "length ns' = length ns" using len by (simp add: ns')
  have hm: "t_hmask t \<noteq> 0" using t(2) by (simp add: has_room_def)
  have "newkey_post t k (t\<lparr>t_freetop := fr, t_node := ns'\<rparr>, HSlot n)"
  proof (rule newkey_postI [OF t(1) hm k w(1), where f = fr])
    show "node_map ns' = node_map (t_node t)" using w(2) m(2) by (simp add: ns_def)
    show "length ns' = length (t_node t)" using len' by (simp add: ns_def)
    show "n_used ns' \<le> Suc (n_used (t_node t))"
      by (rule n_used_add [where f = fr]) (use len' kn in \<open>auto simp: ky ky0 ns_def split: if_splits\<close>)
    show "fr \<le> j \<Longrightarrow> j < length ns' \<Longrightarrow> n_key (ns' ! j) \<noteq> VNil" for j
      using fr(4) [of j] k(1) len' kn by (auto simp: ky ky0)
    show "n_key (ns' ! fr) = VNil \<or> n_key (ns' ! fr) = k \<or>
        (\<exists>l < length (t_node t). n_key (ns' ! fr) = n_key (t_node t ! l))"
      using n fn by (auto simp: ky ky0 ns_def)
  qed (use n fr(2) len' in \<open>simp_all add: ky ky0 ns_def\<close>)
  moreover have "newkey_body nk t k = Inr (t\<lparr>t_freetop := fr, t_node := ns'\<rparr>, HSlot n)"
    unfolding newkey_body_def Let_def n_def [symmetric] ns_def [symmetric]
    using v fr(1) main' c(1) re
    by (simp add: n_def [symmetric] ns_def [symmetric] write_key_eq k(1) ns1_def [symmetric]
        ns2_def [symmetric] ns3_def [symmetric] ns'_def [symmetric])
  ultimately show ?thesis by blast
qed

lemma newkey_room:
  assumes "tab_ok t" "has_room t" "key_ok k" "arr_index (asize t) k = None"
    and "\<forall>i < length (t_node t). n_key (t_node t ! i) \<noteq> k"
  shows "\<exists>r. newkey_body nk t k = Inr r \<and> newkey_post t k r"
proof (cases "n_val (t_node t ! hashkey t k) = VNil")
  case True
  then show ?thesis using newkey_direct assms by (auto simp: has_room_def)
next
  case False
  then show ?thesis using newkey_behind [OF assms False] newkey_moving [OF assms False] by blast
qed

section \<open>Writing a value\<close>

lemma nodes_setval:
  fixes v
  assumes ok: "nodes_ok h ns" and i: "i < length ns" "n_key (ns ! i) \<noteq> VNil"
  defines "ns' \<equiv> ns[i := (ns ! i)\<lparr>n_val := v\<rparr>]"
  shows "nodes_ok h ns'" "node_map ns' = (node_map ns)(n_key (ns ! i) := v)"
proof -
  have len [simp]: "length ns' = length ns" by (simp add: ns'_def)
  have nx [simp]: "n_next (ns' ! j) = n_next (ns ! j)" for j
    using i by (cases "j = i") (simp_all add: ns'_def)
  have ky [simp]: "n_key (ns' ! j) = n_key (ns ! j)" for j
    using i by (cases "j = i") (simp_all add: ns'_def)
  have vl: "n_val (ns' ! j) = (if j = i then v else n_val (ns ! j))" for j
    using i by (cases "j = i") (simp_all add: ns'_def)
  have ch: "chain ns' j xs = chain ns j xs" for j xs
    using chain_cong [of ns j xs ns'] chain_cong [of ns' j xs ns] by auto
  have free: "free_blank ns'"
    using nodes_free [OF ok] i by (auto simp: free_blank_def vl)
  show ok': "nodes_ok h ns'"
    using ok free
    by (simp add: nodes_ok_def chains_end_def next_inj_def next_used_def anchored_def keys_distinct_def
        foreign_ok_def ch)
  show "node_map ns' = (node_map ns)(n_key (ns ! i) := v)"
  proof
    fix k
    show "node_map ns' k = ((node_map ns)(n_key (ns ! i) := v)) k"
    proof (cases "k = n_key (ns ! i)")
      case True
      then show ?thesis using node_map_in [OF ok', of i k] i by (simp add: vl)
    next
      case False
      have "n_val (ns' ! j) = n_val (ns ! j)" if "n_key (ns ! j) = k" for j
        using that False by (auto simp: vl)
      then have "node_map ns' k = node_map ns k"
        using find_SomeD [of "\<lambda>i. n_key (ns ! i) = k" "[0 ..< length ns]"]
        by (auto simp: node_map_def split: option.split)
      then show ?thesis using False by simp
    qed
  qed
qed

definition slot_for :: "GCtab \<Rightarrow> slot \<Rightarrow> TValue \<Rightarrow> bool" where
  "slot_for t s k \<longleftrightarrow>
     (case s of
        ASlot i \<Rightarrow> arr_index (asize t) k = Some i
      | HSlot i \<Rightarrow> arr_index (asize t) k = None \<and> i < length (t_node t) \<and> n_key (t_node t ! i) = k)"

lemma asize_store [simp]: "asize (store t s v) = asize t"
  by (cases s) simp_all

lemma t_hmask_store [simp]: "t_hmask (store t s v) = t_hmask t"
  by (cases s) simp_all

lemma length_node_store [simp]: "length (t_node (store t s v)) = length (t_node t)"
  by (cases s) simp_all

lemma n_key_store [simp]: "n_key (t_node (store t s v) ! j) = n_key (t_node t ! j)"
proof (cases s)
  case (HSlot i)
  then show ?thesis by (cases "i < length (t_node t)"; cases "j = i") (simp_all add: list_update_beyond)
qed simp

lemma n_used_store [simp]: "n_used (t_node (store t s v)) = n_used (t_node t)"
  by (simp add: n_used_card)

lemma store_correct:
  assumes t: "tab_ok t" and k: "key_ok k" and s: "slot_for t s k"
  shows "tab_ok (store t s v)" "tab_map (store t s v) = (tab_map t)(k := v)"
proof -
  have ok: "nodes_ok (hashkey t) (t_node t)" using t by (simp add: tab_ok_def)
  have "tab_ok (store t s v) \<and> tab_map (store t s v) = (tab_map t)(k := v)"
  proof (cases s)
    case (ASlot i)
    then have ai: "arr_index (asize t) k = Some i" using s by (simp add: slot_for_def)
    note ki = arr_index_Some [OF ai k]
    have "tab_map (store t s v) k' = ((tab_map t)(k := v)) k'" for k'
    proof (cases "key_ok k'")
      case k': True
      show ?thesis
      proof (cases "arr_index (asize t) k'")
        case None
        then show ?thesis using ai ASlot by (auto simp: tab_map_def)
      next
        case (Some j)
        note kj = arr_index_Some [OF Some k']
        have "k = k' \<Longrightarrow> i = j" using ai Some by simp
        moreover have "i = j \<Longrightarrow> k = k'" using ki kj by simp
        ultimately have "i = j \<longleftrightarrow> k = k'" by blast
        then show ?thesis using ai ki kj Some ASlot k by (auto simp: tab_map_def)
      qed
    qed (use k in \<open>auto simp: tab_map_def\<close>)
    moreover have "tab_ok (store t s v)" using t ASlot by (auto simp: tab_ok_def hash_ok_def)
    ultimately show ?thesis by blast
  next
    case (HSlot i)
    then have i: "arr_index (asize t) k = None" "i < length (t_node t)" "n_key (t_node t ! i) = k"
      using s by (simp_all add: slot_for_def)
    have kn: "n_key (t_node t ! i) \<noteq> VNil" using k i(3) by auto
    note sv = nodes_setval [OF ok i(2) kn, of v]
    have "hash_ok (store t s v)"
      using t kn i(2) by (auto simp: tab_ok_def hash_ok_def HSlot nth_list_update blank_node_def)
    then have "tab_ok (store t s v)"
      using t sv(1) by (auto simp: tab_ok_def HSlot simp del: n_key_store simp flip: n_key_store [of t s v, unfolded HSlot store.simps])
    moreover have "tab_map (store t s v) = (tab_map t)(k := v)"
      using i k sv(2) by (auto simp: tab_map_def HSlot fun_eq_iff split: option.split)
    ultimately show ?thesis by blast
  qed
  then show "tab_ok (store t s v)" "tab_map (store t s v) = (tab_map t)(k := v)" by simp_all
qed

section \<open>Setters\<close>

lemma tab_ok_nomm [simp]: "tab_ok (t\<lparr>t_nomm := b\<rparr>) = tab_ok t"
  by (simp add: tab_ok_def hash_ok_def)

lemma tab_map_nomm [simp]: "tab_map (t\<lparr>t_nomm := b\<rparr>) = tab_map t"
  by (simp add: tab_map_def fun_eq_iff split: option.split)

text \<open>Whether a key is stored in a node already.\<close>

definition fresh :: "GCtab \<Rightarrow> TValue \<Rightarrow> bool" where
  "fresh t k \<longleftrightarrow> (\<forall>i < length (t_node t). n_key (t_node t ! i) \<noteq> k)"

lemma find_set_cases:
  assumes t: "tab_ok t" and k: "key_ok k" "arr_index (asize t) k = None"
    and P: "\<And>k'. key_ok k' \<Longrightarrow> P k' \<longleftrightarrow> k' = k" "\<not> P VNil"
  shows "(\<exists>i. rbind (find_key t P (hashkey t k)) (set_found nk t k) = Inr (t, HSlot i) \<and> slot_for t (HSlot i) k) \<or>
    (fresh t k \<and> rbind (find_key t P (hashkey t k)) (set_found nk t k) = nk t k)"
proof -
  have "(\<exists>i < length (t_node t). find_key t P (hashkey t k) = Inr (Some i) \<and> n_key (t_node t ! i) = k) \<or>
    (find_key t P (hashkey t k) = Inr None \<and> (\<forall>i < length (t_node t). n_key (t_node t ! i) \<noteq> k))"
    using P by (rule find_key_cases [OF t k(1)])
  then show ?thesis using k(2) by (auto simp: set_found_def slot_for_def fresh_def)
qed

lemma setinth_cases:
  assumes "tab_ok t" "\<not> unat i < asize t"
  shows "(\<exists>j. setinth_with nk t i = Inr (t, HSlot j) \<and> slot_for t (HSlot j) (VNum (int2num i))) \<or>
    (fresh t (VNum (int2num i)) \<and> setinth_with nk t i = nk t (VNum (int2num i)))"
  unfolding setinth_with_def Let_def
  by (rule find_set_cases [OF assms(1)]) (use assms(2) in \<open>simp_all add: num_key_iff\<close>)

lemma gen_set_cases:
  assumes "tab_ok t" "key_ok k" "arr_index (asize t) k = None"
  shows "(\<exists>j. gen_set nk t k = Inr (t, HSlot j) \<and> slot_for t (HSlot j) k) \<or>
    (fresh t k \<and> gen_set nk t k = nk t k)"
  unfolding gen_set_def
  by (rule find_set_cases [OF assms]) (use assms(2) in \<open>auto simp: lj_obj_equal_iff lj_obj_equal_nil\<close>)

lemma set_with_cases:
  assumes t: "tab_ok t" and k: "key_ok k"
  defines "t0 \<equiv> t\<lparr>t_nomm := 0\<rparr>"
  shows "(\<exists>s. set_with nk t k = Inr (t0, s) \<and> slot_for t0 s k) \<or>
    (fresh t0 k \<and> arr_index (asize t0) k = None \<and> set_with nk t k = nk t0 k)"
proof -
  have t0: "tab_ok t0" using t by (simp add: t0_def)
  show ?thesis
  proof (cases k)
    case (VNum x)
    show ?thesis
    proof (cases "num_eq x (int2num (lj_num2int x))")
      case True
      then have x: "x = int2num (lj_num2int x)" using k VNum num_eq_int2num by auto
      define i where "i = lj_num2int x"
      have k_eq: "k = VNum (int2num i)" using x VNum by (simp add: i_def)
      have eq: "set_with nk t k = setint_with nk t0 i"
        using True VNum by (simp add: set_with_def Let_def t0_def i_def)
      show ?thesis
      proof (cases "unat i < asize t0")
        case True
        then show ?thesis using eq k_eq by (auto simp: setint_with_def slot_for_def)
      next
        case False
        then show ?thesis using eq setinth_cases [OF t0 False, of nk] k_eq by (auto simp: setint_with_def)
      qed
    next
      case False
      then have "set_with nk t k = gen_set nk t0 k" "arr_index (asize t0) k = None"
        using k VNum by (simp_all add: set_with_def Let_def t0_def arr_index_def)
      then show ?thesis using gen_set_cases [OF t0 k] by auto
    qed
  next
    case (VStr s)
    have "set_with nk t k = rbind (find_key t0 (str_key s) (hashkey t0 k)) (set_found nk t0 k)"
      using VStr by (simp add: set_with_def Let_def t0_def setstr_with_def)
    moreover have "arr_index (asize t0) k = None" using VStr by (simp add: arr_index_def)
    ultimately show ?thesis
      using find_set_cases [OF t0 k, of "str_key s"] VStr by (auto simp: str_key_iff)
  qed (use k gen_set_cases [OF t0 k, of nk] in \<open>auto simp: set_with_def Let_def t0_def arr_index_def\<close>)
qed

end
