(* ===== verification/TabResize.thy ===== *)
theory TabResize
  imports TabCorrect
begin

text \<open>
  Resizing and rehashing: no entry is lost or changed, and after a rehash there is room
  for the key that caused it, so insertion ends with one rehash at most.
\<close>

section \<open>Setting with room\<close>

lemma set_post_newkey:
  assumes "newkey_post t k (t', HSlot i)" "arr_index (asize t) k = None"
  shows "tab_ok t' \<and> slot_for t' (HSlot i) k \<and> tab_map t' = tab_map t"
  using assms by (simp add: newkey_post_def slot_for_def tab_map_def fun_eq_iff split: option.split)

text \<open>The effect of a setter that does not resize.\<close>

definition set_post :: "GCtab \<Rightarrow> TValue \<Rightarrow> GCtab \<times> slot \<Rightarrow> bool" where
  "set_post t k r \<longleftrightarrow>
     (case r of (t', s) \<Rightarrow>
        tab_ok t' \<and> slot_for t' s k \<and> tab_map t' = tab_map t \<and> t_array t' = t_array t \<and>
        t_hmask t' = t_hmask t \<and> length (t_node t') = length (t_node t) \<and>
        n_used (t_node t') \<le> n_used (t_node t) + (if arr_index (asize t) k = None then 1 else 0))"

lemma newkey_set_post:
  assumes "tab_ok t" "key_ok k" "arr_index (asize t) k = None" "has_room t" "fresh t k"
  shows "\<exists>r. newkey_body nk t k = Inr r \<and> set_post t k r"
proof -
  obtain r where r: "newkey_body nk t k = Inr r" "newkey_post t k r"
    using newkey_room [OF assms(1,4,2,3)] assms(5) unfolding fresh_def by blast
  obtain t' i where t': "r = (t', HSlot i)"
    using r(2) by (cases r; cases "snd r") (auto simp: newkey_post_def)
  have "set_post t k r"
    using r(2) set_post_newkey [OF r(2) [unfolded t'] assms(3)] assms(3)
    by (simp add: t' set_post_def newkey_post_def)
  with r(1) show ?thesis by blast
qed

lemma has_room_nomm [simp]: "has_room (t\<lparr>t_nomm := b\<rparr>) = has_room t"
  by (simp add: has_room_def)

lemma set_room:
  assumes "tab_ok t" "key_ok k" "arr_index (asize t) k = None \<Longrightarrow> has_room t"
  shows "\<exists>r. set_with (newkey_body nk) t k = Inr r \<and> set_post t k r"
proof -
  let ?t = "t\<lparr>t_nomm := 0\<rparr>"
  have post: "set_post ?t k r \<Longrightarrow> set_post t k r" for r by (simp add: set_post_def)
  from set_with_cases [OF assms(1,2), of "newkey_body nk"] show ?thesis
  proof (elim disjE exE conjE)
    fix s assume s: "set_with (newkey_body nk) t k = Inr (?t, s)" "slot_for ?t s k"
    then have "set_post ?t k (?t, s)" using assms(1) by (simp add: set_post_def)
    then show ?thesis using s(1) post by blast
  next
    assume s: "fresh ?t k" "arr_index (asize ?t) k = None" "set_with (newkey_body nk) t k = newkey_body nk ?t k"
    then obtain r where "newkey_body nk ?t k = Inr r" "set_post ?t k r"
      using newkey_set_post [of ?t k nk] assms by auto
    then show ?thesis using s(3) post by auto
  qed
qed

lemma setinth_room:
  assumes "tab_ok t" "\<not> unat i < asize t" "has_room t"
  shows "\<exists>r. setinth_with (newkey_body nk) t i = Inr r \<and> set_post t (VNum (int2num i)) r"
  using setinth_cases [OF assms(1,2), of "newkey_body nk"]
proof (elim disjE exE conjE)
  fix j assume "setinth_with (newkey_body nk) t i = Inr (t, HSlot j)" "slot_for t (HSlot j) (VNum (int2num i))"
  then show ?thesis using assms by (auto simp: set_post_def)
next
  assume "fresh t (VNum (int2num i))" "setinth_with (newkey_body nk) t i = newkey_body nk t (VNum (int2num i))"
  then show ?thesis using newkey_set_post [OF assms(1), of "VNum (int2num i)" nk] assms(2,3) by simp
qed

section \<open>Reinserting pairs\<close>

type_synonym kv = "TValue \<times> TValue"

definition upd :: "kv \<Rightarrow> (TValue \<Rightarrow> TValue) \<Rightarrow> TValue \<Rightarrow> TValue" where
  "upd p m = m(fst p := snd p)"

lemma fold_upd:
  "distinct (map fst L) \<Longrightarrow> fold upd L m k = (case map_of L k of Some v \<Rightarrow> v | None \<Rightarrow> m k)"
proof (induction L arbitrary: m)
  case (Cons p L)
  then have "map_of L (fst p) = None" by (simp add: map_of_eq_None_iff)
  then show ?case using Cons by (auto simp: upd_def split: option.split)
qed simp

text \<open>The number of pairs that go to the hash part of a table with \<open>n\<close> array slots.\<close>

definition hash_bound :: "nat \<Rightarrow> kv list \<Rightarrow> nat" where
  "hash_bound n L = length (filter (\<lambda>p. arr_index n (fst p) = None) L)"

lemma hash_bound_simps [simp]:
  "hash_bound n [] = 0"
  "hash_bound n (p # L) = (if arr_index n (fst p) = None then 1 else 0) + hash_bound n L"
  "hash_bound n (L @ L') = hash_bound n L + hash_bound n L'"
  by (simp_all add: hash_bound_def)

text \<open>What storing a list of pairs one after the other leaves.\<close>

definition stored :: "GCtab \<Rightarrow> kv list \<Rightarrow> GCtab \<Rightarrow> bool" where
  "stored t L t' \<longleftrightarrow> tab_ok t' \<and> tab_map t' = fold upd L (tab_map t) \<and> asize t' = asize t \<and>
     t_hmask t' = t_hmask t \<and> length (t_node t') = length (t_node t) \<and>
     n_used (t_node t') \<le> n_used (t_node t) + hash_bound (asize t) L"

lemma stored_Nil: "tab_ok t \<Longrightarrow> stored t [] t"
  by (simp add: stored_def)

lemma stored_Cons:
  assumes "set_post t k (t1, s)" "key_ok k" "stored (store t1 s v) L t'"
  shows "stored t ((k, v) # L) t'"
proof -
  have t1: "tab_ok t1" "slot_for t1 s k" "tab_map t1 = tab_map t" "asize t1 = asize t"
    "t_hmask t1 = t_hmask t" "length (t_node t1) = length (t_node t)"
    "n_used (t_node t1) \<le> n_used (t_node t) + (if arr_index (asize t) k = None then 1 else 0)"
    using assms(1) by (auto simp: set_post_def)
  show ?thesis
    using assms(3) store_correct(2) [OF t1(1) assms(2) t1(2), of v] t1
    by (simp add: stored_def upd_def)
qed

definition fits :: "GCtab \<Rightarrow> kv list \<Rightarrow> bool" where
  "fits t L \<longleftrightarrow> n_used (t_node t) + hash_bound (asize t) L \<le> length (t_node t) \<and>
     (t_hmask t = 0 \<longrightarrow> hash_bound (asize t) L = 0)"

lemma fits_room: "fits t ((k, v) # L) \<Longrightarrow> arr_index (asize t) k = None \<Longrightarrow> has_room t"
  by (auto simp: fits_def has_room_def)

lemma fits_Cons:
  assumes "fits t ((k, v) # L)" "set_post t k (t1, s)"
  shows "fits (store t1 s v) L"
  using assms by (auto simp: fits_def set_post_def split: if_splits)

lemma store_ok: "set_post t k (t1, s) \<Longrightarrow> key_ok k \<Longrightarrow> tab_ok (store t1 s v)"
  using store_correct(1) by (auto simp: set_post_def)

definition node_pairs :: "node list \<Rightarrow> kv list" where
  "node_pairs ns = map (\<lambda>n. (n_key n, n_val n)) (filter (\<lambda>n. n_val n \<noteq> VNil) ns)"

lemma node_pairs_simps [simp]:
  "node_pairs [] = []"
  "node_pairs (n # ns) = (if n_val n \<noteq> VNil then [(n_key n, n_val n)] else []) @ node_pairs ns"
  by (simp_all add: node_pairs_def)

lemma reinsert_hash_stored:
  assumes "tab_ok t" "\<forall>n \<in> set ns. n_val n \<noteq> VNil \<longrightarrow> key_ok (n_key n)" "fits t (node_pairs ns)"
  shows "\<exists>t'. reinsert_hash (newkey_body nk) ns t = Inr t' \<and> stored t (node_pairs ns) t'"
  using assms
proof (induction ns arbitrary: t)
  case Nil
  then show ?case by (simp add: reinsert_hash_def stored_Nil)
next
  case (Cons n ns)
  show ?case
  proof (cases "n_val n = VNil")
    case True
    then show ?thesis using Cons by (simp add: reinsert_hash_def)
  next
    case False
    then have k: "key_ok (n_key n)" using Cons.prems by simp
    have fit: "fits t ((n_key n, n_val n) # node_pairs ns)" using Cons.prems(3) False by simp
    obtain t1 s where s: "set_with (newkey_body nk) t (n_key n) = Inr (t1, s)" "set_post t (n_key n) (t1, s)"
      using set_room [OF Cons.prems(1) k fits_room [OF fit], of nk] by auto
    obtain t' where t': "reinsert_hash (newkey_body nk) ns (store t1 s (n_val n)) = Inr t'"
      "stored (store t1 s (n_val n)) (node_pairs ns) t'"
      using Cons.IH [OF store_ok [OF s(2) k] _ fits_Cons [OF fit s(2)]] Cons.prems(2) by auto
    then show ?thesis using s(1) stored_Cons [OF s(2) k t'(2)] False by (simp add: reinsert_hash_def)
  qed
qed

definition array_pairs :: "TValue list \<Rightarrow> nat list \<Rightarrow> kv list" where
  "array_pairs a is = map (\<lambda>i. (VNum (int2num (word_of_nat i)), a ! i)) (filter (\<lambda>i. a ! i \<noteq> VNil) is)"

lemma array_pairs_simps [simp]:
  "array_pairs a [] = []"
  "array_pairs a (i # is) =
     (if a ! i \<noteq> VNil then [(VNum (int2num (word_of_nat i)), a ! i)] else []) @ array_pairs a is"
  by (simp_all add: array_pairs_def)

lemma reinsert_array_stored:
  assumes "tab_ok t" "\<forall>i \<in> set is. asize t \<le> i \<and> i < 2 ^ 32" "fits t (array_pairs a is)"
  shows "\<exists>t'. fold_res (\<lambda>i t.
       if a ! i \<noteq> VNil
       then rbind (setinth_with (newkey_body nk) t (word_of_nat i)) (\<lambda>(t, s). Inr (store t s (a ! i)))
       else Inr t) is t = Inr t' \<and> stored t (array_pairs a is) t'"
  using assms
proof (induction "is" arbitrary: t)
  case Nil
  then show ?case by (simp add: stored_Nil)
next
  case (Cons i js)
  show ?case
  proof (cases "a ! i = VNil")
    case True
    then show ?thesis using Cons by simp
  next
    case False
    let ?k = "VNum (int2num (word_of_nat i))"
    have i: "unat (word_of_nat i :: u32) = i" using Cons.prems(2) by (intro unat_of_nat_eq) simp
    then have out: "\<not> unat (word_of_nat i :: u32) < asize t" using Cons.prems(2) by simp
    have fit: "fits t ((?k, a ! i) # array_pairs a js)" using Cons.prems(3) False by simp
    have room: "has_room t" using fits_room [OF fit] out by simp
    obtain t1 s where s: "setinth_with (newkey_body nk) t (word_of_nat i) = Inr (t1, s)" "set_post t ?k (t1, s)"
      using setinth_room [OF Cons.prems(1) out room, of nk] by auto
    have sz: "asize (store t1 s (a ! i)) = asize t" using s(2) by (simp add: set_post_def)
    obtain t' where t': "fold_res (\<lambda>i t.
         if a ! i \<noteq> VNil
         then rbind (setinth_with (newkey_body nk) t (word_of_nat i)) (\<lambda>(t, s). Inr (store t s (a ! i)))
         else Inr t) js (store t1 s (a ! i)) = Inr t'"
      "stored (store t1 s (a ! i)) (array_pairs a js) t'"
      using Cons.IH [OF store_ok [OF s(2)] _ fits_Cons [OF fit s(2)]] Cons.prems(2) sz by auto
    then show ?thesis using s(1) stored_Cons [OF s(2) _ t'(2)] False by simp
  qed
qed

section \<open>Resizing\<close>

lemma nodes_ok_blank: "\<forall>n \<in> set ns. n = blank_node \<Longrightarrow> nodes_ok h ns"
proof -
  assume b: "\<forall>n \<in> set ns. n = blank_node"
  then have "i < length ns \<Longrightarrow> ns ! i = blank_node" for i by simp
  then show ?thesis
    by (auto simp: nodes_ok_def chains_end_def next_inj_def next_used_def free_blank_def anchored_def
        keys_distinct_def foreign_ok_def blank_node_def intro!: exI chain.last)
qed

lemma node_map_blank:
  assumes "\<forall>n \<in> set ns. n = blank_node"
  shows "node_map ns k = VNil"
proof (cases "List.find (\<lambda>i. n_key (ns ! i) = k) [0 ..< length ns]")
  case (Some i)
  then have "i < length ns" using find_SomeD [OF Some] by simp
  then have "ns ! i = blank_node" using assms by simp
  then show ?thesis using Some by (simp add: node_map_def blank_node_def)
qed (simp add: node_map_def)

text \<open>The table with its new array and an empty hash part, before anything is reinserted.\<close>

definition emptied :: "GCtab \<Rightarrow> nat \<Rightarrow> GCtab \<Rightarrow> bool" where
  "emptied t hbits t' \<longleftrightarrow> (\<forall>n \<in> set (t_node t'). n = blank_node) \<and> tab_ok t' \<and>
     t_hmask t' = mask hbits \<and> length (t_node t') = 2 ^ hbits"

lemma new_hash_part:
  assumes "hbits \<le> LJ_MAX_HBITS" "asize t \<le> LJ_MAX_ASIZE"
  shows "\<exists>t'. (if hbits \<noteq> 0 then rbind (newhpart t hbits) (\<lambda>t. Inr (clearhpart t))
      else Inr (t\<lparr>t_node := [blank_node], t_hmask := 0, t_freetop := 0\<rparr>)) = Inr t' \<and>
    t_array t' = t_array t \<and> emptied t hbits t'"
proof (cases "hbits = 0")
  case True
  then show ?thesis using assms
    by (auto simp: emptied_def tab_ok_def hash_ok_def nodes_ok_blank blank_node_def intro!: exI [of _ 0])
next
  case False
  have m: "word_of_nat (2 ^ hbits) - 1 = (mask hbits :: u32)" by (simp add: mask_eq_exp_minus_1)
  have um: "unat (mask hbits :: u32) = 2 ^ hbits - 1"
  proof -
    have "(2::nat) ^ hbits \<le> 2 ^ 26"
      using assms(1) by (intro power_increasing) (simp_all add: LJ_MAX_HBITS_def)
    then have "unat (word_of_nat (2 ^ hbits - 1) :: u32) = 2 ^ hbits - 1" by (intro unat_of_nat_eq) simp
    moreover have "(word_of_nat (2 ^ hbits - 1) :: u32) = mask hbits"
      using m by (simp add: of_nat_diff)
    ultimately show ?thesis by simp
  qed
  have "mask hbits \<noteq> (0::u32)" using False by simp
  then show ?thesis using False assms m um
    by (auto simp: newhpart_def clearhpart_def emptied_def tab_ok_def hash_ok_def nodes_ok_blank
        blank_node_def Let_def)
qed

text \<open>The pairs a resize moves: the array entries cut off and everything in the hash part.\<close>

definition moved :: "GCtab \<Rightarrow> nat \<Rightarrow> kv list" where
  "moved t n = array_pairs (t_array t) [n ..< asize t] @ node_pairs (t_node t)"

lemma fold_upd_eq: "(\<And>k. fold upd L m k = m' k) \<Longrightarrow> fold upd L m = m'"
  by (rule ext)

lemma map_of_array_pairs:
  assumes "\<forall>i \<in> set is. i < 2 ^ 32" "distinct is"
  shows "distinct (map fst (array_pairs a is))"
    "map_of (array_pairs a is) k = (case k of VNum x \<Rightarrow>
       (if \<exists>i \<in> set is. x = int2num (word_of_nat i) \<and> a ! i \<noteq> VNil
        then Some (a ! unat (lj_num2int x)) else None) | _ \<Rightarrow> None)"
proof -
  have inj: "int2num (word_of_nat i) = int2num (word_of_nat j) \<longleftrightarrow> i = j"
    if "i < 2 ^ 32" "j < 2 ^ 32" for i j
  proof
    assume "int2num (word_of_nat i) = int2num (word_of_nat j)"
    then have "(word_of_nat i :: u32) = word_of_nat j" by (metis lj_num2int_int2num)
    then have "unat (word_of_nat i :: u32) = unat (word_of_nat j :: u32)" by simp
    then show "i = j" using that by (simp add: unat_of_nat_eq)
  qed simp
  show "distinct (map fst (array_pairs a is))"
    using assms by (induction "is") (auto simp: array_pairs_def inj)
  show "map_of (array_pairs a is) k = (case k of VNum x \<Rightarrow>
       (if \<exists>i \<in> set is. x = int2num (word_of_nat i) \<and> a ! i \<noteq> VNil
        then Some (a ! unat (lj_num2int x)) else None) | _ \<Rightarrow> None)"
    using assms(1)
  proof (induction "is")
    case Nil
    then show ?case by (cases k) simp_all
  next
    case (Cons i js)
    then show ?case by (cases k) (auto simp: unat_of_nat_eq)
  qed
qed

lemma node_pairs_map:
  assumes ok: "nodes_ok h ns"
  shows "distinct (map fst (node_pairs ns))"
    "niltv (map_of (node_pairs ns) k) = (if k = VNil then VNil else node_map ns k)"
    "map_of (node_pairs ns) k = Some v \<Longrightarrow> node_map ns k = v \<and> v \<noteq> VNil"
    "map_of (node_pairs ns) k = None \<Longrightarrow> k \<noteq> VNil \<Longrightarrow> node_map ns k = VNil"
proof -
  have dist: "distinct (map n_key (filter (\<lambda>n. n_val n \<noteq> VNil) ns))"
  proof -
    have "distinct (map n_key (filter (\<lambda>n. n_val n \<noteq> VNil) (drop j ns)))" for j
    proof (induction "length ns - j" arbitrary: j)
      case (Suc d)
      then have j: "j < length ns" by simp
      have IH: "distinct (map n_key (filter (\<lambda>n. n_val n \<noteq> VNil) (drop (Suc j) ns)))"
        using Suc by simp
      have "n_key (ns ! j) \<notin> n_key ` {n \<in> set (drop (Suc j) ns). n_val n \<noteq> VNil}" if v: "n_val (ns ! j) \<noteq> VNil"
      proof
        assume "n_key (ns ! j) \<in> n_key ` {n \<in> set (drop (Suc j) ns). n_val n \<noteq> VNil}"
        then obtain m where m: "m \<in> set (drop (Suc j) ns)" "n_key (ns ! j) = n_key m" by auto
        then obtain i where "i < length (drop (Suc j) ns)" "drop (Suc j) ns ! i = m"
          unfolding in_set_conv_nth by blast
        then have i: "Suc j + i < length ns" "n_key (ns ! j) = n_key (ns ! (Suc j + i))"
          using m(2) by auto
        have "n_key (ns ! j) \<noteq> VNil" using nodes_free [OF ok j] v by auto
        then show False using nodes_dist [OF ok j i] by simp
      qed
      then show ?case using IH j by (simp add: Cons_nth_drop_Suc [symmetric])
    qed simp
    from this [of 0] show ?thesis by simp
  qed
  then show d: "distinct (map fst (node_pairs ns))" by (simp add: node_pairs_def comp_def)
  show 1: "map_of (node_pairs ns) k = Some v \<Longrightarrow> node_map ns k = v \<and> v \<noteq> VNil" for v
  proof -
    assume "map_of (node_pairs ns) k = Some v"
    then have "(k, v) \<in> set (node_pairs ns)" by (rule map_of_SomeD)
    then obtain i where i: "i < length ns" "n_key (ns ! i) = k" "n_val (ns ! i) = v" "v \<noteq> VNil"
      by (auto simp: node_pairs_def in_set_conv_nth)
    moreover from this have "k \<noteq> VNil" using nodes_free [OF ok i(1)] by auto
    ultimately show ?thesis using node_map_in [OF ok i(1,2)] by simp
  qed
  show 2: "map_of (node_pairs ns) k = None \<Longrightarrow> k \<noteq> VNil \<Longrightarrow> node_map ns k = VNil"
  proof -
    assume none: "map_of (node_pairs ns) k = None" and k: "k \<noteq> VNil"
    then have no: "\<And>i. i < length ns \<Longrightarrow> n_key (ns ! i) = k \<Longrightarrow> n_val (ns ! i) = VNil"
      by (force simp: map_of_eq_None_iff node_pairs_def)
    show ?thesis
    proof (cases "\<exists>i < length ns. n_key (ns ! i) = k")
      case True
      then show ?thesis using node_map_in [OF ok _ _ k] no by metis
    next
      case False
      then show ?thesis by (intro node_map_out) auto
    qed
  qed
  show "niltv (map_of (node_pairs ns) k) = (if k = VNil then VNil else node_map ns k)"
  proof (cases "map_of (node_pairs ns) k")
    case (Some v)
    then have "k \<noteq> VNil"
      using nodes_free [OF ok] by (auto simp: node_pairs_def in_set_conv_nth dest!: map_of_SomeD)
    then show ?thesis using Some 1 by (simp add: niltv_def)
  qed (use 2 in \<open>auto simp: niltv_def\<close>)
qed

definition resized_array :: "TValue list \<Rightarrow> nat \<Rightarrow> TValue list" where
  "resized_array a n = (if length a < n then a @ replicate (n - length a) VNil else take n a)"

lemma length_resized [simp]: "length (resized_array a n) = n"
  by (simp add: resized_array_def)

lemma arr_index_mono:
  "arr_index m k = Some i \<Longrightarrow> arr_index n k = (if i < n then Some i else None)"
  by (cases k) (auto simp: arr_index_def Let_def split: if_splits)

lemma array_pairs_keys:
  "\<forall>i \<in> set is. i < 2 ^ 32 \<Longrightarrow> p \<in> set (array_pairs a is) \<Longrightarrow>
   \<exists>i \<in> set is. key_ok (fst p) \<and> fst p = VNum (int2num (word_of_nat i)) \<and> snd p = a ! i \<and> a ! i \<noteq> VNil"
  by (auto simp: array_pairs_def)

lemma array_pairs_lookup:
  assumes lt: "\<forall>i \<in> set is. i < 2 ^ 32" and d: "distinct is" and i: "i \<in> set is"
  shows "map_of (array_pairs a is) (VNum (int2num (word_of_nat i))) =
    (if a ! i \<noteq> VNil then Some (a ! i) else None)"
proof -
  have u: "j \<in> set is \<Longrightarrow> unat (word_of_nat j :: u32) = j" for j using lt by (simp add: unat_of_nat_eq)
  have inj: "j \<in> set is \<Longrightarrow> int2num (word_of_nat i) = int2num (word_of_nat j) \<Longrightarrow> i = j" for j
    using u [OF i] u [of j] by (metis lj_num2int_int2num)
  show ?thesis using map_of_array_pairs(2) [OF lt d] i inj u [OF i] by auto
qed

lemma moved_map:
  assumes t: "tab_ok t" and n: "n \<le> LJ_MAX_ASIZE"
    and m0: "\<And>k. m0 k = (if key_ok k then case arr_index n k of
        Some i \<Rightarrow> resized_array (t_array t) n ! i | None \<Rightarrow> VNil else VNil)"
  shows "fold upd (moved t n) m0 = tab_map t"
proof
  fix k
  let ?a = "t_array t" let ?is = "[n ..< asize t]"
  let ?A = "array_pairs ?a ?is" let ?N = "node_pairs (t_node t)"
  have ok: "nodes_ok (hashkey t) (t_node t)" using t by (simp add: tab_ok_def)
  have lt: "\<forall>i \<in> set ?is. i < 2 ^ 32" using t by (auto simp: tab_ok_def LJ_MAX_ASIZE_def)
  have d: "distinct ?is" by simp
  note ap = map_of_array_pairs [OF lt d, of ?a] and np = node_pairs_map [OF ok]
  have N_keys: "p \<in> set ?N \<Longrightarrow> key_ok (fst p) \<and> arr_index (asize t) (fst p) = None" for p
    using t nodes_free [OF ok] by (force simp: node_pairs_def in_set_conv_nth tab_ok_def)
  have A_keys: "p \<in> set ?A \<Longrightarrow> key_ok (fst p) \<and> (\<exists>i. arr_index (asize t) (fst p) = Some i)" for p
    using array_pairs_keys [OF lt, of p ?a] lt by (auto simp: unat_of_nat_eq)
  have "distinct (map fst (moved t n))"
    using ap(1) np(1) A_keys N_keys by (fastforce simp: moved_def)
  moreover have N_none: "map_of ?N k = Some v \<Longrightarrow> key_ok k \<and> arr_index (asize t) k = None" for v
    using N_keys by (force dest: map_of_SomeD)
  moreover have A_some: "map_of ?A k = Some v \<Longrightarrow> key_ok k \<and> (\<exists>i. arr_index (asize t) k = Some i)" for v
    using A_keys by (force dest: map_of_SomeD)
  ultimately have eq: "fold upd (moved t n) m0 k = (case map_of ?N k of Some v \<Rightarrow> v
      | None \<Rightarrow> case map_of ?A k of Some v \<Rightarrow> v | None \<Rightarrow> m0 k)"
    by (simp add: fold_upd moved_def map_add_def split: option.split)
  show "fold upd (moved t n) m0 k = tab_map t k"
  proof (cases "key_ok k")
    case False
    then have "map_of ?N k = None" "map_of ?A k = None" using N_none A_some by fastforce+
    then show ?thesis using False m0 by (simp add: eq tab_map_def)
  next
    case k: True
    show ?thesis
    proof (cases "arr_index (asize t) k")
      case (Some i)
      then have i: "i < asize t" "k = VNum (int2num (word_of_nat i))" using arr_index_Some k by blast+
      have N: "map_of ?N k = None" using N_none Some by fastforce
      have tm: "tab_map t k = ?a ! i" using k Some by (simp add: tab_map_def)
      show ?thesis
      proof (cases "i < n")
        case True
        have "map_of ?A k = None"
        proof (rule ccontr)
          assume "map_of ?A k \<noteq> None"
          then obtain v where "(k, v) \<in> set ?A" by (auto dest: map_of_SomeD)
          then obtain j where j: "j \<in> set ?is" "k = VNum (int2num (word_of_nat j))"
            using array_pairs_keys [OF lt] by fastforce
          then have "arr_index (asize t) k = Some j" using lt by (auto simp: unat_of_nat_eq)
          then show False using Some True j(1) by simp
        qed
        moreover have "m0 k = ?a ! i"
          using k arr_index_mono [OF Some, of n] True i(1) by (simp add: m0 resized_array_def nth_append)
        ultimately show ?thesis using N tm by (simp add: eq)
      next
        case False
        then have "map_of ?A k = (if ?a ! i \<noteq> VNil then Some (?a ! i) else None)"
          using array_pairs_lookup [OF lt d, of i ?a] i by simp
        moreover have "m0 k = VNil" using k arr_index_mono [OF Some, of n] False by (simp add: m0)
        ultimately show ?thesis using N tm by (simp add: eq)
      qed
    next
      case None
      have A: "map_of ?A k = None" using A_some None by fastforce
      have "m0 k = VNil"
      proof (cases "arr_index n k")
        case (Some i)
        then have "i < n" "\<not> i < asize t"
          using arr_index_Some [OF Some k] arr_index_mono [OF Some, of "asize t"] None by (auto split: if_splits)
        then show ?thesis using Some k by (simp add: m0 resized_array_def nth_append)
      qed (use k in \<open>simp add: m0\<close>)
      moreover have "tab_map t k = node_map (t_node t) k" using k None by (simp add: tab_map_def)
      ultimately show ?thesis
        using A np(3) [of k] np(4) [of k] key_ok_not_nil [OF k] by (cases "map_of ?N k") (simp_all add: eq)
    qed
  qed
qed

lemma stored_trans:
  "stored t L t' \<Longrightarrow> stored t' L' t'' \<Longrightarrow> stored t (L @ L') t''"
  by (simp add: stored_def)

lemma emptied_array:
  assumes "emptied t hbits t'" "length a \<le> LJ_MAX_ASIZE"
  shows "tab_ok (t'\<lparr>t_array := a\<rparr>)" "n_used (t_node (t'\<lparr>t_array := a\<rparr>)) = 0"
    "tab_map (t'\<lparr>t_array := a\<rparr>) k = (if key_ok k then case arr_index (length a) k of
       Some i \<Rightarrow> a ! i | None \<Rightarrow> VNil else VNil)"
proof -
  have b: "\<forall>n \<in> set (t_node t'). n = blank_node" using assms(1) by (simp add: emptied_def)
  then have b': "i < length (t_node t') \<Longrightarrow> t_node t' ! i = blank_node" for i by simp
  show "n_used (t_node (t'\<lparr>t_array := a\<rparr>)) = 0"
  proof -
    have "\<forall>n \<in> set (t_node t'). n_key n = VNil" using b by (auto simp: blank_node_def)
    then show ?thesis by (simp add: n_used_def filter_empty_conv)
  qed
  show "tab_ok (t'\<lparr>t_array := a\<rparr>)"
  proof -
    have "hash_ok t'" using assms(1) by (simp add: emptied_def tab_ok_def)
    then have "hash_ok (t'\<lparr>t_array := a\<rparr>)" by (auto simp: hash_ok_def split: if_splits)
    moreover have "\<forall>i < length (t_node t'). n_key (t_node t' ! i) = VNil"
      using b' by (simp add: blank_node_def)
    ultimately show ?thesis using assms(2) nodes_ok_blank [OF b] by (simp add: tab_ok_def)
  qed
  show "tab_map (t'\<lparr>t_array := a\<rparr>) k = (if key_ok k then case arr_index (length a) k of
       Some i \<Rightarrow> a ! i | None \<Rightarrow> VNil else VNil)"
    by (simp add: tab_map_def node_map_blank [OF b] split: option.split)
qed

theorem resize_ok:
  assumes t: "tab_ok t" and n: "n \<le> LJ_MAX_ASIZE" and hb: "hbits \<le> LJ_MAX_HBITS"
    and room: "hash_bound n (moved t n) \<le> 2 ^ hbits" "hbits = 0 \<Longrightarrow> hash_bound n (moved t n) = 0"
  shows "\<exists>t'. resize_with (newkey_body nk) t n hbits = Inr t' \<and> tab_ok t' \<and> tab_map t' = tab_map t \<and>
    asize t' = n \<and> t_hmask t' = mask hbits \<and> length (t_node t') = 2 ^ hbits \<and>
    n_used (t_node t') \<le> hash_bound n (moved t n)"
proof -
  let ?a = "t_array t" let ?nk = "newkey_body nk" let ?A = "array_pairs ?a [n ..< asize t]"
  have ok: "nodes_ok (hashkey t) (t_node t)" and as: "asize t \<le> LJ_MAX_ASIZE"
    using t by (simp_all add: tab_ok_def)
  define t1 where "t1 = (if asize t < n
      then t\<lparr>t_colo := (if LJ_MAX_COLOSIZE \<noteq> 0 \<and> 0 < t_colo t then t_colo t - 128 else t_colo t),
             t_array := ?a @ replicate (n - asize t) VNil\<rparr> else t)"
  have a1: "t_array t1 = (if asize t < n then resized_array ?a n else ?a)"
    by (simp add: t1_def resized_array_def)
  have as1: "asize t1 \<le> LJ_MAX_ASIZE" using n as by (simp add: a1)
  obtain t2 where t2: "(if hbits \<noteq> 0 then rbind (newhpart t1 hbits) (\<lambda>t. Inr (clearhpart t))
      else Inr (t1\<lparr>t_node := [blank_node], t_hmask := 0, t_freetop := 0\<rparr>)) = Inr t2"
      "t_array t2 = t_array t1" "emptied t1 hbits t2"
    using new_hash_part [OF hb as1] by blast
  define t3 where "t3 = t2\<lparr>t_array := resized_array ?a n\<rparr>"
  have t3': "t3 = (if n < asize t then t2\<lparr>t_array := take n ?a\<rparr> else t2)"
    using t2(2) a1 by (auto simp: t3_def resized_array_def)
  have l3: "length (resized_array ?a n) \<le> LJ_MAX_ASIZE" using n by simp
  note e = emptied_array [OF t2(3) l3, folded t3_def]
  have as3: "asize t3 = n" and len3: "length (t_node t3) = 2 ^ hbits" and hm3: "t_hmask t3 = mask hbits"
    using t2(3) by (simp_all add: t3_def emptied_def)
  have fit: "fits t3 (moved t n)"
    using room e(2) as3 len3 hm3 by (simp add: fits_def)
  then have fitA: "fits t3 ?A" by (auto simp: fits_def moved_def)
  have idx: "\<forall>i \<in> set [n ..< asize t]. asize t3 \<le> i \<and> i < 2 ^ 32"
    using as as3 by (auto simp: LJ_MAX_ASIZE_def)
  obtain t4 where t4: "reinsert_array ?nk ?a n t3 = Inr t4" "stored t3 ?A t4"
    using reinsert_array_stored [OF e(1) idx fitA, of nk] unfolding reinsert_array_def by blast
  have t4': "(if n < asize t then reinsert_array ?nk ?a n (t2\<lparr>t_array := take n ?a\<rparr>) else Inr t2) = Inr t4"
    using t4(1) t3' by (auto simp: reinsert_array_def)
  have keys: "\<forall>m \<in> set (t_node t). n_val m \<noteq> VNil \<longrightarrow> key_ok (n_key m)"
    using t nodes_free [OF ok] by (force simp: in_set_conv_nth tab_ok_def)
  have "fits t4 (node_pairs (t_node t))"
    using fit t4(2) by (auto simp: fits_def stored_def moved_def)
  then obtain t5 where t5: "reinsert_hash ?nk (t_node t) t4 = Inr t5" "stored t4 (node_pairs (t_node t)) t5"
    using reinsert_hash_stored [OF _ keys, of t4 nk] t4(2) by (auto simp: stored_def)
  have t5': "(if t_hmask t > 0 then reinsert_hash ?nk (t_node t) t4 else Inr t4) = Inr t5"
  proof (cases "t_hmask t = 0")
    case True
    then have "t_node t = [blank_node]" using t by (simp add: tab_ok_def hash_ok_def)
    then have "reinsert_hash ?nk (t_node t) t4 = Inr t4" by (simp add: reinsert_hash_def blank_node_def)
    then show ?thesis using t5(1) True by simp
  qed (use t5(1) in \<open>simp add: word_gt_0\<close>)
  have st: "stored t3 (moved t n) t5"
    unfolding moved_def by (rule stored_trans [OF t4(2) t5(2)])
  have s1: "(if asize t < n
      then if LJ_MAX_ASIZE < n then Inl (Throw LJ_ERR_TABOV)
           else Inr (t\<lparr>t_colo := (if LJ_MAX_COLOSIZE \<noteq> 0 \<and> 0 < t_colo t then t_colo t - 128 else t_colo t),
                       t_array := ?a @ replicate (n - asize t) VNil\<rparr>)
      else Inr t) = Inr t1"
    using n by (simp add: t1_def)
  have "resize_with ?nk t n hbits = Inr t5"
    by (simp only: resize_with_def Let_def s1 t2(1) t4' t5' rbind_simps)
  moreover have "tab_map t5 = tab_map t"
    using st moved_map [OF t n, of "tab_map t3"] e(3) by (simp add: stored_def)
  ultimately show ?thesis
    using st as3 len3 hm3 e(2) by (auto simp: stored_def)
qed

end
