(* ===== verification/TabRehash.thy ===== *)
theory TabRehash
  imports TabResize
begin

text \<open>
  Rehashing counts the integer keys in bins, picks the best array size from the bins and
  resizes.  The counting is exact, so the new hash part has room for every entry that
  does not fit into the array and for the key that is to be inserted.
\<close>

section \<open>Bins\<close>

definition ibin :: "nat \<Rightarrow> nat" where
  "ibin i = (if 2 < i then fls (i - 1) else 0)"

text \<open>The first index of a bin.\<close>

definition bstart :: "nat \<Rightarrow> nat" where
  "bstart b = (if b = 0 then 0 else 2 ^ b + 1)"

lemma ibin_less: "ibin i < Suc b \<longleftrightarrow> i < bstart (Suc b)"
proof (cases "2 < i")
  case True
  have f: "2 ^ fls (i - 1) \<le> i - 1 \<and> i - 1 < 2 ^ Suc (fls (i - 1))" using True by (intro fls_bounds) simp
  show ?thesis
  proof
    assume "ibin i < Suc b"
    then have "(2::nat) ^ Suc (fls (i - 1)) \<le> 2 ^ Suc b" using True by (intro power_increasing) (simp_all add: ibin_def)
    then have "i - 1 < 2 ^ Suc b" using f by (meson less_le_trans)
    then show "i < bstart (Suc b)" by (simp add: bstart_def)
  next
    assume "i < bstart (Suc b)"
    then have "i - 1 < 2 ^ Suc b" using True by (simp add: bstart_def)
    then have "fls (i - 1) < Suc b" using True by (intro fls_less) simp_all
    then show "ibin i < Suc b" using True by (simp add: ibin_def)
  qed
next
  case False
  have "(1::nat) \<le> 2 ^ b" by simp
  with False have "i < Suc (2 * 2 ^ b)" by linarith
  then show ?thesis using False by (simp add: ibin_def bstart_def)
qed

lemma ibin_eq: "ibin i = b \<longleftrightarrow> bstart b \<le> i \<and> i < bstart (Suc b)"
proof (cases b)
  case 0
  then show ?thesis using ibin_less [of i 0] by (auto simp: bstart_def)
next
  case (Suc c)
  then show ?thesis using ibin_less [of i c] ibin_less [of i b] by (simp add: not_less) linarith
qed

lemma bstart_mono: "bstart b < bstart (Suc b)"
  by (auto simp: bstart_def)

lemma ibin_max: "i < LJ_MAX_ASIZE \<Longrightarrow> ibin i < 27"
  using ibin_less [of i 26] by (simp add: bstart_def LJ_MAX_ASIZE_def)

text \<open>How many of the indices \<open>I\<close> are in bin \<open>b\<close>, and below \<open>n\<close>.\<close>

definition in_bin :: "nat list \<Rightarrow> nat \<Rightarrow> nat" where
  "in_bin I b = length (filter (\<lambda>i. ibin i = b) I)"

definition below :: "nat list \<Rightarrow> nat \<Rightarrow> nat" where
  "below I n = length (filter (\<lambda>i. i < n) I)"

lemma in_bin_simps [simp]:
  "in_bin [] b = 0" "in_bin (i # I) b = (if ibin i = b then 1 else 0) + in_bin I b"
  "in_bin (I @ J) b = in_bin I b + in_bin J b"
  by (simp_all add: in_bin_def)

lemma below_simps [simp]:
  "below [] n = 0" "below (i # I) n = (if i < n then 1 else 0) + below I n"
  "below (I @ J) n = below I n + below J n"
  by (simp_all add: below_def)

lemma below_bstart_Suc: "below I (bstart (Suc b)) = below I (bstart b) + in_bin I b"
proof (induction I)
  case (Cons i I)
  have "i < bstart (Suc b) \<longleftrightarrow> i < bstart b \<or> ibin i = b"
    using ibin_eq [of i b] bstart_mono [of b] by auto
  moreover have "\<not> (i < bstart b \<and> ibin i = b)" using ibin_eq [of i b] by auto
  ultimately show ?case using Cons by auto
qed simp

lemma in_bin_same: "\<forall>i \<in> set I. ibin i = b \<Longrightarrow> in_bin I c = (if c = b then length I else 0)"
  by (induction I) auto

lemma below_all: "\<forall>i \<in> set I. i < n \<Longrightarrow> below I n = length I"
  by (induction I) simp_all

lemma below_le: "below I n \<le> length I"
  by (simp add: below_def)

section \<open>Counting\<close>

definition counted :: "nat list \<Rightarrow> nat list \<Rightarrow> nat list \<Rightarrow> bool" where
  "counted bins I bins' \<longleftrightarrow> length bins' = length bins \<and> (\<forall>b < length bins. bins' ! b = bins ! b + in_bin I b)"

lemma counted_trans: "counted a I b \<Longrightarrow> counted b J c \<Longrightarrow> counted a (I @ J) c"
  by (simp add: counted_def)

lemma counted_Nil [simp]: "counted a [] a"
  by (simp add: counted_def)

definition key_idx :: "TValue \<Rightarrow> nat list" where
  "key_idx k = (case arr_index LJ_MAX_ASIZE k of Some i \<Rightarrow> [i] | None \<Rightarrow> [])"

lemma key_idx_less: "i \<in> set (key_idx k) \<Longrightarrow> i < LJ_MAX_ASIZE"
  by (cases k) (auto simp: key_idx_def arr_index_def Let_def split: if_splits)

lemma key_idx_num: "key_idx (VNum x) =
    (if unat (lj_num2int x) < LJ_MAX_ASIZE \<and> num_eq x (int2num (lj_num2int x))
     then [unat (lj_num2int x)] else [])"
  by (simp add: key_idx_def arr_index_def Let_def)

lemma key_idx_other: "(\<And>x. key \<noteq> VNum x) \<Longrightarrow> key_idx key = []"
  by (cases key) (auto simp: key_idx_def arr_index_def)

lemma ibin_word:
  assumes "unat k < LJ_MAX_ASIZE"
  shows "(if 2 < sint k then lj_fls (k - 1) else 0) = ibin (unat k)"
proof -
  have s: "sint k = int (unat k)" using assms by (intro sint_small) (simp add: LJ_MAX_ASIZE_def)
  have "2 < unat k \<Longrightarrow> unat (k - 1) = unat k - 1" by (intro unat_minus_one) auto
  moreover have "2 < sint k \<longleftrightarrow> 2 < unat k" using s by linarith
  ultimately show ?thesis by (simp add: ibin_def lj_fls_def)
qed

lemma countint_eq:
  assumes "length bins = 28"
  shows "\<exists>bins'. countint key bins = (length (key_idx key), bins') \<and> counted bins (key_idx key) bins'"
proof (cases "\<exists>x. key = VNum x")
  case True
  then obtain x where key: "key = VNum x" by blast
  show ?thesis
  proof (cases "unat (lj_num2int x) < LJ_MAX_ASIZE \<and> num_eq x (int2num (lj_num2int x))")
    case True
    let ?b = "ibin (unat (lj_num2int x))"
    have "?b < 28" using ibin_max [of "unat (lj_num2int x)"] True by simp
    moreover have "countint key bins = (1, bins[?b := bins ! ?b + 1])"
      using True ibin_word [of "lj_num2int x"] by (simp add: countint_def key Let_def)
    ultimately show ?thesis using True assms
      by (simp add: key key_idx_num counted_def nth_list_update)
  next
    case False
    then show ?thesis by (auto simp: countint_def key Let_def key_idx_num)
  qed
next
  case False
  then have "key_idx key = []" by (intro key_idx_other) auto
  then show ?thesis using False by (cases key) (simp_all add: countint_def)
qed

definition nodes_idx :: "node list \<Rightarrow> nat list" where
  "nodes_idx ns = concat (map (\<lambda>p. key_idx (fst p)) (node_pairs ns))"

lemma counthash_eq:
  assumes "length bins = 28"
  shows "\<exists>bins'. counthash ns bins = (length (node_pairs ns), length (nodes_idx ns), bins') \<and>
    counted bins (nodes_idx ns) bins'"
  using assms
proof (induction ns arbitrary: bins)
  case Nil
  then show ?case by (simp add: nodes_idx_def)
next
  case (Cons n ns)
  show ?case
  proof (cases "n_val n = VNil")
    case True
    then show ?thesis using Cons by (simp add: nodes_idx_def)
  next
    case False
    obtain b1 where b1: "countint (n_key n) bins = (length (key_idx (n_key n)), b1)"
      "counted bins (key_idx (n_key n)) b1"
      using countint_eq [OF Cons.prems] by blast
    then have "length b1 = 28" using Cons.prems by (simp add: counted_def)
    then obtain b2 where "counthash ns b1 = (length (node_pairs ns), length (nodes_idx ns), b2)"
      "counted b1 (nodes_idx ns) b2"
      using Cons.IH by blast
    then show ?thesis using b1 False counted_trans [OF b1(2)] by (simp add: nodes_idx_def)
  qed
qed

definition array_idx :: "TValue list \<Rightarrow> nat \<Rightarrow> nat list" where
  "array_idx a i = filter (\<lambda>j. a ! j \<noteq> VNil) [i ..< length a]"

lemma array_idx_split:
  assumes "i \<le> j" "j \<le> length a"
  shows "array_idx a i = filter (\<lambda>j. a ! j \<noteq> VNil) [i ..< j] @ array_idx a j"
proof -
  have "[i ..< length a] = [i ..< j] @ [j ..< length a]"
    using assms upt_add_eq_append [of i j "length a - j"] by simp
  then show ?thesis by (simp add: array_idx_def)
qed

lemma countarray_loop_eq:
  assumes "length bins = 28" "b \<le> 28" "0 < length a" "length a \<le> LJ_MAX_ASIZE"
    "i = min (bstart b) (length a)"
  shows "\<exists>bins'. countarray_loop a b i na bins = (na + length (array_idx a i), bins') \<and>
    counted bins (array_idx a i) bins'"
  using assms
proof (induction "28 - b" arbitrary: b i na bins)
  case 0
  then have b: "b = 28" by simp
  have "i = length a" using 0 b by (simp add: bstart_def LJ_MAX_ASIZE_def min_def)
  then show ?case by (subst countarray_loop.simps) (simp add: b LJ_MAX_ABITS_def array_idx_def)
next
  case (Suc d)
  let ?top = "2 * 2 ^ b"
  have b: "b < LJ_MAX_ABITS" using Suc.hyps(2) by (simp add: LJ_MAX_ABITS_def)
  have bs: "bstart (Suc b) = Suc ?top" by (simp add: bstart_def)
  show ?case
  proof (cases "length a \<le> ?top \<and> length a - 1 < i")
    case True
    then have "i = length a" using Suc.prems(3,5) by linarith
    then show ?thesis using True b by (subst countarray_loop.simps) (simp add: array_idx_def Let_def)
  next
    case False
    define top where "top = (if length a \<le> ?top then length a - 1 else ?top)"
    define J where "J = filter (\<lambda>j. a ! j \<noteq> VNil) [i ..< Suc top]"
    have i: "i = bstart b" "i < length a"
    proof -
      have "i < length a"
      proof (rule ccontr)
        assume "\<not> i < length a"
        then have "length a \<le> bstart b" "length a - 1 < i" using Suc.prems(3,5) by linarith+
        then show False using False bs bstart_mono [of b] by linarith
      qed
      then show "i = bstart b" "i < length a" using Suc.prems(5) by linarith+
    qed
    have top: "i \<le> Suc top" "Suc top = min (bstart (Suc b)) (length a)"
      using i bs bstart_mono [of b] Suc.prems(3) by (auto simp: top_def)
    have J: "ibin j = b" if "j \<in> set J" for j using that i top by (auto simp: ibin_eq J_def)
    have inJ: "in_bin J c = (if c = b then length J else 0)" for c
      using J by (intro in_bin_same) blast
    define b1 where "b1 = bins[b := bins ! b + length J]"
    have c1: "counted bins J b1" using Suc.prems(1) b by (auto simp: counted_def b1_def inJ nth_list_update LJ_MAX_ABITS_def)
    have l1: "length b1 = 28" using Suc.prems(1) by (simp add: b1_def)
    have d: "d = 28 - Suc b" and d': "Suc b \<le> 28" using Suc.hyps(2) by simp_all
    obtain b2 where b2: "countarray_loop a (Suc b) (Suc top) (na + length J) b1 =
        (na + length J + length (array_idx a (Suc top)), b2)" "counted b1 (array_idx a (Suc top)) b2"
      using Suc.hyps(1) [OF d l1 d' Suc.prems(3,4) top(2)] by blast
    have "countarray_loop a b i na bins = countarray_loop a (Suc b) (Suc top) (na + length J) b1"
      using b False top(1) by (subst countarray_loop.simps) (simp add: Let_def top_def b1_def max_def J_def)
    then show ?thesis
      using b2 counted_trans [OF c1 b2(2)] array_idx_split [OF top(1), of a] top(2) by (simp add: J_def)
  qed
qed

lemma countarray_eq:
  assumes "length bins = 28" "asize t \<le> LJ_MAX_ASIZE"
  shows "\<exists>bins'. countarray t bins = (length (array_idx (t_array t) 0), bins') \<and>
    counted bins (array_idx (t_array t) 0) bins'"
proof (cases "asize t = 0")
  case True
  then show ?thesis by (simp add: countarray_def array_idx_def)
next
  case False
  then show ?thesis using countarray_loop_eq [OF assms(1), of 0 "t_array t" 0 0] assms(2)
    by (simp add: countarray_def bstart_def)
qed

section \<open>The best array size\<close>

lemma bestasize_loop_eq:
  assumes "length bins = 28" "\<forall>b < 28. bins ! b = in_bin I b" "\<forall>i \<in> set I. i < LJ_MAX_ASIZE"
    "b \<le> 27" "sm = below I (bstart b)" "na = below I sz" "sz \<le> LJ_MAX_ASIZE"
  shows "\<exists>sz'. bestasize_loop bins (length I) b sm na sz = Inr (below I sz', sz') \<and> sz' \<le> LJ_MAX_ASIZE"
  using assms(4-7)
proof (induction "27 - b" arbitrary: b sm na sz)
  case 0
  then have "bstart b = LJ_MAX_ASIZE" by (simp add: bstart_def LJ_MAX_ASIZE_def)
  then have "sm = length I" using 0 below_all [OF assms(3)] by simp
  then show ?case using 0 by (subst bestasize_loop.simps) simp
next
  case (Suc d)
  have d: "d = 27 - Suc b" "Suc b \<le> 27" "b < 28" using Suc.hyps(2) by simp_all
  have sm: "below I (bstart (Suc b)) = sm + bins ! b"
    using Suc.prems(2) assms(2) d(3) by (simp add: below_bstart_Suc)
  have top: "2 * 2 ^ b + 1 = bstart (Suc b)" by (simp add: bstart_def)
  have "(2::nat) ^ Suc b \<le> 2 ^ 27" using d(2) by (intro power_increasing) simp_all
  then have le: "bstart (Suc b) \<le> LJ_MAX_ASIZE" by (simp add: bstart_def LJ_MAX_ASIZE_def)
  have keep: "\<exists>sz'. bestasize_loop bins (length I) (Suc b) (sm + bins ! b) na sz = Inr (below I sz', sz') \<and>
      sz' \<le> LJ_MAX_ASIZE"
    using Suc.hyps(1) [OF d(1,2) sm [symmetric] Suc.prems(3,4)] .
  have take': "\<exists>sz'. bestasize_loop bins (length I) (Suc b) (sm + bins ! b) (sm + bins ! b) (2 * 2 ^ b + 1) =
      Inr (below I sz', sz') \<and> sz' \<le> LJ_MAX_ASIZE"
    unfolding top using Suc.hyps(1) [OF d(1,2) sm [symmetric] sm [symmetric] le] .
  have stop: "\<exists>sz'. Inr (na, sz) = (Inr (below I sz', sz') :: (nat \<times> nat) res) \<and> sz' \<le> LJ_MAX_ASIZE"
    using Suc.prems(3,4) by blast
  have sm': "(if 0 < bins ! b then sm + bins ! b else sm) = sm + bins ! b" by simp
  show ?case
    using keep take' stop assms(1) d(3)
    by (subst bestasize_loop.simps) (simp only: sm' in_range_simps rbind_simps Let_def simp_thms split: if_split)
qed

lemma bestasize_eq:
  assumes "length bins = 28" "\<forall>b < 28. bins ! b = in_bin I b" "\<forall>i \<in> set I. i < LJ_MAX_ASIZE"
  shows "\<exists>sz. bestasize bins (length I) = Inr (below I sz, sz) \<and> sz \<le> LJ_MAX_ASIZE"
  unfolding bestasize_def
  by (rule bestasize_loop_eq [OF assms]) (simp_all add: below_def bstart_def)

section \<open>Room after a rehash\<close>

lemma arr_index_key_idx:
  "n \<le> LJ_MAX_ASIZE \<Longrightarrow> (arr_index n k = None) = (below (key_idx k) n = 0)"
  by (cases k) (auto simp: key_idx_def arr_index_def Let_def)

lemma below_key_idx: "below (key_idx k) n \<le> 1"
  by (cases "arr_index LJ_MAX_ASIZE k") (simp_all add: key_idx_def)

lemma hash_bound_nodes:
  assumes "n \<le> LJ_MAX_ASIZE"
  shows "hash_bound n (node_pairs ns) + below (nodes_idx ns) n = length (node_pairs ns)"
proof (induction ns)
  case (Cons m ns)
  then show ?case using arr_index_key_idx [OF assms, of "n_key m"] below_key_idx [of "n_key m" n]
    by (cases "n_val m = VNil") (simp_all add: nodes_idx_def)
qed (simp add: nodes_idx_def)

lemma hash_bound_array:
  assumes "asize t \<le> LJ_MAX_ASIZE"
  shows "hash_bound n (array_pairs (t_array t) [n ..< asize t]) + below (array_idx (t_array t) 0) n =
    length (array_idx (t_array t) 0)"
proof (cases "n \<le> asize t")
  case True
  let ?a = "t_array t"
  have out: "\<forall>i \<in> set is. n \<le> i \<and> i < 2 ^ 32 \<Longrightarrow>
      hash_bound n (array_pairs ?a is) = length (filter (\<lambda>j. ?a ! j \<noteq> VNil) is)" for "is"
    by (induction "is") (simp_all add: unat_of_nat_eq)
  have "hash_bound n (array_pairs ?a [n ..< asize t]) = length (array_idx ?a n)"
    unfolding array_idx_def using assms by (intro out) (auto simp: LJ_MAX_ASIZE_def)
  moreover have "below (filter (\<lambda>j. ?a ! j \<noteq> VNil) [0 ..< n]) n = length (filter (\<lambda>j. ?a ! j \<noteq> VNil) [0 ..< n])"
    by (intro below_all) simp
  moreover have "below (array_idx ?a n) n = 0"
    by (simp add: below_def array_idx_def filter_empty_conv)
  ultimately show ?thesis using array_idx_split [of 0 n ?a] True by simp
next
  case False
  then have "\<forall>i \<in> set (array_idx (t_array t) 0). i < n" by (auto simp: array_idx_def)
  then show ?thesis using False by (simp add: below_all)
qed

lemma hsize2hbits_bound:
  assumes "n < 2 ^ 32"
  shows "n \<le> 2 ^ hsize2hbits (word_of_nat n)" "hsize2hbits (word_of_nat n) = 0 \<Longrightarrow> n = 0"
proof -
  have u: "unat (word_of_nat n :: u32) = n" using assms by (intro unat_of_nat_eq) simp
  then have z: "(word_of_nat n :: u32) = 0 \<longleftrightarrow> n = 0" "(word_of_nat n :: u32) = 1 \<longleftrightarrow> n = 1"
    using word_unat_eq_iff [of "word_of_nat n :: u32" 0] word_unat_eq_iff [of "word_of_nat n :: u32" 1] by simp_all
  have "n \<le> 2 ^ (1 + fls (n - 1))" if "1 < n"
  proof -
    have "n - 1 < 2 ^ Suc (fls (n - 1))" using fls_bounds [of "n - 1"] that by simp
    then have "n - 1 < 2 ^ (1 + fls (n - 1))" by (simp only: plus_1_eq_Suc)
    then show ?thesis using that by linarith
  qed
  moreover have "unat (word_of_nat n - 1 :: u32) = n - 1" if "1 < n"
    using u that by (subst unat_minus_one) (auto simp: z)
  ultimately show "n \<le> 2 ^ hsize2hbits (word_of_nat n)" using z
    by (cases "1 < n") (auto simp: hsize2hbits_def lj_fls_def not_less le_Suc_eq)
  show "hsize2hbits (word_of_nat n) = 0 \<Longrightarrow> n = 0" using z by (simp add: hsize2hbits_def split: if_splits)
qed

lemma node_pairs_length: "length (node_pairs ns) \<le> length ns"
  by (simp add: node_pairs_def)

lemma mask_hbits:
  assumes "hb \<le> LJ_MAX_HBITS"
  shows "unat (mask hb :: u32) = 2 ^ hb - 1"
proof -
  have "(2::nat) ^ hb \<le> 2 ^ 26" using assms by (intro power_increasing) (simp_all add: LJ_MAX_HBITS_def)
  then have "unat (word_of_nat (2 ^ hb - 1) :: u32) = 2 ^ hb - 1" by (intro unat_of_nat_eq) simp
  moreover have "(word_of_nat (2 ^ hb - 1) :: u32) = mask hb"
    by (simp add: mask_eq_exp_minus_1 of_nat_diff)
  ultimately show ?thesis by simp
qed

lemma nodes_length: "tab_ok t \<Longrightarrow> length (t_node t) \<le> 2 ^ 26"
proof -
  assume "tab_ok t"
  then obtain hb where hb: "hb \<le> LJ_MAX_HBITS" "t_hmask t = mask hb" "length (t_node t) = unat (t_hmask t) + 1"
    by (auto simp: tab_ok_def hash_ok_def)
  have "unat (mask hb :: u32) \<le> 2 ^ hb - 1" using mask_hbits [OF hb(1)] by simp
  moreover have "(2::nat) ^ hb \<le> 2 ^ 26" using hb(1) by (intro power_increasing) (simp_all add: LJ_MAX_HBITS_def)
  moreover have "(1::nat) \<le> 2 ^ hb" by simp
  ultimately show ?thesis using hb(2,3) by simp
qed

lemma resize_overflow:
  assumes "n \<le> LJ_MAX_ASIZE" "\<not> hbits \<le> LJ_MAX_HBITS"
  shows "resize_with nk t n hbits = Inl (Throw LJ_ERR_TABOV)"
  using assms by (simp add: resize_with_def newhpart_def Let_def)

lemma hsize2hbits_fits:
  assumes "n < 2 ^ 32"
  shows "hsize2hbits (word_of_nat n) \<le> LJ_MAX_HBITS \<longleftrightarrow> n \<le> 2 ^ LJ_MAX_HBITS"
proof
  assume "hsize2hbits (word_of_nat n) \<le> LJ_MAX_HBITS"
  then have "(2::nat) ^ hsize2hbits (word_of_nat n) \<le> 2 ^ LJ_MAX_HBITS" by (intro power_increasing) simp_all
  then show "n \<le> 2 ^ LJ_MAX_HBITS" using hsize2hbits_bound(1) [OF assms] by linarith
next
  assume n: "n \<le> 2 ^ LJ_MAX_HBITS"
  have u: "unat (word_of_nat n :: u32) = n" using assms by (intro unat_of_nat_eq) simp
  show "hsize2hbits (word_of_nat n) \<le> LJ_MAX_HBITS"
  proof (cases "1 < n")
    case True
    then have "(word_of_nat n :: u32) \<noteq> 0" using u by (metis unat_0 not_one_less_zero)
    then have "unat (word_of_nat n - 1 :: u32) = n - 1" using u by (simp add: unat_minus_one)
    moreover have "fls (n - 1) < LJ_MAX_HBITS" using True n by (intro fls_less) simp_all
    ultimately show ?thesis by (auto simp: hsize2hbits_def lj_fls_def LJ_MAX_HBITS_def)
  next
    case False
    then have "n = 0 \<or> n = 1" by linarith
    then show ?thesis by (auto simp: hsize2hbits_def LJ_MAX_HBITS_def)
  qed
qed

text \<open>The entries of a table, and those among them that no array part can take.\<close>

definition live_count :: "GCtab \<Rightarrow> nat" where
  "live_count t = length (array_idx (t_array t) 0) + length (node_pairs (t_node t))"

definition hash_count :: "GCtab \<Rightarrow> nat" where
  "hash_count t = length (filter (\<lambda>p. key_idx (fst p) = []) (node_pairs (t_node t)))"

lemma key_idx_length: "length (key_idx k) = (if key_idx k = [] then 0 else 1)"
  by (cases "arr_index LJ_MAX_ASIZE k") (simp_all add: key_idx_def)

lemma hash_count_eq: "hash_count t + length (nodes_idx (t_node t)) = length (node_pairs (t_node t))"
proof -
  have "length (filter (\<lambda>p. key_idx (fst p) = []) ps) + length (concat (map (\<lambda>p. key_idx (fst p)) ps)) = length ps" for ps :: "kv list"
    by (induction ps) (simp_all add: key_idx_length)
  then show ?thesis by (simp add: hash_count_def nodes_idx_def)
qed

text \<open>
  After a rehash the key fits into the array or the hash part has a free node.  A rehash
  fails only with \<^verbatim>\<open>2 ^ LJ_MAX_HBITS\<close> entries or more, and it does fail when the entries that need
  the hash part and the key are more than that.
\<close>

theorem rehash_ok:
  assumes t: "tab_ok t"
  shows "rehash_with (newkey_body nk) t ek = Inl (Throw LJ_ERR_TABOV) \<and> 2 ^ LJ_MAX_HBITS \<le> live_count t \<or>
    (\<exists>t'. rehash_with (newkey_body nk) t ek = Inr t' \<and> tab_ok t' \<and> tab_map t' = tab_map t \<and>
      (arr_index (asize t') ek = None \<longrightarrow> has_room t') \<and>
      hash_count t + 1 \<le> 2 ^ LJ_MAX_HBITS + length (key_idx ek))"
proof -
  let ?A = "array_idx (t_array t) 0" let ?N = "nodes_idx (t_node t)"
  have as: "asize t \<le> LJ_MAX_ASIZE" using t by (simp add: tab_ok_def)
  define b0 where "b0 = replicate LJ_MAX_ABITS (0::nat)"
  have l0: "length b0 = 28" by (simp add: b0_def LJ_MAX_ABITS_def)
  obtain b1 where b1: "countarray t b0 = (length ?A, b1)" "counted b0 ?A b1"
    using countarray_eq [OF l0 as] by blast
  then have l1: "length b1 = 28" using l0 by (simp add: counted_def)
  obtain b2 where b2: "counthash (t_node t) b1 = (length (node_pairs (t_node t)), length ?N, b2)" "counted b1 ?N b2"
    using counthash_eq [OF l1] by blast
  then have l2: "length b2 = 28" using l1 by (simp add: counted_def)
  obtain b3 where b3: "countint ek b2 = (length (key_idx ek), b3)" "counted b2 (key_idx ek) b3"
    using countint_eq [OF l2] by blast
  define I where "I = (?A @ ?N) @ key_idx ek"
  have c: "counted b0 I b3" unfolding I_def by (rule counted_trans [OF counted_trans [OF b1(2) b2(2)] b3(2)])
  then have l3: "length b3 = 28" "\<forall>b < 28. b3 ! b = in_bin I b"
    using l0 by (simp_all add: counted_def b0_def LJ_MAX_ABITS_def)
  have "\<forall>i \<in> set I. i < LJ_MAX_ASIZE"
    using as key_idx_less by (fastforce simp: I_def nodes_idx_def array_idx_def)
  then obtain sz where sz: "bestasize b3 (length I) = Inr (below I sz, sz)" "sz \<le> LJ_MAX_ASIZE"
    using bestasize_eq [OF l3] by blast
  define total where "total = 1 + length ?A + length (node_pairs (t_node t)) - below I sz"
  have eq: "rehash_with (newkey_body nk) t ek = resize_with (newkey_body nk) t sz (hsize2hbits (word_of_nat total))"
    using sz(1) by (simp add: rehash_with_def b0_def [symmetric] b1(1) b2(1) b3(1) I_def total_def add.assoc)
  have hb: "hash_bound sz (moved t sz) + 1 = total + below (key_idx ek) sz"
    using hash_bound_nodes [OF sz(2), of "t_node t"] hash_bound_array [OF as, of sz] below_key_idx [of ek sz]
      below_le [of ?A sz] below_le [of ?N sz]
    by (simp add: total_def moved_def I_def)
  have "length ?A \<le> asize t" unfolding array_idx_def by (rule order_trans [OF length_filter_le]) simp
  with as have "length ?A \<le> LJ_MAX_ASIZE" by simp
  moreover have "length (node_pairs (t_node t)) \<le> 2 ^ 26"
    using order_trans [OF node_pairs_length nodes_length [OF t]] .
  ultimately have total: "total < 2 ^ 32" by (simp add: total_def LJ_MAX_ASIZE_def)
  let ?hb = "hsize2hbits (word_of_nat total)"
  show ?thesis
  proof (cases "?hb \<le> LJ_MAX_HBITS")
    case True
    have room: "hash_bound sz (moved t sz) \<le> 2 ^ ?hb" "?hb = 0 \<Longrightarrow> hash_bound sz (moved t sz) = 0"
      using hb hsize2hbits_bound [OF total] below_key_idx [of ek sz] by linarith+
    then obtain t' where t': "resize_with (newkey_body nk) t sz ?hb = Inr t'" "tab_ok t'" "tab_map t' = tab_map t"
      "asize t' = sz" "t_hmask t' = mask ?hb" "length (t_node t') = 2 ^ ?hb"
      "n_used (t_node t') \<le> hash_bound sz (moved t sz)"
      using resize_ok [OF t sz(2) True room, of nk] by blast
    have "has_room t'" if "arr_index sz ek = None"
    proof -
      have "below (key_idx ek) sz = 0" using arr_index_key_idx [OF sz(2)] that by blast
      then have "n_used (t_node t') < length (t_node t')" "0 < ?hb"
        using hb hsize2hbits_bound [OF total] t' by linarith+
      then show ?thesis using t'(5) by (simp add: has_room_def)
    qed
    moreover have "hash_count t + 1 \<le> 2 ^ LJ_MAX_HBITS + length (key_idx ek)"
      using True hsize2hbits_fits [OF total] hash_count_eq [of t] below_le [of I sz]
      by (simp add: total_def I_def)
    ultimately show ?thesis using eq t' by auto
  next
    case False
    then have "2 ^ LJ_MAX_HBITS \<le> live_count t"
      using hsize2hbits_fits [OF total] by (simp add: total_def live_count_def)
    then show ?thesis using eq False resize_overflow [OF sz(2), of ?hb "newkey_body nk" t] by simp
  qed
qed

end
