(* ===== verification/TabMap.thy ===== *)
theory TabMap
  imports TabRehash
begin

text \<open>
  Tables as maps: the interface the clients of \<^verbatim>\<open>lj_tab_get\<close> and \<^verbatim>\<open>lj_tab_set\<close> rely on,
  and its proof for the tables of \<^verbatim>\<open>lj_tab.c\<close>.
\<close>

section \<open>The interface\<close>

locale key_map =
  fixes ok :: "'t \<Rightarrow> bool" and storable :: "'k \<Rightarrow> bool" and canon :: "'k \<Rightarrow> 'k"
    and abs :: "'t \<Rightarrow> 'k \<Rightarrow> 'v" and get :: "'t \<Rightarrow> 'k \<Rightarrow> 'v res" and put :: "'t \<Rightarrow> 'k \<Rightarrow> 'v \<Rightarrow> 't res"
  assumes get_abs: "ok t \<Longrightarrow> get t k = Inr (abs t (canon k))"
    and put_abs: "ok t \<Longrightarrow> storable k \<Longrightarrow> put t k v = Inr t' \<Longrightarrow> ok t' \<and> abs t' = (abs t)(canon k := v)"
begin

lemma get_put:
  "ok t \<Longrightarrow> storable k \<Longrightarrow> put t k v = Inr t' \<Longrightarrow>
    get t' k' = (if canon k' = canon k then Inr v else get t k')"
  using put_abs [of t k v t'] by (simp add: get_abs)

lemma puts_abs:
  assumes "ok t" "\<forall>(k, v) \<in> set kvs. storable k" "fold_res (\<lambda>(k, v) t. put t k v) kvs t = Inr t'"
  shows "ok t' \<and> abs t' = fold (\<lambda>(k, v) m. m(canon k := v)) kvs (abs t)"
  using assms
proof (induction kvs arbitrary: t)
  case (Cons p kvs)
  obtain k v where p: "p = (k, v)" by (cases p)
  obtain t1 where t1: "put t k v = Inr t1" "fold_res (\<lambda>(k, v) t. put t k v) kvs t1 = Inr t'"
    using Cons.prems(3) by (auto simp: p rbind_eq_Inr)
  have "ok t1 \<and> abs t1 = (abs t)(canon k := v)" using put_abs [OF Cons.prems(1) _ t1(1)] Cons.prems(2) p by auto
  then show ?case using Cons.IH [of t1] Cons.prems(2) t1(2) p by auto
qed simp

end

section \<open>Insertion\<close>

definition overflow :: "'a res" where "overflow = Inl (Throw LJ_ERR_TABOV)"

lemma find_free_full: "tab_ok t \<Longrightarrow> \<not> has_room t \<Longrightarrow> find_free (t_node t) (t_freetop t) = None"
proof (cases "t_hmask t = 0")
  case False
  assume t: "tab_ok t" "\<not> has_room t"
  have "n_used (t_node t) = length (t_node t)"
    using t(2) False length_filter_le [of "\<lambda>n. n_key n \<noteq> VNil" "t_node t"] by (simp add: has_room_def n_used_def)
  then have "n_key n \<noteq> VNil" if "n \<in> set (t_node t)" for n
    using length_filter_less [of n "t_node t" "\<lambda>n. n_key n \<noteq> VNil"] that by (auto simp: n_used_def)
  then show ?thesis using t(1) False by (auto simp: find_free_None tab_ok_def hash_ok_def)
qed (simp add: tab_ok_def hash_ok_def)

lemma newkey_fuel_Suc: "newkey_fuel (Suc f) = newkey_body (newkey_fuel f)"
  by (rule ext)+ simp

text \<open>Insertion of a new key ends after at most one rehash.\<close>

lemma newkey_total:
  assumes t: "tab_ok t" "key_ok k" "arr_index (asize t) k = None" "fresh t k"
  shows "lj_tab_newkey t k = overflow \<and> 2 ^ LJ_MAX_HBITS \<le> live_count t \<or>
    (\<exists>t' s. lj_tab_newkey t k = Inr (t', s) \<and> tab_ok t' \<and> slot_for t' s k \<and> tab_map t' = tab_map t)"
proof -
  let ?nk = "newkey_body (newkey_fuel 0)"
  have nk: "lj_tab_newkey = newkey_body ?nk"
    by (simp add: lj_tab_newkey_def numeral_2_eq_2 newkey_fuel_Suc)
  have post: ?thesis if a: "newkey_body ?nk t k = Inr r" "newkey_post t k r" for r
  proof -
    obtain t' i where r: "r = (t', HSlot i)" using a(2) by (cases r; cases "snd r") (auto simp: newkey_post_def)
    show ?thesis using set_post_newkey [OF a(2) [unfolded r] t(3)] a(1) r nk by auto
  qed
  show ?thesis
  proof (cases "has_room t")
    case True
    then show ?thesis using newkey_room [OF t(1) True t(2,3), of ?nk] t(4) post by (auto simp: fresh_def)
  next
    case room: False
    show ?thesis
    proof (cases "t_hmask t \<noteq> 0 \<and> n_val (t_node t ! hashkey t k) = VNil")
      case True
      then show ?thesis using newkey_direct [OF t(1) _ t(2,3), of ?nk] t(4) post by (auto simp: fresh_def)
    next
      case False
      have eq: "lj_tab_newkey t k = rbind (rehash_with ?nk t k) (\<lambda>t. set_with ?nk t k)"
        unfolding nk using False find_free_full [OF t(1) room]
        by (subst newkey_body_def) (auto simp: Let_def)
      from rehash_ok [OF t(1), of "newkey_fuel 0" k] show ?thesis
      proof (elim disjE exE conjE)
        fix t1 assume t1: "rehash_with ?nk t k = Inr t1" "tab_ok t1" "tab_map t1 = tab_map t"
          "arr_index (asize t1) k = None \<longrightarrow> has_room t1"
        then obtain t' s where "set_with ?nk t1 k = Inr (t', s)" "set_post t1 k (t', s)"
          using set_room [OF t1(2) t(2), of "newkey_fuel 0"] by auto
        then show ?thesis using eq t1 by (simp add: set_post_def)
      qed (simp add: eq overflow_def)
    qed
  qed
qed

lemma set_mzero: "set_with nk t (VNum mzero) = set_with nk t (VNum 0)"
proof -
  have "lj_num2int 0 = 0" "num_eq 0 0" using lj_num2int_int2num [of 0] by (simp_all add: num_eq_def num_nan_def num_exp_def)
  then show ?thesis by (simp add: set_with_def)
qed

lemma key_ok_norm: "k \<noteq> VNil \<Longrightarrow> (\<And>x. k = VNum x \<Longrightarrow> \<not> num_nan x) \<Longrightarrow> key_ok (norm_key k)"
  by (cases k) (auto simp: norm_key_def num_nan_def num_exp_def mzero_def)

lemma set_norm: "set_with nk t k = set_with nk t (norm_key k)"
  by (simp add: norm_key_def set_mzero)

lemma lj_tab_set_total:
  assumes t: "tab_ok t" "key_ok (norm_key k)"
  shows "lj_tab_set t k = overflow \<and> 2 ^ LJ_MAX_HBITS \<le> live_count t \<or>
    (\<exists>t' s. lj_tab_set t k = Inr (t', s) \<and> tab_ok t' \<and> slot_for t' s (norm_key k) \<and> tab_map t' = tab_map t)"
proof -
  let ?t = "t\<lparr>t_nomm := 0\<rparr>" let ?k = "norm_key k"
  have eq: "lj_tab_set t k = set_with lj_tab_newkey t ?k" by (simp add: lj_tab_set_def set_norm [of _ _ k])
  from set_with_cases [OF t, of lj_tab_newkey] show ?thesis
  proof (elim disjE exE conjE)
    fix s assume "set_with lj_tab_newkey t ?k = Inr (?t, s)" "slot_for ?t s ?k"
    then show ?thesis using eq t by auto
  next
    assume "fresh ?t ?k" "arr_index (asize ?t) ?k = None" "set_with lj_tab_newkey t ?k = lj_tab_newkey ?t ?k"
    then show ?thesis using eq newkey_total [of ?t ?k] t by (simp add: live_count_def)
  qed
qed

text \<open>Setting a slot and writing it, as every caller of \<^verbatim>\<open>lj_tab_set\<close> does.\<close>

definition tab_put :: "GCtab \<Rightarrow> TValue \<Rightarrow> TValue \<Rightarrow> GCtab res" where
  "tab_put t k v = rbind (lj_tab_set t k) (\<lambda>(t, s). Inr (store t s v))"

lemma tab_put_map:
  assumes "tab_ok t" "key_ok (norm_key k)"
  shows "tab_put t k v = overflow \<and> 2 ^ LJ_MAX_HBITS \<le> live_count t \<or>
    (\<exists>t'. tab_put t k v = Inr t' \<and> tab_ok t' \<and> tab_map t' = (tab_map t)(norm_key k := v))"
  using lj_tab_set_total [OF assms]
proof (elim disjE exE conjE)
  fix t' s assume a: "lj_tab_set t k = Inr (t', s)" "tab_ok t'" "slot_for t' s (norm_key k)" "tab_map t' = tab_map t"
  then show ?thesis using store_correct [OF a(2) assms(2) a(3), of v] by (simp add: tab_put_def)
qed (simp add: tab_put_def overflow_def)

interpretation tab: key_map tab_ok "\<lambda>k. key_ok (norm_key k)" norm_key tab_map lj_tab_get tab_put
proof unfold_locales
  show "tab_ok t \<Longrightarrow> lj_tab_get t k = Inr (tab_map t (norm_key k))" for t k by (rule lj_tab_get_map)
  show "tab_ok t' \<and> tab_map t' = (tab_map t)(norm_key k := v)"
    if "tab_ok t" "key_ok (norm_key k)" "tab_put t k v = Inr t'" for t k v t'
    using tab_put_map [OF that(1,2), of v] that(3) by (auto simp: overflow_def)
qed

end
