(* ===== verification/TabNext.thy ===== *)
theory TabNext
  imports TabMap
begin

text \<open>
  Traversal with \<^verbatim>\<open>lj_tab_next\<close>: starting from nil it visits every pair exactly once.
\<close>

section \<open>Positions\<close>

text \<open>Array slots and nodes in traversal order.\<close>

definition pos_key :: "GCtab \<Rightarrow> nat \<Rightarrow> TValue" where
  "pos_key t i = (if i < asize t then VNum (int2num (word_of_nat i)) else n_key (t_node t ! (i - asize t)))"

definition pos_val :: "GCtab \<Rightarrow> nat \<Rightarrow> TValue" where
  "pos_val t i = (if i < asize t then t_array t ! i else n_val (t_node t ! (i - asize t)))"

definition pos_count :: "GCtab \<Rightarrow> nat" where
  "pos_count t = asize t + length (t_node t)"

abbreviation live :: "GCtab \<Rightarrow> nat \<Rightarrow> bool" where "live t i \<equiv> pos_val t i \<noteq> VNil"

lemma find_append:
  "List.find P (xs @ ys) = (case List.find P xs of None \<Rightarrow> List.find P ys | Some x \<Rightarrow> Some x)"
  by (induction xs) simp_all

lemma find_cong': "xs = ys \<Longrightarrow> (\<And>x. x \<in> set ys \<Longrightarrow> P x = Q x) \<Longrightarrow> List.find P xs = List.find Q ys"
  by (induction ys arbitrary: xs) auto

lemma find_map_idx: "List.find P (map f xs) = map_option f (List.find (\<lambda>x. P (f x)) xs)"
  by (induction xs) simp_all

lemma map_shift_upt: "map (\<lambda>j. j + k) [m ..< n] = [m + k ..< n + k]"
  by (induction n) simp_all

lemma next_array_find:
  "n = length a - i \<Longrightarrow> next_array a i n = map_option (\<lambda>j. (j, a ! j)) (List.find (\<lambda>j. a ! j \<noteq> VNil) [i ..< length a])"
proof (induction n arbitrary: i)
  case (Suc n)
  then have n: "n = length a - Suc i" "i < length a" by simp_all
  then have "[i ..< length a] = i # [Suc i ..< length a]" by (simp add: upt_conv_Cons)
  then show ?case using Suc.IH [OF n(1)] n(2) by simp
qed simp

lemma next_hash_find:
  "n = length ns - i \<Longrightarrow> next_hash ns i n =
     map_option (\<lambda>j. (n_key (ns ! j), n_val (ns ! j))) (List.find (\<lambda>j. n_val (ns ! j) \<noteq> VNil) [i ..< length ns])"
proof (induction n arbitrary: i)
  case (Suc n)
  then have n: "n = length ns - Suc i" "i < length ns" by simp_all
  then have "[i ..< length ns] = i # [Suc i ..< length ns]" by (simp add: upt_conv_Cons)
  then show ?case using Suc.IH [OF n(1)] n(2) by simp
qed simp

definition first_live :: "GCtab \<Rightarrow> nat \<Rightarrow> nat option" where
  "first_live t i = List.find (live t) [i ..< pos_count t]"

lemma find_nodes:
  assumes "asize t \<le> i"
  shows "first_live t i = map_option (\<lambda>j. j + asize t)
    (List.find (\<lambda>j. n_val (t_node t ! j) \<noteq> VNil) [i - asize t ..< length (t_node t)])"
proof -
  have "[i ..< pos_count t] = map (\<lambda>j. j + asize t) [i - asize t ..< length (t_node t)]"
    using assms by (simp add: map_shift_upt pos_count_def add.commute)
  then show ?thesis by (simp add: first_live_def find_map_idx pos_val_def)
qed

lemma find_array:
  assumes "i \<le> asize t"
  shows "first_live t i = (case List.find (\<lambda>j. t_array t ! j \<noteq> VNil) [i ..< asize t] of
      Some j \<Rightarrow> Some j | None \<Rightarrow> first_live t (asize t))"
proof -
  have "[i ..< pos_count t] = [i ..< asize t] @ [asize t ..< pos_count t]"
    using assms upt_add_eq_append [of i "asize t" "length (t_node t)"] by (simp add: pos_count_def)
  moreover have "List.find (live t) [i ..< asize t] = List.find (\<lambda>j. t_array t ! j \<noteq> VNil) [i ..< asize t]"
    by (rule find_cong') (simp_all add: pos_val_def)
  ultimately show ?thesis by (simp add: first_live_def find_append split: option.split)
qed

lemma next_at:
  assumes "length (t_node t) = unat (t_hmask t) + 1"
  shows "(case next_array (t_array t) i (asize t - i) of
       Some (j, v) \<Rightarrow> Inr (Some (VNum (int2num (word_of_nat j)), v))
     | None \<Rightarrow> Inr (next_hash (t_node t) (max i (asize t) - asize t)
                     (unat (t_hmask t) + 1 - (max i (asize t) - asize t)))) =
    (Inr (map_option (\<lambda>j. (pos_key t j, pos_val t j)) (first_live t i)) :: kv option res)"
proof (cases "i \<le> asize t")
  case True
  show ?thesis
  proof (cases "List.find (\<lambda>j. t_array t ! j \<noteq> VNil) [i ..< asize t]")
    case None
    then show ?thesis
      using next_array_find [OF refl, of "t_array t" i] next_hash_find [OF refl, of "t_node t" 0] assms
        find_array [OF True] find_nodes [of t "asize t"] True
      by (simp add: max_def option.map_comp comp_def pos_key_def pos_val_def)
  next
    case (Some j)
    then have "j < asize t" using find_SomeD by fastforce
    then show ?thesis using next_array_find [OF refl, of "t_array t" i] find_array [OF True] Some
      by (simp add: pos_key_def pos_val_def)
  qed
next
  case False
  then show ?thesis
    using next_array_find [OF refl, of "t_array t" i] next_hash_find [OF refl, of "t_node t" "i - asize t"] assms
      find_nodes [of t i]
    by (simp add: max_def option.map_comp comp_def pos_key_def pos_val_def)
qed

section \<open>The position of a key\<close>

lemma pos_count_less: "tab_ok t \<Longrightarrow> pos_count t < 2 ^ 30"
  using nodes_length [of t] by (simp add: pos_count_def tab_ok_def LJ_MAX_ASIZE_def)

lemma pos_key_array: "i < asize t \<Longrightarrow> pos_key t i = VNum (int2num (word_of_nat i))"
  by (simp add: pos_key_def)

lemma keyindex_pos:
  assumes t: "tab_ok t" and i: "i < pos_count t" "live t i"
  shows "keyindex t (pos_key t i) = Inr (word_of_nat i)"
proof (cases "i < asize t")
  case True
  have "unat (word_of_nat i :: u32) = i" using pos_count_less [OF t] i(1) by (intro unat_of_nat_eq) simp
  then show ?thesis using True by (simp add: keyindex_def pos_key_def)
next
  case False
  define j where "j = i - asize t"
  let ?k = "n_key (t_node t ! j)"
  have j: "j < length (t_node t)" "i = asize t + j" using i(1) False by (simp_all add: j_def pos_count_def)
  have v: "n_val (t_node t ! j) \<noteq> VNil" using i(2) False by (simp add: pos_val_def j_def)
  have ok: "nodes_ok (hashkey t) (t_node t)" using t by (simp add: tab_ok_def)
  have kn: "?k \<noteq> VNil" using nodes_free [OF ok j(1)] v by auto
  have k: "key_ok ?k" "arr_index (asize t) ?k = None" using t j(1) kn by (simp_all add: tab_ok_def)
  have "(\<exists>m < length (t_node t). find_key t (\<lambda>k'. lj_obj_equal k' ?k) (hashkey t ?k) = Inr (Some m) \<and>
      n_key (t_node t ! m) = ?k) \<or>
    (find_key t (\<lambda>k'. lj_obj_equal k' ?k) (hashkey t ?k) = Inr None \<and> (\<forall>m < length (t_node t). n_key (t_node t ! m) \<noteq> ?k))"
    by (rule find_key_cases [OF t k(1)]) (use k(1) in \<open>auto simp: lj_obj_equal_iff lj_obj_equal_nil\<close>)
  then obtain m where m: "m < length (t_node t)" "find_key t (\<lambda>k'. lj_obj_equal k' ?k) (hashkey t ?k) = Inr (Some m)"
    "n_key (t_node t ! m) = ?k" using j(1) by blast
  then have "m = j" using nodes_dist [OF ok m(1) j(1)] kn by simp
  moreover have "\<not> (case ?k of VNum nk \<Rightarrow> unat (case ?k of VNum nk \<Rightarrow> lj_num2int nk | _ \<Rightarrow> 0) < asize t \<and>
      num_eq nk (int2num (case ?k of VNum nk \<Rightarrow> lj_num2int nk | _ \<Rightarrow> 0)) | _ \<Rightarrow> False)"
    using k(2) by (cases ?k) (auto simp: arr_index_def Let_def split: if_splits)
  ultimately show ?thesis using m(2) kn False j(2) by (simp add: keyindex_def pos_key_def j_def [symmetric])
qed

lemma next_pos:
  assumes t: "tab_ok t" and i: "i < pos_count t" "live t i"
  shows "lj_tab_next t (pos_key t i) = Inr (map_option (\<lambda>j. (pos_key t j, pos_val t j)) (first_live t (Suc i)))"
proof -
  have u: "unat (word_of_nat i + 1 :: u32) = Suc i"
  proof -
    have "word_of_nat i + 1 = (word_of_nat (Suc i) :: u32)" by simp
    moreover have "unat (word_of_nat (Suc i) :: u32) = Suc i"
      using pos_count_less [OF t] i(1) by (intro unat_of_nat_eq) simp
    ultimately show ?thesis by metis
  qed
  have "length (t_node t) = unat (t_hmask t) + 1" using t by (simp add: tab_ok_def hash_ok_def)
  then show ?thesis
    by (simp only: lj_tab_next_def keyindex_pos [OF assms] rbind_simps Let_def u next_at)
qed

lemma next_nil:
  assumes "tab_ok t"
  shows "lj_tab_next t VNil = Inr (map_option (\<lambda>j. (pos_key t j, pos_val t j)) (first_live t 0))"
proof -
  have "length (t_node t) = unat (t_hmask t) + 1" using assms by (simp add: tab_ok_def hash_ok_def)
  moreover have "keyindex t VNil = Inr (- 1)" by (simp add: keyindex_def)
  moreover have "unat (- 1 + 1 :: u32) = 0" by simp
  ultimately show ?thesis by (simp only: lj_tab_next_def rbind_simps Let_def next_at)
qed

section \<open>The whole traversal\<close>

text \<open>What a \<^verbatim>\<open>next\<close> loop visits.\<close>

fun tab_pairs :: "nat \<Rightarrow> GCtab \<Rightarrow> TValue \<Rightarrow> kv list res" where
  "tab_pairs 0 t k = Inl Undef"
| "tab_pairs (Suc f) t k =
     rbind (lj_tab_next t k) (\<lambda>r.
     case r of
       None \<Rightarrow> Inr []
     | Some (k', v) \<Rightarrow> rbind (tab_pairs f t k') (\<lambda>L. Inr ((k', v) # L)))"

definition live_pairs :: "GCtab \<Rightarrow> nat \<Rightarrow> kv list" where
  "live_pairs t i = map (\<lambda>j. (pos_key t j, pos_val t j)) (filter (live t) [i ..< pos_count t])"

lemma filter_find: "filter P [i ..< n] = (case List.find P [i ..< n] of None \<Rightarrow> [] | Some j \<Rightarrow> j # filter P [Suc j ..< n])"
proof (induction "n - i" arbitrary: i)
  case (Suc d)
  then have "[i ..< n] = i # [Suc i ..< n]" by (simp add: upt_conv_Cons)
  then show ?case using Suc.hyps(1) [of "Suc i"] Suc.hyps(2) by simp
qed simp

lemma live_pairs_first:
  "live_pairs t i = (case first_live t i of None \<Rightarrow> []
     | Some j \<Rightarrow> (pos_key t j, pos_val t j) # live_pairs t (Suc j))"
  unfolding live_pairs_def first_live_def
  by (subst filter_find) (simp split: option.split)

lemma tab_pairs_from:
  assumes t: "tab_ok t" and f: "pos_count t - i < f"
    and k: "lj_tab_next t k = Inr (map_option (\<lambda>j. (pos_key t j, pos_val t j)) (first_live t i))"
  shows "tab_pairs f t k = Inr (live_pairs t i)"
  using f k
proof (induction f arbitrary: i k)
  case (Suc f)
  show ?case
  proof (cases "first_live t i")
    case None
    then show ?thesis using Suc.prems(2) by (simp add: live_pairs_first [of t i])
  next
    case (Some j)
    then have j: "i \<le> j" "j < pos_count t" "live t j" using find_SomeD unfolding first_live_def by fastforce+
    then have "tab_pairs f t (pos_key t j) = Inr (live_pairs t (Suc j))"
      using Suc.IH [OF _ next_pos [OF t j(2,3)]] Suc.prems(1) by simp
    then show ?thesis using Suc.prems(2) Some by (simp add: live_pairs_first [of t i])
  qed
qed simp

lemma pos_key_ok:
  assumes t: "tab_ok t" and i: "i < pos_count t" "live t i"
  shows "key_ok (pos_key t i) \<and> tab_map t (pos_key t i) = pos_val t i"
proof (cases "i < asize t")
  case True
  have "unat (word_of_nat i :: u32) = i" using pos_count_less [OF t] i(1) by (intro unat_of_nat_eq) simp
  then show ?thesis using True by (simp add: pos_key_def pos_val_def tab_map_def)
next
  case False
  then have j: "i - asize t < length (t_node t)" "n_val (t_node t ! (i - asize t)) \<noteq> VNil"
    using i by (simp_all add: pos_count_def pos_val_def)
  have ok: "nodes_ok (hashkey t) (t_node t)" using t by (simp add: tab_ok_def)
  have kn: "n_key (t_node t ! (i - asize t)) \<noteq> VNil" using nodes_free [OF ok j(1)] j(2) by auto
  then have "key_ok (n_key (t_node t ! (i - asize t)))" "arr_index (asize t) (n_key (t_node t ! (i - asize t))) = None"
    using t j(1) by (simp_all add: tab_ok_def)
  then show ?thesis using False node_map_in [OF ok j(1) _ kn] by (simp add: pos_key_def pos_val_def tab_map_def)
qed

lemma pos_key_inj:
  assumes t: "tab_ok t" and i: "i < pos_count t" "live t i" and j: "j < pos_count t" "live t j"
    and eq: "pos_key t i = pos_key t j"
  shows "i = j"
proof -
  have "(word_of_nat i :: u32) = word_of_nat j"
    using keyindex_pos [OF t i] keyindex_pos [OF t j] eq by simp
  then have "unat (word_of_nat i :: u32) = unat (word_of_nat j :: u32)" by simp
  then show "i = j" using pos_count_less [OF t] i(1) j(1) by (simp add: unat_of_nat_eq)
qed

lemma live_pairs_distinct: "tab_ok t \<Longrightarrow> distinct (map fst (live_pairs t 0))"
  by (auto simp: live_pairs_def distinct_map inj_on_def comp_def dest: pos_key_inj)

lemma live_key_exists:
  assumes t: "tab_ok t" and k: "key_ok k" "tab_map t k \<noteq> VNil"
  shows "\<exists>i < pos_count t. pos_key t i = k \<and> live t i"
proof (cases "arr_index (asize t) k")
  case (Some i)
  then have "k = VNum (int2num (word_of_nat i))" "i < asize t" using arr_index_Some [OF Some k(1)] by simp_all
  then show ?thesis using k Some by (intro exI [of _ i]) (simp add: pos_count_def pos_key_def pos_val_def tab_map_def)
next
  case None
  then have nm: "node_map (t_node t) k \<noteq> VNil" using k by (simp add: tab_map_def)
  then obtain j where j: "j < length (t_node t)" "n_key (t_node t ! j) = k" using node_map_out by metis
  have ok: "nodes_ok (hashkey t) (t_node t)" using t by (simp add: tab_ok_def)
  have "node_map (t_node t) k = n_val (t_node t ! j)"
    using node_map_in [OF ok j(1) j(2)] key_ok_not_nil [OF k(1)] j(2) by simp
  then show ?thesis using j nm by (intro exI [of _ "asize t + j"]) (simp add: pos_count_def pos_key_def pos_val_def)
qed

lemma live_pairs_set:
  assumes "tab_ok t"
  shows "(k, v) \<in> set (live_pairs t 0) \<longleftrightarrow> key_ok k \<and> v \<noteq> VNil \<and> tab_map t k = v"
proof
  show "key_ok k \<and> v \<noteq> VNil \<and> tab_map t k = v" if "(k, v) \<in> set (live_pairs t 0)"
    using that pos_key_ok [OF assms] by (auto simp: live_pairs_def)
  show "(k, v) \<in> set (live_pairs t 0)" if kv: "key_ok k \<and> v \<noteq> VNil \<and> tab_map t k = v"
  proof -
    obtain i where i: "i < pos_count t" "pos_key t i = k" "live t i" using live_key_exists [OF assms, of k] kv by blast
    then have "pos_val t i = v" using pos_key_ok [OF assms i(1,3)] i(2) kv by simp
    then show ?thesis using i by (auto simp: live_pairs_def intro!: image_eqI [of _ _ i])
  qed
qed

lemma tab_pairs_all: "tab_ok t \<Longrightarrow> pos_count t < f \<Longrightarrow> tab_pairs f t VNil = Inr (live_pairs t 0)"
  by (rule tab_pairs_from) (simp_all add: next_nil)

section \<open>The number of entries\<close>

definition live_keys :: "GCtab \<Rightarrow> TValue set" where
  "live_keys t = {k. key_ok k \<and> lj_tab_get t k \<noteq> Inr VNil}"

lemma live_keys_pairs: "tab_ok t \<Longrightarrow> live_keys t = set (map fst (live_pairs t 0))"
proof -
  assume t: "tab_ok t"
  have "lj_tab_get t k = Inr (tab_map t k)" if "key_ok k" for k
    using lj_tab_get_map [OF t, of k] that by (auto simp: norm_key_def)
  then have "k \<in> live_keys t \<longleftrightarrow> (\<exists>v. (k, v) \<in> set (live_pairs t 0))" for k
    by (cases "key_ok k") (simp_all add: live_keys_def live_pairs_set [OF t])
  then show ?thesis by (intro set_eqI) (simp only: set_map image_iff, force)
qed

lemma length_live_pairs: "length (live_pairs t 0) = live_count t"
proof -
  let ?n = "asize t" let ?m = "length (t_node t)"
  have a: "filter (live t) [0 ..< ?n] = array_idx (t_array t) 0"
    unfolding array_idx_def by (intro filter_cong) (simp_all add: pos_val_def)
  have "[?n ..< ?n + ?m] = map (\<lambda>j. ?n + j) [0 ..< ?m]"
    by (simp add: map_add_upt add.commute)
  then have "filter (live t) [?n ..< ?n + ?m] = map (\<lambda>j. ?n + j) (filter (\<lambda>j. n_val (t_node t ! j) \<noteq> VNil) [0 ..< ?m])"
    by (simp add: filter_map o_def pos_val_def)
  moreover have "length (filter (\<lambda>n. n_val n \<noteq> VNil) (t_node t)) = length (filter (\<lambda>j. n_val (t_node t ! j) \<noteq> VNil) [0 ..< ?m])"
    by (subst map_nth [symmetric], subst filter_map) (simp add: o_def)
  ultimately show ?thesis using upt_add_eq_append [of 0 ?n ?m]
    by (simp add: live_pairs_def pos_count_def live_count_def node_pairs_def a)
qed

lemma card_live_keys: "tab_ok t \<Longrightarrow> finite (live_keys t) \<and> card (live_keys t) = live_count t"
  using distinct_card [OF live_pairs_distinct, of t] by (simp add: live_keys_pairs length_live_pairs)

text \<open>The keys that no array part can take.\<close>

lemma card_hash_keys:
  assumes t: "tab_ok t"
  shows "card {k \<in> live_keys t. arr_index LJ_MAX_ASIZE k = None} \<le> hash_count t"
proof -
  let ?P = "filter (\<lambda>p. key_idx (fst p) = []) (node_pairs (t_node t))"
  have "k \<in> fst ` set ?P" if k: "k \<in> live_keys t" "arr_index LJ_MAX_ASIZE k = None" for k
  proof -
    have ok: "key_ok k" "tab_map t k \<noteq> VNil" using k(1) live_keys_pairs [OF t] live_pairs_set [OF t] by auto
    have as: "asize t \<le> LJ_MAX_ASIZE" using t by (simp add: tab_ok_def)
    have none: "arr_index (asize t) k = None"
      using k(2) as by (cases k) (auto simp: arr_index_def Let_def split: if_splits)
    then have nm: "node_map (t_node t) k \<noteq> VNil" using ok by (simp add: tab_map_def)
    then obtain j where j: "j < length (t_node t)" "n_key (t_node t ! j) = k" using node_map_out by metis
    have no: "nodes_ok (hashkey t) (t_node t)" using t by (simp add: tab_ok_def)
    have "n_val (t_node t ! j) \<noteq> VNil"
      using nm node_map_in [OF no j(1) j(2)] key_ok_not_nil [OF ok(1)] j(2) by simp
    then have "(k, n_val (t_node t ! j)) \<in> set (node_pairs (t_node t))"
      using j nth_mem [OF j(1)] by (force simp: node_pairs_def)
    moreover have "key_idx k = []" using k(2) by (simp add: key_idx_def)
    ultimately show ?thesis by force
  qed
  then have "{k \<in> live_keys t. arr_index LJ_MAX_ASIZE k = None} \<subseteq> fst ` set ?P" by blast
  then have "card {k \<in> live_keys t. arr_index LJ_MAX_ASIZE k = None} \<le> card (set (map fst ?P))"
    by (intro card_mono) simp_all
  also have "\<dots> \<le> length (map fst ?P)" by (rule card_length)
  finally show ?thesis by (simp add: hash_count_def)
qed

end
