(* ===== verification/TabProps.thy ===== *)
theory TabProps
  imports TabNext
begin

text \<open>
  What \<^verbatim>\<open>lj_tab.c\<close> promises its callers, stated over the getters and setters.
\<close>

section \<open>New, copied and cleared tables\<close>

lemma tab_ok_blank:
  assumes "hash_ok t" "asize t \<le> LJ_MAX_ASIZE" "\<forall>n \<in> set (t_node t). n = blank_node"
  shows "tab_ok t" "(\<forall>i < asize t. t_array t ! i = VNil) \<Longrightarrow> tab_map t = (\<lambda>_. VNil)"
proof -
  have "\<forall>i < length (t_node t). t_node t ! i = blank_node" using assms(3) nth_mem by blast
  then have "\<forall>i < length (t_node t). n_key (t_node t ! i) = VNil" by (simp add: blank_node_def)
  then show "tab_ok t" using assms nodes_ok_blank [OF assms(3)] by (simp add: tab_ok_def)
  show "(\<forall>i < asize t. t_array t ! i = VNil) \<Longrightarrow> tab_map t = (\<lambda>_. VNil)"
    by (auto simp: tab_map_def fun_eq_iff node_map_blank [OF assms(3)] dest: arr_index_Some split: option.split)
qed

lemma newtab_eq:
  assumes "length mem \<le> LJ_MAX_ASIZE" "hbits \<le> LJ_MAX_HBITS"
  shows "\<exists>colo. newtab mem hbits = Inr \<lparr>t_nomm = 0xff, t_colo = colo, t_array = mem,
    t_node = replicate (2 ^ hbits) blank_node, t_hmask = mask hbits, t_freetop = (if hbits = 0 then 0 else 2 ^ hbits)\<rparr>"
proof -
  have m: "word_of_nat (2 ^ hbits) - 1 = (mask hbits :: u32)" by (simp add: mask_eq_exp_minus_1)
  show ?thesis using assms m by (cases "hbits = 0"; cases mem) (auto simp: newtab_def newhpart_def Let_def)
qed

lemma lj_tab_new_eq:
  assumes "n \<le> LJ_MAX_ASIZE" "hbits \<le> LJ_MAX_HBITS"
  shows "\<exists>t. lj_tab_new n hbits = Inr t \<and> tab_ok t \<and> asize t = n \<and> length (t_node t) = 2 ^ hbits \<and>
    tab_map t = (\<lambda>_. VNil) \<and> t_hmask t = mask hbits \<and> n_used (t_node t) = 0"
proof -
  obtain colo where c: "newtab (replicate n VNil) hbits = Inr \<lparr>t_nomm = 0xff, t_colo = colo, t_array = replicate n VNil,
    t_node = replicate (2 ^ hbits) blank_node, t_hmask = mask hbits, t_freetop = (if hbits = 0 then 0 else 2 ^ hbits)\<rparr>"
    using newtab_eq [of "replicate n VNil" hbits] assms by auto
  define t where "t = \<lparr>t_nomm = 0xff, t_colo = colo, t_array = replicate n VNil,
    t_node = replicate (2 ^ hbits) blank_node, t_hmask = mask hbits, t_freetop = (if hbits = 0 then 0 else 2 ^ hbits)\<rparr>"
  have "lj_tab_new n hbits = Inr t"
    using assms(1) c by (cases "hbits = 0")
      (simp_all add: lj_tab_new_def clearapart_def clearhpart_def t_def map_replicate_const Let_def word_gt_0)
  moreover have "hash_ok t"
    using assms(2) mask_hbits [OF assms(2)] by (auto simp: hash_ok_def t_def)
  moreover have "asize t = n" "\<forall>n \<in> set (t_node t). n = blank_node" "\<forall>i < asize t. t_array t ! i = VNil"
    by (simp_all add: t_def)
  ultimately show ?thesis using tab_ok_blank [of t] assms(1) by (auto simp: t_def n_used_def blank_node_def)
qed

text \<open>
  \<^verbatim>\<open>lj_tab_new\<close> makes an empty table of the sizes asked for, and throws
  \<^verbatim>\<open>LJ_ERR_TABOV\<close> exactly when one of them is over its limit.
\<close>

theorem lj_tab_new_spec:
  "(\<exists>t. lj_tab_new n hbits = Inr t) = (n \<le> LJ_MAX_ASIZE \<and> hbits \<le> LJ_MAX_HBITS) \<and>
   (case lj_tab_new n hbits of
      Inr t \<Rightarrow> tab_ok t \<and> asize t = n \<and> length (t_node t) = 2 ^ hbits \<and> (\<forall>k. lj_tab_get t k = Inr VNil)
    | Inl e \<Rightarrow> e = Throw LJ_ERR_TABOV)"
proof (cases "n \<le> LJ_MAX_ASIZE \<and> hbits \<le> LJ_MAX_HBITS")
  case True
  then show ?thesis using lj_tab_new_eq [of n hbits] by (auto simp: lj_tab_get_map)
next
  case False
  have "lj_tab_new n hbits = Inl (Throw LJ_ERR_TABOV)"
  proof (cases "LJ_MAX_ASIZE < n")
    case False
    then have "LJ_MAX_HBITS < hbits" using \<open>\<not> (n \<le> LJ_MAX_ASIZE \<and> hbits \<le> LJ_MAX_HBITS)\<close> by simp
    with False show ?thesis by (auto simp: lj_tab_new_def newtab_def newhpart_def Let_def)
  qed (simp add: lj_tab_new_def)
  then show ?thesis using False by simp
qed

lemma fls_mask:
  assumes "hb \<le> LJ_MAX_HBITS" "hb \<noteq> 0"
  shows "lj_fls (mask hb) + 1 = hb"
proof -
  have "(2::nat) ^ hb = 2 * 2 ^ (hb - 1)" using assms(2) by (cases hb) simp_all
  moreover have "(1::nat) \<le> 2 ^ (hb - 1)" by simp
  ultimately have "fls (2 ^ hb - 1) = hb - 1"
    using fls_bounds [of "2 ^ hb - 1"] assms(2)
    by (intro fls_unique) simp_all
  then show ?thesis using mask_hbits [OF assms(1)] assms(2) by (simp add: lj_fls_def)
qed

lemma lj_tab_dup_eq:
  assumes t: "tab_ok t"
  shows "\<exists>t'. lj_tab_dup t = Inr t' \<and> tab_ok t' \<and> t_array t' = t_array t \<and> t_node t' = t_node t \<and>
    t_hmask t' = t_hmask t \<and> t_freetop t' = t_freetop t"
proof -
  obtain hb where hb: "hb \<le> LJ_MAX_HBITS" "t_hmask t = mask hb" using t by (auto simp: tab_ok_def hash_ok_def)
  have z: "t_hmask t = 0 \<longleftrightarrow> hb = 0" using hb mask_hbits [OF hb(1)] by (cases hb) auto
  then have n: "(if t_hmask t > 0 then lj_fls (t_hmask t) + 1 else 0) = hb"
    using fls_mask [OF hb(1)] hb(2) by (auto simp: word_gt_0)
  obtain colo where c: "newtab (replicate (asize t) VNil) hb = Inr \<lparr>t_nomm = 0xff, t_colo = colo,
      t_array = replicate (asize t) VNil, t_node = replicate (2 ^ hb) blank_node, t_hmask = mask hb,
      t_freetop = (if hb = 0 then 0 else 2 ^ hb)\<rparr>"
    using newtab_eq [of "replicate (asize t) VNil" hb] hb(1) t by (auto simp: tab_ok_def)
  define t' where "t' = \<lparr>t_nomm = 0, t_colo = colo, t_array = t_array t, t_node = t_node t, t_hmask = t_hmask t,
    t_freetop = t_freetop t\<rparr>"
  have z0: "t_hmask t = 0 \<Longrightarrow> t_node t = [blank_node] \<and> t_freetop t = 0"
    using t by (simp add: tab_ok_def hash_ok_def)
  have "lj_tab_dup t = Inr t'"
    unfolding lj_tab_dup_def n c using z z0 hb(2) by (auto simp: t'_def word_gt_0)
  moreover have "tab_ok t'"
  proof -
    have "hashkey t' = hashkey t" by (rule hashkey_cong) (simp add: t'_def)
    moreover have "hash_ok t' = hash_ok t" by (simp add: hash_ok_def t'_def)
    ultimately show ?thesis using t unfolding tab_ok_def by (simp add: t'_def)
  qed
  ultimately show ?thesis by (auto simp: t'_def)
qed

text \<open>
  C11: \<^verbatim>\<open>lj_tab_dup\<close> of a well-formed table cannot fail, and the copy answers every
  lookup like the original.
\<close>

theorem lj_tab_dup_same:
  assumes "tab_ok t"
  shows "\<exists>t'. lj_tab_dup t = Inr t' \<and> tab_ok t' \<and> (\<forall>k. lj_tab_get t' k = lj_tab_get t k)"
proof -
  obtain t' where t': "lj_tab_dup t = Inr t'" "tab_ok t'" "t_array t' = t_array t" "t_node t' = t_node t"
    using lj_tab_dup_eq [OF assms] by blast
  then have "tab_map t' = tab_map t" by (simp add: tab_map_def fun_eq_iff split: option.split)
  then show ?thesis using t'(1,2) assms by (simp add: lj_tab_get_map)
qed

definition empty_tab :: GCtab where
  "empty_tab = \<lparr>t_nomm = 0xff, t_colo = 0, t_array = [], t_node = [blank_node], t_hmask = 0, t_freetop = 0\<rparr>"

lemma empty_tab_ok: "tab_ok empty_tab"
  by (rule tab_ok_blank(1)) (auto simp: hash_ok_def empty_tab_def intro!: exI [of _ 0])

theorem lj_tab_dup_same_witness:
  "\<exists>t'. lj_tab_dup empty_tab = Inr t' \<and> tab_ok t' \<and> (\<forall>k. lj_tab_get t' k = lj_tab_get empty_tab k)"
  by (rule lj_tab_dup_same [OF empty_tab_ok])

section \<open>Setting\<close>

text \<open>
  C12: setting a key stores the value under that key and changes no other lookup,
  whether the key goes to the array, to a free node, moves a colliding node, or makes the
  table rehash; the only failure is \<^verbatim>\<open>LJ_ERR_TABOV\<close>, for a table that already has
  \<^verbatim>\<open>2 ^ LJ_MAX_HBITS\<close> entries.
\<close>

theorem lj_tab_set_get:
  assumes "tab_ok t" "key_ok (norm_key k)"
  shows "tab_put t k v = Inl (Throw LJ_ERR_TABOV) \<and> 2 ^ LJ_MAX_HBITS \<le> card (live_keys t) \<or>
    (\<exists>t'. tab_put t k v = Inr t' \<and> tab_ok t' \<and>
      (\<forall>k'. lj_tab_get t' k' = (if norm_key k' = norm_key k then Inr v else lj_tab_get t k')))"
  using tab_put_map [OF assms, of v]
proof (elim disjE exE conjE)
  fix t' assume a: "tab_put t k v = Inr t'" "tab_ok t'"
  have "\<forall>k'. lj_tab_get t' k' = (if norm_key k' = norm_key k then Inr v else lj_tab_get t k')"
    by (intro allI tab.get_put [OF assms a(1)])
  then show ?thesis using a by (intro disjI2 exI [of _ t'] conjI)
qed (simp add: overflow_def card_live_keys [OF assms(1)])

lemma live_keys_empty: "live_keys empty_tab = {}"
proof -
  have "live_count empty_tab = 0" by (simp add: live_count_def empty_tab_def array_idx_def node_pairs_def blank_node_def)
  then show ?thesis using card_live_keys [OF empty_tab_ok] by (simp only: card_eq_0_iff) blast
qed

theorem lj_tab_set_get_witness:
  "\<exists>t'. tab_put empty_tab VTrue VFalse = Inr t' \<and> tab_ok t' \<and>
      (\<forall>k'. lj_tab_get t' k' = (if norm_key k' = norm_key VTrue then Inr VFalse else lj_tab_get empty_tab k'))"
  using lj_tab_set_get [OF empty_tab_ok, of VTrue VFalse] by (simp add: norm_key_def live_keys_empty)

text \<open>
  C13: nil and NaN cannot be keys: setting them throws \<^verbatim>\<open>LJ_ERR_NILIDX\<close> and
  \<^verbatim>\<open>LJ_ERR_NANIDX\<close>, and looking them up in a well-formed table gives nil.
\<close>

theorem lj_tab_bad_keys:
  "lj_tab_set t VNil = Inl (Throw LJ_ERR_NILIDX) \<and>
   (num_nan x \<longrightarrow> lj_tab_set t (VNum x) = Inl (Throw LJ_ERR_NANIDX)) \<and>
   (tab_ok t \<longrightarrow> lj_tab_get t VNil = Inr VNil \<and> (num_nan x \<longrightarrow> lj_tab_get t (VNum x) = Inr VNil))"
proof -
  have "num_nan x \<Longrightarrow> \<not> num_eq x (int2num (lj_num2int x))" by (simp add: num_eq_def)
  moreover have "num_nan x \<Longrightarrow> norm_key (VNum x) = VNum x"
    by (auto simp: norm_key_def num_nan_def num_exp_def mzero_def)
  ultimately show ?thesis
    by (auto simp: lj_tab_set_def set_with_def Let_def lj_tab_get_map tab_map_not_ok norm_key_def)
qed

theorem lj_tab_bad_keys_witness:
  "num_nan 0xffffffffffffffff \<and> lj_tab_set empty_tab (VNum 0xffffffffffffffff) = Inl (Throw LJ_ERR_NANIDX) \<and>
   lj_tab_get empty_tab VNil = Inr VNil"
proof -
  have "num_nan 0xffffffffffffffff" unfolding num_nan_def num_exp_def num_man_def by simp
  then show ?thesis using lj_tab_bad_keys [of empty_tab "0xffffffffffffffff"] empty_tab_ok by simp
qed

section \<open>Rehashing and traversal\<close>

text \<open>
  C14: rehashing keeps every entry, so no lookup changes.  It throws \<^verbatim>\<open>LJ_ERR_TABOV\<close> only
  for a table with \<^verbatim>\<open>2 ^ LJ_MAX_HBITS\<close> entries or more (the code also counts the key that is to
  come, so exactly that many can be too many), and it does throw when that many of the
  keys cannot go to an array part of any size.
\<close>

theorem lj_tab_rehash_same:
  assumes "tab_ok t"
  shows "finite (live_keys t) \<and>
    (lj_tab_rehash t = Inl (Throw LJ_ERR_TABOV) \<and> 2 ^ LJ_MAX_HBITS \<le> card (live_keys t) \<or>
     (\<exists>t'. lj_tab_rehash t = Inr t' \<and> tab_ok t' \<and> (\<forall>k. lj_tab_get t' k = lj_tab_get t k) \<and>
       card {k \<in> live_keys t. arr_index LJ_MAX_ASIZE k = None} < 2 ^ LJ_MAX_HBITS))"
proof -
  have nk: "lj_tab_newkey = newkey_body (newkey_fuel 1)" by (simp add: lj_tab_newkey_def numeral_2_eq_2 newkey_fuel_Suc)
  have "key_idx VNil = []" by (rule key_idx_other) simp
  then have "lj_tab_rehash t = Inl (Throw LJ_ERR_TABOV) \<and> 2 ^ LJ_MAX_HBITS \<le> card (live_keys t) \<or>
      (\<exists>t'. lj_tab_rehash t = Inr t' \<and> tab_ok t' \<and> tab_map t' = tab_map t \<and> hash_count t < 2 ^ LJ_MAX_HBITS)"
    using rehash_ok [OF assms, of "newkey_fuel 1" VNil] card_live_keys [OF assms]
    by (auto simp: lj_tab_rehash_def nk)
  then show ?thesis
  proof (elim disjE exE conjE)
    fix t' assume t': "lj_tab_rehash t = Inr t'" "tab_ok t'" "tab_map t' = tab_map t" "hash_count t < 2 ^ LJ_MAX_HBITS"
    then have "\<forall>k. lj_tab_get t' k = lj_tab_get t k" using assms by (simp add: lj_tab_get_map)
    then show ?thesis using t' card_live_keys [OF assms] card_hash_keys [OF assms] by fastforce
  qed (simp add: card_live_keys [OF assms])
qed

text \<open>A table with one entry is rehashed and keeps it.\<close>

theorem lj_tab_rehash_same_witness:
  "\<exists>t t'. tab_put empty_tab VTrue VFalse = Inr t \<and> lj_tab_rehash t = Inr t' \<and> tab_ok t' \<and>
    lj_tab_get t' VTrue = Inr VFalse \<and> (\<forall>k. lj_tab_get t' k = lj_tab_get t k)"
proof -
  have n: "norm_key VTrue = VTrue" by (simp add: norm_key_def)
  obtain t where t: "tab_put empty_tab VTrue VFalse = Inr t" "tab_ok t"
    "\<And>k. lj_tab_get t k = (if norm_key k = VTrue then Inr VFalse else lj_tab_get empty_tab k)"
    using tab_put_map [OF empty_tab_ok, of VTrue VFalse] tab.get_put [OF empty_tab_ok, of VTrue VFalse]
      card_live_keys [OF empty_tab_ok] live_keys_empty by (auto simp: n)
  have "live_keys t \<subseteq> {VTrue}"
  proof
    fix k assume "k \<in> live_keys t"
    then have "key_ok k" "norm_key k = VTrue" using t(3) [of k] live_keys_empty
      by (auto simp: live_keys_def split: if_splits)
    then show "k \<in> {VTrue}" by (auto simp: norm_key_def split: if_splits)
  qed
  then have "card (live_keys t) \<le> 1" using card_mono [of "{VTrue}" "live_keys t"] by simp
  then have "card (live_keys t) < 2 ^ LJ_MAX_HBITS" by (simp add: LJ_MAX_HBITS_def)
  then obtain t' where "lj_tab_rehash t = Inr t'" "tab_ok t'" "\<forall>k. lj_tab_get t' k = lj_tab_get t k"
    using lj_tab_rehash_same [OF t(2)] by (auto simp: not_le)
  then show ?thesis using t(1) t(3) [of VTrue] n by auto
qed

text \<open>
  C15: a traversal with \<^verbatim>\<open>lj_tab_next\<close> that starts from nil ends, visits no key twice,
  and visits exactly the keys whose value is not nil, with their values.
\<close>

theorem lj_tab_next_visits:
  assumes "tab_ok t" "asize t + length (t_node t) < f"
  shows "\<exists>L. tab_pairs f t VNil = Inr L \<and> distinct (map fst L) \<and>
    (\<forall>k v. (k, v) \<in> set L \<longleftrightarrow> key_ok k \<and> v \<noteq> VNil \<and> lj_tab_get t k = Inr v)"
proof -
  have "lj_tab_get t k = Inr (tab_map t k)" if "key_ok k" for k
    using lj_tab_get_map [OF assms(1), of k] that by (auto simp: norm_key_def)
  then show ?thesis
    using tab_pairs_all [OF assms(1), of f] assms(2) live_pairs_distinct [OF assms(1)] live_pairs_set [OF assms(1)]
    by (intro exI [of _ "live_pairs t 0"]) (auto simp: pos_count_def)
qed

theorem lj_tab_next_visits_witness:
  "\<exists>L. tab_pairs 2 empty_tab VNil = Inr L \<and> distinct (map fst L) \<and>
    (\<forall>k v. (k, v) \<in> set L \<longleftrightarrow> key_ok k \<and> v \<noteq> VNil \<and> lj_tab_get empty_tab k = Inr v)"
  by (rule lj_tab_next_visits [OF empty_tab_ok]) (simp add: empty_tab_def)

end
