(* ===== verification/Chars.thy ===== *)
theory Chars
  imports Prelude
begin

text \<open>
  Character classes: the table of \<^verbatim>\<open>src/src/lj_char.c\<close> and the macros of
  \<^verbatim>\<open>src/src/lj_char.h\<close>.  The argument is -1 (end of input) or a byte value; the table is
  read at that index plus one.
\<close>

definition lj_char_bits :: "nat list" where
  "lj_char_bits =
    [0,
     1, 1, 1, 1, 1, 1, 1, 1, 1, 3, 3, 3, 3, 3, 1, 1,
     1, 1, 1, 1, 1, 1, 1, 1, 1, 1, 1, 1, 1, 1, 1, 1,
     2, 4, 4, 4, 4, 4, 4, 4, 4, 4, 4, 4, 4, 4, 4, 4,
     152, 152, 152, 152, 152, 152, 152, 152, 152, 152, 4, 4, 4, 4, 4, 4,
     4, 176, 176, 176, 176, 176, 176, 160, 160, 160, 160, 160, 160, 160, 160, 160,
     160, 160, 160, 160, 160, 160, 160, 160, 160, 160, 160, 4, 4, 4, 4, 132,
     4, 208, 208, 208, 208, 208, 208, 192, 192, 192, 192, 192, 192, 192, 192, 192,
     192, 192, 192, 192, 192, 192, 192, 192, 192, 192, 192, 4, 4, 4, 4, 1]
    @ replicate 128 128"

definition LJ_CHAR_CNTRL :: nat where "LJ_CHAR_CNTRL = 0x01"
definition LJ_CHAR_SPACE :: nat where "LJ_CHAR_SPACE = 0x02"
definition LJ_CHAR_PUNCT :: nat where "LJ_CHAR_PUNCT = 0x04"
definition LJ_CHAR_DIGIT :: nat where "LJ_CHAR_DIGIT = 0x08"
definition LJ_CHAR_XDIGIT :: nat where "LJ_CHAR_XDIGIT = 0x10"
definition LJ_CHAR_UPPER :: nat where "LJ_CHAR_UPPER = 0x20"
definition LJ_CHAR_LOWER :: nat where "LJ_CHAR_LOWER = 0x40"
definition LJ_CHAR_IDENT :: nat where "LJ_CHAR_IDENT = 0x80"

definition lj_char_isa :: "int \<Rightarrow> nat \<Rightarrow> nat" where
  "lj_char_isa c t = lj_char_bits ! nat (c + 1) AND t"

definition lj_char_iscntrl :: "int \<Rightarrow> bool" where "lj_char_iscntrl c = (lj_char_isa c LJ_CHAR_CNTRL \<noteq> 0)"
definition lj_char_isspace :: "int \<Rightarrow> bool" where "lj_char_isspace c = (lj_char_isa c LJ_CHAR_SPACE \<noteq> 0)"
definition lj_char_ispunct :: "int \<Rightarrow> bool" where "lj_char_ispunct c = (lj_char_isa c LJ_CHAR_PUNCT \<noteq> 0)"
definition lj_char_isdigit :: "int \<Rightarrow> bool" where "lj_char_isdigit c = (lj_char_isa c LJ_CHAR_DIGIT \<noteq> 0)"
definition lj_char_isxdigit :: "int \<Rightarrow> bool" where "lj_char_isxdigit c = (lj_char_isa c LJ_CHAR_XDIGIT \<noteq> 0)"
definition lj_char_isupper :: "int \<Rightarrow> bool" where "lj_char_isupper c = (lj_char_isa c LJ_CHAR_UPPER \<noteq> 0)"
definition lj_char_islower :: "int \<Rightarrow> bool" where "lj_char_islower c = (lj_char_isa c LJ_CHAR_LOWER \<noteq> 0)"
definition lj_char_isident :: "int \<Rightarrow> bool" where "lj_char_isident c = (lj_char_isa c LJ_CHAR_IDENT \<noteq> 0)"
definition lj_char_isalpha :: "int \<Rightarrow> bool" where
  "lj_char_isalpha c = (lj_char_isa c (LJ_CHAR_LOWER OR LJ_CHAR_UPPER) \<noteq> 0)"
definition lj_char_isalnum :: "int \<Rightarrow> bool" where
  "lj_char_isalnum c = (lj_char_isa c (LJ_CHAR_LOWER OR LJ_CHAR_UPPER OR LJ_CHAR_DIGIT) \<noteq> 0)"
definition lj_char_isgraph :: "int \<Rightarrow> bool" where
  "lj_char_isgraph c = (lj_char_isa c (LJ_CHAR_LOWER OR LJ_CHAR_UPPER OR LJ_CHAR_DIGIT OR LJ_CHAR_PUNCT) \<noteq> 0)"

definition lj_char_toupper :: "int \<Rightarrow> int" where
  "lj_char_toupper c = c - int (drop_bit 1 (lj_char_isa c LJ_CHAR_LOWER))"

definition lj_char_tolower :: "int \<Rightarrow> int" where
  "lj_char_tolower c = c + int (lj_char_isa c LJ_CHAR_UPPER)"

section \<open>The classes\<close>

text \<open>Every argument the macros may be given.\<close>

definition char_args :: "int list" where
  "char_args = map (\<lambda>i. int i - 1) [0 ..< 257]"

definition class_spec :: "int \<Rightarrow> bool" where
  "class_spec c \<longleftrightarrow>
     (let upper = 0x41 \<le> c \<and> c \<le> 0x5a; lower = 0x61 \<le> c \<and> c \<le> 0x7a; digit = 0x30 \<le> c \<and> c \<le> 0x39;
          space = (0x09 \<le> c \<and> c \<le> 0x0d) \<or> c = 0x20 in
      lj_char_isdigit c = digit \<and>
      lj_char_isxdigit c = (digit \<or> (0x41 \<le> c \<and> c \<le> 0x46) \<or> (0x61 \<le> c \<and> c \<le> 0x66)) \<and>
      lj_char_isupper c = upper \<and> lj_char_islower c = lower \<and>
      lj_char_isalpha c = (upper \<or> lower) \<and> lj_char_isalnum c = (upper \<or> lower \<or> digit) \<and>
      lj_char_isspace c = space \<and>
      lj_char_iscntrl c = ((0 \<le> c \<and> c < 0x20) \<or> c = 0x7f) \<and>
      lj_char_isident c = (upper \<or> lower \<or> digit \<or> c = 0x5f \<or> 0x80 \<le> c) \<and>
      lj_char_ispunct c = (0x21 \<le> c \<and> c \<le> 0x7e \<and> \<not> (upper \<or> lower \<or> digit)) \<and>
      lj_char_isgraph c = (0x21 \<le> c \<and> c \<le> 0x7e) \<and>
      lj_char_toupper c = (if lower then c - 32 else c) \<and>
      lj_char_tolower c = (if upper then c + 32 else c))"

text \<open>The table entry of a character by ranges.\<close>

definition bits_spec :: "int \<Rightarrow> nat" where
  "bits_spec c =
     (if c < 0 then 0 else if 0x80 \<le> c then 0x80
      else if c < 0x20 \<or> c = 0x7f then if 9 \<le> c \<and> c \<le> 13 then 0x03 else 0x01
      else if c = 0x20 then 0x02
      else if 0x30 \<le> c \<and> c \<le> 0x39 then 0x98
      else if 0x41 \<le> c \<and> c \<le> 0x46 then 0xb0 else if 0x47 \<le> c \<and> c \<le> 0x5a then 0xa0
      else if 0x61 \<le> c \<and> c \<le> 0x66 then 0xd0 else if 0x67 \<le> c \<and> c \<le> 0x7a then 0xc0
      else if c = 0x5f then 0x84 else 0x04)"

lemma char_bits_spec: "lj_char_bits = map bits_spec char_args"
  by code_simp

lemma lj_char_isa_spec: "- 1 \<le> c \<Longrightarrow> c \<le> 255 \<Longrightarrow> lj_char_isa c t = bits_spec c AND t"
  by (simp add: lj_char_isa_def char_bits_spec char_args_def)

lemmas class_defs = class_spec_def Let_def lj_char_isdigit_def lj_char_isxdigit_def
  lj_char_isupper_def lj_char_islower_def lj_char_isalpha_def lj_char_isalnum_def lj_char_isspace_def
  lj_char_iscntrl_def lj_char_isident_def lj_char_ispunct_def lj_char_isgraph_def lj_char_toupper_def
  lj_char_tolower_def LJ_CHAR_CNTRL_def LJ_CHAR_SPACE_def LJ_CHAR_PUNCT_def LJ_CHAR_DIGIT_def
  LJ_CHAR_XDIGIT_def LJ_CHAR_UPPER_def LJ_CHAR_LOWER_def LJ_CHAR_IDENT_def

lemma class_low:
  assumes c: "(- 1) \<le> c" "c < 0x30" and isa: "\<And>t. lj_char_isa c t = bits_spec c AND t"
  shows "class_spec c"
proof -
  consider "-1 \<le> c" "c < 0" | "0 \<le> c" "c < 9" | "9 \<le> c" "c < 14" | "14 \<le> c" "c < 32" | "32 \<le> c" "c < 33" | "33 \<le> c" "c < 48"
    using c by linarith
  then show ?thesis
  proof cases
    case 1
    then have "bits_spec c = 0" by (simp add: bits_spec_def)
    with 1 show ?thesis unfolding class_defs isa by (intro conjI; simp)
  next
    case 2
    then have "bits_spec c = 1" by (simp add: bits_spec_def)
    with 2 show ?thesis unfolding class_defs isa by (intro conjI; simp)
  next
    case 3
    then have "bits_spec c = 3" by (simp add: bits_spec_def)
    with 3 show ?thesis unfolding class_defs isa by (intro conjI; simp)
  next
    case 4
    then have "bits_spec c = 1" by (simp add: bits_spec_def)
    with 4 show ?thesis unfolding class_defs isa by (intro conjI; simp)
  next
    case 5
    then have "bits_spec c = 2" by (simp add: bits_spec_def)
    with 5 show ?thesis unfolding class_defs isa by (intro conjI; simp)
  next
    case 6
    then have "bits_spec c = 4" by (simp add: bits_spec_def)
    with 6 show ?thesis unfolding class_defs isa by (intro conjI; simp)
  qed
qed

lemma class_mid:
  assumes c: "0x30 \<le> c" "c < 0x60" and isa: "\<And>t. lj_char_isa c t = bits_spec c AND t"
  shows "class_spec c"
proof -
  consider "48 \<le> c" "c < 58" | "58 \<le> c" "c < 65" | "65 \<le> c" "c < 71" | "71 \<le> c" "c < 91" | "91 \<le> c" "c < 95" | "95 \<le> c" "c < 96"
    using c by linarith
  then show ?thesis
  proof cases
    case 1
    then have "bits_spec c = 152" by (simp add: bits_spec_def)
    with 1 show ?thesis unfolding class_defs isa by (intro conjI; simp)
  next
    case 2
    then have "bits_spec c = 4" by (simp add: bits_spec_def)
    with 2 show ?thesis unfolding class_defs isa by (intro conjI; simp)
  next
    case 3
    then have "bits_spec c = 176" by (simp add: bits_spec_def)
    with 3 show ?thesis unfolding class_defs isa by (intro conjI; simp)
  next
    case 4
    then have "bits_spec c = 160" by (simp add: bits_spec_def)
    with 4 show ?thesis unfolding class_defs isa by (intro conjI; simp)
  next
    case 5
    then have "bits_spec c = 4" by (simp add: bits_spec_def)
    with 5 show ?thesis unfolding class_defs isa by (intro conjI; simp)
  next
    case 6
    then have "bits_spec c = 132" by (simp add: bits_spec_def)
    with 6 show ?thesis unfolding class_defs isa by (intro conjI; simp)
  qed
qed

lemma class_high:
  assumes c: "0x60 \<le> c" "c < 0x100" and isa: "\<And>t. lj_char_isa c t = bits_spec c AND t"
  shows "class_spec c"
proof -
  consider "96 \<le> c" "c < 97" | "97 \<le> c" "c < 103" | "103 \<le> c" "c < 123" | "123 \<le> c" "c < 127" | "127 \<le> c" "c < 128" | "128 \<le> c" "c < 256"
    using c by linarith
  then show ?thesis
  proof cases
    case 1
    then have "bits_spec c = 4" by (simp add: bits_spec_def)
    with 1 show ?thesis unfolding class_defs isa by (intro conjI; simp)
  next
    case 2
    then have "bits_spec c = 208" by (simp add: bits_spec_def)
    with 2 show ?thesis unfolding class_defs isa by (intro conjI; simp)
  next
    case 3
    then have "bits_spec c = 192" by (simp add: bits_spec_def)
    with 3 show ?thesis unfolding class_defs isa by (intro conjI; simp)
  next
    case 4
    then have "bits_spec c = 4" by (simp add: bits_spec_def)
    with 4 show ?thesis unfolding class_defs isa by (intro conjI; simp)
  next
    case 5
    then have "bits_spec c = 1" by (simp add: bits_spec_def)
    with 5 show ?thesis unfolding class_defs isa by (intro conjI; simp)
  next
    case 6
    then have "bits_spec c = 128" by (simp add: bits_spec_def)
    with 6 show ?thesis unfolding class_defs isa by (intro conjI; simp)
  qed
qed

lemma class_spec_eq:
  assumes c: "- 1 \<le> c" "c \<le> 255"
  shows "class_spec c"
proof -
  note isa = lj_char_isa_spec [OF c]
  consider "c < 0x30" | "0x30 \<le> c" "c < 0x60" | "0x60 \<le> c" by linarith
  then show ?thesis
  proof cases
    case 1
    then show ?thesis using class_low [OF c(1) _ isa] by blast
  next
    case 2
    then show ?thesis using class_mid [OF _ _ isa] by blast
  next
    case 3
    then show ?thesis using class_high [OF _ _ isa] c(2) by simp
  qed
qed

text \<open>
  C16: the character table: for the end-of-input marker and every byte, each macro
  answers as the ASCII class it is named for (bytes from 0x80 count as identifier
  characters only), and the case conversions move exactly the letters.
\<close>

theorem lj_char_classes:
  assumes "- 1 \<le> c" "c \<le> 255"
  shows "class_spec c"
  by (rule class_spec_eq [OF assms])

theorem lj_char_classes_witness: "class_spec 0x41"
  by (rule lj_char_classes) simp_all

end
