(* ===== verification/Strings.thy ===== *)
theory Strings
  imports Obj Chars Buf
begin

text \<open>
  Strings: \<^verbatim>\<open>src/src/lj_str.c\<close> with its decompiled twins (\<^verbatim>\<open>hash_str\<close>,
  \<^verbatim>\<open>lj_str_new_mod\<close>, \<^verbatim>\<open>lj_str_resize_mod\<close>), and the replacements for compiler intrinsics
  in \<^verbatim>\<open>src/compat.c\<close>.  Memory behind a \<^verbatim>\<open>const char *\<close> is the list of the bytes that
  follow; the code reads up to three bytes past the end of a string on purpose, so the
  lists may be longer than the string.  A read beyond the list is \<open>Undef\<close>.
\<close>

definition getu32 :: "bytes \<Rightarrow> nat \<Rightarrow> u32 res" where
  "getu32 m i =
     (if i + 4 \<le> length m then Inr (le32 (m ! i) (m ! (i + 1)) (m ! (i + 2)) (m ! (i + 3))) else Inl Undef)"

section \<open>Intrinsics of compat.c\<close>

text \<open>
  \<^verbatim>\<open>unsigned long\<close> has 32 bits in this build, so \<^verbatim>\<open>bswap_64\<close> swaps a zero-extended
  value and the return truncates.
\<close>

definition bswap_64 :: "u64 \<Rightarrow> u64" where
  "bswap_64 x = num_lohi (lj_bswap (num_hi x)) (lj_bswap (num_lo x))"

definition byteswap_ulong :: "u32 \<Rightarrow> u32" where
  "byteswap_ulong x = ucast (bswap_64 (ucast x))"

text \<open>Shift counts of 32 and more: the i386 shift instructions use the low five bits.\<close>

definition rotl :: "u32 \<Rightarrow> u32 \<Rightarrow> u32" where
  "rotl x n =
     (let n = n - n div 32
      in push_bit (unat n mod 32) x OR drop_bit (unat (- n AND 31)) x)"

definition ROL4 :: "u32 \<Rightarrow> int \<Rightarrow> u32" where "ROL4 v count = rotl v (word_of_int count)"
definition ROR4 :: "u32 \<Rightarrow> int \<Rightarrow> u32" where "ROR4 v count = rotl v (word_of_int (- count))"

definition BitScanReverse :: "u32 \<Rightarrow> nat option" where
  "BitScanReverse m = (if m \<noteq> 0 then Some (fls (unat m)) else None)"

section \<open>Comparing and searching\<close>

function str_cmp_loop :: "bytes \<Rightarrow> nat \<Rightarrow> bytes \<Rightarrow> nat \<Rightarrow> nat \<Rightarrow> nat \<Rightarrow> int res" where
  "str_cmp_loop a alen b blen n i =
     (if i < n
      then rbind (getu32 a i) (\<lambda>va. rbind (getu32 b i) (\<lambda>vb.
           if va \<noteq> vb
           then let va = lj_bswap va; vb = lj_bswap vb; j = int i - int n
                in if - 3 \<le> j
                   then let va = drop_bit (nat (32 + 8 * j)) va; vb = drop_bit (nat (32 + 8 * j)) vb
                        in if va = vb then Inr (sint (word_of_nat alen - word_of_nat blen :: u32))
                           else Inr (if va < vb then - 1 else 1)
                   else Inr (if va < vb then - 1 else 1)
           else str_cmp_loop a alen b blen n (i + 4)))
      else Inr (sint (word_of_nat alen - word_of_nat blen :: u32)))"
  by pat_completeness auto
termination by (relation "measure (\<lambda>(_, _, _, _, n, i). n - i)") auto

declare str_cmp_loop.simps [simp del]

definition lj_str_cmp :: "bytes \<Rightarrow> nat \<Rightarrow> bytes \<Rightarrow> nat \<Rightarrow> int res" where
  "lj_str_cmp a alen b blen = str_cmp_loop a alen b blen (if blen < alen then blen else alen) 0"

function str_fastcmp_loop :: "bytes \<Rightarrow> bytes \<Rightarrow> nat \<Rightarrow> nat \<Rightarrow> u32 res" where
  "str_fastcmp_loop a b len i =
     rbind (getu32 a i) (\<lambda>va. rbind (getu32 b i) (\<lambda>vb.
     let v = va XOR vb in
     if v \<noteq> 0
     then let j = int i - int len in Inr (if - 3 \<le> j then push_bit (nat (32 + 8 * j)) v else 1)
     else if i + 4 < len then str_fastcmp_loop a b len (i + 4) else Inr 0))"
  by pat_completeness auto
termination by (relation "measure (\<lambda>(_, _, len, i). len - i)") auto

declare str_fastcmp_loop.simps [simp del]

definition str_fastcmp :: "bytes \<Rightarrow> bytes \<Rightarrow> nat \<Rightarrow> u32 res" where
  "str_fastcmp a b len = str_fastcmp_loop a b len 0"

definition memcmp_eq :: "bytes \<Rightarrow> bytes \<Rightarrow> nat \<Rightarrow> bool res" where
  "memcmp_eq a b len =
     rbind (in_range (len \<le> length a \<and> len \<le> length b)) (\<lambda>_. Inr (take len a = take len b))"

text \<open>\<^verbatim>\<open>memchr(s, c, slen)\<close> as the offset of the hit.\<close>

fun memchr :: "bytes \<Rightarrow> u8 \<Rightarrow> nat \<Rightarrow> nat option" where
  "memchr s c 0 = None"
| "memchr [] c (Suc n) = None"
| "memchr (x # s) c (Suc n) = (if x = c then Some 0 else map_option Suc (memchr s c n))"

lemma memchr_less: "memchr s c n = Some j \<Longrightarrow> j < n"
  by (induction s c n arbitrary: j rule: memchr.induct) (auto split: if_splits)

function str_find_loop :: "bytes \<Rightarrow> u8 \<Rightarrow> bytes \<Rightarrow> nat \<Rightarrow> nat \<Rightarrow> nat option" where
  "str_find_loop s c p pos slen =
     (if slen \<noteq> 0
      then case memchr (drop pos s) c slen of
             None \<Rightarrow> None
           | Some q \<Rightarrow>
               if take (length p) (drop (pos + q + 1) s) = p then Some (pos + q)
               else str_find_loop s c p (pos + q + 1) (slen - (q + 1))
      else None)"
  by pat_completeness auto
termination
  by (relation "measure (\<lambda>(_, _, _, _, slen). slen)") auto

declare str_find_loop.simps [simp del]

text \<open>The result is the offset of the match.\<close>

definition lj_str_find :: "bytes \<Rightarrow> bytes \<Rightarrow> nat option" where
  "lj_str_find s p =
     (if length p \<le> length s
      then case p of [] \<Rightarrow> Some 0
           | c # p' \<Rightarrow> str_find_loop s c p' 0 (length s - length p')
      else None)"

definition pattern_chars :: bytes where
  "pattern_chars = [0x5e, 0x24, 0x2a, 0x2b, 0x3f, 0x2e, 0x28, 0x5b, 0x25, 0x2d]"

fun lj_str_haspattern :: "bytes \<Rightarrow> bool" where
  "lj_str_haspattern [] = False"
| "lj_str_haspattern (c # p) =
     (if lj_char_ispunct (uint c) \<and> c \<in> set (pattern_chars @ [0]) then True else lj_str_haspattern p)"

section \<open>Hashing\<close>

definition u32_at :: "bytes \<Rightarrow> nat \<Rightarrow> u32" where
  "u32_at s i = le32 (s ! i) (s ! (i + 1)) (s ! (i + 2)) (s ! (i + 3))"

text \<open>The hash computed by \<^verbatim>\<open>lj_str_new\<close>; all reads are inside the string.\<close>

definition str_mix :: "u32 \<Rightarrow> u32 \<Rightarrow> u32 \<Rightarrow> u32" where
  "str_mix a b h =
     (let a = a XOR h; a = a - lj_rol h 11;
          b = b XOR a; b = b - lj_rol a 25;
          h = h XOR b; h = h - lj_rol b 16
      in h)"

definition lj_str_hash :: "bytes \<Rightarrow> u32" where
  "lj_str_hash str =
     (let len = length str; h = word_of_nat len in
      if 4 \<le> len
      then let a = u32_at str 0;
               h = h XOR u32_at str (len - 4);
               b = u32_at str (len div 2 - 2);
               h = h XOR b; h = h - lj_rol b 14;
               b = b + u32_at str (len div 4 - 1)
           in str_mix a b h
      else if 0 < len
      then let a = ucast (str ! 0);
               h = h XOR ucast (str ! (len - 1));
               b = ucast (str ! (len div 2));
               h = h XOR b; h = h - lj_rol b 14
           in str_mix a b h
      else 0)"

definition hash_str_mix :: "u32 \<Rightarrow> u32 \<Rightarrow> u32 \<Rightarrow> u32" where
  "hash_str_mix v3 v6 v5 =
     (let v7 = (((v5 XOR v3) - ROL4 v5 11) XOR v6) - ROR4 ((v5 XOR v3) - ROL4 v5 11) 7
      in (v7 XOR v5) - ROL4 v7 16)"

definition hash_str :: "bytes \<Rightarrow> u32" where
  "hash_str str =
     (let len = length str in
      if 3 < len
      then let v3 = u32_at str 0;
               v4 = u32_at str (len div 2 - 2);
               v5 = (word_of_nat len XOR v4 XOR u32_at str (len - 4)) - ROL4 v4 14;
               v6 = u32_at str (len div 4 - 1) + v4
           in hash_str_mix v3 v6 v5
      else if 0 < len
      then let v3 = ucast (str ! 0);
               v6 = ucast (str ! (len div 2));
               v5 = (word_of_nat len XOR ucast (str ! (len - 1) XOR str ! (len div 2))) - ROL4 v6 14
           in hash_str_mix v3 v6 v5
      else 0)"

section \<open>The string table\<close>

text \<open>
  An interned string object: its mark byte, its hash and content, and the bytes behind
  the content (the terminator and what the block has beyond it).
\<close>

record strobj =
  so_marked :: u8
  so_str :: gcstr
  so_pad :: bytes

record strtab =
  g_strhash :: "strobj list list"
  g_strmask :: u32
  g_strnum :: u32
  g_currentwhite :: u8
  g_gcstate :: nat

definition GCSsweepstring :: nat where "GCSsweepstring = 3"
definition LJ_MAX_STRTAB :: nat where "LJ_MAX_STRTAB = 2 ^ 26"

definition isdead :: "strtab \<Rightarrow> strobj \<Rightarrow> bool" where
  "isdead g x = (so_marked x AND (g_currentwhite g XOR 3) AND 3 \<noteq> 0)"

definition flipwhite :: "strobj \<Rightarrow> strobj" where
  "flipwhite x = x\<lparr>so_marked := so_marked x XOR 3\<rparr>"

text \<open>Following each chain of the old table from the last to the first and pushing every object.\<close>

definition push_str :: "u32 \<Rightarrow> strobj \<Rightarrow> strobj list list \<Rightarrow> strobj list list" where
  "push_str newmask x newhash =
     (let h = unat (s_hash (so_str x) AND newmask) in newhash[h := x # newhash ! h])"

definition rehash_strs :: "u32 \<Rightarrow> strobj list list \<Rightarrow> strobj list list \<Rightarrow> strobj list list" where
  "rehash_strs newmask old newhash = fold (fold (push_str newmask)) (rev old) newhash"

definition lj_str_resize :: "strtab \<Rightarrow> u32 \<Rightarrow> strtab" where
  "lj_str_resize g newmask =
     (if g_gcstate g = GCSsweepstring \<or> LJ_MAX_STRTAB - 1 \<le> unat newmask then g
      else g\<lparr>g_strhash := rehash_strs newmask (g_strhash g) (replicate (unat newmask + 1) []),
             g_strmask := newmask\<rparr>)"

text \<open>
  The number of bytes the unrolled \<^verbatim>\<open>memset\<close> of \<^verbatim>\<open>lj_str_resize_mod\<close> zeroes in a new block of
  \<open>size\<close> bytes at \<open>addr\<close>: head pieces up to an eight-byte boundary, whole words, tail pieces.
\<close>

definition zero_head :: "u32 \<Rightarrow> nat \<Rightarrow> nat \<times> nat" where
  "zero_head addr sz =
     (let (v6, sz, n) = (if addr AND 1 \<noteq> 0 then (addr + 1, sz - 1, 1) else (addr, sz, 0));
          (v6, sz, n) = (if v6 AND 2 \<noteq> 0 then (v6 + 2, sz - 2, n + 2) else (v6, sz, n));
          (v6, sz, n) = (if v6 AND 4 \<noteq> 0 then (v6 + 4, sz - 4, n + 4) else (v6, sz, n))
      in (sz mod 4, n + 4 * (sz div 4)))"

definition zero_fill :: "u32 \<Rightarrow> nat \<Rightarrow> nat" where
  "zero_fill addr sz =
     (let (sz, n) = (if 8 \<le> sz then zero_head addr sz else (sz, 0));
          n = (if sz div 4 mod 2 = 1 then n + 4 else n);
          n = (if sz div 2 mod 2 = 1 then n + 2 else n);
          n = (if sz mod 2 = 1 then n + 1 else n)
      in n)"

text \<open>
  A table whose slots are not all zeroed would be followed through wild pointers.
\<close>

definition lj_str_resize_mod :: "u32 \<Rightarrow> strtab \<Rightarrow> u32 \<Rightarrow> strtab res" where
  "lj_str_resize_mod block g newmask =
     (if 0x3FFFFFE < unat newmask \<or> g_gcstate g = 3 then Inr g
      else rbind (in_range (zero_fill block (4 * unat newmask + 4) = 4 * unat newmask + 4)) (\<lambda>_.
           Inr (g\<lparr>g_strhash := rehash_strs newmask (g_strhash g) (replicate (unat newmask + 1) []),
                  g_strmask := newmask\<rparr>)))"

text \<open>Walking a hash chain; the result is the position of the first string that matches.\<close>

fun find_str :: "(strobj \<Rightarrow> bool res) \<Rightarrow> strobj list \<Rightarrow> nat \<Rightarrow> nat option res" where
  "find_str eq [] i = Inr None"
| "find_str eq (x # xs) i =
     rbind (eq x) (\<lambda>b. if b then Inr (Some i) else find_str eq xs (Suc i))"

definition near_page_end :: "u32 \<Rightarrow> nat \<Rightarrow> bool" where
  "near_page_end addr len = (0xffc < unat ((addr + word_of_nat len - 1) AND 0xfff))"

definition resurrect :: "strtab \<Rightarrow> nat \<Rightarrow> nat \<Rightarrow> strtab" where
  "resurrect g h i =
     (let x = g_strhash g ! h ! i in
      if isdead g x then g\<lparr>g_strhash := (g_strhash g)[h := (g_strhash g ! h)[i := flipwhite x]]\<rparr> else g)"

definition same_str :: "bool \<Rightarrow> bytes \<Rightarrow> nat \<Rightarrow> strobj \<Rightarrow> bool res" where
  "same_str slow m len x =
     (let sx = s_data (so_str x) @ so_pad x in
      if length (s_data (so_str x)) = len
      then if slow then memcmp_eq m sx len
           else rbind (str_fastcmp m sx len) (\<lambda>v. Inr (v = 0))
      else Inr False)"

definition new_str :: "strtab \<Rightarrow> bytes \<Rightarrow> bytes \<Rightarrow> u32 \<Rightarrow> strobj" where
  "new_str g slack str h =
     \<lparr>so_marked = g_currentwhite g AND 3, so_str = \<lparr>s_hash = h, s_data = str\<rparr>, so_pad = 0 # slack\<rparr>"

definition strempty :: gcstr where "strempty = \<lparr>s_hash = 0, s_data = []\<rparr>"

text \<open>
  \<^verbatim>\<open>m\<close> is the memory at \<^verbatim>\<open>str\<close>, \<open>addr\<close> its address, \<open>slack\<close> what the allocated block
  holds behind the terminator.
\<close>

definition lj_str_new :: "bytes \<Rightarrow> strtab \<Rightarrow> u32 \<Rightarrow> bytes \<Rightarrow> nat \<Rightarrow> (strtab \<times> gcstr) res" where
  "lj_str_new slack g addr m len =
     (if LJ_MAX_STR \<le> len then Inl (Throw LJ_ERR_STROV)
      else if len = 0 then Inr (g, strempty)
      else rbind (in_range (len \<le> length m)) (\<lambda>_.
           let str = take len m; h = lj_str_hash str; i = unat (h AND g_strmask g) in
           rbind (find_str (same_str (near_page_end addr len) m len) (g_strhash g ! i) 0) (\<lambda>r.
           case r of
             Some j \<Rightarrow> Inr (resurrect g i j, so_str (g_strhash g ! i ! j))
           | None \<Rightarrow>
               let s = new_str g slack str h;
                   g' = g\<lparr>g_strhash := (g_strhash g)[i := s # g_strhash g ! i], g_strnum := g_strnum g + 1\<rparr>
               in Inr (if g_strmask g < g_strnum g then lj_str_resize g' (push_bit 1 (g_strmask g) + 1) else g',
                       so_str s))))"

text \<open>
  The decompiled twin also compares the hash, hashes with \<open>hash_str\<close>, and copies in pieces
  up to an eight-byte boundary of the new block at \<open>s_buffer\<close>.
\<close>

definition copy_piece :: "nat \<Rightarrow> bool \<Rightarrow> bytes \<times> u32 \<times> bytes \<Rightarrow> bytes \<times> u32 \<times> bytes" where
  "copy_piece k c x =
     (case x of (dst, addr, src) \<Rightarrow>
        if c then (dst @ take k src, addr + word_of_nat k, drop k src) else (dst, addr, src))"

definition aligned_copy :: "u32 \<Rightarrow> bytes \<Rightarrow> bytes" where
  "aligned_copy addr src =
     (let x = ([], addr, src) in
      if 8 \<le> length src
      then let x = copy_piece 1 (fst (snd x) AND 1 \<noteq> 0) x;
               x = copy_piece 2 (fst (snd x) AND 2 \<noteq> 0) x;
               x = copy_piece 4 (fst (snd x) AND 4 \<noteq> 0) x
           in fst x @ snd (snd x)
      else src)"

definition same_str_mod :: "bool \<Rightarrow> bytes \<Rightarrow> nat \<Rightarrow> u32 \<Rightarrow> strobj \<Rightarrow> bool res" where
  "same_str_mod slow m len h x =
     (if length (s_data (so_str x)) = len \<and> s_hash (so_str x) = h
      then same_str slow m len x else Inr False)"

definition lj_str_new_mod ::
  "u32 \<Rightarrow> u32 \<Rightarrow> bytes \<Rightarrow> strtab \<Rightarrow> u32 \<Rightarrow> bytes \<Rightarrow> nat \<Rightarrow> (strtab \<times> gcstr) res" where
  "lj_str_new_mod block s_buffer slack g addr m len =
     (if 0x7FFFFEFF < len then Inl (Throw LJ_ERR_STROV)
      else if len \<noteq> 0
      then rbind (in_range (len \<le> length m)) (\<lambda>_.
           let str = take len m; h = hash_str str; i = unat (h AND g_strmask g) in
           rbind (find_str (same_str_mod (near_page_end addr len) m len h) (g_strhash g ! i) 0) (\<lambda>r.
           case r of
             Some j \<Rightarrow> Inr (resurrect g i j, so_str (g_strhash g ! i ! j))
           | None \<Rightarrow>
               let s = new_str g slack (aligned_copy s_buffer str) h;
                   g' = g\<lparr>g_strhash := (g_strhash g)[i := s # g_strhash g ! i], g_strnum := g_strnum g + 1\<rparr>
               in if g_strmask g < g_strnum g
                  then rbind (lj_str_resize_mod block g' (2 * g_strmask g + 1)) (\<lambda>g. Inr (g, so_str s))
                  else Inr (g', so_str s)))
      else Inr (g, strempty))"

definition lj_str_free :: "strtab \<Rightarrow> strtab" where
  "lj_str_free g = g\<lparr>g_strnum := g_strnum g - 1\<rparr>"

text \<open>The string object of a content, once \<^verbatim>\<open>lj_str_new\<close> has interned it.\<close>

definition the_str :: "bytes \<Rightarrow> gcstr" where
  "the_str s = \<lparr>s_hash = lj_str_hash s, s_data = s\<rparr>"

end
