(* ===== verification/StringsCmp.thy ===== *)
theory StringsCmp
  imports Strings
begin

text \<open>
  Comparison, search and the compiler intrinsics: the word-wise comparisons agree with
  byte-wise comparison whatever follows the strings in memory.
\<close>

section \<open>Words and their bytes\<close>

lemma byte_n_xor [simp]: "byte_n k (x XOR y) = byte_n k x XOR byte_n k y"
  by (rule bit_word_eqI) (auto simp: bit_simps)

lemma xor_0_iff [simp]: "(x XOR y = 0) = (x = (y::'a::len word))"
  by (metis xor.assoc xor.left_neutral xor_self_eq xor.commute)

lemma le32_eq_iff: "le32 a b c d = le32 a' b' c' d' \<longleftrightarrow> a = a' \<and> b = b' \<and> c = c' \<and> d = d'"
  by (metis byte_n_le32)

lemma bytes_zero: "(\<forall>i < 8 * n. \<not> bit (v::u32) i) \<longleftrightarrow> (\<forall>k < n. byte_n k v = 0)"
proof
  assume a: "\<forall>k < n. byte_n k v = 0"
  show "\<forall>i < 8 * n. \<not> bit v i"
  proof (intro allI impI)
    fix i assume "i < 8 * n"
    then have "byte_n (i div 8) v = 0" using a by simp
    then have "\<not> bit (byte_n (i div 8) v) (i mod 8)" by simp
    then show "\<not> bit v i" by (simp add: bit_byte_n)
  qed
qed (auto intro!: bit_word_eqI simp: bit_simps)

lemma push_bit_zero:
  assumes "r \<le> 4"
  shows "push_bit (32 - 8 * r) (v::u32) = 0 \<longleftrightarrow> (\<forall>k < r. byte_n k v = 0)"
proof -
  have "push_bit (32 - 8 * r) v = 0 \<longleftrightarrow> (\<forall>i < 8 * r. \<not> bit v i)"
  proof
    assume z: "push_bit (32 - 8 * r) v = 0"
    show "\<forall>i < 8 * r. \<not> bit v i"
    proof (intro allI impI)
      fix i assume "i < 8 * r"
      then have "\<not> bit (push_bit (32 - 8 * r) v) (i + (32 - 8 * r))" using z by simp
      then show "\<not> bit v i" using \<open>i < 8 * r\<close> assms by (auto simp: bit_simps)
    qed
  qed (use assms in \<open>auto intro!: bit_word_eqI simp: bit_simps\<close>)
  then show ?thesis by (simp add: bytes_zero)
qed

lemma getu32_in: "i + 4 \<le> length m \<Longrightarrow> getu32 m i = Inr (le32 (m ! i) (m ! (i + 1)) (m ! (i + 2)) (m ! (i + 3)))"
  by (simp add: getu32_def)

lemma chunk4: "i + 4 \<le> length m \<Longrightarrow> take 4 (drop i m) = [m ! i, m ! (i + 1), m ! (i + 2), m ! (i + 3)]"
proof -
  assume "i + 4 \<le> length m"
  then have "drop i m = m ! i # m ! (i + 1) # m ! (i + 2) # m ! (i + 3) # drop (i + 4) m"
    using Cons_nth_drop_Suc [of i m] Cons_nth_drop_Suc [of "i + 1" m] Cons_nth_drop_Suc [of "i + 2" m]
      Cons_nth_drop_Suc [of "i + 3" m] by (simp add: eval_nat_numeral)
  then show ?thesis by (simp add: eval_nat_numeral)
qed

section \<open>str_fastcmp\<close>

lemma take_eq_nth: "r \<le> length xs \<Longrightarrow> r \<le> length ys \<Longrightarrow> take r xs = take r ys \<longleftrightarrow> (\<forall>k < r. xs ! k = ys ! k)"
  by (auto simp: list_eq_iff_nth_eq)

lemma nth_4: "(\<forall>k < r. byte_n k (le32 a b c d) = byte_n k (le32 a' b' c' d')) \<longleftrightarrow>
    take r [a, b, c, d] = take r [a', b', c', d']" if "r \<le> 4"
proof -
  have "byte_n k (le32 a b c d) = [a, b, c, d] ! k \<and> byte_n k (le32 a' b' c' d') = [a', b', c', d'] ! k" if "k < 4" for k
  proof -
    have "k = 0 \<or> k = 1 \<or> k = 2 \<or> k = 3" using that by auto
    then show ?thesis by auto
  qed
  then show ?thesis using that by (simp add: take_eq_nth)
qed

lemma drop_take_eq: "take i a = take i b \<Longrightarrow> take (i + r) a = take (i + r) b \<longleftrightarrow> take r (drop i a) = take r (drop i b)"
  by (simp add: take_add)

lemma str_fastcmp_loop_eq:
  assumes "i < len" "len + 3 \<le> length a" "len + 3 \<le> length b" "take i a = take i b"
  shows "\<exists>r. str_fastcmp_loop a b len i = Inr r \<and> (r = 0 \<longleftrightarrow> take len a = take len b)"
  using assms
proof (induction "len - i" arbitrary: i rule: less_induct)
  case less
  let ?a = "[a ! i, a ! (i + 1), a ! (i + 2), a ! (i + 3)]" let ?b = "[b ! i, b ! (i + 1), b ! (i + 2), b ! (i + 3)]"
  define va where "va = le32 (a ! i) (a ! (i + 1)) (a ! (i + 2)) (a ! (i + 3))"
  define vb where "vb = le32 (b ! i) (b ! (i + 1)) (b ! (i + 2)) (b ! (i + 3))"
  have g: "getu32 a i = Inr va" "getu32 b i = Inr vb"
    using less.prems by (simp_all add: getu32_in va_def vb_def)
  have ch: "take 4 (drop i a) = ?a" "take 4 (drop i b) = ?b" using less.prems by (simp_all add: chunk4)
  have pre: "take r (drop i a) = take r (drop i b) \<longleftrightarrow> take r ?a = take r ?b" if "r \<le> 4" for r
  proof -
    have "take r (take 4 (drop i m)) = take r (drop i m)" for m :: bytes using that by (simp add: min_def)
    then show ?thesis using ch by (metis (no_types))
  qed
  show ?case
  proof (cases "va = vb")
    case True
    then have eq4: "take (i + 4) a = take (i + 4) b"
      using drop_take_eq [OF less.prems(4), of 4] pre [of 4] by (simp add: va_def vb_def le32_eq_iff)
    show ?thesis
    proof (cases "i + 4 < len")
      case cont: True
      then show ?thesis using True g less.hyps [of "i + 4"] less.prems eq4
        by (subst str_fastcmp_loop.simps) simp
    next
      case False
      then have "take len a = take len b" using eq4 by (metis min.absorb1 not_less take_take)
      then show ?thesis using False True g by (subst str_fastcmp_loop.simps) simp
    qed
  next
    case ne: False
    show ?thesis
    proof (cases "len - i \<le> 3")
      case True
      define r where "r = len - i"
      have r: "r \<le> 4" "len = i + r" using True less.prems(1) by (simp_all add: r_def)
      have n: "nat (32 + 8 * (int i - int len)) = 32 - 8 * r" "- 3 \<le> int i - int len"
        using True less.prems(1) by (simp_all add: r_def)
      have "str_fastcmp_loop a b len i = Inr (push_bit (32 - 8 * r) (va XOR vb))"
        using ne g n by (subst str_fastcmp_loop.simps) simp
      moreover have "push_bit (32 - 8 * r) (va XOR vb) = 0 \<longleftrightarrow> take r ?a = take r ?b"
        by (simp only: push_bit_zero [OF r(1)] byte_n_xor xor_0_iff nth_4 [OF r(1)] va_def vb_def)
      then have "push_bit (32 - 8 * r) (va XOR vb) = 0 \<longleftrightarrow> take len a = take len b"
        unfolding r(2) by (simp only: drop_take_eq [OF less.prems(4)] pre [OF r(1)])
      ultimately show ?thesis by blast
    next
      case False
      then have "\<not> - 3 \<le> int i - int len" by linarith
      then have "str_fastcmp_loop a b len i = Inr 1"
        using ne g by (subst str_fastcmp_loop.simps) simp
      moreover have "take len a \<noteq> take len b"
      proof
        assume "take len a = take len b"
        moreover have "take (i + 4) m = take (i + 4) (take len m)" for m :: bytes
          using False by (simp add: min_def)
        ultimately have "take (i + 4) a = take (i + 4) b" by (metis (no_types))
        then show False using ne pre [of 4] drop_take_eq [OF less.prems(4), of 4] by (simp add: va_def vb_def le32_eq_iff)
      qed
      ultimately show ?thesis by simp
    qed
  qed
qed

lemma str_fastcmp_eq:
  assumes "0 < len" "len + 3 \<le> length a" "len + 3 \<le> length b"
  shows "\<exists>r. str_fastcmp a b len = Inr r \<and> (r = 0 \<longleftrightarrow> take len a = take len b)"
  unfolding str_fastcmp_def by (rule str_fastcmp_loop_eq) (use assms in simp_all)

section \<open>lj_str_cmp\<close>

fun lex_less :: "bytes \<Rightarrow> bytes \<Rightarrow> bool" where
  "lex_less [] [] = False"
| "lex_less [] (y # ys) = True"
| "lex_less (x # xs) [] = False"
| "lex_less (x # xs) (y # ys) = (x < y \<or> (x = y \<and> lex_less xs ys))"

lemma lex_less_same [simp]: "lex_less (xs @ us) (xs @ vs) = lex_less us vs"
  by (induction xs) simp_all

lemma lex_less_differ:
  "length xs = length ys \<Longrightarrow> xs \<noteq> ys \<Longrightarrow> lex_less (xs @ us) (ys @ vs) = lex_less xs ys"
  by (induction xs ys rule: list_induct2) auto

text \<open>The big-endian value of a byte list orders lists of the same length.\<close>

fun be_val :: "bytes \<Rightarrow> nat" where
  "be_val [] = 0"
| "be_val (x # xs) = unat x * 256 ^ length xs + be_val xs"

lemma be_val_less: "be_val xs < 256 ^ length xs"
proof (induction xs)
  case (Cons x xs)
  have "unat x \<le> 255" using u8_less [of x] by simp
  then have "unat x * 256 ^ length xs \<le> 255 * 256 ^ length xs" by (intro mult_le_mono1)
  then have "unat x * 256 ^ length xs + be_val xs < 255 * 256 ^ length xs + 256 ^ length xs" using Cons by linarith
  then show ?case by simp
qed simp

lemma mult_add_less:
  assumes "(p::nat) < m" "q < m"
  shows "a * m + p < b * m + q \<longleftrightarrow> a < b \<or> (a = b \<and> p < q)"
proof (cases a b rule: linorder_cases)
  case less
  then have "(a + 1) * m \<le> b * m" by (intro mult_le_mono1) simp
  then have "a * m + p < b * m + q" using assms by simp
  then show ?thesis using less by simp
next
  case greater
  then have "(b + 1) * m \<le> a * m" by (intro mult_le_mono1) simp
  then have "\<not> a * m + p < b * m + q" using assms by simp
  then show ?thesis using greater by simp
qed simp

lemma be_val_order:
  "length xs = length ys \<Longrightarrow> (be_val xs < be_val ys) = lex_less xs ys"
proof (induction xs ys rule: list_induct2)
  case (Cons x xs y ys)
  then show ?case using mult_add_less [OF be_val_less [of xs], of "be_val ys" "unat x" "unat y"] be_val_less [of ys]
    by (simp add: word_less_nat_alt word_unat_eq_iff)
qed simp

lemma be_val_inj: "length xs = length ys \<Longrightarrow> be_val xs = be_val ys \<longleftrightarrow> xs = ys"
proof (induction xs ys rule: list_induct2)
  case (Cons x xs y ys)
  have "be_val (x # xs) = be_val (y # ys) \<longleftrightarrow> unat x = unat y \<and> be_val xs = be_val ys"
    using mult_add_less [OF be_val_less [of xs], of "be_val ys" "unat x" "unat y"]
      mult_add_less [OF be_val_less [of ys], of "be_val xs" "unat y" "unat x"] be_val_less [of xs] be_val_less [of ys] Cons.hyps
    by (simp add: linorder_neq_iff) linarith
  then show ?case using Cons by (simp add: word_unat_eq_iff)
qed simp

lemma or_shift:
  fixes x y :: nat
  assumes "x < 2 ^ n"
  shows "x OR push_bit n y = x + y * 2 ^ n"
proof -
  have x: "take_bit n x = x" using assms by (simp add: take_bit_nat_eq_self)
  have "\<not> bit x i" if "n \<le> i" for i
  proof -
    have "\<not> bit (take_bit n x) i" using that by (simp only: bit_take_bit_iff) simp
    then show ?thesis by (simp only: x) simp
  qed
  then have "x AND push_bit n y = 0" by (intro bit_eqI) (auto simp: bit_and_iff bit_push_bit_iff)
  then have "x + push_bit n y = x OR push_bit n y" by (rule disjunctive_add_eq_or)
  then show ?thesis by (simp add: push_bit_eq_mult)
qed

lemma unat_le32: "unat (le32 a b c d) = unat a + unat b * 2 ^ 8 + unat c * 2 ^ 16 + unat d * 2 ^ 24"
proof -
  have u: "unat (ucast x :: u32) = unat x" for x :: u8
    by (simp add: unsigned_ucast_eq take_bit_nat_eq_self order_less_trans [OF u8_less])
  have p: "unat (push_bit n (ucast x :: u32)) = push_bit n (unat x)" if "n \<le> 24" for x :: u8 and n
  proof -
    have "push_bit n (unat x) < 2 ^ 32"
    proof -
      have "unat x * 2 ^ n < 256 * 2 ^ n" using u8_less [of x] by simp
      also have "(256::nat) * 2 ^ n \<le> 256 * 2 ^ 24" using that by (intro mult_le_mono2 power_increasing) simp_all
      finally show ?thesis by (simp add: push_bit_eq_mult)
    qed
    then show ?thesis by (simp add: unsigned_push_bit_eq u take_bit_nat_eq_self)
  qed
  have a: "unat a OR push_bit 8 (unat b) = unat a + unat b * 2 ^ 8" using u8_less [of a] by (intro or_shift) simp
  have "unat a + unat b * 2 ^ 8 < 2 ^ 16" using u8_less [of a] u8_less [of b] by simp
  then have b: "(unat a + unat b * 2 ^ 8) OR push_bit 16 (unat c) = unat a + unat b * 2 ^ 8 + unat c * 2 ^ 16"
    by (rule or_shift)
  have "unat a + unat b * 2 ^ 8 + unat c * 2 ^ 16 < 2 ^ 24"
    using u8_less [of a] u8_less [of b] u8_less [of c] by simp
  then have c: "(unat a + unat b * 2 ^ 8 + unat c * 2 ^ 16) OR push_bit 24 (unat d) =
      unat a + unat b * 2 ^ 8 + unat c * 2 ^ 16 + unat d * 2 ^ 24"
    by (rule or_shift)
  have "unat (le32 a b c d) = ((unat a OR push_bit 8 (unat b)) OR push_bit 16 (unat c)) OR push_bit 24 (unat d)"
    by (simp add: le32_def unsigned_or_eq p u or.assoc)
  then show ?thesis by (simp only: a b c)
qed

lemma unat_bswap: "unat (lj_bswap (le32 a b c d)) = be_val [a, b, c, d]"
  by (simp add: lj_bswap_def unat_le32)

lemma be_val_take: "be_val (xs @ ys) div 256 ^ length ys = be_val xs"
proof -
  have "be_val (xs @ ys) = be_val xs * 256 ^ length ys + be_val ys"
    by (induction xs) (simp_all add: power_add algebra_simps)
  then show ?thesis using be_val_less [of ys] by simp
qed

lemma unat_bswap_drop:
  assumes "r \<le> 4"
  shows "unat (drop_bit (32 - 8 * r) (lj_bswap (le32 a b c d))) = be_val (take r [a, b, c, d])"
proof -
  have "(2::nat) ^ (32 - 8 * r) = 256 ^ (4 - r)"
    using power_mult [of "2::nat" 8 "4 - r"] assms by (simp add: diff_mult_distrib2)
  moreover have "length (drop r [a, b, c, d]) = 4 - r" by simp
  ultimately show ?thesis
    using be_val_take [of "take r [a, b, c, d]" "drop r [a, b, c, d]"]
    by (simp only: unat_drop_bit unat_bswap append_take_drop_id)
qed


lemma str_cmp_len: "alen < 2 ^ 31 \<Longrightarrow> blen < 2 ^ 31 \<Longrightarrow> sint (word_of_nat alen - word_of_nat blen :: u32) = int alen - int blen"
proof -
  assume a: "alen < 2 ^ 31" "blen < 2 ^ 31"
  have "word_of_nat alen - word_of_nat blen = (word_of_int (int alen - int blen) :: u32)" by simp
  moreover have "signed_take_bit 31 (int alen - int blen) = int alen - int blen"
    using a by (intro signed_take_bit_int_eq_self) simp_all
  ultimately show ?thesis by (simp only: signed_of_int) simp
qed

lemma take_app: "n \<le> length xs \<Longrightarrow> take n (xs @ ys) = take n xs"
  by simp

text \<open>Strings that agree up to the shorter length compare by their lengths.\<close>

lemma lex_less_prefix:
  assumes "take n a = take n b" "n = min (length a) (length b)"
  shows "lex_less a b \<longleftrightarrow> length a < length b" "a = b \<longleftrightarrow> length a = length b"
proof -
  have ab: "a = take n a @ drop n a" "b = take n a @ drop n b" by simp (simp only: assms(1) append_take_drop_id)
  have "lex_less a b \<longleftrightarrow> lex_less (drop n a) (drop n b)" by (metis ab lex_less_same)
  then show "lex_less a b \<longleftrightarrow> length a < length b"
    using assms(2) by (cases "drop n a"; cases "drop n b") (auto simp: min_def drop_eq_Nil split: if_splits
        dest: arg_cong [of _ _ length])
  show "a = b \<longleftrightarrow> length a = length b"
    using assms by (auto simp: min_def)
qed

lemma lex_less_at:
  assumes "take i a = take i b" "i + r \<le> length a" "i + r \<le> length b"
    "take r (drop i a) \<noteq> take r (drop i b)"
  shows "lex_less a b = lex_less (take r (drop i a)) (take r (drop i b))" "a \<noteq> b"
proof -
  have split: "m = take i m @ take r (drop i m) @ drop (i + r) m" for m :: bytes
    by (metis append_take_drop_id drop_drop add.commute)
  have "lex_less a b = lex_less (take i a @ take r (drop i a) @ drop (i + r) a) (take i a @ take r (drop i b) @ drop (i + r) b)"
    using split [of a] split [of b] assms(1) by metis
  also have "\<dots> = lex_less (take r (drop i a)) (take r (drop i b))"
    using assms(2-4) by (simp add: lex_less_differ)
  finally show "lex_less a b = lex_less (take r (drop i a)) (take r (drop i b))" .
  show "a \<noteq> b" using assms(4) by blast
qed

lemma str_cmp_loop_eq:
  assumes "n = min (length a) (length b)" "3 \<le> length pa" "3 \<le> length pb" "length a < 2 ^ 31" "length b < 2 ^ 31"
    "take (min i n) a = take (min i n) b"
  shows "\<exists>r. str_cmp_loop (a @ pa) (length a) (b @ pb) (length b) n i = Inr r \<and>
    (r < 0 \<longleftrightarrow> lex_less a b) \<and> (r = 0 \<longleftrightarrow> a = b)"
  using assms(6)
proof (induction "n - i" arbitrary: i rule: less_induct)
  case less
  note dlen = str_cmp_len [OF assms(4,5)]
  show ?case
  proof (cases "i < n")
    case False
    then have "take n a = take n b" using less.prems by simp
    then show ?thesis
      using lex_less_prefix [OF _ assms(1)] dlen
      by (subst str_cmp_loop.simps) (simp only: False if_False, simp)
  next
    case True
    then have pre: "take i a = take i b" using less.prems by simp
    let ?ma = "a @ pa" let ?mb = "b @ pb"
    let ?a = "[?ma ! i, ?ma ! (i + 1), ?ma ! (i + 2), ?ma ! (i + 3)]"
    let ?b = "[?mb ! i, ?mb ! (i + 1), ?mb ! (i + 2), ?mb ! (i + 3)]"
    define va where "va = le32 (?ma ! i) (?ma ! (i + 1)) (?ma ! (i + 2)) (?ma ! (i + 3))"
    define vb where "vb = le32 (?mb ! i) (?mb ! (i + 1)) (?mb ! (i + 2)) (?mb ! (i + 3))"
    have len: "i + 4 \<le> length ?ma" "i + 4 \<le> length ?mb" using True assms(1-3) by simp_all
    have g: "getu32 ?ma i = Inr va" "getu32 ?mb i = Inr vb" using len by (simp_all add: getu32_in va_def vb_def)
    define r where "r = min 4 (n - i)"
    have r: "r \<le> 4" "i + r \<le> n" using True by (simp_all add: r_def)
    have ch: "take r ?a = take r (drop i a)" "take r ?b = take r (drop i b)"
    proof -
      have "take r (take 4 (drop i m)) = take r (drop i m)" for m :: bytes using r(1) by (simp add: min_def)
      moreover have "take r (drop i ?ma) = take r (drop i a)" "take r (drop i ?mb) = take r (drop i b)"
        using r(2) assms(1) by simp_all
      ultimately show "take r ?a = take r (drop i a)" "take r ?b = take r (drop i b)"
        using chunk4 [OF len(1)] chunk4 [OF len(2)] by (metis (no_types))+
    qed
    have fwd: "take r ?a = take r ?b \<Longrightarrow> take (i + r) a = take (i + r) b"
      using ch by (simp add: take_add pre)
    show ?thesis
    proof (cases "va = vb")
      case eq: True
      then have "take r ?a = take r ?b" by (simp add: va_def vb_def le32_eq_iff)
      moreover have "min (i + 4) n = i + r" using True by (simp add: r_def)
      ultimately have "take (min (i + 4) n) a = take (min (i + 4) n) b" using fwd by simp
      then have "\<exists>r. str_cmp_loop ?ma (length a) ?mb (length b) n (i + 4) = Inr r \<and>
          (r < 0 \<longleftrightarrow> lex_less a b) \<and> (r = 0 \<longleftrightarrow> a = b)"
        using less.hyps [of "i + 4"] True by simp
      moreover have "str_cmp_loop ?ma (length a) ?mb (length b) n i =
          str_cmp_loop ?ma (length a) ?mb (length b) n (i + 4)"
        using True g eq by (subst str_cmp_loop.simps) simp
      ultimately show ?thesis by simp
    next
      case ne: False
      define wa where "wa = drop_bit (32 - 8 * r) (lj_bswap va)"
      define wb where "wb = drop_bit (32 - 8 * r) (lj_bswap vb)"
      have w: "unat wa = be_val (take r (drop i a))" "unat wb = be_val (take r (drop i b))"
        using unat_bswap_drop [OF r(1)] ch by (simp_all add: wa_def wb_def va_def vb_def)
      have l: "length (take r (drop i a)) = length (take r (drop i b))" 
      proof -
        have "r \<le> length a - i" "r \<le> length b - i" using r(2) assms(1) by auto
        then show ?thesis by simp
      qed
      have lt: "wa < wb \<longleftrightarrow> lex_less (take r (drop i a)) (take r (drop i b))"
        using be_val_order [OF l] w by (simp add: word_less_nat_alt)
      have same: "wa = wb \<longleftrightarrow> take r (drop i a) = take r (drop i b)"
        using be_val_inj [OF l] w by (simp add: word_unat_eq_iff)
      have loop: "str_cmp_loop ?ma (length a) ?mb (length b) n i =
          (if r < 4 \<and> wa = wb then Inr (int (length a) - int (length b)) else Inr (if wa < wb then - 1 else 1))"
      proof (cases "n - i \<le> 3")
        case small: True
        then have "nat (32 + 8 * (int i - int n)) = 32 - 8 * r" "- 3 \<le> int i - int n" "r < 4"
          using True by (simp_all add: r_def)
        then show ?thesis using True ne g dlen by (subst str_cmp_loop.simps) (simp add: wa_def wb_def Let_def)
      next
        case False
        then have "r = 4" "\<not> - 3 \<le> int i - int n" by (simp_all add: r_def)
        then show ?thesis using True ne g by (subst str_cmp_loop.simps) (simp add: wa_def wb_def Let_def)
      qed
      show ?thesis
      proof (cases "wa = wb")
        case eqw: True
        have "r < 4"
        proof (rule ccontr)
          assume "\<not> r < 4"
          then have "r = 4" using r(1) by simp
          then have "take 4 ?a = take 4 ?b" using eqw same ch by simp
          then show False using ne by (simp add: va_def vb_def)
        qed
        then have "i + r = n" using True by (simp add: r_def min_def split: if_splits)
        then have "take n a = take n b" using eqw same ch fwd by simp
        then show ?thesis using loop eqw \<open>r < 4\<close> lex_less_prefix [of n a b] assms(1) by simp
      next
        case False
        then show ?thesis using loop same lt lex_less_at [OF pre, of r] r(2) assms(1) by simp
      qed
    qed
  qed
qed

section \<open>lj_str_find\<close>

definition occurs_at :: "bytes \<Rightarrow> bytes \<Rightarrow> nat \<Rightarrow> bool" where
  "occurs_at p s k \<longleftrightarrow> k + length p \<le> length s \<and> take (length p) (drop k s) = p"

lemma memchr_spec:
  "case memchr s c n of
     Some j \<Rightarrow> j < n \<and> j < length s \<and> s ! j = c \<and> (\<forall>k < j. s ! k \<noteq> c)
   | None \<Rightarrow> (\<forall>k < n. k < length s \<longrightarrow> s ! k \<noteq> c)"
proof (induction s c n rule: memchr.induct)
  case (3 x s c n)
  then show ?case by (auto simp: less_Suc_eq_0_disj split: option.splits)
qed simp_all

lemma occurs_Cons:
  "occurs_at (c # p) s k \<longleftrightarrow> k < length s \<and> s ! k = c \<and> k + 1 + length p \<le> length s \<and>
    take (length p) (drop (k + 1) s) = p"
proof (cases "k < length s")
  case True
  then have "drop k s = s ! k # drop (k + 1) s" using Cons_nth_drop_Suc [OF True] by simp
  then show ?thesis using True by (auto simp: occurs_at_def)
qed (auto simp: occurs_at_def)

lemma str_find_loop_spec:
  assumes "pos + slen + length p = length s" "\<forall>k < pos. \<not> occurs_at (c # p) s k"
  shows "case str_find_loop s c p pos slen of
      Some k \<Rightarrow> occurs_at (c # p) s k \<and> (\<forall>j < k. \<not> occurs_at (c # p) s j)
    | None \<Rightarrow> \<forall>k. \<not> occurs_at (c # p) s k"
  using assms
proof (induction slen arbitrary: pos rule: less_induct)
  case (less slen)
  have late: "\<not> occurs_at (c # p) s k" if "pos + slen \<le> k" for k
    using that less.prems(1) by (auto simp: occurs_at_def)
  show ?case
  proof (cases "slen = 0")
    case True
    then have "\<not> occurs_at (c # p) s k" for k using late [of k] less.prems(2) by (cases "k < pos") auto
    then show ?thesis using True by (subst str_find_loop.simps) simp
  next
    case False
    note m = memchr_spec [where s = "drop pos s" and c = c and n = slen]
    show ?thesis
    proof (cases "memchr (drop pos s) c slen")
      case None
      have "\<not> occurs_at (c # p) s k" for k
      proof (cases "pos \<le> k \<and> k < pos + slen")
        case True
        then have "k - pos < slen" "k - pos < length (drop pos s)" using less.prems(1) by auto
        then have "drop pos s ! (k - pos) \<noteq> c" using m None by simp
        then show ?thesis using True less.prems(1) by (simp add: occurs_Cons)
      qed (use late less.prems(2) in auto)
      then show ?thesis using False None by (subst str_find_loop.simps) simp
    next
      case (Some q)
      then have q: "q < slen" "s ! (pos + q) = c" "\<And>k. k < q \<Longrightarrow> s ! (pos + k) \<noteq> c"
        using m less.prems(1) by auto
      have early: "\<not> occurs_at (c # p) s k" if "k < pos + q" for k
      proof (cases "k < pos")
        case False
        then show ?thesis using q(3) [of "k - pos"] that by (simp add: occurs_Cons)
      qed (use less.prems(2) in blast)
      show ?thesis
      proof (cases "take (length p) (drop (pos + q + 1) s) = p")
        case True
        then have "occurs_at (c # p) s (pos + q)" using q less.prems(1) by (simp add: occurs_Cons)
        moreover have "str_find_loop s c p pos slen = Some (pos + q)"
          using False Some True by (subst str_find_loop.simps) simp
        ultimately show ?thesis using early by simp
      next
        case ne: False
        have "str_find_loop s c p pos slen = str_find_loop s c p (pos + q + 1) (slen - (q + 1))"
          using False Some ne by (subst str_find_loop.simps) simp
        moreover have "\<not> occurs_at (c # p) s (pos + q)" using ne by (simp add: occurs_Cons)
        then have "\<forall>k < pos + q + 1. \<not> occurs_at (c # p) s k" using early by (auto simp: less_Suc_eq)
        ultimately show ?thesis
          using less.IH [of "slen - (q + 1)" "pos + q + 1"] less.prems(1) q(1) by simp
      qed
    qed
  qed
qed

lemma lj_str_find_eq:
  "case lj_str_find s p of
     Some k \<Rightarrow> occurs_at p s k \<and> (\<forall>j < k. \<not> occurs_at p s j)
   | None \<Rightarrow> \<forall>k. \<not> occurs_at p s k"
proof (cases "length p \<le> length s")
  case True
  then show ?thesis
  proof (cases p)
    case (Cons c p')
    show ?thesis unfolding Cons using str_find_loop_spec [of 0 "length s - length p'" p' s c] True Cons
      by (simp add: lj_str_find_def)
  qed (simp add: lj_str_find_def occurs_at_def)
qed (simp add: lj_str_find_def occurs_at_def)

section \<open>Intrinsics\<close>

lemma byteswap_ulong_0: "byteswap_ulong x = 0"
proof -
  have "num_hi (ucast x) = 0" by (rule bit_word_eqI) (auto simp: num_hi_def bit_simps dest: bit_imp_le_length)
  then have "byteswap_ulong x = num_lo (bswap_64 (ucast x))" "num_lo (bswap_64 (ucast x)) = lj_bswap 0"
    by (simp_all add: byteswap_ulong_def num_lo_def bswap_64_def) (simp add: num_lo_def [symmetric])
  moreover have "lj_bswap 0 = 0" by (simp add: lj_bswap_def byte_n_def le32_def)
  ultimately show ?thesis by simp
qed

lemma rotl_small: "n < 32 \<Longrightarrow> rotl x (word_of_nat n) = lj_rol x n"
proof -
  assume n: "n < 32"
  then have u: "unat (word_of_nat n :: u32) = n" by (intro unat_of_nat_eq) simp
  have "(word_of_nat n :: u32) div 32 = 0"
    using n u by (simp add: word_unat_eq_iff unat_div)
  moreover have "unat (- word_of_nat n AND (31::u32)) = (32 - n) mod 32"
  proof -
    have "- word_of_nat n AND (31::u32) = take_bit 5 (- word_of_nat n)"
      by (simp add: take_bit_eq_mask mask_eq_exp_minus_1)
    then have "unat (- word_of_nat n AND (31::u32)) = take_bit 5 (unat (- (word_of_nat n :: u32)))"
      by (simp only: unsigned_take_bit_eq)
    then have "unat (- word_of_nat n AND (31::u32)) = unat (- (word_of_nat n :: u32)) mod 32"
      by (simp add: take_bit_eq_mod)
    also have "\<dots> = (32 - n) mod 32"
    proof (cases "n = 0")
      case False
      have "- word_of_nat n = (word_of_nat (2 ^ 32 - n) :: u32)" using n by (simp add: of_nat_diff)
      moreover have "unat (word_of_nat (2 ^ 32 - n) :: u32) = 2 ^ 32 - n" using False by (intro unat_of_nat_eq) simp
      ultimately have "unat (- (word_of_nat n :: u32)) = 2 ^ 32 - n" by metis
      also have "\<dots> mod 32 = (2 ^ 32 - 32 + (32 - n)) mod 32" using n by simp
      also have "\<dots> = (32 - n) mod 32" by (simp add: mod_add_left_eq [symmetric])
      finally show ?thesis .
    qed simp
    finally show ?thesis .
  qed
  ultimately show ?thesis using n u by (simp add: rotl_def lj_rol_def)
qed

end
