(* ===== verification/StringsIntern.thy ===== *)
theory StringsIntern
  imports StringsCmp "HOL-Library.Multiset"
begin

text \<open>
  Interning: the string table holds every content once, under its hash, and
  \<^verbatim>\<open>lj_str_new\<close> returns the one object of a content.
\<close>

section \<open>The table invariant\<close>

definition placed :: "u32 \<Rightarrow> strobj list list \<Rightarrow> bool" where
  "placed k tab \<longleftrightarrow> length tab = unat k + 1 \<and>
     (\<forall>i < length tab. \<forall>x \<in> set (tab ! i). unat (s_hash (so_str x) AND k) = i)"

definition obj_ok :: "strobj \<Rightarrow> bool" where
  "obj_ok x \<longleftrightarrow> s_hash (so_str x) = lj_str_hash (s_data (so_str x)) \<and> s_data (so_str x) \<noteq> [] \<and> 3 \<le> length (so_pad x)"

definition str_objs :: "strtab \<Rightarrow> strobj list" where
  "str_objs g = concat (g_strhash g)"

definition contents :: "strtab \<Rightarrow> bytes list" where
  "contents g = map (\<lambda>x. s_data (so_str x)) (str_objs g)"

definition strtab_ok :: "strtab \<Rightarrow> bool" where
  "strtab_ok g \<longleftrightarrow> placed (g_strmask g) (g_strhash g) \<and> list_all obj_ok (str_objs g) \<and> distinct (contents g)"

lemma and_slot: "unat ((h::u32) AND k) \<le> unat k"
  using word_and_le1 [of h k] by (simp add: word_le_nat_alt)

lemma concat_update:
  assumes "i < length tab"
  shows "mset (concat (tab[i := xs])) = mset (concat (take i tab)) + mset xs + mset (concat (drop (Suc i) tab))"
    "mset (concat tab) = mset (concat (take i tab)) + mset (tab ! i) + mset (concat (drop (Suc i) tab))"
proof -
  show "mset (concat (tab[i := xs])) = mset (concat (take i tab)) + mset xs + mset (concat (drop (Suc i) tab))"
    using assms by (simp add: upd_conv_take_nth_drop)
  have "concat tab = concat (take i tab @ tab ! i # drop (Suc i) tab)" using id_take_nth_drop [OF assms] by simp
  then show "mset (concat tab) = mset (concat (take i tab)) + mset (tab ! i) + mset (concat (drop (Suc i) tab))"
    by simp
qed

lemma placed_less: "placed k tab \<Longrightarrow> unat (h AND k) < length tab"
  using and_slot [of h k] by (simp add: placed_def)

lemma push_str_ok:
  assumes "placed k tab"
  shows "placed k (push_str k x tab)" "mset (concat (push_str k x tab)) = add_mset x (mset (concat tab))"
proof -
  let ?h = "unat (s_hash (so_str x) AND k)"
  have h: "?h < length tab" using placed_less [OF assms] .
  show "placed k (push_str k x tab)"
    using assms h by (auto simp: placed_def push_str_def nth_list_update Let_def)
  show "mset (concat (push_str k x tab)) = add_mset x (mset (concat tab))"
    using concat_update(1) [OF h, of "x # tab ! ?h"] concat_update(2) [OF h] by (simp add: push_str_def Let_def)
qed

lemma push_chain_ok:
  "placed k tab \<Longrightarrow> placed k (fold (push_str k) xs tab) \<and>
    mset (concat (fold (push_str k) xs tab)) = mset xs + mset (concat tab)"
  by (induction xs arbitrary: tab) (simp_all add: push_str_ok)

lemma rehash_strs_ok:
  assumes "placed k tab"
  shows "placed k (rehash_strs k old tab) \<and> mset (concat (rehash_strs k old tab)) = mset (concat old) + mset (concat tab)"
proof -
  have "placed k (fold (fold (push_str k)) chains tab) \<and>
    mset (concat (fold (fold (push_str k)) chains tab)) = mset (concat chains) + mset (concat tab)" for chains
    using assms by (induction chains arbitrary: tab) (simp_all add: push_chain_ok)
  moreover have "mset (concat (rev old)) = mset (concat old)" by (induction old) simp_all
  ultimately show ?thesis by (simp add: rehash_strs_def)
qed

lemma placed_empty: "placed k (replicate (unat k + 1) [])"
  by (simp add: placed_def del: replicate.simps)

lemma strtab_ok_mset:
  assumes "mset (str_objs g') = mset (str_objs g)" "placed (g_strmask g') (g_strhash g')" "strtab_ok g"
  shows "strtab_ok g' \<and> mset (contents g') = mset (contents g)"
proof -
  have c: "mset (contents g') = mset (contents g)" using assms(1) by (simp add: contents_def)
  moreover have "set (str_objs g') = set (str_objs g)" using assms(1) by (rule mset_eq_setD)
  then have "list_all obj_ok (str_objs g')" using assms(3) by (simp add: strtab_ok_def list_all_iff)
  moreover have "distinct (contents g')"
    using mset_eq_imp_distinct_iff [OF c] assms(3) by (simp add: strtab_ok_def)
  ultimately show ?thesis using assms(2) unfolding strtab_ok_def by blast
qed

lemma lj_str_resize_objs:
  "mset (str_objs (lj_str_resize g k)) = mset (str_objs g)"
  "placed (g_strmask g) (g_strhash g) \<Longrightarrow>
    placed (g_strmask (lj_str_resize g k)) (g_strhash (lj_str_resize g k))"
  using rehash_strs_ok [OF placed_empty [of k], of "g_strhash g"] by (simp_all add: lj_str_resize_def str_objs_def)

section \<open>The unrolled memory operations of the twins\<close>

lemma copy_piece_out: "fst (copy_piece k c x) @ snd (snd (copy_piece k c x)) = fst x @ snd (snd x)"
  by (cases x) (simp add: copy_piece_def)

lemma aligned_copy_id [simp]: "aligned_copy addr src = src"
  by (simp add: aligned_copy_def Let_def copy_piece_out)

lemma tail_bytes: "n mod 4 = 2 * (n div 2 mod 2) + n mod 2" for n :: nat
proof -
  have "n mod (2 * 2) = 2 * (n div 2 mod 2) + n mod 2" by (rule mod_mult2_eq)
  then show ?thesis by simp
qed

lemma zero_fill_size: "zero_fill addr n = n"
proof -
  have t: "(if m div 2 mod 2 = 1 then k + 2 else k) + (if m mod 2 = 1 then 1 else 0) = k + m mod 4" for m k :: nat
  proof -
    have "m div 2 mod 2 = 0 \<or> m div 2 mod 2 = 1" "m mod 2 = 0 \<or> m mod 2 = 1" by linarith+
    then show ?thesis using tail_bytes [of m] by auto
  qed
  show ?thesis
  proof (cases "8 \<le> n")
    case True
    define p1 where "p1 = (if addr AND 1 \<noteq> 0 then (addr + 1, n - 1, 1::nat) else (addr, n, 0))"
    define p2 where "p2 = (if fst p1 AND 2 \<noteq> 0 then (fst p1 + 2, fst (snd p1) - 2, snd (snd p1) + 2)
      else (fst p1, fst (snd p1), snd (snd p1)))"
    define p3 where "p3 = (if fst p2 AND 4 \<noteq> 0 then (fst p2 + 4, fst (snd p2) - 4, snd (snd p2) + 4)
      else (fst p2, fst (snd p2), snd (snd p2)))"
    have "fst (snd p1) + snd (snd p1) = n" "n - 1 \<le> fst (snd p1)" using True by (simp_all add: p1_def)
    then have "fst (snd p2) + snd (snd p2) = n" "n - 3 \<le> fst (snd p2)" using True by (auto simp: p2_def)
    then have p3: "fst (snd p3) + snd (snd p3) = n" using True by (auto simp: p3_def)
    define r k where "r = fst (snd p3) mod 4" and "k = snd (snd p3) + 4 * (fst (snd p3) div 4)"
    have "zero_head addr n = (r, k)"
      by (simp only: zero_head_def Let_def case_prod_unfold p1_def [symmetric] p2_def [symmetric]
          p3_def [symmetric] r_def k_def)
    moreover have "k + r = n" using p3 by (simp add: r_def k_def)
    ultimately have rk: "zero_head addr n = (r, k)" "r < 4" "k + r = n" by (simp_all add: r_def)
    have "r div 4 mod 2 = 0" "r mod 4 = r" using rk(2) by simp_all
    then show ?thesis using t [of r k] rk True by (simp add: zero_fill_def split: if_splits)
  next
    case False
    then have d: "n div 4 = 0 \<or> n div 4 = 1" by auto
    have "n = 4 * (n div 4) + n mod 4" by simp
    then show ?thesis using t [of n "4 * (n div 4)"] False d by (auto simp: zero_fill_def)
  qed
qed

lemma lj_str_resize_mod_eq: "lj_str_resize_mod block g k = Inr (lj_str_resize g k)"
  by (auto simp: lj_str_resize_mod_def lj_str_resize_def zero_fill_size GCSsweepstring_def LJ_MAX_STRTAB_def)

section \<open>Searching a chain\<close>

definition readable :: "u32 \<Rightarrow> bytes \<Rightarrow> nat \<Rightarrow> bool" where
  "readable addr m len \<longleftrightarrow> len \<le> length m \<and> (near_page_end addr len \<or> len + 3 \<le> length m)"

lemma same_str_eq:
  assumes "obj_ok x" "0 < len" "readable addr m len"
  shows "same_str (near_page_end addr len) m len x = Inr (s_data (so_str x) = take len m)"
proof (cases "length (s_data (so_str x)) = len")
  case True
  let ?sx = "s_data (so_str x) @ so_pad x"
  have sx: "take len ?sx = s_data (so_str x)" "len + 3 \<le> length ?sx" using True assms(1) by (simp_all add: obj_ok_def)
  show ?thesis
  proof (cases "near_page_end addr len")
    case slow: True
    then show ?thesis using True sx assms(3) by (auto simp: same_str_def memcmp_eq_def readable_def)
  next
    case False
    then obtain r where "str_fastcmp m ?sx len = Inr r" "r = 0 \<longleftrightarrow> take len m = take len ?sx"
      using str_fastcmp_eq [OF assms(2) _ sx(2), of m] assms(3) by (auto simp: readable_def)
    then show ?thesis using True False sx by (auto simp: same_str_def Let_def)
  qed
next
  case False
  then show ?thesis using assms(3) by (auto simp: same_str_def readable_def)
qed

lemma find_str_spec:
  assumes "\<forall>x \<in> set xs. eq x = Inr (P x)"
  shows "(\<exists>j < length xs. find_str eq xs i = Inr (Some (i + j)) \<and> P (xs ! j)) \<or>
    (find_str eq xs i = Inr None \<and> (\<forall>x \<in> set xs. \<not> P x))"
  using assms
proof (induction xs arbitrary: i)
  case (Cons x xs)
  show ?case
  proof (cases "P x")
    case True
    then have "find_str eq (x # xs) i = Inr (Some (i + 0))" "P ((x # xs) ! 0)" using Cons.prems by simp_all
    then show ?thesis by blast
  next
    case False
    then have e: "find_str eq (x # xs) i = find_str eq xs (Suc i)" using Cons.prems by simp
    have "\<forall>x \<in> set xs. eq x = Inr (P x)" using Cons.prems by simp
    from Cons.IH [OF this, of "Suc i"] show ?thesis
    proof (elim disjE exE conjE)
      fix j assume "j < length xs" "find_str eq xs (Suc i) = Inr (Some (Suc i + j))" "P (xs ! j)"
      then have "Suc j < length (x # xs)" "find_str eq (x # xs) i = Inr (Some (i + Suc j))" "P ((x # xs) ! Suc j)"
        using e by simp_all
      then show ?thesis by blast
    next
      assume "find_str eq xs (Suc i) = Inr None" "\<forall>x \<in> set xs. \<not> P x"
      then show ?thesis using False e by simp
    qed
  qed
qed simp

end
