(* ===== verification/StringsProps.thy ===== *)
theory StringsProps
  imports StringsIntern
begin

text \<open>
  What \<^verbatim>\<open>lj_str.c\<close> and \<^verbatim>\<open>compat.c\<close> do for their callers: ordering, searching, interning,
  and where the decompiled twins differ.
\<close>

section \<open>Interning one string\<close>

lemma str_objs_chain: "placed k tab \<Longrightarrow> i < length tab \<Longrightarrow> x \<in> set (tab ! i) \<Longrightarrow> x \<in> set (concat tab)"
  by (auto intro: nth_mem)

lemma chain_of:
  assumes "placed k tab" "x \<in> set (concat tab)"
  shows "x \<in> set (tab ! unat (s_hash (so_str x) AND k))"
proof -
  obtain c where "c \<in> set tab" "x \<in> set c" using assms(2) by auto
  then obtain i where "i < length tab" "x \<in> set (tab ! i)" by (auto simp: in_set_conv_nth [of c])
  then show ?thesis using assms(1) by (auto simp: placed_def)
qed

lemma list_all_map_eq: "list_all P xs = (False \<notin> set (map P xs))"
  by (auto simp: list_all_iff)

text \<open>Changing the mark of an object does not change the table.\<close>

lemma resurrect_ok:
  assumes g: "strtab_ok g" and h: "h < length (g_strhash g)" and i: "i < length (g_strhash g ! h)"
  shows "strtab_ok (resurrect g h i)" "contents (resurrect g h i) = contents g"
proof -
  let ?x = "g_strhash g ! h ! i" let ?ch = "(g_strhash g ! h)[i := flipwhite ?x]"
  let ?g = "g\<lparr>g_strhash := (g_strhash g)[h := ?ch]\<rparr>"
  have flip: "so_str (flipwhite x) = so_str x" "obj_ok (flipwhite x) = obj_ok x" for x
    by (simp_all add: flipwhite_def obj_ok_def)
  have same: "map f ?ch = map f (g_strhash g ! h)" if "\<And>x. f (flipwhite x) = f x" for f :: "strobj \<Rightarrow> 'a"
    using that i by (simp add: map_update list_update_same_conv)
  have cc: "map f (concat (g_strhash ?g)) = map f (concat (g_strhash g))" if "\<And>x. f (flipwhite x) = f x"
    for f :: "strobj \<Rightarrow> 'a"
  proof -
    have "map (map f) ((g_strhash g)[h := ?ch]) = map (map f) (g_strhash g)"
      using same [of f] that h by (simp add: map_update list_update_same_conv)
    then show ?thesis by (simp add: map_concat)
  qed
  have c: "contents ?g = contents g"
    unfolding contents_def str_objs_def by (rule cc) (simp add: flip)
  have "placed (g_strmask g) (g_strhash ?g)"
    using g h i by (auto simp: strtab_ok_def placed_def nth_list_update flip dest!: set_update_subset_insert [THEN subsetD])
  moreover have "map obj_ok (concat (g_strhash ?g)) = map obj_ok (concat (g_strhash g))"
    by (rule cc) (simp add: flip)
  then have "list_all obj_ok (str_objs ?g) = list_all obj_ok (str_objs g)"
    unfolding str_objs_def by (simp only: list_all_map_eq)
  ultimately have "strtab_ok ?g" using g c by (simp add: strtab_ok_def)
  then show "strtab_ok (resurrect g h i)" "contents (resurrect g h i) = contents g"
    using g c by (auto simp: resurrect_def Let_def)
qed

lemma add_str_ok:
  assumes g: "strtab_ok g" and x: "obj_ok x" "s_data (so_str x) \<notin> set (contents g)"
    and i: "i = unat (s_hash (so_str x) AND g_strmask g)"
  shows "strtab_ok (g\<lparr>g_strhash := (g_strhash g)[i := x # g_strhash g ! i], g_strnum := n\<rparr>)"
    "mset (str_objs (g\<lparr>g_strhash := (g_strhash g)[i := x # g_strhash g ! i], g_strnum := n\<rparr>)) = add_mset x (mset (str_objs g))"
proof -
  let ?g = "g\<lparr>g_strhash := (g_strhash g)[i := x # g_strhash g ! i], g_strnum := n\<rparr>"
  have p: "placed (g_strmask g) (g_strhash g)" using g by (simp add: strtab_ok_def)
  have push: "g_strhash ?g = push_str (g_strmask g) x (g_strhash g)" by (simp add: push_str_def i Let_def)
  then have m: "mset (str_objs ?g) = add_mset x (mset (str_objs g))"
    using push_str_ok(2) [OF p] by (simp add: str_objs_def)
  then have "set (str_objs ?g) = insert x (set (str_objs g))" by (metis set_mset_add_mset_insert set_mset_mset)
  then have "list_all obj_ok (str_objs ?g)" using g x(1) by (simp add: strtab_ok_def list_all_iff)
  moreover have "mset (contents ?g) = mset (s_data (so_str x) # contents g)" using m by (simp add: contents_def)
  then have "distinct (contents ?g)"
    using g x(2) by (metis distinct.simps(2) mset_eq_imp_distinct_iff strtab_ok_def)
  moreover have "placed (g_strmask g) (g_strhash ?g)" unfolding push by (rule push_str_ok(1) [OF p])
  ultimately show "strtab_ok ?g" by (simp add: strtab_ok_def)
  show "mset (str_objs ?g) = add_mset x (mset (str_objs g))" by (rule m)
qed

lemma lj_str_new_ok:
  assumes g: "strtab_ok g" and len: "0 < len" "len < LJ_MAX_STR" and m: "readable addr m len"
    and slack: "2 \<le> length slack"
  shows "\<exists>g'. lj_str_new slack g addr m len = Inr (g', the_str (take len m)) \<and> strtab_ok g' \<and>
    set (contents g') = insert (take len m) (set (contents g))"
proof -
  define str where "str = take len m"
  define i where "i = unat (lj_str_hash str AND g_strmask g)"
  have p: "placed (g_strmask g) (g_strhash g)" using g by (simp add: strtab_ok_def)
  have i: "i < length (g_strhash g)" unfolding i_def by (rule placed_less [OF p])
  have lm: "len \<le> length m" using m by (simp add: readable_def)
  have ok: "obj_ok x" if "x \<in> set (g_strhash g ! i)" for x
    using g str_objs_chain [OF p i that] by (auto simp: strtab_ok_def list_all_iff str_objs_def)
  let ?eq = "same_str (near_page_end addr len) m len"
  have "\<forall>x \<in> set (g_strhash g ! i). ?eq x = Inr (s_data (so_str x) = str)"
    using same_str_eq [OF ok len(1) m] by (simp add: str_def)
  from find_str_spec [OF this, of 0] show ?thesis
  proof (elim disjE exE conjE)
    fix j assume j: "j < length (g_strhash g ! i)" "find_str ?eq (g_strhash g ! i) 0 = Inr (Some (0 + j))"
      "s_data (so_str (g_strhash g ! i ! j)) = str"
    have "obj_ok (g_strhash g ! i ! j)" using ok j(1) by simp
    then have "so_str (g_strhash g ! i ! j) = the_str str" using j(3) by (simp add: obj_ok_def the_str_def)
    then have "lj_str_new slack g addr m len = Inr (resurrect g i j, the_str str)"
      using len lm j(2) by (simp add: lj_str_new_def Let_def str_def [symmetric] i_def [symmetric])
    moreover have "str \<in> set (contents g)"
      using str_objs_chain [OF p i nth_mem [OF j(1)]] j(3) by (auto simp: contents_def str_objs_def)
    ultimately show ?thesis using resurrect_ok [OF g i j(1)] by (auto simp: str_def)
  next
    assume no: "find_str ?eq (g_strhash g ! i) 0 = Inr None" "\<forall>x \<in> set (g_strhash g ! i). s_data (so_str x) \<noteq> str"
    define x where "x = new_str g slack str (lj_str_hash str)"
    define g1 where "g1 = g\<lparr>g_strhash := (g_strhash g)[i := x # g_strhash g ! i], g_strnum := g_strnum g + 1\<rparr>"
    define g2 where "g2 = (if g_strmask g < g_strnum g then lj_str_resize g1 (push_bit 1 (g_strmask g) + 1) else g1)"
    have xs: "so_str x = the_str str" by (simp add: x_def new_str_def the_str_def)
    have "str \<noteq> []" using len(1) lm by (auto simp: str_def)
    then have x: "obj_ok x" using slack by (simp add: obj_ok_def x_def new_str_def)
    have "str \<notin> set (contents g)"
    proof
      assume "str \<in> set (contents g)"
      then obtain y where y: "y \<in> set (concat (g_strhash g))" "s_data (so_str y) = str"
        by (auto simp: contents_def str_objs_def)
      then have "s_hash (so_str y) = lj_str_hash str"
        using g by (auto simp: strtab_ok_def list_all_iff str_objs_def obj_ok_def)
      then have "y \<in> set (g_strhash g ! i)" using chain_of [OF p y(1)] by (simp add: i_def)
      then show False using no(2) y(2) by blast
    qed
    then have g1: "strtab_ok g1" "mset (str_objs g1) = add_mset x (mset (str_objs g))"
      unfolding g1_def using add_str_ok [OF g x, of i] xs by (simp_all add: i_def the_str_def)
    have "strtab_ok g2 \<and> mset (contents g2) = mset (contents g1)"
    proof (cases "g_strmask g < g_strnum g")
      case True
      show ?thesis unfolding g2_def using True
        by (simp only: if_True) (intro strtab_ok_mset g1(1) lj_str_resize_objs; use g1(1) in \<open>simp add: strtab_ok_def\<close>)
    qed (simp add: g2_def g1)
    moreover have "mset (contents g1) = mset (str # contents g)" using g1(2) xs by (simp add: contents_def the_str_def)
    ultimately have "strtab_ok g2" "mset (contents g2) = mset (str # contents g)" by simp_all
    then have "strtab_ok g2" "set (contents g2) = insert str (set (contents g))"
      using mset_eq_setD [of "contents g2" "str # contents g"] by simp_all
    moreover have "lj_str_new slack g addr m len = Inr (g2, the_str str)"
      using len lm no(1) xs
      by (simp add: lj_str_new_def Let_def str_def [symmetric] i_def [symmetric] x_def [symmetric] g1_def [symmetric] g2_def)
    ultimately show ?thesis by (auto simp: str_def)
  qed
qed

section \<open>Properties\<close>

text \<open>
  C17: \<^verbatim>\<open>lj_str_cmp\<close> compares word by word, reads no more than three bytes past either
  string, and decides the lexicographic order of the unsigned bytes, whatever those
  three bytes are.
\<close>

theorem lj_str_cmp_lex:
  assumes "length a < 2 ^ 31" "length b < 2 ^ 31" "3 \<le> length pa" "3 \<le> length pb"
  shows "\<exists>r. lj_str_cmp (a @ pa) (length a) (b @ pb) (length b) = Inr r \<and>
    (r < 0 \<longleftrightarrow> lex_less a b) \<and> (r = 0 \<longleftrightarrow> a = b)"
proof -
  have "(if length b < length a then length b else length a) = min (length a) (length b)" by simp
  then show ?thesis
    unfolding lj_str_cmp_def by (simp only:) (rule str_cmp_loop_eq; use assms in simp)
qed

theorem lj_str_cmp_lex_witness:
  "\<exists>r. lj_str_cmp ([1, 2] @ [7, 7, 7]) (length [1, 2::u8]) ([1, 3] @ [0, 0, 0]) (length [1, 3::u8]) = Inr r \<and>
    (r < 0 \<longleftrightarrow> lex_less [1, 2] [1, 3]) \<and> (r = 0 \<longleftrightarrow> [1, 2] = [1, 3::u8])"
  by (rule lj_str_cmp_lex) simp_all

text \<open>
  C18: \<^verbatim>\<open>lj_str_find\<close> returns the first position at which the fixed string occurs, and
  nothing exactly when it does not occur.
\<close>

theorem lj_str_find_first:
  "case lj_str_find s p of
     Some k \<Rightarrow> occurs_at p s k \<and> (\<forall>j < k. \<not> occurs_at p s j)
   | None \<Rightarrow> \<forall>k. \<not> occurs_at p s k"
  by (rule lj_str_find_eq)

theorem lj_str_find_first_witness:
  "lj_str_find [0x61, 0x62, 0x61, 0x62] [0x62] = Some 1 \<and> occurs_at [0x62] [0x61, 0x62, 0x61, 0x62] 1 \<and>
   \<not> occurs_at [0x62] [0x61, 0x62, 0x61, 0x62] 0"
proof -
  have "lj_str_find [0x61, 0x62, 0x61, 0x62] [0x62] = Some 1"
    by code_simp
  then show ?thesis using lj_str_find_first [where s = "[0x61, 0x62, 0x61, 0x62]" and p = "[0x62]"] by simp
qed

text \<open>
  C19: interning. On a table that holds every content once under its hash,
  \<^verbatim>\<open>lj_str_new\<close> returns the string object of the content, adds the content if it is new,
  and keeps the table so, through resurrection of dead objects and growth of the table.
\<close>

theorem lj_str_new_interns:
  assumes "strtab_ok g" "0 < len" "len < LJ_MAX_STR" "readable addr m len" "2 \<le> length slack"
  shows "\<exists>g'. lj_str_new slack g addr m len = Inr (g', the_str (take len m)) \<and> strtab_ok g' \<and>
    set (contents g') = insert (take len m) (set (contents g))"
  by (rule lj_str_new_ok [OF assms])

definition empty_strtab :: strtab where
  "empty_strtab = \<lparr>g_strhash = [[]], g_strmask = 0, g_strnum = 0, g_currentwhite = 1, g_gcstate = 0\<rparr>"

lemma empty_strtab_ok: "strtab_ok empty_strtab"
  by (simp add: strtab_ok_def placed_def empty_strtab_def str_objs_def contents_def)

theorem lj_str_new_interns_witness:
  "\<exists>g'. lj_str_new [0, 0] empty_strtab 0 [0x41, 0, 0, 0] 1 = Inr (g', the_str (take 1 [0x41, 0, 0, 0])) \<and>
    strtab_ok g' \<and> set (contents g') = insert (take 1 [0x41, 0, 0, 0]) (set (contents empty_strtab))"
  by (rule lj_str_new_interns [OF empty_strtab_ok]) (simp_all add: LJ_MAX_STR_def readable_def)

text \<open>
  The decompiled \<^verbatim>\<open>lj_str_resize_mod\<close>, with its unrolled clearing of the new block,
  does what \<^verbatim>\<open>lj_str_resize\<close> does, wherever the block lies.
\<close>

theorem lj_str_resize_twin: "lj_str_resize_mod block g newmask = Inr (lj_str_resize g newmask)"
  by (rule lj_str_resize_mod_eq)

text \<open>
  C20: the decompiled \<^verbatim>\<open>lj_str_new_mod\<close> does not find a string that \<^verbatim>\<open>lj_str_new\<close> has
  interned when the two hashes differ: it adds a second object with the same content.
\<close>

theorem lj_str_new_mod_duplicates:
  assumes g: "strtab_ok g" and old: "str \<in> set (contents g)" and len: "length str < LJ_MAX_STR"
    and m: "readable addr (str @ pad) (length str)" and slack: "2 \<le> length slack"
    and hash: "hash_str str \<noteq> lj_str_hash str"
  shows "\<exists>g' s. lj_str_new_mod block buf slack g addr (str @ pad) (length str) = Inr (g', s) \<and>
    s_data s = str \<and> s \<noteq> the_str str \<and> s \<in> so_str ` set (str_objs g') \<and> the_str str \<in> so_str ` set (str_objs g')"
proof -
  define i where "i = unat (hash_str str AND g_strmask g)"
  define s where "s = \<lparr>s_hash = hash_str str, s_data = str\<rparr>"
  have p: "placed (g_strmask g) (g_strhash g)" using g by (simp add: strtab_ok_def)
  obtain y where y: "y \<in> set (str_objs g)" "s_data (so_str y) = str" using old by (auto simp: contents_def)
  have yok: "obj_ok y" using g y(1) by (simp add: strtab_ok_def list_all_iff)
  then have ys: "so_str y = the_str str" using y(2) by (simp add: obj_ok_def the_str_def)
  have ne: "str \<noteq> []" using yok y(2) by (simp add: obj_ok_def)
  have ok: "obj_ok x" if "x \<in> set (g_strhash g ! i)" for x
    using g str_objs_chain [OF p placed_less [OF p], of x] that by (auto simp: strtab_ok_def list_all_iff str_objs_def i_def)
  let ?eq = "same_str_mod (near_page_end addr (length str)) (str @ pad) (length str) (hash_str str)"
  have "?eq x = Inr False" if "x \<in> set (g_strhash g ! i)" for x
    using same_str_eq [OF ok [OF that] _ m] ne ok [OF that] hash by (auto simp: same_str_mod_def obj_ok_def)
  then have "\<forall>x \<in> set (g_strhash g ! i). ?eq x = Inr False" by blast
  from find_str_spec [OF this, of 0] have none: "find_str ?eq (g_strhash g ! i) 0 = Inr None" by auto
  define x where "x = new_str g slack str (hash_str str)"
  define g1 where "g1 = g\<lparr>g_strhash := (g_strhash g)[i := x # g_strhash g ! i], g_strnum := g_strnum g + 1\<rparr>"
  define g2 where "g2 = (if g_strmask g < g_strnum g then lj_str_resize g1 (2 * g_strmask g + 1) else g1)"
  have xs: "so_str x = s" by (simp add: x_def new_str_def s_def)
  have "g_strhash g1 = push_str (g_strmask g) x (g_strhash g)"
    by (simp add: g1_def push_str_def i_def x_def new_str_def Let_def)
  then have m1: "mset (str_objs g1) = add_mset x (mset (str_objs g))"
    using push_str_ok(2) [OF p] by (simp add: str_objs_def)
  have "mset (str_objs g2) = mset (str_objs g1)" by (simp add: g2_def lj_str_resize_objs)
  then have "set (str_objs g2) = insert x (set (str_objs g))"
    using m1 mset_eq_setD [of "str_objs g2" "x # str_objs g"] by simp
  then have "s \<in> so_str ` set (str_objs g2)" "the_str str \<in> so_str ` set (str_objs g2)"
    using xs ys y(1) by force+
  moreover have "lj_str_new_mod block buf slack g addr (str @ pad) (length str) = Inr (g2, s)"
    using len ne none xs
    by (auto simp: lj_str_new_mod_def Let_def LJ_MAX_STR_def i_def [symmetric] x_def [symmetric] g1_def [symmetric]
        g2_def lj_str_resize_mod_eq)
  moreover have "s \<noteq> the_str str" using hash by (simp add: s_def the_str_def)
  ultimately show ?thesis by (auto simp: s_def)
qed

definition one_strtab :: strtab where
  "one_strtab = \<lparr>g_strhash = [[\<lparr>so_marked = 1, so_str = the_str [0x41], so_pad = [0, 0, 0]\<rparr>]], g_strmask = 0,
     g_strnum = 1, g_currentwhite = 1, g_gcstate = 0\<rparr>"

lemma one_strtab_ok: "strtab_ok one_strtab" "[0x41] \<in> set (contents one_strtab)"
  by (simp_all add: strtab_ok_def placed_def one_strtab_def str_objs_def contents_def obj_ok_def the_str_def)

lemma hashes_differ: "hash_str [0x41] \<noteq> lj_str_hash [0x41]"
  by (simp add: hash_str_def hash_str_mix_def lj_str_hash_def str_mix_def ROL4_def ROR4_def rotl_def lj_rol_def Let_def)

theorem lj_str_new_mod_duplicates_witness:
  "\<exists>g' s. lj_str_new_mod 0 0 [0, 0] one_strtab 0 ([0x41] @ [0, 0, 0]) (length [0x41::u8]) = Inr (g', s) \<and>
    s_data s = [0x41] \<and> s \<noteq> the_str [0x41] \<and> s \<in> so_str ` set (str_objs g') \<and>
    the_str [0x41] \<in> so_str ` set (str_objs g')"
  by (rule lj_str_new_mod_duplicates [OF one_strtab_ok _ _ _ hashes_differ]) (simp_all add: LJ_MAX_STR_def readable_def)

text \<open>
  C21: where \<^verbatim>\<open>unsigned long\<close> has 32 bits, the replacement for \<^verbatim>\<open>_byteswap_ulong\<close> returns
  0 for every argument, while the one for \<^verbatim>\<open>_rotl\<close> rotates correctly for counts below 32.
\<close>

theorem compat_intrinsics: "byteswap_ulong x = 0 \<and> (\<forall>n. n < 32 \<longrightarrow> rotl x (word_of_nat n) = lj_rol x n)"
  by (simp add: byteswap_ulong_0 rotl_small)

theorem compat_intrinsics_witness: "byteswap_ulong 1 = 0 \<and> rotl 1 (word_of_nat 14) = lj_rol 1 14"
  using compat_intrinsics [of 1] by (simp del: of_nat_numeral)

end
