(* ===== verification/State.thy ===== *)
theory State
  imports Prelude
begin

text \<open>
  The Lua stack: the sizes of \<^verbatim>\<open>src/src/lj_state.c\<close> and the push of \<^verbatim>\<open>src/src/lj_state.h\<close>.
  Positions are slot numbers from the start of the stack, so moving the block changes
  none of them; a failed allocation is not modelled.
\<close>

record lstack =
  L_stacksize :: nat
  L_maxstack :: nat
  L_top :: nat

definition LUA_MINSTACK :: nat where "LUA_MINSTACK = 20"
definition LJ_STACK_MAX :: nat where "LJ_STACK_MAX = 65500"
definition LJ_STACK_EXTRA :: nat where "LJ_STACK_EXTRA = 5"
definition LJ_STACK_START :: nat where "LJ_STACK_START = 2 * LUA_MINSTACK"
definition LJ_STACK_MAXEX :: nat where "LJ_STACK_MAXEX = LJ_STACK_MAX + 1 + LJ_STACK_EXTRA"

definition resizestack :: "lstack \<Rightarrow> nat \<Rightarrow> lstack" where
  "resizestack L n = L\<lparr>L_maxstack := n, L_stacksize := n + 1 + LJ_STACK_EXTRA\<rparr>"

definition lj_state_relimitstack :: "lstack \<Rightarrow> lstack" where
  "lj_state_relimitstack L =
     (if LJ_STACK_MAXEX < L_stacksize L \<and> L_top L < LJ_STACK_MAX - 1 then resizestack L LJ_STACK_MAX else L)"

text \<open>\<open>live\<close>: a trace is running on this stack.\<close>

definition lj_state_shrinkstack :: "bool \<Rightarrow> lstack \<Rightarrow> nat \<Rightarrow> lstack" where
  "lj_state_shrinkstack live L used =
     (if LJ_STACK_MAXEX < L_stacksize L then L
      else if 4 * used < L_stacksize L \<and> 2 * (LJ_STACK_START + LJ_STACK_EXTRA) < L_stacksize L \<and> \<not> live
      then resizestack L (L_stacksize L div 2) else L)"

text \<open>
  Growing past the limit gives the error handler some extra slots and then throws, so the
  state the error leaves is part of the result.
\<close>

definition growstack_size :: "lstack \<Rightarrow> nat \<Rightarrow> nat" where
  "growstack_size L need =
     (let n = L_stacksize L + need in
      if LJ_STACK_MAX < n then n + 2 * LUA_MINSTACK
      else if n < 2 * L_stacksize L
      then let n = 2 * L_stacksize L in if LJ_STACK_MAX \<le> n then LJ_STACK_MAX else n
      else n)"

definition lj_state_growstack :: "lstack \<Rightarrow> nat \<Rightarrow> fault option \<times> lstack" where
  "lj_state_growstack L need =
     (if LJ_STACK_MAXEX < L_stacksize L then (Some (Throw LUA_ERRERR), L)
      else let L = resizestack L (growstack_size L need)
           in if LJ_STACK_MAXEX < L_stacksize L then (Some (Throw LJ_ERR_STKOV), L) else (None, L))"

definition lj_state_growstack1 :: "lstack \<Rightarrow> fault option \<times> lstack" where
  "lj_state_growstack1 L = lj_state_growstack L 1"

definition stack_init :: lstack where
  "stack_init =
     (let size = LJ_STACK_START + LJ_STACK_EXTRA
      in \<lparr>L_stacksize = size, L_maxstack = size - LJ_STACK_EXTRA - 1, L_top = 1\<rparr>)"

text \<open>The slot at \<^verbatim>\<open>top\<close> has been written when \<^verbatim>\<open>incr_top\<close> runs.\<close>

definition incr_top :: "lstack \<Rightarrow> fault option \<times> lstack" where
  "incr_top L =
     (let L = L\<lparr>L_top := L_top L + 1\<rparr>
      in if L_maxstack L \<le> L_top L then lj_state_growstack1 L else (None, L))"

section \<open>Room for the next push\<close>

text \<open>
  The invariant of a stack: the limit leaves the extra slots, and \<^verbatim>\<open>top\<close> is below it, so
  that the next slot can be written.
\<close>

definition stack_ok :: "lstack \<Rightarrow> bool" where
  "stack_ok L \<longleftrightarrow> L_stacksize L = L_maxstack L + 1 + LJ_STACK_EXTRA \<and> L_top L < L_maxstack L \<and>
     LJ_STACK_START \<le> L_stacksize L"

lemmas stack_defs = stack_ok_def LJ_STACK_EXTRA_def LJ_STACK_START_def LUA_MINSTACK_def LJ_STACK_MAX_def
  LJ_STACK_MAXEX_def

lemma stack_init_ok: "stack_ok stack_init"
  by (simp add: stack_init_def stack_defs Let_def)

lemma incr_top_ok:
  assumes "stack_ok L"
  shows "stack_ok (snd (incr_top L)) \<and> L_top (snd (incr_top L)) = L_top L + 1 \<or>
    fst (incr_top L) = Some (Throw LUA_ERRERR)"
  using assms
  by (auto simp: incr_top_def lj_state_growstack1_def lj_state_growstack_def growstack_size_def
      resizestack_def Let_def stack_defs)

text \<open>Pushes one after the other, until one throws.\<close>

fun pushes :: "nat \<Rightarrow> lstack \<Rightarrow> fault option \<times> lstack" where
  "pushes 0 L = (None, L)"
| "pushes (Suc n) L =
     (case incr_top L of (None, L') \<Rightarrow> pushes n L' | (Some e, L') \<Rightarrow> (Some e, L'))"

lemma pushes_ok:
  assumes "stack_ok L" "L_stacksize L \<le> LJ_STACK_MAXEX"
  shows "case pushes n L of
      (None, L') \<Rightarrow> stack_ok L' \<and> L_stacksize L' \<le> LJ_STACK_MAXEX \<and> L_top L' = L_top L + n
    | (Some e, L') \<Rightarrow> e = Throw LJ_ERR_STKOV \<and> LJ_STACK_MAX \<le> L_top L + n + LJ_STACK_EXTRA + 1 \<and> stack_ok L'"
  using assms
proof (induction n arbitrary: L)
  case (Suc n)
  obtain e L' where i: "incr_top L = (e, L')" by (cases "incr_top L")
  have step: "case e of
      None \<Rightarrow> stack_ok L' \<and> L_stacksize L' \<le> LJ_STACK_MAXEX \<and> L_top L' = L_top L + 1
    | Some f \<Rightarrow> f = Throw LJ_ERR_STKOV \<and> LJ_STACK_MAX \<le> L_top L + LJ_STACK_EXTRA + 2 \<and> stack_ok L'"
    using i Suc.prems
    by (auto simp: incr_top_def lj_state_growstack1_def lj_state_growstack_def growstack_size_def
      resizestack_def Let_def stack_defs split: if_splits)
  show ?case
  proof (cases e)
    case None
    then show ?thesis using Suc.IH [of L'] step i by (auto split: prod.splits option.splits)
  next
    case (Some f)
    then show ?thesis using step i by simp
  qed
qed simp

text \<open>
  C22: pushing onto a stack that has grown only by pushes: every push leaves the next slot
  writable, and the only error is \<^verbatim>\<open>LJ_ERR_STKOV\<close>, thrown once the top has come within the
  extra slots of \<^verbatim>\<open>LUAI_MAXSTACK\<close>, with a state in which an error message can still be pushed.
\<close>

theorem stack_pushes_bounded:
  assumes "stack_ok L" "L_stacksize L \<le> LJ_STACK_MAXEX"
  shows "case pushes n L of
      (None, L') \<Rightarrow> stack_ok L' \<and> L_stacksize L' \<le> LJ_STACK_MAXEX \<and> L_top L' = L_top L + n
    | (Some e, L') \<Rightarrow> e = Throw LJ_ERR_STKOV \<and> LJ_STACK_MAX \<le> L_top L + n + LJ_STACK_EXTRA + 1 \<and> stack_ok L'"
  by (rule pushes_ok [OF assms])

theorem stack_pushes_bounded_witness:
  "case pushes 1000 stack_init of
      (None, L') \<Rightarrow> stack_ok L' \<and> L_stacksize L' \<le> LJ_STACK_MAXEX \<and> L_top L' = L_top stack_init + 1000
    | (Some e, L') \<Rightarrow> e = Throw LJ_ERR_STKOV \<and> LJ_STACK_MAX \<le> L_top stack_init + 1000 + LJ_STACK_EXTRA + 1 \<and> stack_ok L'"
  by (rule stack_pushes_bounded) (simp_all add: stack_init_ok, simp add: stack_init_def stack_defs Let_def)

end
