(* ===== verification/Proto.thy ===== *)
theory Proto
  imports TabMap Strings Buf
begin

text \<open>
  Function prototypes and the dump format they are stored in: \<^verbatim>\<open>GCproto\<close> of
  \<^verbatim>\<open>src/src/lj_obj.h\<close>, the codes of \<^verbatim>\<open>src/src/lj_bcdump.h\<close>, instructions of
  \<^verbatim>\<open>src/src/lj_bc.h\<close>.  The arrays colocated with a prototype are lists; number constants are
  their 64-bit patterns; collectable constants stand in the order of their addresses.
  Readers and writers are state passing functions.
\<close>

section \<open>State passing\<close>

definition sbind :: "('s \<Rightarrow> ('a \<times> 's) res) \<Rightarrow> ('a \<Rightarrow> 's \<Rightarrow> ('b \<times> 's) res) \<Rightarrow> 's \<Rightarrow> ('b \<times> 's) res" where
  "sbind m f s = rbind (m s) (\<lambda>(x, s). f x s)"

definition sret :: "'a \<Rightarrow> 's \<Rightarrow> ('a \<times> 's) res" where
  "sret x s = Inr (x, s)"

definition slift :: "'a res \<Rightarrow> 's \<Rightarrow> ('a \<times> 's) res" where
  "slift r s = rbind r (\<lambda>x. Inr (x, s))"

lemma sret_eq [simp]: "sret x s = Inr (x, s)"
  by (simp add: sret_def)

lemma slift_simps [simp]: "slift (Inr x) s = Inr (x, s)" "slift (Inl e) s = Inl e"
  by (simp_all add: slift_def)

lemma sbind_Inr: "m s = Inr (x, s') \<Longrightarrow> sbind m f s = f x s'"
  by (simp add: sbind_def)

lemma sbind_simps [simp]: "sbind (sret x) f s = f x s" "sbind (slift (Inr x)) f s = f x s"
  by (simp_all add: sbind_def)

lemma sbind_cong [fundef_cong]:
  "m s = m' s' \<Longrightarrow> (\<And>x t. m' s' = Inr (x, t) \<Longrightarrow> f x t = f' x t) \<Longrightarrow> s = s' \<Longrightarrow> sbind m f s = sbind m' f' s'"
  unfolding sbind_def by (rule rbind_cong) auto

section \<open>Prototypes\<close>

record pinfo =
  p_flags :: u8
  p_numparams :: u8
  p_framesize :: u8
  p_bc :: "u32 list"
  p_uv :: "u16 list"
  p_kn :: "u64 list"
  p_trace :: u16
  p_firstline :: u32
  p_numline :: u32
  p_dbg :: bytes
  p_varinfo :: nat
  p_chunkname :: gcstr

datatype kgc =
    KStr gcstr
  | KChild proto
  | KTab GCtab
  | KCdata u16 "u64 list"
and proto = Proto pinfo "kgc list"

fun p_info :: "proto \<Rightarrow> pinfo" where "p_info (Proto i ks) = i"
fun p_kgc :: "proto \<Rightarrow> kgc list" where "p_kgc (Proto i ks) = ks"

definition PROTO_CHILD :: u8 where "PROTO_CHILD = 0x01"
definition PROTO_VARARG :: u8 where "PROTO_VARARG = 0x02"
definition PROTO_FFI :: u8 where "PROTO_FFI = 0x04"
definition PROTO_ILOOP :: u8 where "PROTO_ILOOP = 0x10"

definition sizeof_GCproto :: nat where "sizeof_GCproto = 64"

section \<open>Instructions\<close>

definition BC_FORL :: nat where "BC_FORL = 79"
definition BC_IFORL :: nat where "BC_IFORL = 80"
definition BC_JFORL :: nat where "BC_JFORL = 81"
definition BC_JFORI :: nat where "BC_JFORI = 78"
definition BC_IITERL :: nat where "BC_IITERL = 83"
definition BC_JITERL :: nat where "BC_JITERL = 84"
definition BC_ILOOP :: nat where "BC_ILOOP = 86"
definition BC_JLOOP :: nat where "BC_JLOOP = 87"
definition BC_FUNCF :: nat where "BC_FUNCF = 89"
definition BC_FUNCV :: nat where "BC_FUNCV = 92"

definition BCINS_AD :: "nat \<Rightarrow> u32 \<Rightarrow> u32 \<Rightarrow> u32" where
  "BCINS_AD op a d = word_of_nat op OR push_bit 8 a OR push_bit 16 d"

text \<open>Arrays of 32-bit and 16-bit values in memory.\<close>

fun u32s :: "bytes \<Rightarrow> u32 list" where
  "u32s (a # b # c # d # bs) = le32 a b c d # u32s bs"
| "u32s _ = []"

fun u16s :: "bytes \<Rightarrow> u16 list" where
  "u16s (a # b # bs) = le16 a b # u16s bs"
| "u16s _ = []"

lemma u32s_bytes32 [simp]: "u32s (concat (map bytes32 ws)) = ws"
  by (induction ws) (simp_all add: bytes32_def)

lemma u16s_bytes16 [simp]: "u16s (concat (map bytes16 ws)) = ws"
  by (induction ws) (simp_all add: bytes16_def)

section \<open>The dump format\<close>

definition BCDUMP_HEAD1 :: u8 where "BCDUMP_HEAD1 = 0x1b"
definition BCDUMP_HEAD2 :: u8 where "BCDUMP_HEAD2 = 0x4c"
definition BCDUMP_HEAD3 :: u8 where "BCDUMP_HEAD3 = 0x4a"
definition BCDUMP_VERSION :: u8 where "BCDUMP_VERSION = 2"

definition BCDUMP_F_BE :: u32 where "BCDUMP_F_BE = 0x01"
definition BCDUMP_F_STRIP :: u32 where "BCDUMP_F_STRIP = 0x02"
definition BCDUMP_F_FFI :: u32 where "BCDUMP_F_FFI = 0x04"
definition BCDUMP_F_FR2 :: u32 where "BCDUMP_F_FR2 = 0x08"
definition BCDUMP_F_KNOWN :: u32 where "BCDUMP_F_KNOWN = BCDUMP_F_FR2 * 2 - 1"

definition BCDUMP_KGC_CHILD :: u32 where "BCDUMP_KGC_CHILD = 0"
definition BCDUMP_KGC_TAB :: u32 where "BCDUMP_KGC_TAB = 1"
definition BCDUMP_KGC_I64 :: u32 where "BCDUMP_KGC_I64 = 2"
definition BCDUMP_KGC_U64 :: u32 where "BCDUMP_KGC_U64 = 3"
definition BCDUMP_KGC_COMPLEX :: u32 where "BCDUMP_KGC_COMPLEX = 4"
definition BCDUMP_KGC_STR :: u32 where "BCDUMP_KGC_STR = 5"

definition BCDUMP_KTAB_NIL :: u32 where "BCDUMP_KTAB_NIL = 0"
definition BCDUMP_KTAB_FALSE :: u32 where "BCDUMP_KTAB_FALSE = 1"
definition BCDUMP_KTAB_TRUE :: u32 where "BCDUMP_KTAB_TRUE = 2"
definition BCDUMP_KTAB_INT :: u32 where "BCDUMP_KTAB_INT = 3"
definition BCDUMP_KTAB_NUM :: u32 where "BCDUMP_KTAB_NUM = 4"
definition BCDUMP_KTAB_STR :: u32 where "BCDUMP_KTAB_STR = 5"

lemmas dump_codes =
  BCDUMP_KGC_CHILD_def BCDUMP_KGC_TAB_def BCDUMP_KGC_I64_def BCDUMP_KGC_U64_def BCDUMP_KGC_COMPLEX_def
  BCDUMP_KGC_STR_def BCDUMP_KTAB_NIL_def BCDUMP_KTAB_FALSE_def BCDUMP_KTAB_TRUE_def BCDUMP_KTAB_INT_def
  BCDUMP_KTAB_NUM_def BCDUMP_KTAB_STR_def

definition CTID_INT64 :: u16 where "CTID_INT64 = 11"
definition CTID_UINT64 :: u16 where "CTID_UINT64 = 12"
definition CTID_COMPLEX_DOUBLE :: u16 where "CTID_COMPLEX_DOUBLE = 16"

end
