(* ===== verification/Bcwrite.thy ===== *)
theory Bcwrite
  imports Proto
begin

text \<open>
  The bytecode writer of \<^verbatim>\<open>src/src/lj_bcwrite.c\<close>.  The writer callback is a parameter: a
  function from the chunk and the callback's data to a status and new data.  The bytes the
  code writes behind \<^verbatim>\<open>p\<close> and commits with \<^verbatim>\<open>setsbufP\<close> go through \<open>buf_put\<close>, so that writing
  outside the block reserved before is \<open>Undef\<close>.  Only patched bytecode reads the traces of
  the compiler; their first instructions are the parameter \<open>startins\<close>.
\<close>

section \<open>Constants of template tables\<close>

fun pri_code :: "TValue \<Rightarrow> u8" where
  "pri_code VNil = 0"
| "pri_code VFalse = 1"
| "pri_code VTrue = 2"
| "pri_code (VLightud a) = 3"
| "pri_code (VStr s) = 4"
| "pri_code (VGC i a) = word_of_nat i"
| "pri_code (VNum x) = 13"

definition bcwrite_ktabk :: "TValue \<Rightarrow> bool \<Rightarrow> SBuf \<Rightarrow> SBuf res" where
  "bcwrite_ktabk v narrow sb =
     rbind (lj_buf_more sb (1 + 10)) (\<lambda>sb.
     case v of
       VStr s \<Rightarrow>
         let len = length (s_data s) in
         rbind (lj_buf_more sb (5 + len)) (\<lambda>sb.
         buf_put sb (lj_strfmt_wuleb128 (BCDUMP_KTAB_STR + word_of_nat len) @ s_data s))
     | VNum x \<Rightarrow>
         let k = lj_num2int x in
         if narrow \<and> num_eq x (int2num k)
         then buf_put sb (ucast BCDUMP_KTAB_INT # lj_strfmt_wuleb128 k)
         else buf_put sb (ucast BCDUMP_KTAB_NUM # lj_strfmt_wuleb128 (num_lo x) @ lj_strfmt_wuleb128 (num_hi x))
     | _ \<Rightarrow> buf_put sb [ucast BCDUMP_KTAB_NIL + pri_code v])"

text \<open>The length of the array part without the nils at its end.\<close>

fun last_used :: "TValue list \<Rightarrow> nat \<Rightarrow> nat" where
  "last_used a 0 = 0"
| "last_used a (Suc i) = (if a ! i \<noteq> VNil then Suc i else last_used a i)"

definition used_nodes :: "GCtab \<Rightarrow> nat" where
  "used_nodes t =
     (if 0 < t_hmask t
      then length (filter (\<lambda>n. n_val n \<noteq> VNil) (take (unat (t_hmask t) + 1) (t_node t))) else 0)"

fun write_array :: "TValue list \<Rightarrow> SBuf \<Rightarrow> SBuf res" where
  "write_array [] sb = Inr sb"
| "write_array (v # vs) sb = rbind (bcwrite_ktabk v True sb) (write_array vs)"

text \<open>From the last node down, until \<open>i\<close> entries are written.\<close>

fun write_nodes :: "node list \<Rightarrow> nat \<Rightarrow> SBuf \<Rightarrow> SBuf res" where
  "write_nodes [] i sb = Inl Undef"
| "write_nodes (n # ns) i sb =
     (if n_val n \<noteq> VNil
      then rbind (bcwrite_ktabk (n_key n) False sb) (\<lambda>sb.
           rbind (bcwrite_ktabk (n_val n) True sb) (\<lambda>sb.
           if i - 1 = 0 then Inr sb else write_nodes ns (i - 1) sb))
      else write_nodes ns i sb)"

text \<open>\<open>pre\<close> is what the caller has already written at \<^verbatim>\<open>p\<close>.\<close>

definition bcwrite_ktab :: "bytes \<Rightarrow> GCtab \<Rightarrow> SBuf \<Rightarrow> SBuf res" where
  "bcwrite_ktab pre t sb =
     (let narray = last_used (t_array t) (asize t);
          nhash = used_nodes t
      in rbind (buf_put sb (pre @ lj_strfmt_wuleb128 (word_of_nat narray) @ lj_strfmt_wuleb128 (word_of_nat nhash)))
           (\<lambda>sb. rbind (write_array (take narray (t_array t)) sb)
           (\<lambda>sb. if nhash \<noteq> 0 then write_nodes (rev (take (unat (t_hmask t) + 1) (t_node t))) nhash sb else Inr sb)))"

section \<open>Constants of prototypes\<close>

definition cdata_tp :: "u16 \<Rightarrow> u32" where
  "cdata_tp cid =
     (if cid = CTID_INT64 then BCDUMP_KGC_I64
      else if cid = CTID_UINT64 then BCDUMP_KGC_U64 else BCDUMP_KGC_COMPLEX)"

fun kgc_tp :: "kgc \<Rightarrow> u32" where
  "kgc_tp (KStr s) = BCDUMP_KGC_STR + word_of_nat (length (s_data s))"
| "kgc_tp (KChild pt) = BCDUMP_KGC_CHILD"
| "kgc_tp (KCdata cid q) = cdata_tp cid"
| "kgc_tp (KTab t) = BCDUMP_KGC_TAB"

fun kgc_need :: "kgc \<Rightarrow> nat" where
  "kgc_need (KStr s) = 5 + length (s_data s)"
| "kgc_need (KChild pt) = 1"
| "kgc_need (KCdata cid q) = 1 + 4 * 5"
| "kgc_need (KTab t) = 1 + 2 * 5"

definition num_bytes :: "u64 \<Rightarrow> bytes" where
  "num_bytes x = lj_strfmt_wuleb128 (num_lo x) @ lj_strfmt_wuleb128 (num_hi x)"

definition bcwrite_kgc_one :: "kgc \<Rightarrow> SBuf \<Rightarrow> SBuf res" where
  "bcwrite_kgc_one k sb =
     (let tp = kgc_tp k; pre = lj_strfmt_wuleb128 tp in
      rbind (lj_buf_more sb (kgc_need k)) (\<lambda>sb.
      case k of
        KStr s \<Rightarrow> buf_put sb (pre @ s_data s)
      | KTab t \<Rightarrow> bcwrite_ktab pre t sb
      | KChild pt \<Rightarrow> buf_put sb pre
      | KCdata cid q \<Rightarrow>
          if tp = BCDUMP_KGC_COMPLEX
          then rbind (in_range (2 \<le> length q)) (\<lambda>_. buf_put sb (pre @ num_bytes (q ! 0) @ num_bytes (q ! 1)))
          else rbind (in_range (1 \<le> length q)) (\<lambda>_. buf_put sb (pre @ num_bytes (q ! 0)))))"

fun bcwrite_kgc :: "kgc list \<Rightarrow> SBuf \<Rightarrow> SBuf res" where
  "bcwrite_kgc [] sb = Inr sb"
| "bcwrite_kgc (k # ks) sb = rbind (bcwrite_kgc_one k sb) (bcwrite_kgc ks)"

text \<open>
  A 33-bit ULEB128: the top bits of a number above \<^verbatim>\<open>0x80000000\<close> are put into the last byte.
\<close>

definition patch33 :: "bytes \<Rightarrow> u32 \<Rightarrow> bytes" where
  "patch33 p hi = butlast p @ [(last p AND 7) OR ucast (hi AND 0x18)]"

definition knum_int :: "u32 \<Rightarrow> bytes" where
  "knum_int k =
     (let p = lj_strfmt_wuleb128 (2 * k OR (k AND 0x80000000))
      in if sint k < 0 then patch33 p (signed_drop_bit 27 k) else p)"

definition knum_num :: "u64 \<Rightarrow> bytes" where
  "knum_num x =
     (let lo = num_lo x; p = lj_strfmt_wuleb128 (1 + (2 * lo OR (lo AND 0x80000000)))
      in (if 0x80000000 \<le> lo then patch33 p (drop_bit 27 lo) else p) @ lj_strfmt_wuleb128 (num_hi x))"

definition knum_bytes :: "u64 \<Rightarrow> bytes" where
  "knum_bytes x = (let k = lj_num2int x in if num_eq x (int2num k) then knum_int k else knum_num x)"

definition bcwrite_knum :: "u64 list \<Rightarrow> SBuf \<Rightarrow> SBuf res" where
  "bcwrite_knum kn sb =
     rbind (lj_buf_more sb (10 * length kn mod 2 ^ 32)) (\<lambda>sb. buf_put sb (concat (map knum_bytes kn)))"

section \<open>Instructions\<close>

text \<open>Unpatching one instruction; \<open>q\<close> is its first byte, the opcode.\<close>

definition unpatch :: "(nat \<Rightarrow> u32) \<Rightarrow> u32 \<Rightarrow> u32" where
  "unpatch startins w =
     (let q0 = byte_n 0 w; q1 = byte_n 1 w; q2 = byte_n 2 w; q3 = byte_n 3 w; opc = unat q0 in
      if opc = BC_IFORL \<or> opc = BC_IITERL \<or> opc = BC_ILOOP \<or> opc = BC_JFORI
      then le32 (q0 - word_of_nat BC_IFORL + word_of_nat BC_FORL) q1 q2 q3
      else if opc = BC_JFORL \<or> opc = BC_JITERL \<or> opc = BC_JLOOP
      then let rd = unat q2 + unat q3 * 2 ^ 8; start = startins rd
           in le32 (q0 - word_of_nat BC_JFORL + word_of_nat BC_FORL) q1 (byte_n 2 start) (byte_n 3 start)
      else w)"

definition bcwrite_bytecode :: "(nat \<Rightarrow> u32) \<Rightarrow> pinfo \<Rightarrow> bytes" where
  "bcwrite_bytecode startins i =
     concat (map bytes32
       (if p_flags i AND PROTO_ILOOP \<noteq> 0 \<or> p_trace i \<noteq> 0
        then map (unpatch startins) (tl (p_bc i)) else tl (p_bc i)))"

section \<open>Prototypes and the dump\<close>

type_synonym 'd bcwriter = "bytes \<Rightarrow> 'd \<Rightarrow> int \<times> 'd"

record 'd bcctx =
  w_sb :: SBuf
  w_strip :: bool
  w_status :: int
  w_data :: 'd

definition write_chunk :: "'d bcwriter \<Rightarrow> bytes \<Rightarrow> 'd bcctx \<Rightarrow> 'd bcctx" where
  "write_chunk wfunc chunk c =
     (case wfunc chunk (w_data c) of (status, d) \<Rightarrow> c\<lparr>w_status := status, w_data := d\<rparr>)"

text \<open>\<^verbatim>\<open>sizedbg\<close> is the distance from the line table to the end of the block.\<close>

definition proto_header :: "bool \<Rightarrow> pinfo \<Rightarrow> kgc list \<Rightarrow> bytes" where
  "proto_header strip i ks =
     [p_flags i AND (PROTO_CHILD OR PROTO_VARARG OR PROTO_FFI), p_numparams i, p_framesize i,
      word_of_nat (length (p_uv i))] @
     lj_strfmt_wuleb128 (word_of_nat (length ks)) @
     lj_strfmt_wuleb128 (word_of_nat (length (p_kn i))) @
     lj_strfmt_wuleb128 (word_of_nat (length (p_bc i) - 1)) @
     (if strip then []
      else lj_strfmt_wuleb128 (word_of_nat (length (p_dbg i))) @
           (if p_dbg i \<noteq> [] then lj_strfmt_wuleb128 (p_firstline i) @ lj_strfmt_wuleb128 (p_numline i) else []))"

text \<open>
  The size goes in front of the content: \<open>nn\<close> is the length of its ULEB128 number, and the
  five bytes reserved for it are overwritten from their end.
\<close>

definition final_size :: "bytes \<Rightarrow> bytes" where
  "final_size buf =
     (let n = length buf - 5;
          nn = (lj_fls (word_of_nat n) + 8) * 9 div 2 ^ 6;
          q = 5 - nn;
          p = lj_strfmt_wuleb128 (word_of_nat n)
      in take (nn + n) (drop q (take q buf @ p @ drop (q + length p) buf)))"

text \<open>What \<^verbatim>\<open>bcwrite_proto\<close> does after the children; the reserved bytes start as zeros.\<close>

definition bcwrite_body :: "(nat \<Rightarrow> u32) \<Rightarrow> 'd bcwriter \<Rightarrow> pinfo \<Rightarrow> kgc list \<Rightarrow> 'd bcctx \<Rightarrow> 'd bcctx res" where
  "bcwrite_body startins wfunc i ks c =
     (let sizedbg = (if w_strip c then 0 else length (p_dbg i));
          need = (5 + 4 + 6 * 5 + (length (p_bc i) - 1) * 4 + length (p_uv i) * 2) mod 2 ^ 32
      in rbind (lj_buf_need (w_sb c) need) (\<lambda>sb.
         rbind (buf_put (sb\<lparr>sb_data := []\<rparr>)
                 (replicate 5 0 @ proto_header (w_strip c) i ks @ bcwrite_bytecode startins i @ concat (map bytes16 (p_uv i))))
           (\<lambda>sb.
         rbind (bcwrite_kgc ks sb) (\<lambda>sb.
         rbind (bcwrite_knum (p_kn i) sb) (\<lambda>sb.
         rbind (if sizedbg \<noteq> 0 then rbind (lj_buf_more sb sizedbg) (\<lambda>sb. buf_put sb (p_dbg i)) else Inr sb) (\<lambda>sb.
         let c = c\<lparr>w_sb := sb\<rparr> in
         Inr (if w_status c = 0 then write_chunk wfunc (final_size (sb_data sb)) c else c)))))))"

text \<open>The children are written from the last constant to the first.\<close>

fun bcwrite_proto :: "(nat \<Rightarrow> u32) \<Rightarrow> 'd bcwriter \<Rightarrow> proto \<Rightarrow> 'd bcctx \<Rightarrow> 'd bcctx res"
  and bcwrite_children :: "(nat \<Rightarrow> u32) \<Rightarrow> 'd bcwriter \<Rightarrow> kgc list \<Rightarrow> 'd bcctx \<Rightarrow> 'd bcctx res" where
  "bcwrite_proto startins wfunc (Proto i ks) c =
     rbind (if p_flags i AND PROTO_CHILD \<noteq> 0 then bcwrite_children startins wfunc ks c else Inr c)
       (bcwrite_body startins wfunc i ks)"
| "bcwrite_children startins wfunc [] c = Inr c"
| "bcwrite_children startins wfunc (k # ks) c =
     rbind (bcwrite_children startins wfunc ks c)
       (\<lambda>c. case k of KChild pt \<Rightarrow> bcwrite_proto startins wfunc pt c | _ \<Rightarrow> Inr c)"

definition dump_header :: "bool \<Rightarrow> pinfo \<Rightarrow> bytes" where
  "dump_header strip i =
     [BCDUMP_HEAD1, BCDUMP_HEAD2, BCDUMP_HEAD3, BCDUMP_VERSION,
      ucast ((if strip then BCDUMP_F_STRIP else 0) + (if p_flags i AND PROTO_FFI \<noteq> 0 then BCDUMP_F_FFI else 0))] @
     (if strip then []
      else lj_strfmt_wuleb128 (word_of_nat (length (s_data (p_chunkname i)))) @ s_data (p_chunkname i))"

definition bcwrite_header :: "'d bcwriter \<Rightarrow> pinfo \<Rightarrow> 'd bcctx \<Rightarrow> 'd bcctx res" where
  "bcwrite_header wfunc i c =
     rbind (lj_buf_need (w_sb c) (5 + 5 + length (s_data (p_chunkname i)))) (\<lambda>sb.
     rbind (in_range (length (dump_header (w_strip c) i) \<le> sbufsz sb)) (\<lambda>_.
     Inr (write_chunk wfunc (dump_header (w_strip c) i) (c\<lparr>w_sb := sb\<rparr>))))"

definition bcwrite_footer :: "'d bcwriter \<Rightarrow> 'd bcctx \<Rightarrow> 'd bcctx" where
  "bcwrite_footer wfunc c = (if w_status c = 0 then write_chunk wfunc [0] c else c)"

definition cpwriter :: "(nat \<Rightarrow> u32) \<Rightarrow> 'd bcwriter \<Rightarrow> proto \<Rightarrow> 'd bcctx \<Rightarrow> 'd bcctx res" where
  "cpwriter startins wfunc pt c =
     rbind (lj_buf_need (w_sb c) 1024) (\<lambda>sb.
     rbind (bcwrite_header wfunc (p_info pt) (c\<lparr>w_sb := sb\<rparr>)) (\<lambda>c.
     rbind (bcwrite_proto startins wfunc pt c) (\<lambda>c.
     Inr (bcwrite_footer wfunc c))))"

text \<open>An error thrown in \<^verbatim>\<open>cpwriter\<close> is the \<open>Inl\<close> of the result instead of a status.\<close>

definition lj_bcwrite :: "(nat \<Rightarrow> u32) \<Rightarrow> 'd bcwriter \<Rightarrow> proto \<Rightarrow> 'd \<Rightarrow> bool \<Rightarrow> (int \<times> 'd) res" where
  "lj_bcwrite startins wfunc pt d strip =
     rbind (cpwriter startins wfunc pt \<lparr>w_sb = lj_buf_init, w_strip = strip, w_status = 0, w_data = d\<rparr>)
       (\<lambda>c. Inr (w_status c, w_data c))"

end
