(* ===== verification/Bcread.thy ===== *)
theory Bcread
  imports Proto State
begin

text \<open>
  The bytecode reader of \<^verbatim>\<open>src/src/lj_bcread.c\<close>, without the decompiled variants.  The
  window between \<^verbatim>\<open>ls->p\<close> and \<^verbatim>\<open>ls->pe\<close> is a byte list; reading past it is \<open>Undef\<close>, since
  the code checks it only in assertions that are compiled out.  The reader callback's
  answers are a list of chunks.  Addresses matter in one place only: the comparison
  \<^verbatim>\<open>ls->p + len > ls->pe\<close> is on 32-bit addresses, so a window carries where it lies, as the room
  from \<^verbatim>\<open>p\<close> to the end of the address space.  A header with \<^verbatim>\<open>BCDUMP_F_FFI\<close> may load the FFI
  library, which takes no input and leaves the stack as it was.
\<close>

record lexstate =
  ls_buf :: bytes
  ls_room :: nat
  ls_sb :: SBuf
  ls_sbroom :: nat
  ls_c :: int
  ls_chunks :: "(bytes \<times> nat) list"
  ls_level :: u32
  ls_chunkname :: gcstr
  ls_chunkarg :: bytes
  ls_lastline :: nat
  ls_protos :: "proto list"
  ls_L :: lstack

type_synonym 'a lreader = "lexstate \<Rightarrow> ('a \<times> lexstate) res"

text \<open>The name in front of the message of \<^verbatim>\<open>bcread_error\<close>.\<close>

definition bcread_error_name :: "bytes \<Rightarrow> bytes" where
  "bcread_error_name name =
     (case name of
        [] \<Rightarrow> []
      | c # rest \<Rightarrow>
          if c = BCDUMP_HEAD1 then [0x28, 0x62, 0x69, 0x6e, 0x61, 0x72, 0x79, 0x29]
          else if c = 0x40 \<or> c = 0x3d then rest else name)"

definition bcread_error :: "lj_error \<Rightarrow> 'a res" where
  "bcread_error em = Inl (Throw em)"

section \<open>Input buffer handling\<close>

text \<open>The pointers \<^verbatim>\<open>ls->p\<close> and \<^verbatim>\<open>ls->pe\<close>, and \<^verbatim>\<open>ls->p + len > ls->pe\<close>; the sum wraps around.\<close>

definition ls_p :: "lexstate \<Rightarrow> u32" where "ls_p ls = word_of_nat (2 ^ 32 - ls_room ls)"
definition ls_pe :: "lexstate \<Rightarrow> u32" where "ls_pe ls = ls_p ls + word_of_nat (length (ls_buf ls))"

definition needs :: "nat \<Rightarrow> lexstate \<Rightarrow> bool" where
  "needs len ls \<longleftrightarrow> ls_pe ls < ls_p ls + word_of_nat len"

text \<open>
  For a window that does not wrap around itself: the check is right for a length up to the end
  of the address space, and never true for a longer one.
\<close>

lemma needs_iff:
  assumes "length (ls_buf ls) < ls_room ls" "length (ls_buf ls) < 2 ^ 32" "len < 2 ^ 32"
  shows "needs len ls \<longleftrightarrow> length (ls_buf ls) < len \<and> len < ls_room ls"
proof -
  define P where "P = 2 ^ 32 - ls_room ls"
  let ?n = "length (ls_buf ls)"
  have P: "P + ?n < 2 ^ 32" using assms(1,2) by (simp add: P_def)
  have sum: "unat (ls_p ls + word_of_nat k) = (P + k) mod 2 ^ 32" for k
    unfolding ls_p_def P_def [symmetric] of_nat_add [symmetric] by (subst unsigned_of_nat) (simp add: take_bit_eq_mod)
  then have pe: "unat (ls_pe ls) = P + ?n" using P by (simp add: ls_pe_def)
  have n: "needs len ls \<longleftrightarrow> P + ?n < (P + len) mod 2 ^ 32"
    by (simp add: needs_def word_less_nat_alt pe sum)
  show ?thesis
  proof (cases "P + len < 2 ^ 32")
    case True
    then have "len < ls_room ls \<or> len \<le> ?n" using assms by (auto simp: P_def)
    then show ?thesis using True n by auto
  next
    case False
    then have "(P + len) mod 2 ^ 32 = P + len - 2 ^ 32" using P assms(3) by (subst mod_if) simp
    moreover have "P + len - 2 ^ 32 < P" "ls_room ls \<le> len" using False assms(3) by (auto simp: P_def)
    ultimately show ?thesis using n by simp
  qed
qed

text \<open>Copy the remainder to the buffer, or move it down in the buffer.\<close>

definition fill_keep :: "nat \<Rightarrow> lexstate \<Rightarrow> lexstate res" where
  "fill_keep len ls =
     (let n = length (ls_buf ls) in
      if n \<noteq> 0
      then rbind (if sbuflen (ls_sb ls) \<noteq> 0 then Inr (ls_sb ls) else lj_buf_need (ls_sb ls) len) (\<lambda>sb.
           rbind (in_range (n \<le> sbufsz sb)) (\<lambda>_.
           Inr (ls\<lparr>ls_sb := sb\<lparr>sb_data := ls_buf ls\<rparr>, ls_room := ls_sbroom ls\<rparr>)))
      else Inr (ls\<lparr>ls_sb := (ls_sb ls)\<lparr>sb_data := []\<rparr>\<rparr>))"

text \<open>Append what the reader returned to the buffer, or use the reader's own buffer.\<close>

definition fill_append :: "nat \<Rightarrow> bytes \<times> nat \<Rightarrow> lexstate \<Rightarrow> lexstate res" where
  "fill_append len chunk ls =
     (let n = length (ls_buf ls) in
      if n \<noteq> 0
      then let n = n + length (fst chunk) in
           rbind (lj_buf_need (ls_sb ls) (if n < len then len else n)) (\<lambda>sb.
           rbind (in_range (n \<le> sbufsz sb)) (\<lambda>_.
           let buf = ls_buf ls @ fst chunk in
           Inr (ls\<lparr>ls_sb := sb\<lparr>sb_data := buf\<rparr>, ls_buf := buf, ls_room := ls_sbroom ls\<rparr>)))
      else Inr (ls\<lparr>ls_buf := fst chunk, ls_room := snd chunk\<rparr>))"

fun fill_loop :: "nat \<Rightarrow> bool \<Rightarrow> (bytes \<times> nat) list \<Rightarrow> lexstate \<Rightarrow> lexstate res" where
  "fill_loop len need [] ls =
     rbind (fill_keep len ls) (\<lambda>ls.
     if need then bcread_error LJ_ERR_BCBAD else Inr (ls\<lparr>ls_c := - 1, ls_chunks := []\<rparr>))"
| "fill_loop len need (chunk # chunks) ls =
     rbind (fill_keep len ls) (\<lambda>ls.
     if fst chunk = []
     then if need then bcread_error LJ_ERR_BCBAD else Inr (ls\<lparr>ls_c := - 1, ls_chunks := chunks\<rparr>)
     else rbind (fill_append len chunk ls) (\<lambda>ls.
          if needs len ls then fill_loop len need chunks ls else Inr (ls\<lparr>ls_chunks := chunks\<rparr>)))"

definition bcread_fill :: "nat \<Rightarrow> bool \<Rightarrow> lexstate \<Rightarrow> lexstate res" where
  "bcread_fill len need ls =
     (if LJ_MAX_BUF < len \<or> ls_c ls < 0 then bcread_error LJ_ERR_BCBAD
      else fill_loop len need (ls_chunks ls) ls)"

definition bcread_need :: "nat \<Rightarrow> unit lreader" where
  "bcread_need len ls = (if needs len ls then rbind (bcread_fill len True ls) (\<lambda>ls. Inr ((), ls)) else Inr ((), ls))"

definition bcread_want :: "nat \<Rightarrow> unit lreader" where
  "bcread_want len ls = (if needs len ls then rbind (bcread_fill len False ls) (\<lambda>ls. Inr ((), ls)) else Inr ((), ls))"

text \<open>Reading from the window moves \<^verbatim>\<open>ls->p\<close>.\<close>

definition on_buf :: "'a reader \<Rightarrow> 'a lreader" where
  "on_buf r ls =
     rbind (r (ls_buf ls)) (\<lambda>(x, bs).
     Inr (x, ls\<lparr>ls_buf := bs, ls_room := ls_room ls - (length (ls_buf ls) - length bs)\<rparr>))"

definition bcread_mem :: "nat \<Rightarrow> bytes reader" where
  "bcread_mem len = getn len"

definition bcread_byte :: "u8 reader" where
  "bcread_byte = get1"

definition bcread_uleb128 :: "u32 reader" where
  "bcread_uleb128 = lj_buf_ruleb128"

fun uleb33_loop :: "u32 \<Rightarrow> int \<Rightarrow> u32 reader" where
  "uleb33_loop v sh [] = Inl Undef"
| "uleb33_loop v sh (p # ps) =
     (let sh = sh + 7 in
      if 32 \<le> sh then Inl Undef
      else let v = v OR push_bit (nat sh) (ucast p AND 0x7f) in
           if 0x80 \<le> p then uleb33_loop v sh ps else Inr (v, ps))"

fun bcread_uleb128_33 :: "u32 reader" where
  "bcread_uleb128_33 [] = Inl Undef"
| "bcread_uleb128_33 (p # ps) =
     (let v = ucast (drop_bit 1 p) :: u32 in
      if 0x40 \<le> v then uleb33_loop (v AND 0x3f) (- 1) ps else Inr (v, ps))"

text \<open>\<^verbatim>\<open>bcread_mem\<close> followed by \<^verbatim>\<open>lj_str_new\<close>, which checks the length first.\<close>

definition bcread_str :: "nat \<Rightarrow> gcstr reader" where
  "bcread_str len bs =
     (if LJ_MAX_STR \<le> len then Inl (Throw LJ_ERR_STROV) else sbind (bcread_mem len) (\<lambda>p. sret (the_str p)) bs)"

section \<open>Debug information\<close>

definition swap16 :: "u16 \<Rightarrow> u16" where
  "swap16 x = drop_bit 8 x OR push_bit 8 x"

definition bcread_swap :: "u32 \<Rightarrow> bool" where
  "bcread_swap flags = (flags AND BCDUMP_F_BE \<noteq> 0)"

definition bcread_dbg :: "bool \<Rightarrow> int \<Rightarrow> nat \<Rightarrow> nat \<Rightarrow> bytes reader" where
  "bcread_dbg swap numline n sizedbg =
     sbind (bcread_mem sizedbg) (\<lambda>d.
     if swap \<and> 256 \<le> numline
     then if numline < 65536
          then sbind (slift (in_range (2 * n \<le> sizedbg))) (\<lambda>_.
               sret (concat (map (\<lambda>w. bytes16 (swap16 w)) (u16s (take (2 * n) d))) @ drop (2 * n) d))
          else sbind (slift (in_range (4 * n \<le> sizedbg))) (\<lambda>_.
               sret (concat (map (\<lambda>w. bytes32 (lj_bswap w)) (u32s (take (4 * n) d))) @ drop (4 * n) d))
     else sret d)"

text \<open>Skipping \<^verbatim>\<open>n\<close> zero-terminated names.\<close>

fun skip_names :: "nat \<Rightarrow> bytes \<Rightarrow> nat \<Rightarrow> nat res" where
  "skip_names 0 d i = Inr i"
| "skip_names (Suc n) [] i = Inl Undef"
| "skip_names (Suc n) (p # d) i = (if p \<noteq> 0 then skip_names (Suc n) d (Suc i) else skip_names n d (Suc i))"

definition bcread_varinfo :: "nat \<Rightarrow> bytes \<Rightarrow> nat \<Rightarrow> nat res" where
  "bcread_varinfo sizeuv d uvinfo = skip_names sizeuv (drop uvinfo d) uvinfo"

section \<open>Constants\<close>

text \<open>
  A number whose high word is an internal tag makes a value of another type out of the
  input, with a wild pointer in it.
\<close>

definition bcread_ktabk :: "TValue reader" where
  "bcread_ktabk =
     sbind bcread_uleb128 (\<lambda>tp.
     if BCDUMP_KTAB_STR \<le> tp
     then sbind (bcread_str (unat (tp - BCDUMP_KTAB_STR))) (\<lambda>s. sret (VStr s))
     else if tp = BCDUMP_KTAB_INT then sbind bcread_uleb128 (\<lambda>k. sret (VNum (int2num k)))
     else if tp = BCDUMP_KTAB_NUM
     then sbind bcread_uleb128 (\<lambda>lo. sbind bcread_uleb128 (\<lambda>hi.
          sbind (slift (in_range (hi < LJ_TISNUM))) (\<lambda>_. sret (VNum (num_lohi lo hi)))))
     else sret (if tp = BCDUMP_KTAB_NIL then VNil else if tp = BCDUMP_KTAB_FALSE then VFalse else VTrue))"

type_synonym tabset = "GCtab \<Rightarrow> TValue \<Rightarrow> (GCtab \<times> slot) res"

text \<open>The hash entries: the slot is made before the value is read into it.\<close>

fun ktab_hash :: "tabset \<Rightarrow> nat \<Rightarrow> GCtab \<Rightarrow> GCtab reader" where
  "ktab_hash st 0 t bs = Inr (t, bs)"
| "ktab_hash st (Suc i) t bs =
     sbind bcread_ktabk (\<lambda>key.
     sbind (slift (st t key)) (\<lambda>(t, s).
     sbind bcread_ktabk (\<lambda>v.
     ktab_hash st i (store t s v)))) bs"

definition bcread_ktab :: "GCtab reader" where
  "bcread_ktab =
     sbind bcread_uleb128 (\<lambda>narray.
     sbind bcread_uleb128 (\<lambda>nhash.
     sbind (slift (lj_tab_new (unat narray) (hsize2hbits nhash))) (\<lambda>t.
     sbind (if narray \<noteq> 0 then sbind (read_n bcread_ktabk (unat narray)) (\<lambda>vs. sret (t\<lparr>t_array := vs\<rparr>)) else sret t)
       (\<lambda>t. if nhash \<noteq> 0 then ktab_hash lj_tab_set (unat nhash) t else sret t))))"

definition bcread_kcdata :: "u32 \<Rightarrow> kgc reader" where
  "bcread_kcdata tp =
     (let id = (if tp = BCDUMP_KGC_COMPLEX then CTID_COMPLEX_DOUBLE
                else if tp = BCDUMP_KGC_I64 then CTID_INT64 else CTID_UINT64) in
      sbind bcread_uleb128 (\<lambda>lo0. sbind bcread_uleb128 (\<lambda>hi0.
      if tp = BCDUMP_KGC_COMPLEX
      then sbind bcread_uleb128 (\<lambda>lo1. sbind bcread_uleb128 (\<lambda>hi1.
           sret (KCdata id [num_lohi lo0 hi0, num_lohi lo1 hi1])))
      else sret (KCdata id [num_lohi lo0 hi0]))))"

text \<open>Taking the last prototype off the stack.\<close>

definition pop_child :: "kgc lreader" where
  "pop_child ls =
     (if L_top (ls_L ls) \<le> ls_lastline ls then bcread_error LJ_ERR_BCBAD
      else case ls_protos ls of
             [] \<Rightarrow> Inl Undef
           | pt # pts \<Rightarrow>
               Inr (KChild pt, ls\<lparr>ls_protos := pts, ls_L := (ls_L ls)\<lparr>L_top := L_top (ls_L ls) - 1\<rparr>\<rparr>))"

definition bcread_kgc_one :: "kgc lreader" where
  "bcread_kgc_one =
     sbind (on_buf bcread_uleb128) (\<lambda>tp.
     if BCDUMP_KGC_STR \<le> tp
     then sbind (on_buf (bcread_str (unat (tp - BCDUMP_KGC_STR)))) (\<lambda>s. sret (KStr s))
     else if tp = BCDUMP_KGC_TAB then sbind (on_buf bcread_ktab) (\<lambda>t. sret (KTab t))
     else if tp \<noteq> BCDUMP_KGC_CHILD then on_buf (bcread_kcdata tp)
     else pop_child)"

fun stimes :: "nat \<Rightarrow> ('s \<Rightarrow> ('a \<times> 's) res) \<Rightarrow> 's \<Rightarrow> ('a list \<times> 's) res" where
  "stimes 0 m s = Inr ([], s)"
| "stimes (Suc n) m s = sbind m (\<lambda>x. sbind (stimes n m) (\<lambda>xs. sret (x # xs))) s"

definition bcread_kgc :: "nat \<Rightarrow> kgc list lreader" where
  "bcread_kgc sizekgc = stimes sizekgc bcread_kgc_one"

definition bcread_knum_one :: "u64 reader" where
  "bcread_knum_one bs =
     (case bs of
        [] \<Rightarrow> Inl Undef
      | p # ps \<Rightarrow>
          let isnum = (p AND 1 \<noteq> 0) in
          sbind bcread_uleb128_33 (\<lambda>lo.
          if isnum then sbind bcread_uleb128 (\<lambda>hi. sret (num_lohi lo hi))
          else sret (int2num lo)) bs)"

definition bcread_knum :: "nat \<Rightarrow> u64 list reader" where
  "bcread_knum sizekn = read_n bcread_knum_one sizekn"

section \<open>Instructions and upvalues\<close>

definition bcread_bytecode :: "bool \<Rightarrow> u8 \<Rightarrow> u8 \<Rightarrow> nat \<Rightarrow> u32 list reader" where
  "bcread_bytecode swap flags framesize sizebc =
     sbind (bcread_mem ((sizebc - 1) * 4)) (\<lambda>q.
     let bc0 = BCINS_AD (if flags AND PROTO_VARARG \<noteq> 0 then BC_FUNCV else BC_FUNCF) (ucast framesize) 0
     in sret (bc0 # (if swap then map lj_bswap (u32s q) else u32s q)))"

definition bcread_uv :: "bool \<Rightarrow> nat \<Rightarrow> u16 list reader" where
  "bcread_uv swap sizeuv =
     (if sizeuv \<noteq> 0
      then sbind (bcread_mem (sizeuv * 2)) (\<lambda>q. sret (if swap then map swap16 (u16s q) else u16s q))
      else sret [])"

section \<open>Prototypes\<close>

text \<open>
  The size of the block of a prototype.  When it does not fit into 32 bits, the block is
  smaller than its arrays.
\<close>

definition proto_size :: "nat \<Rightarrow> nat \<Rightarrow> nat \<Rightarrow> nat \<Rightarrow> nat \<Rightarrow> nat" where
  "proto_size sizebc sizekgc sizekn sizeuv sizedbg =
     (let sizept = sizeof_GCproto + sizebc * 4 + sizekgc * 4;
          ofsk = (sizept + 7) div 8 * 8;
          ofsuv = ofsk + sizekn * 8;
          ofsdbg = ofsuv + (sizeuv + 1) div 2 * 2 * 2
      in ofsdbg + sizedbg)"

text \<open>The size of the line table, from the number of lines as a signed number.\<close>

definition sizeli :: "int \<Rightarrow> nat \<Rightarrow> nat" where
  "sizeli numline n = n * (if numline < 256 then 1 else if numline < 65536 then 2 else 4)"

definition lj_bcread_proto :: "proto lreader" where
  "lj_bcread_proto ls0 =
     (let lflags = ls_level ls0; swap = bcread_swap lflags in
      sbind (on_buf bcread_byte) (\<lambda>flags.
      sbind (on_buf bcread_byte) (\<lambda>numparams.
      sbind (on_buf bcread_byte) (\<lambda>framesize.
      sbind (on_buf bcread_byte) (\<lambda>sizeuv.
      sbind (on_buf bcread_uleb128) (\<lambda>sizekgc.
      sbind (on_buf bcread_uleb128) (\<lambda>sizekn.
      sbind (on_buf bcread_uleb128) (\<lambda>nbc.
      sbind (if lflags AND BCDUMP_F_STRIP = 0
             then sbind (on_buf bcread_uleb128) (\<lambda>sizedbg.
                  if sizedbg \<noteq> 0
                  then sbind (on_buf bcread_uleb128) (\<lambda>firstline.
                       sbind (on_buf bcread_uleb128) (\<lambda>numline. sret (sizedbg, firstline, numline)))
                  else sret (sizedbg, 0, 0))
             else sret (0, 0, 0)) (\<lambda>(sizedbg, firstline, numline).
      sbind (slift (in_range (proto_size (unat nbc + 1) (unat sizekgc) (unat sizekn) (unat sizeuv) (unat sizedbg) < 2 ^ 32))) (\<lambda>_.
      sbind (on_buf (bcread_bytecode swap flags framesize (unat nbc + 1))) (\<lambda>bc.
      sbind (on_buf (bcread_uv swap (unat sizeuv))) (\<lambda>uv.
      sbind (bcread_kgc (unat sizekgc)) (\<lambda>kgc.
      sbind (on_buf (bcread_knum (unat sizekn))) (\<lambda>kn.
      sbind (if sizedbg \<noteq> 0
             then sbind (on_buf (bcread_dbg swap (sint numline) (unat nbc) (unat sizedbg))) (\<lambda>d.
                  sbind (slift (bcread_varinfo (unat sizeuv) d (sizeli (sint numline) (unat nbc)))) (\<lambda>vi.
                  sret (d, vi)))
             else sret ([], 0)) (\<lambda>(dbg, varinfo).
      sret (Proto \<lparr>p_flags = flags, p_numparams = numparams, p_framesize = framesize, p_bc = bc, p_uv = uv,
                   p_kn = kn, p_trace = 0, p_firstline = firstline, p_numline = numline, p_dbg = dbg,
                   p_varinfo = varinfo, p_chunkname = ls_chunkname ls0\<rparr> kgc))))))))))))))) ls0)"

section \<open>The dump\<close>

definition bcread_header :: "bool lreader" where
  "bcread_header =
     sbind (bcread_want (3 + 5 + 5)) (\<lambda>_.
     sbind (on_buf bcread_byte) (\<lambda>b1. if b1 \<noteq> BCDUMP_HEAD2 then sret False else
     sbind (on_buf bcread_byte) (\<lambda>b2. if b2 \<noteq> BCDUMP_HEAD3 then sret False else
     sbind (on_buf bcread_byte) (\<lambda>b3. if b3 \<noteq> BCDUMP_VERSION then sret False else
     sbind (on_buf bcread_uleb128) (\<lambda>flags.
     sbind (\<lambda>ls. Inr ((), ls\<lparr>ls_level := flags\<rparr>)) (\<lambda>_.
     if flags AND NOT BCDUMP_F_KNOWN \<noteq> 0 then sret False
     else if flags AND BCDUMP_F_FR2 \<noteq> 0 then sret False
     else if flags AND BCDUMP_F_STRIP \<noteq> 0
     then (\<lambda>ls. Inr (True, ls\<lparr>ls_chunkname := the_str (ls_chunkarg ls)\<rparr>))
     else sbind (on_buf bcread_uleb128) (\<lambda>len.
          sbind (bcread_need (unat len)) (\<lambda>_.
          sbind (on_buf (bcread_str (unat len))) (\<lambda>s.
          (\<lambda>ls. Inr (True, ls\<lparr>ls_chunkname := s\<rparr>)))))))))))"

definition push_proto :: "proto \<Rightarrow> unit lreader" where
  "push_proto pt ls =
     (case incr_top (ls_L ls) of
        (Some e, L) \<Rightarrow> Inl e
      | (None, L) \<Rightarrow> Inr ((), ls\<lparr>ls_protos := pt # ls_protos ls, ls_L := L\<rparr>))"

text \<open>One round of the loop over the prototypes; the result says whether it goes on.\<close>

definition bcread_round :: "bool lreader" where
  "bcread_round ls =
     (if ls_buf ls \<noteq> [] \<and> ls_buf ls ! 0 = 0
      then sbind (on_buf bcread_byte) (\<lambda>_. sret False) ls
      else sbind (bcread_want 5) (\<lambda>_.
           sbind (on_buf bcread_uleb128) (\<lambda>len.
           if len = 0 then sret False
           else sbind (bcread_need (unat len)) (\<lambda>_ ls1.
                sbind lj_bcread_proto (\<lambda>pt ls2.
                if length (ls_buf ls2) + unat len \<noteq> length (ls_buf ls1) then bcread_error LJ_ERR_BCBAD
                else sbind (push_proto pt) (\<lambda>_. sret True) ls2) ls1))) ls)"

text \<open>The number of rounds is bounded by the number of bytes there are.\<close>

fun bcread_loop :: "nat \<Rightarrow> lexstate \<Rightarrow> lexstate res" where
  "bcread_loop 0 ls = Inl Undef"
| "bcread_loop (Suc f) ls = rbind (bcread_round ls) (\<lambda>(more, ls). if more then bcread_loop f ls else Inr ls)"

definition avail :: "lexstate \<Rightarrow> nat" where
  "avail ls = length (ls_buf ls) + sum_list (map (\<lambda>c. length (fst c)) (ls_chunks ls))"

definition lj_bcread :: "proto lreader" where
  "lj_bcread ls =
     (let ls = ls\<lparr>ls_lastline := L_top (ls_L ls), ls_sb := lj_buf_reset (ls_sb ls)\<rparr> in
      rbind (bcread_header ls) (\<lambda>(ok, ls).
      if \<not> ok then bcread_error LJ_ERR_BCFMT
      else rbind (bcread_loop (Suc (avail ls)) ls) (\<lambda>ls.
           if 0 < sint (2 * word_of_nat (length (ls_buf ls)) :: u32) \<or> L_top (ls_L ls) - 1 \<noteq> ls_lastline ls
           then bcread_error LJ_ERR_BCBAD
           else rbind (pop_child ls) (\<lambda>(k, ls). case k of KChild pt \<Rightarrow> Inr (pt, ls) | _ \<Rightarrow> Inl Undef))))"

text \<open>A lexer state before a call, with the window and the answers the reader callback will give.\<close>

definition lex_start :: "bytes \<Rightarrow> (bytes \<times> nat) list \<Rightarrow> lexstate" where
  "lex_start buf chunks =
     \<lparr>ls_buf = buf, ls_room = 2 ^ 32 - 1, ls_sb = lj_buf_init, ls_sbroom = 2 ^ 32 - 1, ls_c = 27, ls_chunks = chunks,
      ls_level = 0, ls_chunkname = strempty, ls_chunkarg = [], ls_lastline = 0, ls_protos = [], ls_L = stack_init\<rparr>"

end
