(* ===== verification/Simd.thy ===== *)
theory Simd
  imports Proto
begin

text \<open>
  The vector code of the decompiled functions of \<^verbatim>\<open>src/src/lj_bcread.c\<close>.  A 128-bit register
  is the list of its 16 bytes, the lowest first; the intrinsics of \<^verbatim>\<open>emmintrin.h\<close> and
  \<^verbatim>\<open>tmmintrin.h\<close> are what the compiler documents them to be.
\<close>

section \<open>Intrinsics\<close>

type_synonym m128 = bytes

definition of_u32s :: "u32 list \<Rightarrow> bytes" where "of_u32s ws = concat (map bytes32 ws)"
definition of_u16s :: "u16 list \<Rightarrow> bytes" where "of_u16s ws = concat (map bytes16 ws)"

definition mm_set_epi8 :: "bytes \<Rightarrow> m128" where "mm_set_epi8 bs = rev bs"
definition mm_setzero :: m128 where "mm_setzero = replicate 16 0"
definition mm_and :: "m128 \<Rightarrow> m128 \<Rightarrow> m128" where "mm_and a b = map2 (AND) a b"
definition mm_or :: "m128 \<Rightarrow> m128 \<Rightarrow> m128" where "mm_or a b = map2 (OR) a b"
definition mm_xor :: "m128 \<Rightarrow> m128 \<Rightarrow> m128" where "mm_xor a b = map2 (XOR) a b"

definition mm_add_epi32 :: "m128 \<Rightarrow> m128 \<Rightarrow> m128" where
  "mm_add_epi32 a b = of_u32s (map2 (+) (u32s a) (u32s b))"

definition mm_slli_epi32 :: "m128 \<Rightarrow> nat \<Rightarrow> m128" where
  "mm_slli_epi32 a n = of_u32s (map (push_bit n) (u32s a))"

definition mm_srli_epi16 :: "m128 \<Rightarrow> nat \<Rightarrow> m128" where
  "mm_srli_epi16 a n = of_u16s (map (drop_bit n) (u16s a))"

definition mm_shuffle_epi8 :: "m128 \<Rightarrow> m128 \<Rightarrow> m128" where
  "mm_shuffle_epi8 a m = map (\<lambda>i. if 0x80 \<le> i then 0 else a ! unat (i AND 0x0f)) m"

definition mm_unpacklo_epi16 :: "m128 \<Rightarrow> m128 \<Rightarrow> m128" where
  "mm_unpacklo_epi16 a b = of_u16s (concat (map2 (\<lambda>x y. [x, y]) (take 4 (u16s a)) (take 4 (u16s b))))"

definition mm_unpackhi_epi16 :: "m128 \<Rightarrow> m128 \<Rightarrow> m128" where
  "mm_unpackhi_epi16 a b = of_u16s (concat (map2 (\<lambda>x y. [x, y]) (drop 4 (u16s a)) (drop 4 (u16s b))))"

definition saturate :: "u16 \<Rightarrow> u8" where
  "saturate w = (if sint w < 0 then 0 else if 255 < sint w then 255 else ucast w)"

definition mm_packus_epi16 :: "m128 \<Rightarrow> m128 \<Rightarrow> m128" where
  "mm_packus_epi16 a b = map saturate (u16s a @ u16s b)"

text \<open>Unaligned load and store at a byte offset of a block.\<close>

definition mm_loadu :: "bytes \<Rightarrow> nat \<Rightarrow> m128" where
  "mm_loadu mem i = take 16 (drop i mem)"

definition mm_storeu :: "nat \<Rightarrow> m128 \<Rightarrow> bytes \<Rightarrow> bytes" where
  "mm_storeu i v mem = take i mem @ v @ drop (i + 16) mem"

section \<open>Swapping 16-bit words\<close>

definition xmmword_9B0B0 :: m128 where
  "xmmword_9B0B0 = mm_set_epi8 [0x80, 0x80, 0x80, 0x80, 0x80, 0x80, 0x80, 0x80, 0x0D, 0x0C, 0x09, 0x08, 0x05, 0x04, 0x01, 0x00]"

definition xmmword_9B0C0 :: m128 where
  "xmmword_9B0C0 = mm_set_epi8 [0x0D, 0x0C, 0x09, 0x08, 0x05, 0x04, 0x01, 0x00, 0x80, 0x80, 0x80, 0x80, 0x80, 0x80, 0x80, 0x80]"

definition swap_vector :: "m128 \<Rightarrow> m128" where
  "swap_vector v =
     mm_or (mm_srli_epi16 v 8)
       (mm_or (mm_shuffle_epi8 (mm_slli_epi32 (mm_unpackhi_epi16 v mm_setzero) 8) xmmword_9B0C0)
              (mm_shuffle_epi8 (mm_slli_epi32 (mm_unpacklo_epi16 v mm_setzero) 8) xmmword_9B0B0))"

text \<open>The vector loop: \<open>k\<close> rounds from vector \<open>i\<close> on.\<close>

fun swap_chunks :: "nat \<Rightarrow> nat \<Rightarrow> bytes \<Rightarrow> bytes" where
  "swap_chunks 0 i mem = mem"
| "swap_chunks (Suc k) i mem = swap_chunks k (Suc i) (mm_storeu (16 * i) (swap_vector (mm_loadu mem (16 * i))) mem)"

definition swap_at :: "nat \<Rightarrow> bytes \<Rightarrow> bytes" where
  "swap_at j mem =
     (let w = le16 (mem ! (2 * j)) (mem ! (2 * j + 1)); w = push_bit 8 w OR drop_bit 8 w
      in mem[2 * j := byte_n 0 w, 2 * j + 1 := byte_n 1 w])"

text \<open>The nested conditions behind it: one word, and at most \<open>k\<close> more.\<close>

fun swap_tail :: "nat \<Rightarrow> nat \<Rightarrow> nat \<Rightarrow> bytes \<Rightarrow> bytes" where
  "swap_tail 0 j n mem = swap_at j mem"
| "swap_tail (Suc k) j n mem =
     (let mem = swap_at j mem in if Suc j < n then swap_tail k (Suc j) n mem else mem)"

definition swap16_mod :: "nat \<Rightarrow> bytes \<Rightarrow> bytes" where
  "swap16_mod n mem =
     (let v9 = (n - 8) div 8 + 1 in
      if n - 1 \<le> 6 then swap_tail 6 0 n mem
      else let mem = swap_chunks v9 0 mem in
           if n = 8 * v9 then mem else swap_tail 6 (8 * v9) n mem)"

section \<open>Deobfuscating strings\<close>

definition xmmword_9B270 :: m128 where
  "xmmword_9B270 = mm_set_epi8 [0, 0, 0, 0x03, 0, 0, 0, 0x02, 0, 0, 0, 0x01, 0, 0, 0, 0]"

definition dwords :: "u8 \<Rightarrow> m128" where
  "dwords b = mm_set_epi8 [0, 0, 0, b, 0, 0, 0, b, 0, 0, 0, b, 0, 0, 0, b]"

definition xmmword_9B0D0 :: m128 where
  "xmmword_9B0D0 = mm_set_epi8 [0, 0xFF, 0, 0xFF, 0, 0xFF, 0, 0xFF, 0, 0xFF, 0, 0xFF, 0, 0xFF, 0, 0xFF]"

definition xmmword_9B2B0 :: m128 where
  "xmmword_9B2B0 = mm_set_epi8 (replicate 16 0xFF)"

text \<open>The key of 16 characters from the four counters in \<open>v8\<close>.\<close>

definition key_vector :: "m128 \<Rightarrow> m128" where
  "key_vector v8 =
     (let v11 = mm_and (mm_or (mm_shuffle_epi8 (mm_add_epi32 (dwords 4) v8) xmmword_9B0C0)
                              (mm_shuffle_epi8 v8 xmmword_9B0B0)) xmmword_9B0D0;
          v12 = mm_or (mm_shuffle_epi8 (mm_add_epi32 (dwords 0x0C) v8) xmmword_9B0C0)
                      (mm_shuffle_epi8 (mm_add_epi32 (dwords 8) v8) xmmword_9B0B0)
      in mm_packus_epi16 v11 (mm_and v12 xmmword_9B0D0))"

fun decode_chunks :: "nat \<Rightarrow> nat \<Rightarrow> m128 \<Rightarrow> bytes \<Rightarrow> bytes" where
  "decode_chunks 0 v10 v8 mem = mem"
| "decode_chunks (Suc k) v10 v8 mem =
     decode_chunks k (Suc v10) (mm_add_epi32 v8 (dwords 0x10))
       (mm_storeu (16 * v10) (mm_xor (mm_xor (key_vector v8) (mm_loadu mem (16 * v10))) xmmword_9B2B0) mem)"

definition decode_at :: "nat \<Rightarrow> bytes \<Rightarrow> bytes" where
  "decode_at j mem = mem[j := NOT ((mem ! j) XOR word_of_nat j)]"

fun decode_tail :: "nat \<Rightarrow> nat \<Rightarrow> nat \<Rightarrow> bytes \<Rightarrow> bytes" where
  "decode_tail 0 j n mem = decode_at j mem"
| "decode_tail (Suc k) j n mem =
     (let mem = decode_at j mem in if Suc j < n then decode_tail k (Suc j) n mem else mem)"

definition decode_str :: "bytes \<Rightarrow> bytes" where
  "decode_str mem =
     (let len = length mem; v7 = (len - 16) div 16 + 1 in
      if len = 0 then mem
      else if len - 1 \<le> 0xE then decode_tail 14 0 len mem
      else let mem = decode_chunks v7 0 xmmword_9B270 mem in
           if len \<noteq> 16 * v7 then decode_tail 14 (16 * v7) len mem else mem)"

section \<open>Deobfuscating instructions\<close>

text \<open>
  The compiler's division by 253: a multiplication whose high half is added and shifted.
  The remainders of non-negative numbers are \<open>mod\<close>.
\<close>

definition hi253 :: "int \<Rightarrow> int" where
  "hi253 v =
     sint (signed_drop_bit 7 (ucast (word_of_int v + drop_bit 32 (word_of_int (-2122019415 * v)) :: u64) :: u32))"

definition u8i :: "int \<Rightarrow> int" where
  "u8i v = uint (word_of_int v :: u8)"

definition decode_op :: "u8 \<Rightarrow> u8" where
  "decode_op b =
     (let v32 = uint b;
          v34 = v32 - 253 * hi253 v32;
          v35 = u8i (v34 * v34 mod 253) * u8i (v34 * v34 mod 253);
          v36 = u8i (v35 - -3 * hi253 v35);
          v37 = u8i (v36 * v36 - -3 * hi253 (v36 * v36));
          v38 = v32 * (v37 * v37 - 253 * hi253 (v37 * v37));
          v39 = u8i (v38 mod 253) * u8i (v38 mod 253);
          v40 = v32 * (v39 - 253 * hi253 v39);
          v41 = u8i (v40 mod 253) * u8i (v40 mod 253)
      in word_of_int ((v41 - 253 * hi253 v41) * v32 mod 253))"

definition decode_ins :: "u8 \<Rightarrow> u32 \<Rightarrow> u32" where
  "decode_ins v65 w =
     (let v33 = byte_n 0 w in
      le32 (decode_op v33) (byte_n 1 w XOR (v65 XOR v33)) (byte_n 2 w XOR v65) (NOT (byte_n 3 w)))"

fun decode_bc :: "u8 \<Rightarrow> u32 list \<Rightarrow> u32 list" where
  "decode_bc v65 [] = []"
| "decode_bc v65 (w # ws) = decode_ins v65 w # decode_bc (v65 + 1) ws"

end
