(* ===== verification/BcreadMod.thy ===== *)
theory BcreadMod
  imports Bcread Simd
begin

text \<open>
  The reader of obfuscated dumps: the decompiled functions of \<^verbatim>\<open>src/src/lj_bcread.c\<close>, from
  \<^verbatim>\<open>bcread_error_mod\<close> to \<^verbatim>\<open>lj_bcread_mod\<close>.  Copies go in pieces up to an eight-byte boundary of
  the destination, so the addresses of the blocks are a parameter: the block of the buffer,
  of a prototype, and for each of the two its offsets.  Where the code passes
  \<^verbatim>\<open>(lua_State *)(ls + 4)\<close>, an address inside the lexer state, as the Lua state, any use of it
  is \<open>Undef\<close>.
\<close>

record blocks =
  blk_buf :: "SBuf \<Rightarrow> u32"
  blk_pt :: "lexstate \<Rightarrow> u32"

section \<open>Errors and input\<close>

text \<open>The name in front of the message; \<^verbatim>\<open>++a2\<close> is followed by the report.\<close>

definition bcread_error_mod_name :: "bytes \<Rightarrow> bytes" where
  "bcread_error_mod_name a2 =
     (case a2 of
        [] \<Rightarrow> []
      | v4 # rest \<Rightarrow>
          if v4 = 88 then [0x28, 0x62, 0x69, 0x6e, 0x61, 0x72, 0x79, 0x29]
          else if v4 = 61 \<or> v4 = 64 then rest else a2)"

definition bcread_error_mod :: "nat \<Rightarrow> 'a res" where
  "bcread_error_mod a3 = Inl (Throw (Err_offset a3))"

definition need2 :: "SBuf \<Rightarrow> nat \<Rightarrow> SBuf res" where
  "need2 sb len = (if sbufsz sb < len then lj_buf_need2 sb len else Inr sb)"

definition fill_mod_keep :: "blocks \<Rightarrow> nat \<Rightarrow> lexstate \<Rightarrow> lexstate res" where
  "fill_mod_keep b len ls =
     (let n = length (ls_buf ls) in
      if n \<noteq> 0
      then if sbuflen (ls_sb ls) = 0
           then rbind (need2 (ls_sb ls) len) (\<lambda>sb.
                rbind (in_range (n \<le> sbufsz sb)) (\<lambda>_.
                let p = aligned_copy (blk_buf b sb) (ls_buf ls)
                in Inr (ls\<lparr>ls_sb := sb\<lparr>sb_data := p\<rparr>, ls_buf := p, ls_room := ls_sbroom ls\<rparr>)))
           else rbind (in_range (n \<le> sbufsz (ls_sb ls))) (\<lambda>_.
                Inr (ls\<lparr>ls_sb := (ls_sb ls)\<lparr>sb_data := ls_buf ls\<rparr>, ls_room := ls_sbroom ls\<rparr>))
      else Inr (ls\<lparr>ls_sb := (ls_sb ls)\<lparr>sb_data := []\<rparr>\<rparr>))"

definition fill_mod_append :: "blocks \<Rightarrow> nat \<Rightarrow> bytes \<times> nat \<Rightarrow> lexstate \<Rightarrow> lexstate res" where
  "fill_mod_append b len chunk ls =
     (let n = length (ls_buf ls); sz = length (fst chunk) in
      if n \<noteq> 0
      then rbind (need2 (ls_sb ls) (if len \<le> sz + n then sz + n else len)) (\<lambda>sb.
           rbind (in_range (sz + n \<le> sbufsz sb)) (\<lambda>_.
           let buf = ls_buf ls @ aligned_copy (blk_buf b sb + word_of_nat n) (fst chunk) in
           Inr (ls\<lparr>ls_sb := sb\<lparr>sb_data := buf\<rparr>, ls_buf := buf, ls_room := ls_sbroom ls\<rparr>)))
      else Inr (ls\<lparr>ls_buf := fst chunk, ls_room := snd chunk\<rparr>))"

fun fill_mod_loop :: "blocks \<Rightarrow> nat \<Rightarrow> bool \<Rightarrow> (bytes \<times> nat) list \<Rightarrow> lexstate \<Rightarrow> lexstate res" where
  "fill_mod_loop b len a4 [] ls =
     rbind (fill_mod_keep b len ls) (\<lambda>ls.
     if a4 then bcread_error_mod 2972 else Inr (ls\<lparr>ls_c := - 1, ls_chunks := []\<rparr>))"
| "fill_mod_loop b len a4 (chunk # chunks) ls =
     rbind (fill_mod_keep b len ls) (\<lambda>ls.
     if fst chunk = []
     then if a4 then bcread_error_mod 2972 else Inr (ls\<lparr>ls_c := - 1, ls_chunks := chunks\<rparr>)
     else rbind (fill_mod_append b len chunk ls) (\<lambda>ls.
          if needs len ls then fill_mod_loop b len a4 chunks ls else Inr (ls\<lparr>ls_chunks := chunks\<rparr>)))"

text \<open>\<^verbatim>\<open>a1[8]\<close> is \<^verbatim>\<open>ls->c\<close> as a \<^verbatim>\<open>_DWORD\<close>, which is unsigned: the test for less than 0 is never true.\<close>

definition bcread_fill_mod :: "blocks \<Rightarrow> nat \<Rightarrow> bool \<Rightarrow> lexstate \<Rightarrow> lexstate res" where
  "bcread_fill_mod b a2 a4 ls =
     (if 0x7FFFFF00 < a2 \<or> (word_of_int (ls_c ls) :: u32) < 0 then bcread_error_mod 2972
      else fill_mod_loop b a2 a4 (ls_chunks ls) ls)"

text \<open>The checks in front of its calls, with \<open>a4\<close> for ``must be there''.\<close>

definition fill_if_short :: "blocks \<Rightarrow> nat \<Rightarrow> bool \<Rightarrow> unit lreader" where
  "fill_if_short b len a4 ls =
     (if needs len ls then rbind (bcread_fill_mod b len a4 ls) (\<lambda>ls. Inr ((), ls)) else Inr ((), ls))"

text \<open>The object \<^verbatim>\<open>lj_str_new_mod\<close> returns for a content.\<close>

definition the_str_mod :: "bytes \<Rightarrow> gcstr" where
  "the_str_mod s = (if s = [] then strempty else \<lparr>s_hash = hash_str s, s_data = s\<rparr>)"

definition str_mod :: "bytes \<Rightarrow> gcstr res" where
  "str_mod s = (if 0x7FFFFEFF < length s then Inl (Throw LJ_ERR_STROV) else Inr (the_str_mod s))"

section \<open>Debug information and upvalues\<close>

definition swap32_mod :: "nat \<Rightarrow> bytes \<Rightarrow> bytes" where
  "swap32_mod n mem = concat (map (\<lambda>w. bytes32 (byteswap_ulong w)) (u32s (take (4 * n) mem))) @ drop (4 * n) mem"

text \<open>\<open>numline\<close> is unsigned here; \<open>n\<close> is \<^verbatim>\<open>sizebc - 1\<close>.\<close>

definition bcread_dbg_mod :: "u32 \<Rightarrow> bool \<Rightarrow> u32 \<Rightarrow> nat \<Rightarrow> nat \<Rightarrow> bytes reader" where
  "bcread_dbg_mod dst swap numline n sizedbg =
     sbind (getn sizedbg) (\<lambda>src.
     let mem = aligned_copy dst src in
     if swap \<and> 255 < numline
     then if 0xFFFF < numline
          then if n \<noteq> 0
               then sbind (slift (in_range (4 * n \<le> sizedbg))) (\<lambda>_. sret (swap32_mod n mem))
               else sret mem
          else if n = 0 then sret mem
          else sbind (slift (in_range (2 * n \<le> sizedbg))) (\<lambda>_. sret (swap16_mod n mem))
     else sret mem)"

definition bcread_uv_mod :: "u32 \<Rightarrow> bool \<Rightarrow> nat \<Rightarrow> u16 list reader" where
  "bcread_uv_mod dst swap sizeuv =
     sbind (getn (2 * sizeuv)) (\<lambda>src.
     let mem = aligned_copy dst src in
     sret (u16s (if swap \<and> sizeuv \<noteq> 0 then swap16_mod sizeuv mem else mem)))"

section \<open>Constants\<close>

text \<open>
  \<^verbatim>\<open>lj_tab_set\<close> with a wild Lua state: it is used when the insertion rehashes and when the
  key is not allowed.
\<close>

definition no_room :: "GCtab \<Rightarrow> TValue \<Rightarrow> bool" where
  "no_room t key =
     ((n_val (t_node t ! hashkey t key) \<noteq> VNil \<or> t_hmask t = 0) \<and> find_free (t_node t) (t_freetop t) = None)"

definition newkey_wild :: newkey where
  "newkey_wild t key = (if no_room t key then Inl Undef else lj_tab_newkey t key)"

definition set_wild :: tabset where
  "set_wild t key = (case set_with newkey_wild t key of Inl e \<Rightarrow> Inl Undef | Inr r \<Rightarrow> Inr r)"

definition hbits_mod :: "u32 \<Rightarrow> nat" where
  "hbits_mod nhash =
     (if nhash = 1 then 1
      else case BitScanReverse (nhash - 1) of Some i \<Rightarrow> i + 1 | None \<Rightarrow> unat nhash + 1)"

definition ktab_mod :: "GCtab reader" where
  "ktab_mod =
     sbind lj_buf_ruleb128 (\<lambda>narray.
     sbind lj_buf_ruleb128 (\<lambda>nhash.
     sbind (slift (lj_tab_new (unat narray) (if nhash = 0 then 0 else hbits_mod nhash))) (\<lambda>t.
     sbind (if narray \<noteq> 0 then sbind (read_n bcread_ktabk (unat narray)) (\<lambda>vs. sret (t\<lparr>t_array := vs\<rparr>)) else sret t)
       (\<lambda>t. if nhash \<noteq> 0 then ktab_hash set_wild (unat nhash) t else sret t))))"

definition pop_child_mod :: "kgc lreader" where
  "pop_child_mod ls =
     (if L_top (ls_L ls) \<le> ls_lastline ls then bcread_error_mod 2972
      else case ls_protos ls of
             [] \<Rightarrow> Inl Undef
           | pt # pts \<Rightarrow>
               Inr (KChild pt, ls\<lparr>ls_protos := pts, ls_L := (ls_L ls)\<lparr>L_top := L_top (ls_L ls) - 1\<rparr>\<rparr>))"

text \<open>
  Constants of C types are allocated with \<^verbatim>\<open>(lua_State *)(ls + 4)\<close>.  \<^verbatim>\<open>lj_mem_newgco\<close> begins with
  \<^verbatim>\<open>G(L)\<close>, the word 8 bytes behind its argument.  The lexer state is a local variable of
  \<^verbatim>\<open>lua_loadx\<close>; \<open>lex_words\<close> are the words of it that are written before the constants are read: by
  \<^verbatim>\<open>lua_loadx\<close> and \<^verbatim>\<open>lj_buf_init\<close>, by \<^verbatim>\<open>lj_lex_setup_mod\<close>, and by \<^verbatim>\<open>lj_bcread_mod\<close>.  Reading any
  other is \<open>Undef\<close>.
\<close>

definition lex_words :: "nat list" where
  "lex_words = [11, 12, 13, 14, 15, 16, 20, 21] @ [0, 1, 6, 7, 22, 23, 24, 25, 26, 9, 10, 17, 18, 8] @ [18, 11, 6, 7, 8, 27, 19]"

definition newgco_in_lexer :: "nat \<Rightarrow> unit lreader" where
  "newgco_in_lexer ofs = slift (in_range ((ofs + 8) div 4 \<in> set lex_words))"

definition kcdata_mod :: "u32 \<Rightarrow> kgc lreader" where
  "kcdata_mod tp =
     (if tp = 4
      then sbind (newgco_in_lexer 4) (\<lambda>_.
           sbind (on_buf lj_buf_ruleb128) (\<lambda>lo0. sbind (on_buf lj_buf_ruleb128) (\<lambda>hi0.
           sbind (on_buf lj_buf_ruleb128) (\<lambda>lo1. sbind (on_buf lj_buf_ruleb128) (\<lambda>hi1.
           sret (KCdata 16 [num_lohi lo0 hi0, num_lohi lo1 hi1]))))))
      else let v14 = (if tp \<noteq> 2 then 1 else 0) + 11 in
           sbind (newgco_in_lexer 4) (\<lambda>_.
           sbind (on_buf lj_buf_ruleb128) (\<lambda>lo. sbind (on_buf lj_buf_ruleb128) (\<lambda>hi.
           sret (KCdata v14 [num_lohi lo hi])))))"

definition kgc_mod_one :: "kgc lreader" where
  "kgc_mod_one =
     sbind (on_buf lj_buf_ruleb128) (\<lambda>tp.
     if 4 < tp
     then sbind (on_buf (getn (unat (tp - 5)))) (\<lambda>v5.
          sbind (slift (str_mod (decode_str v5))) (\<lambda>s. sret (KStr s)))
     else if tp \<noteq> 1
     then if tp \<noteq> 0 then kcdata_mod tp else pop_child_mod
     else sbind (on_buf ktab_mod) (\<lambda>t. sret (KTab t)))"

definition bcread_kgc_mod :: "nat \<Rightarrow> kgc list lreader" where
  "bcread_kgc_mod sizekgc = stimes sizekgc kgc_mod_one"

text \<open>The 33-bit numbers once more: \<open>v16\<close> is the value, \<open>v15\<close> the shift.\<close>

fun knum_mod_loop :: "u32 \<Rightarrow> int \<Rightarrow> u32 reader" where
  "knum_mod_loop v16 v15 [] = Inl Undef"
| "knum_mod_loop v16 v15 (v17 # ps) =
     (let v15 = v15 + 7 in
      if 32 \<le> v15 then Inl Undef
      else let v16 = v16 OR push_bit (nat v15) (ucast (v17 AND 0x7F)) in
           if sint v17 < 0 then knum_mod_loop v16 v15 ps else Inr (v16, ps))"

fun knum_mod_one :: "u64 reader" where
  "knum_mod_one [] = Inl Undef"
| "knum_mod_one (v7 # ps) =
     (let v18 = v7 AND 1; v10 = drop_bit 1 v7 in
      rbind (if 0x3F < v10 then knum_mod_loop (ucast (v10 AND 0x3F)) (- 1) ps else Inr (ucast v10, ps)) (\<lambda>(lo, ps).
      if v18 \<noteq> 0 then rbind (lj_buf_ruleb128 ps) (\<lambda>(hi, ps). Inr (num_lohi lo hi, ps))
      else Inr (int2num lo, ps)))"

definition bcread_knum_mod :: "nat \<Rightarrow> u64 list reader" where
  "bcread_knum_mod sizekn = read_n knum_mod_one sizekn"

section \<open>Prototypes\<close>

definition bytecode_mod :: "u32 \<Rightarrow> bool \<Rightarrow> u8 \<Rightarrow> u8 \<Rightarrow> nat \<Rightarrow> u32 list reader" where
  "bytecode_mod dst swap flags framesize v67 =
     sbind (getn (4 * v67)) (\<lambda>src.
     let mem = aligned_copy dst src;
         bc0 = (if flags AND 2 < 1 then 89 else 92) OR push_bit 8 (ucast framesize);
         ws = (if swap \<and> 1 < v67 + 1 then map byteswap_ulong (u32s mem) else u32s mem)
     in sret (bc0 # decode_bc 0 ws))"

definition proto_size_mod :: "nat \<Rightarrow> nat \<Rightarrow> nat \<Rightarrow> u8 \<Rightarrow> nat \<Rightarrow> nat" where
  "proto_size_mod sizebc sizekgc sizekn sizeuv sizedbg =
     (let ofsk = (4 * (sizebc + sizekgc + 16) + 7) div 8 * 8;
          ofsuv = ofsk + 8 * sizekn
      in ofsuv + unat ((2 * ucast sizeuv + 2) AND 0x3FC :: u32) + sizedbg)"

definition proto_mod :: "blocks \<Rightarrow> proto lreader" where
  "proto_mod b ls0 =
     (let lflags = ls_level ls0; swap = (lflags AND 1 \<noteq> 0); pt = blk_pt b ls0 in
      sbind (on_buf get1) (\<lambda>b0. let framesize = b0 XOR 0xE9; v18 = ucast framesize :: u32 in
      sbind (on_buf get1) (\<lambda>b1. let flags = b1 XOR framesize in
      sbind (on_buf get1) (\<lambda>b2. let numparams = b2 XOR framesize in
      sbind (on_buf lj_buf_ruleb128) (\<lambda>u. let v67 = u - v18 in
      sbind (on_buf lj_buf_ruleb128) (\<lambda>u. let sizekn = u - v18 in
      sbind (on_buf get1) (\<lambda>b19. let sizeuv = b19 XOR framesize in
      sbind (on_buf lj_buf_ruleb128) (\<lambda>u. let sizekgc = u - v18 in
      sbind (if lflags AND 2 \<noteq> 0 then sret (0, 0, 0)
             else sbind (on_buf lj_buf_ruleb128) (\<lambda>sizedbg.
                  if sizedbg \<noteq> 0
                  then sbind (on_buf lj_buf_ruleb128) (\<lambda>v78.
                       sbind (on_buf lj_buf_ruleb128) (\<lambda>v73. sret (sizedbg, v78, v73)))
                  else sret (sizedbg, 0, 0))) (\<lambda>(sizedbg, v78, v73).
      let ofsk = (4 * (v67 + 1 + sizekgc + 16) + 7) AND 0xFFFFFFF8;
          ofsuv = ofsk + 8 * sizekn;
          ofsdbg = ofsuv + ((2 * ucast sizeuv + 2) AND 0x3FC) in
      sbind (slift (in_range (proto_size_mod (unat v67 + 1) (unat sizekgc) (unat sizekn) sizeuv (unat sizedbg) < 2 ^ 32))) (\<lambda>_.
      sbind (if sizeuv \<noteq> 0 then on_buf (bcread_uv_mod (pt + ofsuv) swap (unat sizeuv)) else sret []) (\<lambda>uv.
      sbind (on_buf (bytecode_mod (pt + 68) swap flags framesize (unat v67))) (\<lambda>bc.
      sbind (on_buf (bcread_knum_mod (unat sizekn))) (\<lambda>kn.
      sbind (bcread_kgc_mod (unat sizekgc)) (\<lambda>kgc.
      sbind (if sizedbg \<noteq> 0
             then sbind (on_buf (bcread_dbg_mod (pt + ofsdbg) swap v73 (unat v67) (unat sizedbg))) (\<lambda>d.
                  let v42 = (if 255 < sint v73 then (if 0x10000 \<le> sint v73 then 1 else 0) + 1 else 0);
                      uvinfo = unat v67 * 2 ^ v42 in
                  sbind (slift (skip_names (unat sizeuv) (drop uvinfo d) uvinfo)) (\<lambda>vi. sret (d, vi)))
             else sret ([], 0)) (\<lambda>(dbg, varinfo).
      sret (Proto \<lparr>p_flags = flags, p_numparams = numparams, p_framesize = framesize, p_bc = bc, p_uv = uv,
                   p_kn = kn, p_trace = 0, p_firstline = v78, p_numline = v73, p_dbg = dbg,
                   p_varinfo = varinfo, p_chunkname = ls_chunkname ls0\<rparr> kgc))))))))))))))) ls0)"

section \<open>The dump\<close>

definition header_mod :: "blocks \<Rightarrow> unit lreader" where
  "header_mod b =
     sbind (fill_if_short b 0xD False) (\<lambda>_.
     sbind (on_buf get1) (\<lambda>v3. if v3 \<noteq> 65 then slift (bcread_error_mod 2938) else
     sbind (on_buf get1) (\<lambda>v3. if v3 \<noteq> 78 then slift (bcread_error_mod 2938) else
     sbind (on_buf get1) (\<lambda>v3. if v3 \<noteq> 65 then slift (bcread_error_mod 2938) else
     sbind (on_buf lj_buf_ruleb128) (\<lambda>h_flags.
     sbind (\<lambda>ls. Inr ((), ls\<lparr>ls_level := h_flags\<rparr>)) (\<lambda>_.
     if h_flags AND 0xFFFFFFF8 \<noteq> 0 then slift (bcread_error_mod 2938)
     else sbind (if h_flags AND 2 \<noteq> 0
                 then (\<lambda>ls. rbind (str_mod (ls_chunkarg ls)) (\<lambda>s. Inr (s, ls)))
                 else sbind (on_buf lj_buf_ruleb128) (\<lambda>v8.
                      sbind (fill_if_short b (unat v8) True) (\<lambda>_.
                      if 0x7FFFFEFF < v8 then slift (Inl (Throw LJ_ERR_STROV))
                      else sbind (on_buf (getn (unat v8))) (\<lambda>v9. slift (str_mod v9)))))
          (\<lambda>v11 ls. Inr ((), ls\<lparr>ls_chunkname := v11\<rparr>))))))))"

text \<open>
  A length of zero ends the loop by the way of a comparison on unsigned numbers, which takes any
  input behind it for an error.
\<close>

definition round_mod :: "blocks \<Rightarrow> bool lreader" where
  "round_mod b ls =
     (if ls_buf ls \<noteq> [] \<and> ls_buf ls ! 0 = 0
      then sbind (on_buf get1) (\<lambda>_. sret False) ls
      else sbind (fill_if_short b 5 False) (\<lambda>_.
           sbind (on_buf lj_buf_ruleb128) (\<lambda>v15.
           if v15 = 0
           then (\<lambda>ls. if (2 * word_of_nat (length (ls_buf ls)) :: u32) \<le> 0 then Inr (False, ls) else bcread_error_mod 2972)
           else sbind (fill_if_short b (unat v15) True) (\<lambda>_ ls1.
                sbind (proto_mod b) (\<lambda>pt ls2.
                if length (ls_buf ls2) + unat v15 \<noteq> length (ls_buf ls1) then bcread_error_mod 2972
                else sbind (push_proto pt) (\<lambda>_. sret True) ls2) ls1))) ls)"

fun loop_mod :: "blocks \<Rightarrow> nat \<Rightarrow> lexstate \<Rightarrow> lexstate res" where
  "loop_mod b 0 ls = Inl Undef"
| "loop_mod b (Suc f) ls = rbind (round_mod b ls) (\<lambda>(more, ls). if more then loop_mod b f ls else Inr ls)"

definition lj_bcread_mod :: "blocks \<Rightarrow> proto lreader" where
  "lj_bcread_mod b ls =
     (let ls = ls\<lparr>ls_lastline := L_top (ls_L ls), ls_sb := lj_buf_reset (ls_sb ls)\<rparr> in
      rbind (header_mod b ls) (\<lambda>(_, ls).
      rbind (loop_mod b (Suc (avail ls)) ls) (\<lambda>ls.
      if 0 < sint (2 * word_of_nat (length (ls_buf ls)) :: u32) \<or> L_top (ls_L ls) - 1 \<noteq> ls_lastline ls
      then bcread_error_mod 2972
      else rbind (pop_child_mod ls) (\<lambda>(k, ls). case k of KChild pt \<Rightarrow> Inr (pt, ls) | _ \<Rightarrow> Inl Undef))))"

end
