(* ===== verification/SimdProps.thy ===== *)
theory SimdProps
  imports Simd
begin

text \<open>
  The vector code computes what its loops without vectors say: swapping every 16-bit word,
  and complementing every character after an exclusive or with its index.
\<close>

section \<open>Words in memory\<close>

lemma u32s_of_u32s [simp]: "u32s (of_u32s ws) = ws"
  by (simp add: of_u32s_def)

lemma u16s_of_u16s [simp]: "u16s (of_u16s ws) = ws"
  by (simp add: of_u16s_def)

lemma length_of_u16s [simp]: "length (of_u16s ws) = 2 * length ws"
  by (induction ws) (simp_all add: of_u16s_def)

lemma of_u16s_append: "of_u16s (xs @ ys) = of_u16s xs @ of_u16s ys"
  by (simp add: of_u16s_def)

lemma of_u16s_u16s: "even (length bs) \<Longrightarrow> of_u16s (u16s bs) = bs"
  by (induction bs rule: u16s.induct) (simp_all add: of_u16s_def bytes16_def)

lemma length_u16s [simp]: "length (u16s bs) = length bs div 2"
  by (induction bs rule: u16s.induct) simp_all

lemma u16s_nth: "j < length bs div 2 \<Longrightarrow> u16s bs ! j = le16 (bs ! (2 * j)) (bs ! (2 * j + 1))"
proof (induction bs arbitrary: j rule: u16s.induct)
  case (1 a b bs)
  then show ?case by (cases j) simp_all
qed simp_all

definition swap16w :: "u16 \<Rightarrow> u16" where
  "swap16w w = drop_bit 8 w OR push_bit 8 w"

lemma swap16w_bytes: "swap16w (le16 a b) = le16 b a"
proof (rule bit_word_eqI)
  fix i assume "i < LENGTH(16)"
  then show "bit (swap16w (le16 a b)) i = bit (le16 b a) i"
    by (cases "i < 8") (auto simp: swap16w_def le16_def bit_simps dest: bit_imp_le_length)
qed

lemma bytes16_le16 [simp]: "bytes16 (le16 a b) = [a, b]"
  by (simp add: bytes16_def)

section \<open>Swapping words\<close>

lemma list16:
  assumes "length v = 16"
  shows "v = [v ! 0, v ! 1, v ! 2, v ! 3, v ! 4, v ! 5, v ! 6, v ! 7, v ! 8, v ! 9, v ! 10, v ! 11, v ! 12, v ! 13, v ! 14, v ! 15]"
proof -
  have "[0..<16] = [0, 1, 2, 3, 4, 5, 6, 7, 8, 9, 10, 11, 12, 13, 14, 15]"
    by code_simp
  then show ?thesis using map_nth [of v] unfolding assms by simp
qed

lemma dword_shift: "bytes32 (push_bit 8 (le32 a b 0 0)) = [0, a, b, 0]"
proof -
  have "push_bit 8 (le32 a b 0 0) = le32 0 a b 0"
  proof (rule bit_word_eqI)
    fix i assume "i < LENGTH(32)"
    then have "i < 8 \<or> (8 \<le> i \<and> i < 16) \<or> (16 \<le> i \<and> i < 24) \<or> (24 \<le> i \<and> i < 32)" by auto
    then show "bit (push_bit 8 (le32 a b 0 0)) i = bit (le32 0 a b 0) i"
      by (elim disjE) (auto simp: le32_def bit_simps dest: bit_imp_le_length)
  qed
  then show ?thesis by (simp add: bytes32_def)
qed

lemma word_shift: "bytes16 (drop_bit 8 (le16 a b)) = [b, 0]"
proof -
  have "drop_bit 8 (le16 a b) = le16 b 0"
  proof (rule bit_word_eqI)
    fix i assume "i < LENGTH(16)"
    then show "bit (drop_bit 8 (le16 a b)) i = bit (le16 b 0) i"
      by (cases "i < 8") (auto simp: le16_def bit_simps dest: bit_imp_le_length)
  qed
  then show ?thesis by simp
qed

lemma shuffles:
  shows "mm_shuffle_epi8 [a0, a1, a2, a3, a4, a5, a6, a7, a8, a9, a10, a11, a12, a13, a14, a15] xmmword_9B0B0 = [a0, a1, a4, a5, a8, a9, a12, a13, 0, 0, 0, 0, 0, 0, 0, 0]"
    "mm_shuffle_epi8 [a0, a1, a2, a3, a4, a5, a6, a7, a8, a9, a10, a11, a12, a13, a14, a15] xmmword_9B0C0 = [0, 0, 0, 0, 0, 0, 0, 0, a0, a1, a4, a5, a8, a9, a12, a13]"
  by (simp_all add: mm_shuffle_epi8_def xmmword_9B0B0_def xmmword_9B0C0_def mm_set_epi8_def word_le_nat_alt)

lemma zero16: "mm_setzero = [0, 0, 0, 0, 0, 0, 0, 0, 0, 0, 0, 0, 0, 0, 0, 0]"
  by (simp add: mm_setzero_def eval_nat_numeral)

lemma le16_zero [simp]: "le16 0 0 = 0"
  by (simp add: le16_def)

lemma unpacks:
  shows "mm_unpacklo_epi16 [a0, a1, a2, a3, a4, a5, a6, a7, a8, a9, a10, a11, a12, a13, a14, a15] mm_setzero = [a0, a1, 0, 0, a2, a3, 0, 0, a4, a5, 0, 0, a6, a7, 0, 0]"
    "mm_unpackhi_epi16 [a0, a1, a2, a3, a4, a5, a6, a7, a8, a9, a10, a11, a12, a13, a14, a15] mm_setzero = [a8, a9, 0, 0, a10, a11, 0, 0, a12, a13, 0, 0, a14, a15, 0, 0]"
  by (simp_all add: mm_unpacklo_epi16_def mm_unpackhi_epi16_def zero16 of_u16s_def)
     (simp_all add: bytes16_def byte_n_def)

lemma shift_dwords:
  "mm_slli_epi32 [a0, a1, 0, 0, a2, a3, 0, 0, a4, a5, 0, 0, a6, a7, 0, 0] 8 =
   [0, a0, a1, 0, 0, a2, a3, 0, 0, a4, a5, 0, 0, a6, a7, 0]"
  by (simp add: mm_slli_epi32_def of_u32s_def dword_shift)

lemma swap_vector_16:
  "swap_vector [a0, a1, a2, a3, a4, a5, a6, a7, a8, a9, a10, a11, a12, a13, a14, a15] =
   [a1, a0, a3, a2, a5, a4, a7, a6, a9, a8, a11, a10, a13, a12, a15, a14]"
  by (simp add: swap_vector_def unpacks shift_dwords shuffles mm_srli_epi16_def mm_or_def of_u16s_def word_shift)

lemma swap_vector_map:
  assumes "length v = 16"
  shows "swap_vector v = of_u16s (map swap16w (u16s v))"
  by (subst (1 2) list16 [OF assms]) (simp only: swap_vector_16, simp add: of_u16s_def swap16w_bytes)

text \<open>Swapping \<open>k\<close> words of a block from word \<open>i\<close> on, and how pieces of it compose.\<close>

definition swap_words :: "nat \<Rightarrow> nat \<Rightarrow> bytes \<Rightarrow> bytes" where
  "swap_words i k mem =
     take (2 * i) mem @ of_u16s (map swap16w (u16s (take (2 * k) (drop (2 * i) mem)))) @ drop (2 * (i + k)) mem"

lemma u16s_append: "even (length xs) \<Longrightarrow> u16s (xs @ ys) = u16s xs @ u16s ys"
  by (induction xs rule: u16s.induct) simp_all

lemma swap_words_append:
  "length a = 2 * i \<Longrightarrow> length b = 2 * k \<Longrightarrow>
   swap_words i k (a @ b @ c) = a @ of_u16s (map swap16w (u16s b)) @ c"
  by (simp add: swap_words_def)

lemma length_swap_words: "2 * (i + k) \<le> length mem \<Longrightarrow> length (swap_words i k mem) = length mem"
proof -
  assume l: "2 * (i + k) \<le> length mem"
  then have "length (take (2 * i) mem) = 2 * i" "length (take (2 * k) (drop (2 * i) mem)) = 2 * k" by simp_all
  then show ?thesis using l unfolding swap_words_def by (simp only: length_append length_of_u16s length_map length_u16s length_drop) simp
qed

lemma swap_words_comp:
  assumes "2 * (i + k + m) \<le> length mem"
  shows "swap_words (i + k) m (swap_words i k mem) = swap_words i (k + m) mem"
proof -
  define a where "a = take (2 * i) mem"
  define b where "b = take (2 * k) (drop (2 * i) mem)"
  define c where "c = take (2 * m) (drop (2 * (i + k)) mem)"
  define d where "d = drop (2 * (i + k + m)) mem"
  have l: "length a = 2 * i" "length b = 2 * k" "length c = 2 * m"
    using assms by (simp_all add: a_def b_def c_def)
  have mem: "mem = a @ b @ c @ d"
    using append_take_drop_id [of "2 * i" mem] append_take_drop_id [of "2 * k" "drop (2 * i) mem"]
      append_take_drop_id [of "2 * m" "drop (2 * (i + k)) mem"]
    by (simp add: a_def b_def c_def d_def algebra_simps)
  have 1: "swap_words i k mem = a @ of_u16s (map swap16w (u16s b)) @ c @ d"
    unfolding mem using l(1,2) by (rule swap_words_append)
  have "swap_words (i + k) m ((a @ of_u16s (map swap16w (u16s b))) @ c @ d) =
      (a @ of_u16s (map swap16w (u16s b))) @ of_u16s (map swap16w (u16s c)) @ d"
    by (rule swap_words_append) (simp_all add: l)
  moreover have "swap_words i (k + m) (a @ (b @ c) @ d) = a @ of_u16s (map swap16w (u16s (b @ c))) @ d"
    by (rule swap_words_append) (simp_all add: l)
  ultimately show ?thesis unfolding 1 unfolding mem by (simp add: u16s_append l of_u16s_append)
qed

lemma swap_chunk:
  assumes "16 * i + 16 \<le> length mem"
  shows "mm_storeu (16 * i) (swap_vector (mm_loadu mem (16 * i))) mem = swap_words (8 * i) 8 mem"
proof -
  have "length (mm_loadu mem (16 * i)) = 16" using assms by (simp add: mm_loadu_def)
  then show ?thesis by (simp add: swap_vector_map mm_storeu_def swap_words_def mm_loadu_def)
qed

lemma swap_chunks_words:
  "16 * (i + k) \<le> length mem \<Longrightarrow> swap_chunks k i mem = swap_words (8 * i) (8 * k) mem"
proof (induction k arbitrary: i mem)
  case 0
  then show ?case by (simp add: swap_words_def of_u16s_def)
next
  case (Suc k)
  have "swap_chunks (Suc k) i mem = swap_chunks k (Suc i) (swap_words (8 * i) 8 mem)"
    using Suc.prems by (simp add: swap_chunk)
  also have "\<dots> = swap_words (8 * i + 8) (8 * k) (swap_words (8 * i) 8 mem)"
    using Suc.prems by (subst Suc.IH) (simp_all add: length_swap_words add.commute)
  also have "\<dots> = swap_words (8 * i) (8 + 8 * k) mem"
    using Suc.prems by (intro swap_words_comp) simp
  finally show ?case by simp
qed

lemma swap_at_word:
  assumes "2 * j + 2 \<le> length mem"
  shows "swap_at j mem = swap_words j 1 mem"
proof -
  define a where "a = take (2 * j) mem"
  define d where "d = drop (2 * j + 2) mem"
  obtain x y where mem: "mem = a @ [x, y] @ d"
  proof -
    have "mem = a @ mem ! (2 * j) # mem ! (2 * j + 1) # d"
      unfolding a_def d_def using assms by (simp add: Cons_nth_drop_Suc)
    then show ?thesis using that by simp
  qed
  have l: "length a = 2 * j" using assms by (simp add: a_def)
  have "swap_words j 1 mem = a @ of_u16s (map swap16w (u16s [x, y])) @ d"
    unfolding mem by (rule swap_words_append) (simp_all add: l)
  moreover have "swap_at j mem = a @ [y, x] @ d"
  proof -
    have sw: "push_bit 8 (le16 x y) OR drop_bit 8 (le16 x y) = le16 y x"
      using swap16w_bytes [of x y] by (simp add: swap16w_def or.commute)
    have "mem ! (2 * j) = x" "mem ! (2 * j + 1) = y"
      unfolding mem using l by (simp_all add: nth_append)
    then have "swap_at j mem = mem[2 * j := y, 2 * j + 1 := x]"
      by (simp add: swap_at_def Let_def sw)
    also have "\<dots> = a @ [y, x] @ d"
      unfolding mem using l by (simp add: list_update_append)
    finally show ?thesis .
  qed
  ultimately show ?thesis by (simp add: swap16w_bytes of_u16s_def)
qed

lemma swap_tail_words:
  "j < n \<Longrightarrow> 2 * n \<le> length mem \<Longrightarrow> swap_tail k j n mem = swap_words j (min (Suc k) (n - j)) mem"
proof (induction k arbitrary: j mem)
  case 0
  then show ?case by (simp add: swap_at_word)
next
  case (Suc k)
  have at: "swap_at j mem = swap_words j 1 mem" using Suc.prems by (intro swap_at_word) simp
  show ?case
  proof (cases "Suc j < n")
    case True
    have "swap_tail (Suc k) j n mem = swap_words (j + 1) (min (Suc k) (n - Suc j)) (swap_words j 1 mem)"
      using True Suc.prems by (simp add: at Suc.IH length_swap_words)
    also have "\<dots> = swap_words j (1 + min (Suc k) (n - Suc j)) mem"
    proof (rule swap_words_comp)
      have "j + 1 + min (Suc k) (n - Suc j) \<le> n" using True by auto
      then show "2 * (j + 1 + min (Suc k) (n - Suc j)) \<le> length mem"
        using Suc.prems(2) by (metis le_trans mult_le_mono2)
    qed
    also have "1 + min (Suc k) (n - Suc j) = min (Suc (Suc k)) (n - j)" using True by simp
    finally show ?thesis .
  next
    case False
    then have "n - j = 1" using Suc.prems by simp
    then show ?thesis using False by (simp add: at)
  qed
qed

lemma swap16_mod_words:
  assumes "0 < n" "2 * n \<le> length mem"
  shows "swap16_mod n mem = swap_words 0 n mem"
proof (cases "n - 1 \<le> 6")
  case True
  then show ?thesis using assms by (simp add: swap16_mod_def swap_tail_words)
next
  case False
  define q where "q = n div 8"
  have q: "(n - 8) div 8 + 1 = q" "8 * q \<le> n" "n < 8 * q + 8" using False by (simp_all add: q_def)
  have "swap_chunks q 0 mem = swap_words 0 (8 * q) mem"
    using q assms by (subst swap_chunks_words) simp_all
  then have eq: "swap16_mod n mem = (if n = 8 * q then swap_words 0 (8 * q) mem
      else swap_tail 6 (8 * q) n (swap_words 0 (8 * q) mem))"
    unfolding swap16_mod_def q(1) using False by (simp add: Let_def)
  show ?thesis
  proof (cases "n = 8 * q")
    case False
    then have "swap16_mod n mem = swap_words (0 + 8 * q) (n - 8 * q) (swap_words 0 (8 * q) mem)"
      using q assms unfolding eq by (subst swap_tail_words) (simp_all add: length_swap_words)
    also have "\<dots> = swap_words 0 (8 * q + (n - 8 * q)) mem"
      using q assms by (intro swap_words_comp) simp
    finally show ?thesis using q by simp
  next
    case True
    then show ?thesis unfolding eq by (simp only: if_True refl)
  qed
qed

section \<open>Deobfuscating strings\<close>

definition decode_words :: "nat \<Rightarrow> nat \<Rightarrow> bytes \<Rightarrow> bytes" where
  "decode_words i k mem = map (\<lambda>j. if i \<le> j \<and> j < i + k then NOT ((mem ! j) XOR word_of_nat j) else mem ! j) [0..<length mem]"

lemma length_decode_words [simp]: "length (decode_words i k mem) = length mem"
  by (simp add: decode_words_def)

lemma nth_decode_words:
  "j < length mem \<Longrightarrow>
   decode_words i k mem ! j = (if i \<le> j \<and> j < i + k then NOT ((mem ! j) XOR word_of_nat j) else mem ! j)"
  by (simp add: decode_words_def)

lemma decode_words_comp: "decode_words (i + k) m (decode_words i k mem) = decode_words i (k + m) mem"
  by (rule nth_equalityI) (auto simp: nth_decode_words)

lemma decode_at_word: "j < length mem \<Longrightarrow> decode_at j mem = decode_words j 1 mem"
  by (rule nth_equalityI) (auto simp: decode_at_def nth_decode_words nth_list_update)

lemma decode_tail_words:
  "j < n \<Longrightarrow> n \<le> length mem \<Longrightarrow> decode_tail k j n mem = decode_words j (min (Suc k) (n - j)) mem"
proof (induction k arbitrary: j mem)
  case 0
  then show ?case by (simp add: decode_at_word)
next
  case (Suc k)
  have at: "decode_at j mem = decode_words j 1 mem" using Suc.prems by (intro decode_at_word) simp
  show ?case
  proof (cases "Suc j < n")
    case True
    have "decode_tail (Suc k) j n mem = decode_words (j + 1) (min (Suc k) (n - Suc j)) (decode_words j 1 mem)"
      using True Suc.prems by (simp add: at Suc.IH)
    also have "\<dots> = decode_words j (1 + min (Suc k) (n - Suc j)) mem"
      by (rule decode_words_comp)
    also have "1 + min (Suc k) (n - Suc j) = min (Suc (Suc k)) (n - j)" using True by simp
    finally show ?thesis .
  next
    case False
    then have "n - j = 1" using Suc.prems by simp
    then show ?thesis using False by (simp add: at)
  qed
qed

text \<open>The vector of counters in round \<open>i\<close>, and the key made of it.\<close>

definition counters :: "nat \<Rightarrow> m128" where
  "counters i = of_u32s [word_of_nat (16 * i), word_of_nat (16 * i + 1), word_of_nat (16 * i + 2), word_of_nat (16 * i + 3)]"

lemma bytes32_ucast [simp]: "bytes32 (ucast (b :: u8)) = [b, 0, 0, 0]"
proof -
  have "ucast b = le32 b 0 0 0" by (simp add: le32_def)
  then show ?thesis by (simp add: bytes32_def)
qed

lemma dwords_words: "dwords b = of_u32s [ucast b, ucast b, ucast b, ucast b]"
  by (simp add: dwords_def mm_set_epi8_def of_u32s_def)

lemma saturate_byte [simp]: "saturate (le16 b 0) = b"
proof -
  have b: "le16 b 0 = ucast b" by (simp add: le16_def)
  have "\<not> bit (uint b) 15" by (auto simp: bit_simps dest: bit_imp_le_length)
  then have "sint (ucast b :: u16) = take_bit 15 (uint b)"
    by (simp add: signed_ucast_eq signed_take_bit_eq_if_positive)
  also have "\<dots> = uint b" using unsigned_less [of b, where 'a = int] by (simp add: take_bit_int_eq_self_iff)
  finally have "sint (ucast b :: u16) = uint b" .
  moreover have "ucast (ucast b :: u16) = b" by (rule bit_word_eqI) (simp add: bit_simps)
  ultimately show ?thesis using unsigned_less [of b, where 'a = int] by (simp add: saturate_def b)
qed

lemma add_dwords:
  "mm_add_epi32 (dwords b) (of_u32s [w0, w1, w2, w3]) =
   of_u32s [w0 + ucast b, w1 + ucast b, w2 + ucast b, w3 + ucast b]"
  "mm_add_epi32 (of_u32s [w0, w1, w2, w3]) (dwords b) =
   of_u32s [w0 + ucast b, w1 + ucast b, w2 + ucast b, w3 + ucast b]"
  by (simp_all add: mm_add_epi32_def dwords_words add.commute [of "ucast b"])

lemma pack_dwords:
  "mm_shuffle_epi8 (of_u32s [w0, w1, w2, w3]) xmmword_9B0B0 =
   [byte_n 0 w0, byte_n 1 w0, byte_n 0 w1, byte_n 1 w1, byte_n 0 w2, byte_n 1 w2, byte_n 0 w3, byte_n 1 w3,
    0, 0, 0, 0, 0, 0, 0, 0]"
  "mm_shuffle_epi8 (of_u32s [w0, w1, w2, w3]) xmmword_9B0C0 =
   [0, 0, 0, 0, 0, 0, 0, 0,
    byte_n 0 w0, byte_n 1 w0, byte_n 0 w1, byte_n 1 w1, byte_n 0 w2, byte_n 1 w2, byte_n 0 w3, byte_n 1 w3]"
  by (simp_all add: of_u32s_def bytes32_def shuffles)

lemma and_ff [simp]: "(b :: u8) AND 0xFF = b"
proof -
  have "(0xFF :: u8) = - 1" by simp
  then show ?thesis by (simp only: and.right_neutral)
qed

lemma mask_pack:
  "u16s (mm_and (mm_or [0, 0, 0, 0, 0, 0, 0, 0, b0, b1, b2, b3, b4, b5, b6, b7] [a0, a1, a2, a3, a4, a5, a6, a7, 0, 0, 0, 0, 0, 0, 0, 0])
     xmmword_9B0D0) =
   [le16 a0 0, le16 a2 0, le16 a4 0, le16 a6 0, le16 b0 0, le16 b2 0, le16 b4 0, le16 b6 0]"
  by (simp add: mm_or_def mm_and_def xmmword_9B0D0_def mm_set_epi8_def)

lemma key_words:
  "key_vector (of_u32s [w0, w1, w2, w3]) =
   [ucast w0, ucast w1, ucast w2, ucast w3, ucast (w0 + 4), ucast (w1 + 4), ucast (w2 + 4), ucast (w3 + 4),
    ucast (w0 + 8), ucast (w1 + 8), ucast (w2 + 8), ucast (w3 + 8),
    ucast (w0 + 12), ucast (w1 + 12), ucast (w2 + 12), ucast (w3 + 12)]"
  unfolding key_vector_def Let_def add_dwords pack_dwords mm_packus_epi16_def mask_pack
  by (simp add: byte_n_def)

lemma key_counters: "key_vector (counters i) = map (\<lambda>j. word_of_nat (16 * i + j)) [0..<16]"
proof -
  have u: "[0..<16] = [0, 1, 2, 3, 4, 5, 6, 7, 8, 9, 10, 11, 12, 13, 14, 15]" by code_simp
  have c: "ucast (word_of_nat n :: u32) = (word_of_nat n :: u8)" for n
    by (rule bit_word_eqI) (simp add: bit_simps)
  have d: "(word_of_nat (16 * i + n) :: u32) + numeral k = word_of_nat (16 * i + (n + numeral k))" for n k
    by (simp add: add.assoc)
  have e: "(word_of_nat (16 * i) :: u32) + numeral k = word_of_nat (16 * i + numeral k)" for k
    by simp
  show ?thesis
    unfolding counters_def key_words u d e c by (simp del: of_nat_add of_nat_mult)
qed

lemma counters_Suc: "mm_add_epi32 (counters i) (dwords 0x10) = counters (Suc i)"
proof -
  have "(word_of_nat n :: u32) + ucast (0x10 :: u8) = word_of_nat (n + 16)" for n by simp
  then have "mm_add_epi32 (counters i) (dwords 0x10) =
      of_u32s [word_of_nat (16 * i + 16), word_of_nat (16 * i + 1 + 16), word_of_nat (16 * i + 2 + 16), word_of_nat (16 * i + 3 + 16)]"
    by (simp only: counters_def add_dwords)
  also have "\<dots> = counters (Suc i)"
    unfolding counters_def by (simp only: mult_Suc_right add.commute add.left_commute)
  finally show ?thesis .
qed

lemma counters_0: "xmmword_9B270 = counters 0"
  by (simp add: xmmword_9B270_def counters_def mm_set_epi8_def of_u32s_def bytes32_def byte_n_def)

lemma decode_chunk:
  assumes "16 * i + 16 \<le> length mem"
  shows "mm_storeu (16 * i) (mm_xor (mm_xor (key_vector (counters i)) (mm_loadu mem (16 * i))) xmmword_9B2B0) mem =
    decode_words (16 * i) 16 mem"
proof (rule nth_equalityI)
  let ?v = "mm_xor (mm_xor (key_vector (counters i)) (mm_loadu mem (16 * i))) xmmword_9B2B0"
  have l: "length ?v = 16" using assms
    by (simp add: mm_xor_def key_counters mm_loadu_def xmmword_9B2B0_def mm_set_epi8_def)
  show "length (mm_storeu (16 * i) ?v mem) = length (decode_words (16 * i) 16 mem)"
    using assms by (simp add: mm_storeu_def l)
  fix j assume "j < length (mm_storeu (16 * i) ?v mem)"
  then have j: "j < length mem" using assms by (simp add: mm_storeu_def l)
  have ff: "x XOR 0xFF = NOT (x :: u8)" for x
  proof -
    have "(0xFF :: u8) = - 1" by simp
    then show ?thesis by (simp only: bit.xor_one_right)
  qed
  have v: "?v ! n = NOT ((mem ! (16 * i + n)) XOR word_of_nat (16 * i + n))" if "n < 16" for n
    using that assms unfolding xor.commute [of "mem ! (16 * i + n)"]
    by (simp add: mm_xor_def key_counters mm_loadu_def xmmword_9B2B0_def mm_set_epi8_def ff
        del: of_nat_add of_nat_mult)
  show "mm_storeu (16 * i) ?v mem ! j = decode_words (16 * i) 16 mem ! j"
  proof (cases "j < 16 * i")
    case True
    then show ?thesis using j assms by (simp add: mm_storeu_def nth_decode_words nth_append)
  next
    case False
    define n where "n = j - 16 * i"
    have jn: "j = 16 * i + n" using False by (simp add: n_def)
    show ?thesis
    proof (cases "n < 16")
      case True
      then show ?thesis using j assms v [OF True]
        by (simp add: jn mm_storeu_def nth_decode_words nth_append l del: of_nat_add of_nat_mult)
    next
      case False
      then show ?thesis using j assms
        by (simp add: jn mm_storeu_def nth_decode_words nth_append l)
    qed
  qed
qed

lemma decode_chunks_words:
  "16 * (i + k) \<le> length mem \<Longrightarrow> decode_chunks k i (counters i) mem = decode_words (16 * i) (16 * k) mem"
proof (induction k arbitrary: i mem)
  case 0
  show ?case by (rule nth_equalityI) (auto simp: nth_decode_words)
next
  case (Suc k)
  have "decode_chunks (Suc k) i (counters i) mem = decode_chunks k (Suc i) (counters (Suc i)) (decode_words (16 * i) 16 mem)"
    using Suc.prems by (simp add: decode_chunk counters_Suc)
  also have "\<dots> = decode_words (16 * i + 16) (16 * k) (decode_words (16 * i) 16 mem)"
    using Suc.prems by (subst Suc.IH) (simp_all add: add.commute)
  also have "\<dots> = decode_words (16 * i) (16 + 16 * k) mem" by (rule decode_words_comp)
  finally show ?case by simp
qed

lemma decode_str_words: "decode_str mem = decode_words 0 (length mem) mem"
proof (cases "length mem = 0")
  case True
  then show ?thesis by (simp add: decode_str_def decode_words_def)
next
  case pos: False
  show ?thesis
  proof (cases "length mem - 1 \<le> 0xE")
    case True
    then show ?thesis using pos by (simp add: decode_str_def decode_tail_words Let_def)
  next
    case False
    define q where "q = length mem div 16"
    have q: "(length mem - 16) div 16 + 1 = q" "16 * q \<le> length mem" "length mem < 16 * q + 16"
      using False by (simp_all add: q_def)
    have "decode_chunks q 0 (counters 0) mem = decode_words 0 (16 * q) mem"
      using q by (subst decode_chunks_words) simp_all
    then have eq: "decode_str mem = (if length mem \<noteq> 16 * q
        then decode_tail 14 (16 * q) (length mem) (decode_words 0 (16 * q) mem) else decode_words 0 (16 * q) mem)"
      by (simp only: decode_str_def Let_def q(1) counters_0 if_False pos False)
    show ?thesis
    proof (cases "length mem = 16 * q")
      case False
      then have "decode_str mem = decode_words (0 + 16 * q) (length mem - 16 * q) (decode_words 0 (16 * q) mem)"
        using q unfolding eq by (subst decode_tail_words) simp_all
      also have "\<dots> = decode_words 0 (16 * q + (length mem - 16 * q)) mem" by (rule decode_words_comp)
      finally show ?thesis using q by simp
    next
      case True
      then show ?thesis unfolding eq by simp
    qed
  qed
qed

lemma decode_str_nth: "j < length mem \<Longrightarrow> decode_str mem ! j = NOT ((mem ! j) XOR word_of_nat j)"
  by (simp add: decode_str_words nth_decode_words)

lemma length_decode_str [simp]: "length (decode_str mem) = length mem"
  by (simp add: decode_str_words)

lemma decode_str_decode_str: "decode_str (decode_str mem) = mem"
  by (rule nth_equalityI) (simp_all add: decode_str_nth bit.xor_compl_left xor.assoc)

end
