(* ===== verification/OpProps.thy ===== *)
theory OpProps
  imports SimdProps
begin

text \<open>
  The chain of multiplications the decompiled reader runs over an opcode: every partial sum is
  followed to the residue it computes, and the whole is the 71st power modulo 253.
\<close>

lemma hi253_word:
  "ucast (word_of_int v + drop_bit 32 (word_of_int x :: u64) :: u64) = (word_of_int (v + x div 2 ^ 32) :: u32)"
proof -
  have d: "uint (drop_bit 32 (word_of_int x :: u64)) = (x div 2 ^ 32) mod 2 ^ 32"
    by (simp add: unsigned_drop_bit_eq unsigned_of_int drop_bit_take_bit) (simp add: take_bit_eq_mod drop_bit_eq_div)
  have "uint (ucast (word_of_int v + drop_bit 32 (word_of_int x :: u64) :: u64) :: u32) = 
      (v + (x div 2 ^ 32) mod 2 ^ 32) mod 2 ^ 64 mod 2 ^ 32"
    by (simp add: unsigned_ucast_eq uint_word_ariths d take_bit_eq_mod unsigned_of_int mod_simps)
  also have "\<dots> = uint (word_of_int (v + x div 2 ^ 32) :: u32)"
  proof -
    have "uint (word_of_int y :: u32) = y mod 2 ^ 32" for y by (simp add: unsigned_of_int take_bit_eq_mod)
    then show ?thesis by (simp only:) (simp add: mod_mod_cancel mod_simps)
  qed
  finally show ?thesis by (simp only: word_uint_eq_iff)
qed

lemma magic253:
  assumes "0 \<le> v" "v < 2 ^ 16"
  shows "(v + (-2122019415 * v) div 2 ^ 32) div 2 ^ 7 = v div (253 :: int)" 
    "0 \<le> v + (-2122019415 * v) div 2 ^ 32" "v + (-2122019415 * v) div 2 ^ 32 < 2 ^ 31"
proof -
  have "v + (-2122019415 * v) div 2 ^ 32 = (v * 2 ^ 32 + -2122019415 * v) div 2 ^ 32" by simp
  then have m: "v + (-2122019415 * v) div 2 ^ 32 = (2172947881 * v) div 2 ^ 32" by simp
  show "0 \<le> v + (-2122019415 * v) div 2 ^ 32" unfolding m using assms by simp
  show "v + (-2122019415 * v) div 2 ^ 32 < 2 ^ 31" unfolding m using assms by simp
  define q where "q = v div 253"
  define r where "r = v mod 253"
  have v: "v = 253 * q + r" "0 \<le> r" "r < 253" "0 \<le> q" "q < 260"
    using assms by (simp_all add: q_def r_def)
  have "(2172947881 * v) div 2 ^ 39 = q"
  proof (rule int_div_pos_eq)
    show "2172947881 * v = 2 ^ 39 * q + (5 * q + 2172947881 * r)" by (simp add: v(1))
  qed (use v in simp_all)
  then show "(v + (-2122019415 * v) div 2 ^ 32) div 2 ^ 7 = v div 253"
    unfolding m q_def by (simp add: div_mult2_eq [symmetric] zdiv_zmult2_eq [symmetric])
qed

lemma hi253_div:
  assumes "0 \<le> v" "v < 2 ^ 16"
  shows "hi253 v = v div 253"
  unfolding hi253_def hi253_word sint_signed_drop_bit_eq
  using magic253 [OF assms] by (subst sint_below) (simp_all only: drop_bit_eq_div)

lemma rem253: "0 \<le> v \<Longrightarrow> v < 2 ^ 16 \<Longrightarrow> v - 253 * hi253 v = v mod 253"
  by (simp add: hi253_div minus_mult_div_eq_mod)

lemma u8i_mod: "u8i v = v mod 256"
  by (simp add: u8i_def unsigned_of_int take_bit_eq_mod)

lemma u8i_rem: "u8i (v mod 253) = v mod 253"
proof -
  have "0 \<le> v mod 253" "v mod 253 < 253" by simp_all
  then show ?thesis unfolding u8i_mod by (intro mod_pos_pos_trivial) simp_all
qed

lemma u8i_rem3: "0 \<le> v \<Longrightarrow> v < 2 ^ 16 \<Longrightarrow> u8i (v - -3 * hi253 v) = v mod 253"
proof -
  assume v: "0 \<le> v" "v < 2 ^ 16"
  have "v - -3 * hi253 v = v mod 253 + 256 * (v div 253)"
    using v by (simp add: hi253_div minus_mult_div_eq_mod [symmetric])
  then show ?thesis using u8i_rem [of v] by (simp add: u8i_mod)
qed

lemma byte_product: "0 \<le> a \<Longrightarrow> a < 256 \<Longrightarrow> 0 \<le> b \<Longrightarrow> b < 256 \<Longrightarrow> 0 \<le> a * b \<and> a * b < (2 ^ 16 :: int)"
  using mult_mono [of a 255 b 255] by simp

lemma rem_product:
  "0 \<le> a \<Longrightarrow> a < 256 \<Longrightarrow> 0 \<le> b \<Longrightarrow> b < 256 \<Longrightarrow> a * b - 253 * hi253 (a * b) = a * b mod 253"
  "0 \<le> a \<Longrightarrow> a < 256 \<Longrightarrow> 0 \<le> b \<Longrightarrow> b < 256 \<Longrightarrow> u8i (a * b - -3 * hi253 (a * b)) = a * b mod 253"
  by (simp_all only: rem253 u8i_rem3 byte_product)

lemma mod253_bounds: "0 \<le> v mod (253 :: int)" "v mod (253 :: int) < 256"
proof -
  have "v mod 253 < (253 :: int)" by simp
  then show "v mod (253 :: int) < 256" by linarith
qed simp

lemma pow_mult_mod: "(v ^ m mod 253) * (v ^ n mod 253) mod 253 = v ^ (m + n) mod (253 :: int)"
  by (simp only: mod_mult_eq power_add)

lemma decode_op_power: "decode_op b = word_of_int (uint b ^ 71 mod 253)"
proof -
  define v where "v = uint b"
  have v: "0 \<le> v" "v < 256" using unsigned_less [of b, where 'a = int] by (simp_all add: v_def)
  have v1: "v - 253 * hi253 v = v ^ 1 mod 253" using v by (subst rem253) simp_all
  have v17: "v * (v ^ 16 mod 253) mod 253 = v ^ 17 mod 253"
    by (simp only: mod_mult_right_eq power_Suc [symmetric]) simp
  have v35: "v * (v ^ 34 mod 253) mod 253 = v ^ 35 mod 253"
    by (simp only: mod_mult_right_eq power_Suc [symmetric]) simp
  have v71: "(v ^ 70 mod 253) * v mod 253 = v ^ 71 mod 253"
    by (simp only: mod_mult_left_eq power_Suc2 [symmetric]) simp
  note b = mod253_bounds
  have "decode_op b = word_of_int ((v ^ 70 mod 253) * v mod 253)"
    unfolding decode_op_def Let_def v_def [symmetric] v1 u8i_rem
    by (simp only: pow_mult_mod u8i_rem rem_product b v17 v35 one_add_one numeral_plus_numeral add_num_simps)
  then show ?thesis unfolding v71 by (simp only: v_def)
qed

text \<open>Raising to the 31st power undoes it: 71 * 31 is 1 modulo the orders, 10 and 22.\<close>

lemma power_mod_fix:
  assumes "\<And>x. x ^ Suc m mod n = x mod (n :: int)"
  shows "x ^ (m * k + 1) mod n = x mod n"
proof (induction k)
  case (Suc k)
  have "x ^ (m * Suc k + 1) mod n = (x ^ m * (x ^ (m * k + 1) mod n)) mod n"
    by (simp add: power_add mod_mult_right_eq algebra_simps)
  also have "\<dots> = x ^ Suc m mod n" by (simp only: Suc mod_mult_right_eq) (simp add: mult.commute)
  finally show ?case using assms by simp
qed simp

lemma fermat11: "x ^ 11 mod 11 = x mod (11 :: int)"
proof -
  have "list_all (\<lambda>y. y ^ 11 mod 11 = y) [0..(10 :: int)]" by code_simp
  then have "(x mod 11) ^ 11 mod 11 = x mod 11" unfolding list_all_iff by (rule bspec) simp
  then show ?thesis by (simp only: power_mod)
qed

lemma fermat23: "x ^ 23 mod 23 = x mod (23 :: int)"
proof -
  have "list_all (\<lambda>y. y ^ 23 mod 23 = y) [0..(22 :: int)]" by code_simp
  then have "(x mod 23) ^ 23 mod 23 = x mod 23" unfolding list_all_iff by (rule bspec) simp
  then show ?thesis by (simp only: power_mod)
qed

lemma power_2201: "x ^ 2201 mod 253 = x mod (253 :: int)"
proof -
  have "x ^ (10 * 220 + 1) mod 11 = x mod 11" by (rule power_mod_fix) (use fermat11 in simp)
  then have 1: "11 dvd x ^ 2201 - x" by (simp add: mod_eq_dvd_iff)
  have "x ^ (22 * 100 + 1) mod 23 = x mod 23" by (rule power_mod_fix) (use fermat23 in simp)
  then have 2: "23 dvd x ^ 2201 - x" by (simp add: mod_eq_dvd_iff)
  have "gcd 11 23 = (1 :: int)" by code_simp
  then have "11 * 23 dvd x ^ 2201 - x"
    by (intro divides_mult [OF 1 2]) (simp only: coprime_iff_gcd_eq_1)
  then show ?thesis by (simp add: mod_eq_dvd_iff)
qed

definition encode_op :: "u8 \<Rightarrow> u8" where
  "encode_op b = word_of_int (uint b ^ 31 mod 253)"

lemma decode_encode_op:
  assumes "b < 253"
  shows "decode_op (encode_op b) = b"
proof -
  have b: "0 \<le> uint b" "uint b < 253" using assms by (simp_all add: word_less_def)
  have e: "uint (encode_op b) = uint b ^ 31 mod 253"
  proof -
    have "0 \<le> uint b ^ 31 mod 253" "uint b ^ 31 mod 253 < 253" by simp_all
    then show ?thesis unfolding encode_op_def by (subst uint_word_of_int) simp
  qed
  have "(uint b ^ 31 mod 253) ^ 71 mod 253 = uint b ^ 2201 mod 253"
    by (simp only: power_mod power_mult [symmetric]) simp
  also have "\<dots> = uint b" unfolding power_2201 using b by simp
  finally show ?thesis by (simp only: decode_op_power e word_of_int_uint)
qed

end
