(* ===== verification/TwinProps.thy ===== *)
theory TwinProps
  imports BcreadMod OpProps TabProps StringsIntern StringsCmp BufCorrect
begin

text \<open>
  The decompiled functions of the reader against the functions they come from.
\<close>

section \<open>Numbers, upvalues and debug information\<close>

lemma and_zero_ext: "ucast (v AND 0x7F :: u8) = (ucast v AND 0x7f :: u32)"
  unfolding and_7f by (rule bit_word_eqI) (auto simp: bit_simps)

lemma knum_mod_loop_eq: "knum_mod_loop v sh bs = uleb33_loop v sh bs"
proof (induction v sh bs rule: knum_mod_loop.induct)
  case (2 v16 v15 v17 ps)
  have "sint v17 < 0 \<longleftrightarrow> 0x80 \<le> v17"
    by (simp add: u8_ge_0x80 bit_last_iff [symmetric])
  then show ?case using 2 by (simp add: Let_def and_zero_ext)
qed simp

lemma knum_mod_one_eq: "knum_mod_one bs = bcread_knum_one bs"
proof (cases bs)
  case (Cons v7 ps)
  have lo: "0x3F < x \<longleftrightarrow> (0x40 :: u32) \<le> ucast x" for x :: u8
    by (auto simp: word_less_nat_alt word_le_nat_alt unsigned_ucast_eq take_bit_nat_eq_self order_less_le_trans [OF u8_less])
  have an: "ucast (x AND 0x3F) = (ucast x AND 0x3f :: u32)" for x :: u8
    by (rule bit_word_eqI) (auto simp: bit_simps dest: bit_imp_le_length)
  show ?thesis
    by (auto simp: Cons bcread_knum_one_def Let_def lo an knum_mod_loop_eq sbind_def bcread_uleb128_def
        intro!: rbind_cong)
qed (simp add: bcread_knum_one_def)

lemma bcread_knum_mod_eq: "bcread_knum_mod n bs = bcread_knum n bs"
proof -
  have "knum_mod_one = bcread_knum_one" by (rule ext) (rule knum_mod_one_eq)
  then show ?thesis by (simp add: bcread_knum_mod_def bcread_knum_def)
qed

lemma swap16w_swap16: "swap16w = swap16"
  by (simp add: fun_eq_iff swap16w_def swap16_def)

lemma getn_Inr: "getn n bs = Inr (x, r) \<longleftrightarrow> n \<le> length bs \<and> x = take n bs \<and> r = drop n bs"
  by (auto simp: getn_def)

lemma bcread_uv_mod_eq: "bcread_uv_mod dst swap n bs = bcread_uv swap n bs"
proof (cases "n = 0 \<or> length bs < 2 * n")
  case True
  then show ?thesis
    by (auto simp: bcread_uv_mod_def bcread_uv_def sbind_def bcread_mem_def getn_def Let_def mult.commute)
next
  case False
  then have "swap16_mod n (take (2 * n) bs) = of_u16s (map swap16w (u16s (take (2 * n) bs)))"
    by (subst swap16_mod_words) (simp_all add: swap_words_def)
  then show ?thesis using False
    by (simp add: bcread_uv_mod_def bcread_uv_def sbind_def bcread_mem_def getn_def Let_def mult.commute swap16w_swap16)
qed

lemma sint_small_num:
  assumes "numline < 0x10000"
  shows "sint (numline :: u32) = int (unat numline)"
  using assms by (intro sint_small) (simp add: word_less_nat_alt)

lemma bcread_dbg_mod_eq:
  assumes "numline < 0x10000"
  shows "bcread_dbg_mod dst swap numline n sz bs = bcread_dbg swap (sint numline) n sz bs"
proof (cases "sz \<le> length bs \<and> swap \<and> 255 < numline \<and> 2 * n \<le> sz \<and> n \<noteq> 0")
  case True
  have l: "sint numline < 65536" "256 \<le> sint numline" "\<not> 0xFFFF < numline"
  proof -
    have "unat numline < 65536" "255 < unat numline" using assms True by (simp_all add: word_less_nat_alt)
    then show "sint numline < 65536" "256 \<le> sint numline" "\<not> 0xFFFF < numline"
      unfolding sint_small_num [OF assms] word_less_nat_alt by (linarith, linarith, simp)
  qed
  have "swap16_mod n (take sz bs) = of_u16s (map swap16w (u16s (take (2 * n) (take sz bs)))) @ drop (2 * n) (take sz bs)"
    using True by (subst swap16_mod_words) (simp_all add: swap_words_def min_def)
  then show ?thesis using True l
    by (simp add: bcread_dbg_mod_def bcread_dbg_def sbind_def bcread_mem_def getn_def Let_def
        of_u16s_def swap16w_swap16 comp_def)
next
  case False
  have "\<not> 0xFFFF < numline" using assms by (simp add: word_less_nat_alt)
  moreover have "256 \<le> sint numline \<longleftrightarrow> 255 < numline"
  proof -
    have "256 \<le> int (unat numline) \<longleftrightarrow> 255 < unat numline" by presburger
    then show ?thesis unfolding sint_small_num [OF assms] by (simp only: word_less_nat_alt) simp
  qed
  moreover have "sint numline < 65536"
  proof -
    have "unat numline < 65536" using assms by (simp add: word_less_nat_alt)
    then show ?thesis unfolding sint_small_num [OF assms] by linarith
  qed
  ultimately show ?thesis using False
    by (auto simp: bcread_dbg_mod_def bcread_dbg_def sbind_def bcread_mem_def getn_def Let_def)
qed

lemma bytes32_zero: "bytes32 0 = replicate 4 0"
  by (simp add: bytes32_def byte_n_def eval_nat_numeral)

lemma bcread_dbg_mod_zeroes:
  assumes "0x10000 \<le> numline" "4 * n \<le> sz" "sz \<le> length bs"
  shows "bcread_dbg_mod dst True numline n sz bs = Inr (replicate (4 * n) 0 @ take (sz - 4 * n) (drop (4 * n) bs), drop sz bs)"
proof -
  have b: "0xFFFF < numline" "255 < numline"
    using assms(1) by (auto simp: word_less_nat_alt word_le_nat_alt)
  have z: "byteswap_ulong w = 0" for w by (simp add: byteswap_ulong_0)
  have "concat (map (\<lambda>w. bytes32 (byteswap_ulong w)) ws) = replicate (4 * length ws) 0" for ws
    by (induction ws) (simp_all add: z bytes32_zero replicate_add)
  moreover have "length (u32s bs) = length bs div 4" for bs
    by (induction bs rule: u32s.induct) simp_all
  moreover have "take (4 * n) (take sz bs) = take (4 * n) bs" "length (take (4 * n) bs) = 4 * n"
    using assms by (simp_all add: min_def)
  ultimately have "swap32_mod n (take sz bs) = replicate (4 * n) 0 @ drop (4 * n) (take sz bs)"
    by (simp only: swap32_mod_def) simp
  moreover have "drop (4 * n) (take sz bs) = take (sz - 4 * n) (drop (4 * n) bs)" by (rule drop_take)
  moreover have "bcread_dbg_mod dst True numline n sz bs =
      Inr (if n \<noteq> 0 then swap32_mod n (take sz bs) else take sz bs, drop sz bs)"
    using assms b by (simp add: bcread_dbg_mod_def sbind_def getn_def Let_def)
  ultimately show ?thesis by simp
qed

section \<open>Input\<close>

text \<open>The errors of the two builds.\<close>

fun relabel :: "fault \<Rightarrow> fault" where
  "relabel (Throw e) = (if e = LJ_ERR_BCBAD then Throw (Err_offset 2972) else Throw e)"
| "relabel e = e"

abbreviation relabelled :: "'a res \<Rightarrow> 'a res" where
  "relabelled r \<equiv> map_sum relabel id r"

lemma relabelled_bind:
  "(\<And>x. f' x = relabelled (f x)) \<Longrightarrow> rbind (relabelled m) f' = relabelled (rbind m f)"
  by (cases m) simp_all

lemma relabelled_in_range [simp]: "relabelled (in_range b) = in_range b"
  by (cases b) simp_all

lemma lj_buf_need_throws: "lj_buf_need sb n = Inl e \<Longrightarrow> e = Throw LJ_ERR_ERRMEM"
  by (auto simp: lj_buf_need_def lj_buf_need2_def split: if_splits)

lemma relabelled_need [simp]: "relabelled (lj_buf_need sb n) = lj_buf_need sb n"
proof (cases "lj_buf_need sb n")
  case (Inl e)
  then show ?thesis using lj_buf_need_throws [OF Inl] by simp
qed simp

lemma need2_need: "need2 = lj_buf_need"
  by (simp add: fun_eq_iff need2_def lj_buf_need_def)

lemma fill_mod_keep_eq: "fill_mod_keep b len ls = relabelled (fill_keep len ls)"
proof -
  have "rbind (lj_buf_need sb n) f = relabelled (rbind (lj_buf_need sb n) f)" if "\<And>x. f x = relabelled (f x)" for sb n f
    using relabelled_bind [of f f "lj_buf_need sb n"] that by simp
  then show ?thesis
    by (auto simp: fill_mod_keep_def fill_keep_def need2_need Let_def in_range_def rbind_def split: sum.split dest!: lj_buf_need_throws)
qed

lemma fill_mod_append_eq: "fill_mod_append b len chunk ls = relabelled (fill_append len chunk ls)"
  by (cases chunk) (auto simp: fill_mod_append_def fill_append_def need2_need Let_def in_range_def rbind_def add.commute
      not_less split: sum.split dest: lj_buf_need_throws)

lemma fill_mod_loop_eq: "fill_mod_loop b len need chunks ls = relabelled (fill_loop len need chunks ls)"
proof (induction chunks arbitrary: ls)
  case Nil
  show ?case
    by (simp only: fill_mod_loop.simps fill_loop.simps fill_mod_keep_eq)
       (rule relabelled_bind, simp add: bcread_error_mod_def bcread_error_def)
next
  case (Cons chunk chunks)
  show ?case
    by (simp only: fill_mod_loop.simps fill_loop.simps fill_mod_keep_eq)
       (rule relabelled_bind, auto simp: bcread_error_mod_def bcread_error_def fill_mod_append_eq Cons id_def intro!: relabelled_bind [unfolded id_def])
qed

lemma bcread_fill_mod_eq:
  "bcread_fill_mod b len need ls =
    relabelled (if LJ_MAX_BUF < len then bcread_error LJ_ERR_BCBAD else fill_loop len need (ls_chunks ls) ls)"
  by (simp add: bcread_fill_mod_def bcread_error_mod_def bcread_error_def fill_mod_loop_eq LJ_MAX_BUF_def)

text \<open>The character the lexer stands at matters to no step of a refill, and is -1 after its end.\<close>

lemma fill_keep_c: "fill_keep len (ls\<lparr>ls_c := c\<rparr>) = rmap (ls_c_update (\<lambda>_. c)) (fill_keep len ls)"
  by (cases ls) (simp add: fill_keep_def Let_def rmap_def)

lemma fill_append_c: "fill_append len chunk (ls\<lparr>ls_c := c\<rparr>) = rmap (ls_c_update (\<lambda>_. c)) (fill_append len chunk ls)"
  by (cases ls) (simp add: fill_append_def Let_def rmap_def)

lemma needs_c [simp]: "needs len (ls\<lparr>ls_c := c\<rparr>) = needs len ls"
  by (simp add: needs_def ls_pe_def ls_p_def)

lemma fill_loop_at_end:
  "fill_loop len need cs (ls\<lparr>ls_c := - 1\<rparr>) = rmap (ls_c_update (\<lambda>_. - 1)) (fill_loop len need cs (ls\<lparr>ls_c := c\<rparr>))"
proof (induction cs arbitrary: ls)
  case Nil
  show ?case
    by (simp only: fill_loop.simps fill_keep_c rbind_rmap rmap_rbind) (rule rbind_cong, auto simp: bcread_error_def)
next
  case (Cons chunk cs)
  have step: "rbind (fill_append len chunk (l\<lparr>ls_c := - 1\<rparr>))
        (\<lambda>l. if needs len l then fill_loop len need cs l else Inr (l\<lparr>ls_chunks := cs\<rparr>)) =
      rmap (ls_c_update (\<lambda>_. - 1)) (rbind (fill_append len chunk (l\<lparr>ls_c := c\<rparr>))
        (\<lambda>l. if needs len l then fill_loop len need cs l else Inr (l\<lparr>ls_chunks := cs\<rparr>)))" for l
    unfolding fill_append_c rbind_rmap rmap_rbind by (rule rbind_cong) (auto simp: Cons.IH)
  show ?case
    by (simp only: fill_loop.simps fill_keep_c rbind_rmap rmap_rbind) (rule rbind_cong, auto simp: bcread_error_def step)
qed

lemma bcread_fill_mod_Inr: "bcread_fill len need ls = Inr ls' \<Longrightarrow> bcread_fill_mod b len need ls = Inr ls'"
  by (auto simp: bcread_fill_mod_eq bcread_fill_def bcread_error_def split: if_splits)

section \<open>Tables\<close>

lemma set_with_cong:
  "(\<And>key. nk (t\<lparr>t_nomm := 0\<rparr>) key = nk' (t\<lparr>t_nomm := 0\<rparr>) key) \<Longrightarrow> set_with nk t k = set_with nk' t k"
  by (auto simp: set_with_def Let_def setstr_with_def setint_with_def setinth_with_def gen_set_def set_found_def
      split: TValue.split option.split intro!: arg_cong [where f = "rbind _"])

lemma set_wild_room:
  assumes "tab_ok t" "has_room t" "lj_tab_set t k = Inr r"
  shows "set_wild t k = Inr r"
proof -
  have "tab_ok (t\<lparr>t_nomm := 0\<rparr>)" "has_room (t\<lparr>t_nomm := 0\<rparr>)" using assms by simp_all
  then have "find_free (t_node t) (t_freetop t) \<noteq> None"
    using find_free_room [of "t\<lparr>t_nomm := 0\<rparr>"] by (metis GCtab.select_convs(4,6) GCtab.surjective GCtab.update_convs(1) option.distinct(1))
  then have "set_with newkey_wild t k = set_with lj_tab_newkey t k"
    by (intro set_with_cong) (auto simp: newkey_wild_def no_room_def)
  then show ?thesis using assms(3) by (simp add: set_wild_def lj_tab_set_def)
qed

lemma lj_tab_set_key:
  assumes "lj_tab_set t k = Inr r"
  shows "key_ok (norm_key k)"
proof (rule key_ok_norm)
  show "k \<noteq> VNil" using assms by (auto simp: lj_tab_set_def set_with_def)
  fix x assume x: "k = VNum x"
  show "\<not> num_nan x"
  proof
    assume "num_nan x"
    then have "\<not> num_eq x y" for y by (simp add: num_eq_def)
    then show False using assms x \<open>num_nan x\<close> by (simp add: lj_tab_set_def set_with_def Let_def)
  qed
qed

lemma lj_tab_set_room:
  assumes "tab_ok t" "has_room t" "lj_tab_set t k = Inr r"
  shows "set_post t (norm_key k) r"
proof -
  have "lj_tab_set t k = set_with (newkey_body (newkey_fuel 1)) t (norm_key k)"
    by (simp only: lj_tab_set_def lj_tab_newkey_def set_norm [of _ _ k]) (simp add: numeral_2_eq_2 newkey_fuel_Suc)
  then show ?thesis
    using set_room [OF assms(1) lj_tab_set_key [OF assms(3)], of "newkey_fuel 1"] assms(2,3) by auto
qed

lemma ktab_hash_wild:
  assumes "tab_ok t" "t_hmask t \<noteq> 0" "n_used (t_node t) + i \<le> length (t_node t)"
    and "ktab_hash lj_tab_set i t bs = Inr r"
  shows "ktab_hash set_wild i t bs = Inr r"
  using assms
proof (induction i arbitrary: t bs)
  case (Suc i)
  obtain key bs1 t1 s v bs2 where key: "bcread_ktabk bs = Inr (key, bs1)"
    and set: "lj_tab_set t key = Inr (t1, s)" and v: "bcread_ktabk bs1 = Inr (v, bs2)"
    and rest: "ktab_hash lj_tab_set i (store t1 s v) bs2 = Inr r"
    using Suc.prems(4) by (auto simp: sbind_def slift_def rbind_eq_Inr split: prod.splits)
  have room: "has_room t" using Suc.prems(2,3) by (simp add: has_room_def)
  have post: "set_post t (norm_key key) (t1, s)" by (rule lj_tab_set_room [OF Suc.prems(1) room set])
  have ok: "tab_ok (store t1 s v)" by (rule store_ok [OF post lj_tab_set_key [OF set]])
  have "n_used (t_node (store t1 s v)) + i \<le> length (t_node (store t1 s v))" "t_hmask (store t1 s v) \<noteq> 0"
    using post Suc.prems(2,3) by (auto simp: set_post_def split: if_splits)
  then have "ktab_hash set_wild i (store t1 s v) bs2 = Inr r" using Suc.IH [OF ok] rest by blast
  then show ?case using key set v set_wild_room [OF Suc.prems(1) room set]
    by (simp add: sbind_def slift_def)
qed simp

lemma hbits_mod_eq: "nhash \<noteq> 0 \<Longrightarrow> hbits_mod nhash = hsize2hbits nhash"
proof -
  assume "nhash \<noteq> 0"
  moreover have "nhash - 1 \<noteq> 0" if "nhash \<noteq> 1" using that by simp
  ultimately show ?thesis by (simp add: hbits_mod_def hsize2hbits_def BitScanReverse_def lj_fls_def)
qed

lemma tab_ok_array [simp]: "length vs = asize t \<Longrightarrow> tab_ok (t\<lparr>t_array := vs\<rparr>) = tab_ok t"
  by (simp add: tab_ok_def hash_ok_def)

lemma read_n_length: "read_n r n bs = Inr (xs, bs') \<Longrightarrow> length xs = n"
  by (induction n arbitrary: bs xs bs') (auto simp: rbind_eq_Inr split: prod.splits)

lemma lj_tab_new_Inr:
  assumes "lj_tab_new n hbits = Inr t"
  shows "tab_ok t \<and> asize t = n \<and> length (t_node t) = 2 ^ hbits \<and> t_hmask t = mask hbits \<and>
    n_used (t_node t) = 0 \<and> tab_map t = (\<lambda>_. VNil) \<and> hbits \<le> LJ_MAX_HBITS"
proof -
  have "n \<le> LJ_MAX_ASIZE" using assms by (auto simp: lj_tab_new_def split: if_splits)
  moreover have "hbits \<le> LJ_MAX_HBITS"
    using assms by (auto simp: lj_tab_new_def newtab_def newhpart_def Let_def rbind_eq_Inr split: if_splits)
  ultimately show ?thesis using lj_tab_new_eq [of n hbits] assms by auto
qed

lemma ktab_mod_eq:
  assumes "bcread_ktab bs = Inr r"
  shows "ktab_mod bs = Inr r"
proof -
  obtain narray bs1 nhash bs2 t where r1: "lj_buf_ruleb128 bs = Inr (narray, bs1)" "lj_buf_ruleb128 bs1 = Inr (nhash, bs2)"
    and t: "lj_tab_new (unat narray) (hsize2hbits nhash) = Inr t"
    and rest: "sbind (if narray \<noteq> 0 then sbind (read_n bcread_ktabk (unat narray)) (\<lambda>vs. sret (t\<lparr>t_array := vs\<rparr>)) else sret t)
      (\<lambda>t. if nhash \<noteq> 0 then ktab_hash lj_tab_set (unat nhash) t else sret t) bs2 = Inr r"
    using assms unfolding bcread_ktab_def bcread_uleb128_def
    by (auto simp: sbind_def slift_def rbind_eq_Inr split: prod.splits)
  have hb: "(if nhash = 0 then 0 else hbits_mod nhash) = hsize2hbits nhash" for nhash
    by (simp add: hbits_mod_eq hsize2hbits_def)
  have new: "tab_ok t" "asize t = unat narray" "length (t_node t) = 2 ^ hsize2hbits nhash"
    "t_hmask t = mask (hsize2hbits nhash)" "n_used (t_node t) = 0" using lj_tab_new_Inr [OF t] by simp_all
  have wild: "ktab_hash set_wild (unat nhash) t' bs = Inr r"
    if "nhash \<noteq> 0" "ktab_hash lj_tab_set (unat nhash) t' bs = Inr r" "t' = t \<or> (\<exists>vs. t' = t\<lparr>t_array := vs\<rparr> \<and> length vs = asize t)"
    for t' bs r
  proof -
    have b: "unat nhash \<le> 2 ^ hsize2hbits nhash" "hsize2hbits nhash \<noteq> 0"
      using hsize2hbits_bound(1) [of "unat nhash"] u32_less [of nhash] that(1) by (simp_all add: hsize2hbits_def)
    moreover have "tab_ok t'" "t_hmask t' = t_hmask t" "t_node t' = t_node t" using that(3) new(1) by auto
    moreover have "mask (hsize2hbits nhash) \<noteq> (0 :: u32)" using b(2) by simp
    ultimately show ?thesis using new that(2) by (intro ktab_hash_wild) simp_all
  qed
  have "sbind (if narray \<noteq> 0 then sbind (read_n bcread_ktabk (unat narray)) (\<lambda>vs. sret (t\<lparr>t_array := vs\<rparr>)) else sret t)
      (\<lambda>t. if nhash \<noteq> 0 then ktab_hash set_wild (unat nhash) t else sret t) bs2 = Inr r"
  proof (cases "narray = 0")
    case True
    then show ?thesis using rest wild by (auto split: if_splits)
  next
    case False
    then obtain vs bs3 where vs: "read_n bcread_ktabk (unat narray) bs2 = Inr (vs, bs3)"
      using rest by (auto simp: sbind_def rbind_eq_Inr)
    then have "length vs = asize t" using read_n_length new(2) by metis
    then show ?thesis using rest False wild [of "t\<lparr>t_array := vs\<rparr>" bs3 r] vs
      by (auto simp: sbind_def split: if_splits)
  qed
  then show ?thesis using r1 t unfolding ktab_mod_def hb by (simp add: sbind_def slift_def)
qed

section \<open>What the decompiled functions compute\<close>

text \<open>
  C23: the decompiled number reader, upvalue reader and input refill do what the functions
  they come from do, whatever the addresses of their blocks are; only the number of the error
  message differs, and what happens after the end of the input: \<^verbatim>\<open>bcread_fill\<close> throws an error when
  it is called again, the decompiled refill goes on and asks the callback for more.
\<close>

theorem reader_twins:
  "bcread_knum_mod n bs = bcread_knum n bs \<and>
   bcread_uv_mod dst swap m bs = bcread_uv swap m bs \<and>
   bcread_fill_mod b len need (ls\<lparr>ls_c := int c\<rparr>) = relabelled (bcread_fill len need (ls\<lparr>ls_c := int c\<rparr>)) \<and>
   bcread_fill len need (ls\<lparr>ls_c := - 1\<rparr>) = Inl (Throw LJ_ERR_BCBAD) \<and>
   bcread_fill_mod b len need (ls\<lparr>ls_c := - 1\<rparr>) =
     map_sum relabel (ls_c_update (\<lambda>_. - 1)) (bcread_fill len need (ls\<lparr>ls_c := int c\<rparr>))"
proof -
  let ?at_end = "ls\<lparr>ls_c := - 1\<rparr>"
  have "bcread_fill len need (ls\<lparr>ls_c := int c\<rparr>) =
      (if LJ_MAX_BUF < len then bcread_error LJ_ERR_BCBAD else fill_loop len need (ls_chunks ls) (ls\<lparr>ls_c := int c\<rparr>))"
    by (simp add: bcread_fill_def)
  then have "bcread_fill_mod b len need ?at_end = map_sum relabel (ls_c_update (\<lambda>_. - 1)) (bcread_fill len need (ls\<lparr>ls_c := int c\<rparr>))"
    using fill_loop_at_end [of len need "ls_chunks ls" ls "int c"]
    by (cases "fill_loop len need (ls_chunks ls) (ls\<lparr>ls_c := int c\<rparr>)") (simp_all add: bcread_fill_mod_eq bcread_error_def)
  moreover have "bcread_fill len need ?at_end = Inl (Throw LJ_ERR_BCBAD)" by (simp add: bcread_fill_def bcread_error_def)
  ultimately show ?thesis by (simp add: bcread_knum_mod_eq bcread_uv_mod_eq bcread_fill_mod_eq bcread_fill_def)
qed

text \<open>
  C24: the debug information. The decompiled reader agrees with the original for fewer than
  65536 lines; above that it replaces the line table of a big-endian dump by zeros, because
  \<^verbatim>\<open>_byteswap_ulong\<close> returns zero.
\<close>

theorem dbg_twin:
  assumes "n * 4 \<le> sz" "sz \<le> length bs"
  shows "bcread_dbg_mod dst swap numline n sz bs =
    (if swap \<and> 0x10000 \<le> numline
     then Inr (replicate (4 * n) 0 @ take (sz - 4 * n) (drop (4 * n) bs), drop sz bs)
     else if numline < 0x10000 then bcread_dbg swap (sint numline) n sz bs
     else Inr (take sz bs, drop sz bs))"
proof (cases "numline < 0x10000")
  case True
  then show ?thesis by (auto simp: bcread_dbg_mod_eq dest: leD)
next
  case False
  then have n: "0x10000 \<le> numline" by simp
  show ?thesis
  proof (cases swap)
    case True
    then show ?thesis using n assms bcread_dbg_mod_zeroes [OF n, where n = n and sz = sz and bs = bs and dst = dst] by (simp add: mult.commute)
  next
    case swap: False
    then show ?thesis using n False assms by (simp add: bcread_dbg_mod_def sbind_def getn_def Let_def)
  qed
qed

theorem dbg_twin_witness:
  "bcread_dbg_mod 0 True 0x10000 1 4 [1, 2, 3, 4, 5] = Inr ([0, 0, 0, 0], [5]) \<and>
   bcread_dbg_mod 0 True 0x100 1 4 [1, 2, 3, 4, 5] = bcread_dbg True 0x100 1 4 [1, 2, 3, 4, 5]"
proof -
  have "replicate 4 (0 :: u8) = [0, 0, 0, 0]" by (simp add: eval_nat_numeral)
  moreover have "(0x10000 :: u32) \<le> 0x10000" "\<not> (0x10000 :: u32) \<le> 0x100" "(0x100 :: u32) < 0x10000"
    by (simp_all add: word_le_nat_alt word_less_nat_alt)
  ultimately show ?thesis
    using dbg_twin [where n = 1 and sz = 4 and bs = "[1, 2, 3, 4, 5]" and dst = 0 and swap = True and numline = "0x10000"]
      dbg_twin [where n = 1 and sz = 4 and bs = "[1, 2, 3, 4, 5]" and dst = 0 and swap = True and numline = "0x100"]
    by simp
qed

text \<open>
  C25: the table reader of \<^verbatim>\<open>bcread_kgc_mod\<close> passes a wild Lua state to \<^verbatim>\<open>lj_tab_set\<close>, which
  is used only when an insertion rehashes. The table made for the entry count always has a
  free node for the next entry, so whatever the input, the tables \<^verbatim>\<open>bcread_ktab\<close> reads are
  read the same without touching that state.
\<close>

theorem ktab_mod_reads:
  assumes "bcread_ktab bs = Inr r"
  shows "ktab_mod bs = Inr r"
  by (rule ktab_mod_eq [OF assms])

lemma lj_tab_set_fits:
  assumes "tab_ok t" "has_room t" "key_ok (norm_key k)"
  shows "\<exists>t' s. lj_tab_set t k = Inr (t', s)"
proof -
  have "lj_tab_set t k = set_with (newkey_body (newkey_fuel 1)) t (norm_key k)"
    by (simp only: lj_tab_set_def lj_tab_newkey_def set_norm [of _ _ k]) (simp add: numeral_2_eq_2 newkey_fuel_Suc)
  then show ?thesis using set_room [OF assms(1,3), of "newkey_fuel 1"] assms(2) by auto
qed

lemma ktab_example: "\<exists>t. bcread_ktab [0, 1, 2, 1, 9] = Inr (t, [9])"
proof -
  obtain t where t: "lj_tab_new 0 1 = Inr t" using lj_tab_new_eq [of 0 1] by (auto simp: LJ_MAX_HBITS_def)
  have "has_room t" using lj_tab_new_Inr [OF t] by (simp add: has_room_def)
  moreover have "key_ok (norm_key VTrue)" by (simp add: norm_key_def)
  ultimately obtain t' s where s: "lj_tab_set t VTrue = Inr (t', s)"
    using lj_tab_set_fits lj_tab_new_Inr [OF t] by blast
  show ?thesis using t s
    by (simp add: bcread_ktab_def bcread_uleb128_def sbind_def slift_def bcread_ktabk_def hsize2hbits_def dump_codes
        word_le_nat_alt)
qed

theorem ktab_mod_reads_witness: "\<exists>t. ktab_mod [0, 1, 2, 1, 9] = Inr (t, [9])"
  using ktab_example ktab_mod_reads by blast

text \<open>
  C26: strings. The vector and scalar code of \<^verbatim>\<open>bcread_kgc_mod\<close> complements every
  character after an exclusive or with its index, for every length; it is its own inverse.
\<close>

theorem strings_deobfuscated:
  "decode_str s = map (\<lambda>i. NOT (s ! i XOR word_of_nat i)) [0..<length s] \<and> decode_str (decode_str s) = s"
proof
  show "decode_str s = map (\<lambda>i. NOT (s ! i XOR word_of_nat i)) [0..<length s]"
    by (rule nth_equalityI) (simp_all add: decode_str_nth)
  show "decode_str (decode_str s) = s" by (rule decode_str_decode_str)
qed

text \<open>
  C27: opcodes. The chain of multiplications and divisions by 253 that the loop applies to
  an opcode is the 71st power modulo 253; it permutes the bytes below 253, and its inverse
  there is the 31st power.
\<close>

theorem opcodes_deobfuscated:
  "decode_op b = word_of_int (uint b ^ 71 mod 253) \<and> bij_betw decode_op {b. b < 253} {b. b < 253} \<and>
   (\<forall>c < 253. decode_op (encode_op c) = c)"
proof -
  have small: "(word_of_int (i mod 253) :: u8) < 253" for i
  proof -
    have "0 \<le> i mod 253" "i mod 253 < 253" by simp_all
    then have "uint (word_of_int (i mod 253) :: u8) = i mod 253" by (subst uint_word_of_int) simp
    then show ?thesis by (simp add: word_less_def)
  qed
  have d: "decode_op ` {b. b < 253} \<subseteq> {b. b < 253}" by (auto simp: decode_op_power small)
  have "{b. b < 253} \<subseteq> decode_op ` {b. b < 253}"
  proof
    fix c :: u8 assume "c \<in> {b. b < 253}"
    then have "decode_op (encode_op c) = c" by (simp add: decode_encode_op)
    moreover have "encode_op c < 253" by (simp add: encode_op_def small)
    ultimately show "c \<in> decode_op ` {b. b < 253}" by (intro image_eqI [of c _ "encode_op c"]) simp_all
  qed
  moreover from this have "inj_on decode_op {b. b < 253}" by (intro finite_surj_inj) simp_all
  ultimately show ?thesis using d by (auto simp: bij_betw_def decode_op_power [of b] decode_encode_op)
qed

theorem opcodes_deobfuscated_witness: "decode_op (encode_op 89) = 89 \<and> decode_op (encode_op 252) = 252"
  using opcodes_deobfuscated [THEN conjunct2, THEN conjunct2] by (simp add: word_less_nat_alt)

text \<open>
  C28: big-endian dumps. Every instruction of a big-endian obfuscated dump is read as the
  decoding of zero, whatever the dump says.
\<close>

theorem big_endian_lost:
  assumes "4 * n \<le> length bs" "n \<noteq> 0"
  shows "\<exists>bc0. bytecode_mod dst True flags framesize n bs = Inr (bc0 # decode_bc 0 (replicate n 0), drop (4 * n) bs)"
proof -
  have l: "length (u32s bs) = length bs div 4" for bs
    by (induction bs rule: u32s.induct) simp_all
  have "map byteswap_ulong (u32s (take (4 * n) bs)) = replicate n 0"
    using assms by (intro replicate_eqI) (auto simp: l byteswap_ulong_0)
  then show ?thesis using assms by (simp add: bytecode_mod_def sbind_def getn_def Let_def)
qed

theorem big_endian_lost_witness:
  "\<exists>bc0. bytecode_mod 0 True 2 1 1 [1, 2, 3, 4] = Inr (bc0 # decode_bc 0 [0], [])"
  using big_endian_lost [where n = 1 and bs = "[1, 2, 3, 4]" and dst = 0 and flags = 2 and framesize = 1] by simp

end
