(* ===== verification/BcreadLoop.thy ===== *)
theory BcreadLoop
  imports TwinProps
begin

text \<open>
  Reading only ever consumes input, so the loops over the prototypes end: each round takes
  at least the byte of a length.
\<close>

section \<open>Readers consume\<close>

named_theorems consuming "readers and state transformers that never give input back"

definition eats :: "'a reader \<Rightarrow> bool" where
  "eats r \<longleftrightarrow> (\<forall>bs x bs'. r bs = Inr (x, bs') \<longrightarrow> length bs' \<le> length bs)"

lemma eatsI: "(\<And>bs x bs'. r bs = Inr (x, bs') \<Longrightarrow> length bs' \<le> length bs) \<Longrightarrow> eats r"
  by (simp add: eats_def)

lemma eatsD: "eats r \<Longrightarrow> r bs = Inr (x, bs') \<Longrightarrow> length bs' \<le> length bs"
  by (simp add: eats_def)

lemma eats_bind [consuming]: "eats m \<Longrightarrow> (\<And>x. eats (f x)) \<Longrightarrow> eats (sbind m f)"
  unfolding eats_def sbind_def by (auto simp: rbind_eq_Inr split: prod.splits) (meson le_trans)

lemma eats_ret [consuming]: "eats (sret x)"
  by (simp add: eats_def)

lemma eats_lift [consuming]: "eats (slift r)"
  by (auto simp: eats_def slift_def rbind_eq_Inr)

lemma eats_if [consuming]: "eats a \<Longrightarrow> eats b \<Longrightarrow> eats (if c then a else b)"
  by simp

lemma eats_Let [consuming]: "(\<And>x. eats (f x)) \<Longrightarrow> eats (Let v f)"
  by (simp add: Let_def)

lemma eats_case_prod [consuming]: "(\<And>x y. eats (f x y)) \<Longrightarrow> eats (case p of (x, y) \<Rightarrow> f x y)"
  by (cases p) simp

lemma eats_get1 [consuming]: "eats get1"
  by (rule eatsI) (auto elim: get1.elims)

lemma eats_getn [consuming]: "eats (getn n)"
  by (rule eatsI) (auto simp: getn_def split: if_splits)

lemma ruleb128_loop_eats: "ruleb128_loop v sh bs = Inr (x, bs') \<Longrightarrow> length bs' < length bs"
proof (induction bs arbitrary: v sh)
  case (Cons p ps)
  then show ?case using Cons.IH by (auto simp: Let_def less_Suc_eq split: if_splits)
qed simp

lemma lj_buf_ruleb128_eats: "lj_buf_ruleb128 bs = Inr (x, bs') \<Longrightarrow> length bs' < length bs"
  by (cases bs) (auto simp: Let_def split: if_splits dest: ruleb128_loop_eats)

lemma eats_uleb [consuming]: "eats lj_buf_ruleb128" "eats bcread_uleb128"
  by (auto intro!: eatsI dest: lj_buf_ruleb128_eats simp: bcread_uleb128_def)

lemma uleb33_loop_eats: "uleb33_loop v sh bs = Inr (x, bs') \<Longrightarrow> length bs' < length bs"
proof (induction bs arbitrary: v sh)
  case (Cons p ps)
  then show ?case using Cons.IH by (auto simp: Let_def less_Suc_eq split: if_splits)
qed simp

lemma eats_uleb33 [consuming]: "eats bcread_uleb128_33"
proof (rule eatsI)
  fix bs x bs' assume "bcread_uleb128_33 bs = Inr (x, bs')"
  then show "length bs' \<le> length bs"
    by (cases bs) (auto simp: Let_def split: if_splits dest: uleb33_loop_eats)
qed

lemma eats_mem [consuming]: "eats (bcread_mem n)" "eats bcread_byte"
  by (simp_all add: bcread_mem_def bcread_byte_def eats_getn eats_get1)

lemma eats_str [consuming]: "eats (bcread_str n)"
proof -
  have "eats (sbind (bcread_mem n) (\<lambda>p. sret (the_str p)))" by (intro consuming)
  then show ?thesis by (auto simp: eats_def bcread_str_def)
qed

lemma eats_read_n [consuming]: "eats r \<Longrightarrow> eats (read_n r n)"
proof (induction n)
  case (Suc n)
  note IH = Suc.IH [OF Suc.prems] and r = Suc.prems
  have "read_n r (Suc n) = sbind r (\<lambda>x. sbind (read_n r n) (\<lambda>xs. sret (x # xs)))"
    by (rule ext) (simp add: sbind_def)
  then show ?case by (simp only:) (intro consuming IH r)
qed (simp add: eats_def)

lemma eats_ktabk [consuming]: "eats bcread_ktabk"
  unfolding bcread_ktabk_def by (intro consuming)

lemma eats_ktab_hash [consuming]: "eats (ktab_hash st i t)"
proof (induction i arbitrary: t)
  case (Suc i)
  have "ktab_hash st (Suc i) t = sbind bcread_ktabk (\<lambda>key.
     sbind (slift (st t key)) (\<lambda>(t, s). sbind bcread_ktabk (\<lambda>v. ktab_hash st i (store t s v))))"
    by (rule ext) simp
  then show ?case by (simp only:) (intro consuming Suc)
qed (simp add: eats_def)

lemma eats_ktab [consuming]: "eats bcread_ktab" "eats ktab_mod"
  unfolding bcread_ktab_def ktab_mod_def by (intro consuming)+

lemma eats_knum [consuming]: "eats (bcread_knum n)"
proof -
  have "eats bcread_knum_one"
  proof (rule eatsI)
    fix bs x bs' assume one: "bcread_knum_one bs = Inr (x, bs')"
    have m: "eats (sbind bcread_uleb128_33 (\<lambda>lo.
          if isnum then sbind bcread_uleb128 (\<lambda>hi. sret (num_lohi lo hi)) else sret (int2num lo)))" for isnum
      by (intro consuming)
    show "length bs' \<le> length bs"
    proof (cases bs)
      case (Cons p ps)
      show ?thesis using one unfolding Cons bcread_knum_one_def Let_def list.case by (rule eatsD [OF m])
    qed (use one in \<open>simp add: bcread_knum_one_def\<close>)
  qed
  then show ?thesis unfolding bcread_knum_def by (intro consuming)
qed

lemma eats_kcdata [consuming]: "eats (bcread_kcdata tp)"
  unfolding bcread_kcdata_def by (intro consuming)

lemma eats_arrays [consuming]: "eats (bcread_bytecode swap flags fs n)" "eats (bcread_uv swap m)" "eats (bcread_dbg swap nl n sz)"
  unfolding bcread_bytecode_def bcread_uv_def bcread_dbg_def by (intro consuming)+

section \<open>The lexer state\<close>

definition shrinks :: "'a lreader \<Rightarrow> bool" where
  "shrinks m \<longleftrightarrow> (\<forall>ls x ls'. m ls = Inr (x, ls') \<longrightarrow> avail ls' \<le> avail ls)"

lemma shrinksI: "(\<And>ls x ls'. m ls = Inr (x, ls') \<Longrightarrow> avail ls' \<le> avail ls) \<Longrightarrow> shrinks m"
  by (simp add: shrinks_def)

lemma shrinksD: "shrinks m \<Longrightarrow> m ls = Inr (x, ls') \<Longrightarrow> avail ls' \<le> avail ls"
  by (simp add: shrinks_def)

named_theorems shrinking "state transformers that never give input back"

lemma shrinks_bind [shrinking]: "shrinks m \<Longrightarrow> (\<And>x. shrinks (f x)) \<Longrightarrow> shrinks (sbind m f)"
  unfolding shrinks_def sbind_def by (auto simp: rbind_eq_Inr split: prod.splits) (meson le_trans)

lemma shrinks_ret [shrinking]: "shrinks (sret x)" "shrinks (slift r)"
  by (auto simp: shrinks_def slift_def rbind_eq_Inr)

lemma shrinks_if [shrinking]: "shrinks a \<Longrightarrow> shrinks b \<Longrightarrow> shrinks (if c then a else b)"
  by simp

lemma shrinks_Let [shrinking]: "(\<And>x. shrinks (f x)) \<Longrightarrow> shrinks (Let v f)"
  by (simp add: Let_def)

lemma shrinks_case_prod [shrinking]: "(\<And>x y. shrinks (f x y)) \<Longrightarrow> shrinks (case p of (x, y) \<Rightarrow> f x y)"
  by (cases p) simp

lemma shrinks_on_buf [shrinking]: "eats r \<Longrightarrow> shrinks (on_buf r)"
  by (rule shrinksI) (auto simp: on_buf_def rbind_eq_Inr avail_def dest: eatsD)

lemma on_buf_uleb_less: "on_buf lj_buf_ruleb128 ls = Inr (x, ls') \<Longrightarrow> avail ls' < avail ls"
  by (auto simp: on_buf_def rbind_eq_Inr avail_def dest: lj_buf_ruleb128_eats)

lemma shrinks_pop [shrinking]: "shrinks pop_child" "shrinks pop_child_mod"
  by (auto simp: shrinks_def pop_child_def pop_child_mod_def bcread_error_def bcread_error_mod_def avail_def
      split: if_splits list.splits)

lemma shrinks_push [shrinking]: "shrinks (push_proto pt)"
  by (auto simp: shrinks_def push_proto_def avail_def split: prod.splits option.splits)

lemma shrinks_stimes [shrinking]: "shrinks m \<Longrightarrow> shrinks (stimes n m)"
proof (induction n)
  case (Suc n)
  note IH = Suc.IH [OF Suc.prems] and m = Suc.prems
  have "stimes (Suc n) m = sbind m (\<lambda>x. sbind (stimes n m) (\<lambda>xs. sret (x # xs)))" by (rule ext) simp
  then show ?case by (simp only:) (intro shrinking IH m)
qed (simp add: shrinks_def)

lemma shrinks_kcdata_mod [shrinking]: "shrinks (kcdata_mod tp)"
  unfolding kcdata_mod_def newgco_in_lexer_def by (intro shrinking consuming)

lemma shrinks_kgc [shrinking]: "shrinks (bcread_kgc n)" "shrinks (bcread_kgc_mod n)"
  unfolding bcread_kgc_def bcread_kgc_mod_def bcread_kgc_one_def kgc_mod_one_def
  by (intro shrinking consuming)+

lemma shrinks_proto [shrinking]: "shrinks lj_bcread_proto"
proof (rule shrinksI)
  fix ls0 x ls' assume "lj_bcread_proto ls0 = Inr (x, ls')"
  then show "avail ls' \<le> avail ls0"
    unfolding lj_bcread_proto_def Let_def by (rule shrinksD [rotated]) (intro shrinking consuming)
qed

lemma eats_mod [consuming]: "eats (bcread_uv_mod dst swap m)" "eats (bytecode_mod dst swap flags fs n)"
    "eats (bcread_dbg_mod dst swap nl n sz)" "eats (bcread_knum_mod n)"
proof -
  have "bcread_knum_mod n = bcread_knum n" by (rule ext) (rule bcread_knum_mod_eq)
  then show "eats (bcread_knum_mod n)" by (simp add: consuming)
  show "eats (bcread_uv_mod dst swap m)" "eats (bytecode_mod dst swap flags fs n)" "eats (bcread_dbg_mod dst swap nl n sz)"
    unfolding bcread_uv_mod_def bytecode_mod_def bcread_dbg_mod_def by (intro consuming)+
qed

lemma shrinks_proto_mod [shrinking]: "shrinks (proto_mod b)"
proof (rule shrinksI)
  fix ls0 x ls' assume "proto_mod b ls0 = Inr (x, ls')"
  then show "avail ls' \<le> avail ls0"
    unfolding proto_mod_def Let_def by (rule shrinksD [rotated]) (intro shrinking consuming)
qed

text \<open>Refilling moves input between the callback and the window.\<close>

lemma fill_keep_avail: "fill_keep len ls = Inr ls' \<Longrightarrow> ls_buf ls' = ls_buf ls \<and> ls_chunks ls' = ls_chunks ls"
  by (auto simp: fill_keep_def Let_def rbind_eq_Inr split: if_splits)

lemma fill_append_avail:
  "fill_append len chunk ls = Inr ls' \<Longrightarrow> ls_buf ls' = ls_buf ls @ fst chunk \<and> ls_chunks ls' = ls_chunks ls"
  by (auto simp: fill_append_def Let_def rbind_eq_Inr split: if_splits)

lemma fill_loop_avail:
  "fill_loop len need chunks ls = Inr ls' \<Longrightarrow>
    avail ls' \<le> length (ls_buf ls) + sum_list (map (\<lambda>c. length (fst c)) chunks)"
proof (induction chunks arbitrary: ls)
  case Nil
  then show ?case by (auto simp: rbind_eq_Inr avail_def bcread_error_def dest: fill_keep_avail split: if_splits)
next
  case (Cons chunk chunks)
  obtain ls1 where k: "fill_keep len ls = Inr ls1" using Cons.prems by (auto simp: rbind_eq_Inr)
  note k1 = fill_keep_avail [OF k]
  show ?case
  proof (cases "fst chunk = []")
    case True
    then show ?thesis using Cons.prems k k1 by (auto simp: avail_def bcread_error_def split: if_splits)
  next
    case False
    then obtain ls2 where a: "fill_append len chunk ls1 = Inr ls2"
      "(if needs len ls2 then fill_loop len need chunks ls2 else Inr (ls2\<lparr>ls_chunks := chunks\<rparr>)) = Inr ls'"
      using Cons.prems k by (auto simp: rbind_eq_Inr)
    note a1 = fill_append_avail [OF a(1)]
    show ?thesis
      using a(2) Cons.IH [of ls2] a1 k1 by (auto simp: avail_def split: if_splits)
  qed
qed

lemma bcread_fill_avail: "bcread_fill len need ls = Inr ls' \<Longrightarrow> avail ls' \<le> avail ls"
  using fill_loop_avail [of len need "ls_chunks ls" ls ls']
  by (auto simp: bcread_fill_def bcread_error_def avail_def split: if_splits)

lemma shrinks_want [shrinking]: "shrinks (bcread_want n)" "shrinks (bcread_need n)"
  by (auto simp: shrinks_def bcread_want_def bcread_need_def rbind_eq_Inr dest: bcread_fill_avail split: if_splits)

section \<open>The loops end\<close>

lemma bcread_round_less: "bcread_round ls = Inr (True, ls') \<Longrightarrow> avail ls' < avail ls"
proof -
  assume r: "bcread_round ls = Inr (True, ls')"
  then obtain ls1 len ls2 ls3 pt ls4 where
    "bcread_want 5 ls = Inr ((), ls1)" "on_buf lj_buf_ruleb128 ls1 = Inr (len, ls2)"
    "bcread_need (unat len) ls2 = Inr ((), ls3)" "lj_bcread_proto ls3 = Inr (pt, ls4)" "push_proto pt ls4 = Inr ((), ls')"
    by (auto simp: bcread_round_def bcread_uleb128_def sbind_def rbind_eq_Inr bcread_error_def split: if_splits prod.splits)
  then show ?thesis
    using shrinksD [OF shrinks_want(1)] on_buf_uleb_less shrinksD [OF shrinks_want(2)] shrinksD [OF shrinks_proto]
      shrinksD [OF shrinks_push] by (meson le_less_trans less_le_trans)
qed

text \<open>With more fuel than input the loop does not depend on the fuel.\<close>

lemma bcread_loop_fuel: "avail ls < f \<Longrightarrow> avail ls < g \<Longrightarrow> bcread_loop f ls = bcread_loop g ls"
proof (induction f arbitrary: g ls)
  case (Suc f)
  then obtain g' where g: "g = Suc g'" by (cases g) simp_all
  show ?case
  proof (cases "bcread_round ls")
    case (Inr p)
    obtain more ls' where p: "p = (more, ls')" by (cases p)
    show ?thesis
    proof (cases more)
      case True
      then have "avail ls' < avail ls" using bcread_round_less Inr p by simp
      then have "bcread_loop f ls' = bcread_loop g' ls'" using Suc.prems Suc.IH [of ls' g'] g by linarith
      then show ?thesis using Inr p True by (simp add: g)
    qed (simp add: g Inr p)
  qed (simp add: g)
qed simp

lemma shrinks_fill_if_short [shrinking]: "shrinks (fill_if_short b n a4)"
proof (rule shrinksI)
  fix ls x ls' assume "fill_if_short b n a4 ls = Inr (x, ls')"
  then consider "ls' = ls" | "fill_loop n a4 (ls_chunks ls) ls = Inr ls'"
    by (auto simp: fill_if_short_def bcread_fill_mod_eq rbind_eq_Inr bcread_error_def map_sum_def split: if_splits sum.splits)
  then show "avail ls' \<le> avail ls"
    by cases (auto dest: fill_loop_avail simp: avail_def)
qed

lemma round_mod_less: "round_mod b ls = Inr (True, ls') \<Longrightarrow> avail ls' < avail ls"
proof -
  assume r: "round_mod b ls = Inr (True, ls')"
  then obtain ls1 len ls2 ls3 pt ls4 where
    "fill_if_short b 5 False ls = Inr ((), ls1)" "on_buf lj_buf_ruleb128 ls1 = Inr (len, ls2)"
    "fill_if_short b (unat len) True ls2 = Inr ((), ls3)" "proto_mod b ls3 = Inr (pt, ls4)" "push_proto pt ls4 = Inr ((), ls')"
    by (auto simp: round_mod_def sbind_def rbind_eq_Inr bcread_error_mod_def split: if_splits prod.splits)
  then show ?thesis
    using shrinksD [OF shrinks_fill_if_short] on_buf_uleb_less shrinksD [OF shrinks_proto_mod]
      shrinksD [OF shrinks_push] by (meson le_less_trans less_le_trans)
qed

lemma loop_mod_fuel: "avail ls < f \<Longrightarrow> avail ls < g \<Longrightarrow> loop_mod b f ls = loop_mod b g ls"
proof (induction f arbitrary: g ls)
  case (Suc f)
  then obtain g' where g: "g = Suc g'" by (cases g) simp_all
  show ?case
  proof (cases "round_mod b ls")
    case (Inr p)
    obtain more ls' where p: "p = (more, ls')" by (cases p)
    show ?thesis
    proof (cases more)
      case True
      then have "avail ls' < avail ls" using round_mod_less Inr p by simp
      then have "loop_mod b f ls' = loop_mod b g' ls'" using Suc.prems Suc.IH [of ls' g'] g by linarith
      then show ?thesis using Inr p True by (simp add: g)
    qed (simp add: g Inr p)
  qed (simp add: g)
qed simp

text \<open>
  C30: the loops over the prototypes of a dump end on every input: each round that goes on
  has consumed input, so fuel beyond the bytes available changes nothing, and the fuel the
  readers use is enough.
\<close>

theorem bcread_loops_end:
  assumes "avail ls < f"
  shows "bcread_loop f ls = bcread_loop (Suc (avail ls)) ls \<and> loop_mod b f ls = loop_mod b (Suc (avail ls)) ls \<and>
    (\<forall>ls'. bcread_round ls = Inr (True, ls') \<longrightarrow> avail ls' < avail ls) \<and>
    (\<forall>ls'. round_mod b ls = Inr (True, ls') \<longrightarrow> avail ls' < avail ls)"
  using bcread_loop_fuel [OF assms, of "Suc (avail ls)"] loop_mod_fuel [OF assms, of "Suc (avail ls)"]
    bcread_round_less round_mod_less by simp

theorem bcread_loops_end_witness:
  "avail (lex_start [0] []) = 1 \<and> bcread_loop 7 (lex_start [0] []) = bcread_loop (Suc 1) (lex_start [0] [])"
proof -
  have a: "avail (lex_start [0] []) = 1" by (simp add: avail_def lex_start_def)
  then have "avail (lex_start [0] []) < 7" by simp
  from bcread_loops_end [OF this] a show ?thesis by (simp only: simp_thms)
qed

end
