(* ===== verification/DumpNum.thy ===== *)
theory DumpNum
  imports Bcread Bcwrite BufCorrect
begin

text \<open>
  Numbers in dumps: the 33-bit ULEB128 numbers of \<^verbatim>\<open>bcwrite_knum\<close>, whose top bits are
  patched into the last byte, are a codec for the number constants of prototypes, and the
  entries of template tables are a codec for values.
\<close>

section \<open>33-bit numbers\<close>

definition uleb_byte :: "u32 \<Rightarrow> u8" where
  "uleb_byte v = ucast ((v AND 0x7f) OR 0x80)"

lemma wuleb_more: "0x80 \<le> v \<Longrightarrow> lj_strfmt_wuleb128 v = uleb_byte v # lj_strfmt_wuleb128 (drop_bit 7 v)"
  by (subst lj_strfmt_wuleb128.simps) (simp add: uleb_byte_def)

lemma wuleb_last: "\<not> 0x80 \<le> v \<Longrightarrow> lj_strfmt_wuleb128 v = [ucast v]"
  by (subst lj_strfmt_wuleb128.simps) simp

lemma ge_bits: "(2 ^ n \<le> unat (v :: 'a::len word)) = (drop_bit n v \<noteq> 0)"
proof -
  have "drop_bit n v = 0 \<longleftrightarrow> unat (drop_bit n v) = 0" by (simp add: unat_eq_0)
  then show ?thesis by (simp add: unat_drop_bit div_eq_0_iff not_less)
qed

lemma ge_80: "0x80 \<le> v \<longleftrightarrow> drop_bit 7 v \<noteq> (0 :: u32)"
  using ge_bits [of 7 v] by (simp add: word_le_nat_alt)

lemma wuleb_4:
  assumes "drop_bit 21 v \<noteq> 0" "drop_bit 28 v = (0 :: u32)"
  shows "lj_strfmt_wuleb128 v =
    [uleb_byte v, uleb_byte (drop_bit 7 v), uleb_byte (drop_bit 14 v), ucast (drop_bit 21 v)]"
proof -
  have nz: "drop_bit 7 v \<noteq> 0" "drop_bit 14 v \<noteq> 0"
  proof -
    have "drop_bit 14 (drop_bit 7 v) \<noteq> 0" "drop_bit 7 (drop_bit 14 v) \<noteq> 0" using assms(1) by simp_all
    then show "drop_bit 7 v \<noteq> 0" "drop_bit 14 v \<noteq> 0" by (metis drop_bit_of_0)+
  qed
  then show ?thesis using assms
    by (simp add: wuleb_more wuleb_last ge_80)
qed

text \<open>The bits of the value the writer encodes, and of the number it stands for.\<close>

definition wval :: "bool \<Rightarrow> u32 \<Rightarrow> u32" where
  "wval b k = (2 * k OR (k AND 0x80000000)) OR of_bool b"

lemma bit_80000000: "bit (0x80000000 :: u32) n = (n = 31)"
proof -
  have "(0x80000000 :: u32) = push_bit 31 1" by simp
  then show ?thesis by (simp only: bit_push_bit_iff bit_1_iff) auto
qed

lemma bit_wval:
  "bit (wval b k) n = (n < 32 \<and> (n = 0 \<and> b \<or> n \<noteq> 0 \<and> bit k (n - 1) \<or> n = 31 \<and> bit k 31))"
proof -
  have "bit (2 * k) n = (n < 32 \<and> n \<noteq> 0 \<and> bit k (n - 1))"
    by (cases n) (auto simp: bit_double_iff dest: bit_imp_le_length)
  moreover have "bit (of_bool b :: u32) n = (b \<and> n = 0)" by (cases b) (simp_all add: bit_1_iff)
  ultimately show ?thesis
    unfolding wval_def bit_or_iff bit_and_iff bit_80000000 by (auto dest: bit_imp_le_length)
qed

lemma wval_num: "wval True k = 1 + (2 * k OR (k AND 0x80000000))"
proof -
  have "(2 * k OR (k AND 0x80000000)) AND 1 = 0"
    using bit_wval [of False k 0] by (simp add: wval_def and_one_eq even_iff_mod_2_eq_zero [symmetric] bit_0)
  then show ?thesis by (simp add: wval_def disjunctive_add_eq_or [symmetric] add.commute)
qed

text \<open>
  The number with the lowest bit \<open>b\<close> and the bits of \<open>k\<close> above it: seven bits, and what is
  left of \<open>k\<close> as an ordinary ULEB128 number.
\<close>

definition enc33 :: "bool \<Rightarrow> u32 \<Rightarrow> bytes" where
  "enc33 b k = (if drop_bit 6 k = 0 then [ucast (wval b k)] else uleb_byte (wval b k) # lj_strfmt_wuleb128 (drop_bit 6 k))"

lemma drop_wval:
  assumes "\<not> bit k 31"
  shows "drop_bit 7 (wval b k) = drop_bit 6 k"
proof (rule bit_word_eqI)
  fix n
  have "bit k (6 + n) \<Longrightarrow> n < 25"
    using assms bit_imp_le_length [of k "6 + n"] by (cases "n = 25") auto
  then show "bit (drop_bit 7 (wval b k)) n = bit (drop_bit 6 k) n"
    using assms by (auto simp: bit_drop_bit_eq bit_wval)
qed

lemma enc33_small: "\<not> bit k 31 \<Longrightarrow> lj_strfmt_wuleb128 (wval b k) = enc33 b k"
  by (cases "drop_bit 6 k = 0") (simp_all add: enc33_def wuleb_last wuleb_more ge_80 drop_wval)

lemma uleb_byte_cong: "take_bit 7 x = take_bit 7 y \<Longrightarrow> uleb_byte x = uleb_byte y"
  by (simp add: uleb_byte_def and_7f)

lemma nz_bit: "bit (w :: u32) n \<Longrightarrow> drop_bit m w \<noteq> 0" if "m \<le> n"
proof -
  assume "bit w n"
  then have "bit (drop_bit m w) (n - m)" using that by (simp add: bit_drop_bit_eq)
  then show ?thesis by auto
qed

lemma enc33_large:
  assumes k: "bit k 31" and hi: "\<And>n. n < 5 \<Longrightarrow> bit hi n = bit k (27 + n)"
  shows "patch33 (lj_strfmt_wuleb128 (wval b k)) hi = enc33 b k"
proof -
  define x where "x = drop_bit 7 (wval b k)"
  define y where "y = drop_bit 6 k"
  have bx: "bit x n = (n < 25 \<and> (bit k (6 + n) \<or> n = 24))" for n
    using k by (auto simp: x_def bit_drop_bit_eq bit_wval dest: bit_imp_le_length)
  have by': "bit y n = (n < 26 \<and> bit k (6 + n))" for n
    by (auto simp: y_def bit_drop_bit_eq dest: bit_imp_le_length)
  have "bit x 24" "bit y 25" using k by (simp_all add: bx by')
  then have nz: "drop_bit 21 x \<noteq> 0" "drop_bit 21 y \<noteq> 0" using nz_bit [of 21 24 x] nz_bit [of 21 25 y] by simp_all
  have z: "drop_bit 28 x = 0" "drop_bit 28 y = 0"
    by (rule bit_word_eqI; auto simp: bit_drop_bit_eq bx by')+
  have same: "uleb_byte (drop_bit m x) = uleb_byte (drop_bit m y)" if "m \<le> 14" for m
    using that by (intro uleb_byte_cong bit_word_eqI) (auto simp: bit_take_bit_iff bit_drop_bit_eq bx by')
  have last: "(ucast (drop_bit 21 x) AND 7) OR ucast (hi AND 0x18) = (ucast (drop_bit 21 y) :: u8)"
  proof (rule bit_word_eqI)
    fix n assume "n < LENGTH(8)"
    then have "n = 0 \<or> n = 1 \<or> n = 2 \<or> n = 3 \<or> n = 4 \<or> n = 5 \<or> n = 6 \<or> n = 7" by auto
    then show "bit ((ucast (drop_bit 21 x) AND 7) OR ucast (hi AND 0x18) :: u8) n = bit (ucast (drop_bit 21 y) :: u8) n"
      using k hi [of 3] hi [of 4] by (elim disjE) (simp_all add: bit_simps bx by')
  qed
  have w: "drop_bit 7 (wval b k) \<noteq> 0" "drop_bit 6 k \<noteq> 0" using nz unfolding x_def [symmetric] y_def [symmetric]
    by (metis drop_bit_of_0)+
  have "lj_strfmt_wuleb128 (wval b k) = uleb_byte (wval b k) # lj_strfmt_wuleb128 x"
    using w by (simp add: wuleb_more ge_80 x_def)
  then show ?thesis using w same [of 0] same [of 7] same [of 14]
    unfolding enc33_def y_def [symmetric] by (simp add: wuleb_4 nz z patch33_def last)
qed

lemma knum_int_enc: "knum_int k = enc33 False k"
proof -
  have v: "2 * k OR (k AND 0x80000000) = wval False k" by (simp add: wval_def)
  have neg: "sint k < 0 \<longleftrightarrow> bit k 31" using bit_last_iff [of k] by simp
  show ?thesis
    by (cases "bit k 31")
      (simp_all add: knum_int_def v neg enc33_small enc33_large bit_signed_drop_bit_iff)
qed

lemma knum_num_enc: "knum_num x = enc33 True (num_lo x) @ lj_strfmt_wuleb128 (num_hi x)"
proof -
  have ge: "0x80000000 \<le> lo \<longleftrightarrow> bit lo 31" for lo :: u32
  proof -
    have "0x80000000 \<le> lo \<longleftrightarrow> drop_bit 31 lo \<noteq> 0" using ge_bits [of 31 lo] by (simp add: word_le_nat_alt)
    also have "\<dots> \<longleftrightarrow> bit lo 31"
    proof
      assume "drop_bit 31 lo \<noteq> 0"
      then obtain n where "bit (drop_bit 31 lo) n" by (auto simp: bit_eq_iff)
      then have "bit lo (31 + n)" by (simp add: bit_drop_bit_eq)
      then show "bit lo 31" using bit_imp_le_length [of lo "31 + n"] by simp
    qed (use nz_bit [of 31 31 lo] in simp)
    finally show ?thesis .
  qed
  show ?thesis
    by (cases "bit (num_lo x) 31")
      (simp_all add: knum_num_def Let_def wval_num [symmetric] ge enc33_small enc33_large bit_drop_bit_eq)
qed

section \<open>Reading them\<close>

lemma uleb33_loop_eq:
  "uleb33_loop v (int sh) bs = ruleb128_loop v sh bs"
proof (induction v sh bs rule: ruleb128_loop.induct)
  case (2 v sh p ps)
  have n: "int sh + 7 = int (sh + 7)" "(32 \<le> int (sh + 7)) = (32 \<le> sh + 7)" by linarith+
  show ?case using 2 unfolding uleb33_loop.simps ruleb128_loop.simps Let_def n(1) nat_int n(2) by (simp del: of_nat_add)
qed simp

text \<open>The first byte goes to bit 6: one step of the loop below bit 0.\<close>

lemma uleb33_tail:
  assumes "unat v < 2 ^ 26"
  shows "uleb33_loop acc (- 1) (lj_strfmt_wuleb128 v @ rest) = Inr (acc OR push_bit 6 v, rest)"
proof (cases "0x80 \<le> v")
  case True
  have "unat (drop_bit 7 v) < 2 ^ 19" using assms by (simp add: unat_drop_bit less_mult_imp_div_less)
  then have "uleb33_loop (acc OR push_bit 6 (v AND 0x7f)) (int 6) (lj_strfmt_wuleb128 (drop_bit 7 v) @ rest) =
      Inr (acc OR push_bit 6 v, rest)"
    unfolding uleb33_loop_eq using uleb_join [of acc 6 v] by (simp add: ruleb128_loop_wuleb128)
  then show ?thesis using uleb_byte_high [of v] uleb_byte_low [of v]
    by (simp add: wuleb_more [OF True] uleb_byte_def Let_def)
next
  case False
  then have b: "\<not> 0x80 \<le> (ucast v :: u8)" by (metis uleb_single ucast_u8_ge)
  have "ucast (ucast v :: u8) AND 0x7f = v"
  proof -
    have "v AND 0x7f = v" using False unfolding and_7f by (intro take_bit_self) (simp add: word_le_nat_alt)
    then show ?thesis using uleb_single [OF False] by simp
  qed
  then show ?thesis using b by (simp add: wuleb_last [OF False] Let_def)
qed

lemma first_bits:
  "uleb_byte (wval b k) AND 1 = of_bool b"
  "(ucast (drop_bit 1 (uleb_byte (wval b k))) AND 0x3f :: u32) = take_bit 6 k"
  "0x40 \<le> (ucast (drop_bit 1 (uleb_byte (wval b k))) :: u32)"
proof -
  have bu: "bit (uleb_byte (wval b k)) n = (n < 7 \<and> (n = 0 \<and> b \<or> n \<noteq> 0 \<and> bit k (n - 1)) \<or> n = 7)" for n
    unfolding uleb_byte_def and_7f or_80 by (auto simp: bit_simps bit_wval)
  show "uleb_byte (wval b k) AND 1 = of_bool b"
    using bu [of 0] by (simp add: and_one_eq even_iff_mod_2_eq_zero [symmetric] bit_0 mod_2_eq_odd)
  have and_3f: "v AND 0x3f = take_bit 6 v" for v :: u32 by (simp add: take_bit_eq_mask mask_eq_exp_minus_1)
  show "(ucast (drop_bit 1 (uleb_byte (wval b k))) AND 0x3f :: u32) = take_bit 6 k"
    unfolding and_3f by (rule bit_word_eqI) (auto simp: bit_simps bu)
  have "bit (ucast (drop_bit 1 (uleb_byte (wval b k))) :: u32) 6" by (simp add: bit_simps bu)
  then show "0x40 \<le> (ucast (drop_bit 1 (uleb_byte (wval b k))) :: u32)"
    using ge_bits [of 6 "ucast (drop_bit 1 (uleb_byte (wval b k))) :: u32"] nz_bit [of 6 6]
    by (simp add: word_le_nat_alt)
qed

lemma single_bits:
  assumes "drop_bit 6 k = 0"
  shows "(ucast (wval b k) :: u8) AND 1 = of_bool b" "ucast (drop_bit 1 (ucast (wval b k) :: u8)) = k"
    "\<not> 0x40 \<le> k"
proof -
  have z: "bit k n \<Longrightarrow> n < 6" for n using nz_bit [of 6 n k] assms by (metis leI)
  define p where "p = (ucast (wval b k) :: u8)"
  have bu: "bit p n = (n = 0 \<and> b \<or> n \<noteq> 0 \<and> bit k (n - 1))" for n
    using z [of "n - 1"] z [of 31] by (auto simp: p_def bit_simps bit_wval)
  show "(ucast (wval b k) :: u8) AND 1 = of_bool b"
    unfolding p_def [symmetric] using bu [of 0] by (simp add: and_one_eq even_iff_mod_2_eq_zero [symmetric] bit_0 mod_2_eq_odd)
  show "ucast (drop_bit 1 (ucast (wval b k) :: u8)) = k"
    unfolding p_def [symmetric] by (rule bit_word_eqI) (use z in \<open>force simp: bit_simps bu\<close>)
  show "\<not> 0x40 \<le> k" using ge_bits [of 6 k] assms by (simp add: word_le_nat_alt)
qed

lemma bit_join: "take_bit n k OR push_bit n (drop_bit n k) = (k :: 'a::len word)"
proof (rule bit_word_eqI)
  fix i assume "i < LENGTH('a)"
  then show "bit (take_bit n k OR push_bit n (drop_bit n k)) i = bit k i"
    by (cases "i < n") (auto simp: bit_simps)
qed

lemma enc33_read: "bcread_uleb128_33 (enc33 b k @ rest) = Inr (k, rest)"
proof (cases "drop_bit 6 k = 0")
  case True
  then show ?thesis using single_bits(2,3) [OF True] by (simp add: enc33_def Let_def)
next
  case False
  have "unat (drop_bit 6 k) < 2 ^ 26" using u32_less [of k] by (simp add: unat_drop_bit less_mult_imp_div_less)
  then have "uleb33_loop (take_bit 6 k) (- 1) (lj_strfmt_wuleb128 (drop_bit 6 k) @ rest) = Inr (k, rest)"
    by (simp add: uleb33_tail bit_join)
  then show ?thesis using False first_bits [of b k] by (simp add: enc33_def Let_def)
qed

section \<open>Number constants of prototypes\<close>

lemma enc33_first: "\<exists>p ps. enc33 b k = p # ps \<and> p AND 1 = of_bool b"
proof (cases "drop_bit 6 k = 0")
  case True
  then show ?thesis using single_bits(1) [OF True, of b] by (simp add: enc33_def)
qed (simp add: enc33_def first_bits)

lemma knum_read_enc33:
  "bcread_knum_one (enc33 b k @ rest) =
     (if b then sbind bcread_uleb128 (\<lambda>hi. sret (num_lohi k hi)) rest else Inr (int2num k, rest))"
proof -
  obtain p ps where p: "enc33 b k = p # ps" "p AND 1 = of_bool b" using enc33_first by blast
  have "bcread_knum_one (enc33 b k @ rest) =
      sbind bcread_uleb128_33 (\<lambda>lo. if b then sbind bcread_uleb128 (\<lambda>hi. sret (num_lohi lo hi)) else sret (int2num lo))
        (enc33 b k @ rest)"
    unfolding p(1) by (simp add: bcread_knum_one_def p(2) del: bcread_uleb128_33.simps)
  also have "\<dots> = (if b then sbind bcread_uleb128 (\<lambda>hi. sret (num_lohi k hi)) rest else Inr (int2num k, rest))"
    by (simp add: sbind_def enc33_read)
  finally show ?thesis .
qed

interpretation knum: byte_codec "\<lambda>x. x \<noteq> mzero" knum_bytes bcread_knum_one
proof unfold_locales
  fix x rest
  assume x: "x \<noteq> mzero"
  show "bcread_knum_one (knum_bytes x @ rest) = Inr (x, rest)"
  proof (cases "num_eq x (int2num (lj_num2int x))")
    case True
    then have "x = int2num (lj_num2int x)" using num_eq_int2num x by blast
    then show ?thesis using True by (simp add: knum_bytes_def Let_def knum_int_enc knum_read_enc33)
  next
    case False
    then show ?thesis
      by (simp add: knum_bytes_def Let_def knum_num_enc knum_read_enc33 sbind_def bcread_uleb128_def uleb.dec_enc)
  qed
qed

lemma enc33_length: "length (enc33 b k) \<le> 5"
proof -
  have "unat (drop_bit 6 k) < 2 ^ (7 * Suc 3)" using u32_less [of k] by (simp add: unat_drop_bit less_mult_imp_div_less)
  then have "length (lj_strfmt_wuleb128 (drop_bit 6 k)) \<le> Suc 3" by (rule length_wuleb128_le)
  then show ?thesis by (simp add: enc33_def)
qed

lemma length_knum_bytes: "length (knum_bytes x) \<le> 10"
  using enc33_length [of False "lj_num2int x"] enc33_length [of True "num_lo x"] length_wuleb128 [of "num_hi x"]
  by (simp add: knum_bytes_def Let_def knum_int_enc knum_num_enc)

section \<open>Values in template tables\<close>

text \<open>
  What a template table can hold: no light userdata and no other objects, numbers without
  the bit patterns of tags and, where integers are narrowed, without minus zero.
\<close>

fun ktab_value :: "bool \<Rightarrow> TValue \<Rightarrow> bool" where
  "ktab_value narrow (VStr s) = (s = the_str (s_data s) \<and> length (s_data s) < LJ_MAX_STR)"
| "ktab_value narrow (VNum x) = (num_hi x < LJ_TISNUM \<and> (narrow \<longrightarrow> x \<noteq> mzero))"
| "ktab_value narrow (VLightud a) = False"
| "ktab_value narrow (VGC i a) = False"
| "ktab_value narrow _ = True"

definition ktabk_bytes :: "bool \<Rightarrow> TValue \<Rightarrow> bytes" where
  "ktabk_bytes narrow v =
     (case v of
        VStr s \<Rightarrow> lj_strfmt_wuleb128 (BCDUMP_KTAB_STR + word_of_nat (length (s_data s))) @ s_data s
      | VNum x \<Rightarrow>
          if narrow \<and> num_eq x (int2num (lj_num2int x))
          then ucast BCDUMP_KTAB_INT # lj_strfmt_wuleb128 (lj_num2int x)
          else ucast BCDUMP_KTAB_NUM # num_bytes x
      | _ \<Rightarrow> [ucast BCDUMP_KTAB_NIL + pri_code v])"

lemma small_uleb: "b < 0x80 \<Longrightarrow> lj_buf_ruleb128 (b # bs) = Inr (ucast b, bs)"
  by (simp add: lj_buf_ruleb128_eq word_le_nat_alt word_less_nat_alt del: lj_buf_ruleb128.simps)

lemma str_type:
  assumes "n < LJ_MAX_STR"
  shows "(5 :: u32) \<le> 5 + word_of_nat n" "unat (5 + word_of_nat n - (5 :: u32)) = n"
proof -
  have "unat (word_of_nat n :: u32) = n" "unat (word_of_nat (5 + n) :: u32) = 5 + n"
    using assms by (intro unat_of_nat_eq; simp add: LJ_MAX_STR_def)+
  then show "(5 :: u32) \<le> 5 + word_of_nat n" "unat (5 + word_of_nat n - (5 :: u32)) = n"
    by (simp_all add: word_le_nat_alt)
qed

interpretation ktabk: byte_codec "ktab_value narrow" "ktabk_bytes narrow" bcread_ktabk for narrow
proof unfold_locales
  fix v rest
  assume v: "ktab_value narrow v"
  show "bcread_ktabk (ktabk_bytes narrow v @ rest) = Inr (v, rest)"
  proof (cases v)
    case (VStr s)
    then show ?thesis using v str_type [of "length (s_data s)"]
      by (simp add: ktabk_bytes_def bcread_ktabk_def sbind_def bcread_uleb128_def uleb.dec_enc bcread_str_def
          bcread_mem_def dump_codes)
  next
    case (VNum x)
    show ?thesis
    proof (cases "narrow \<and> num_eq x (int2num (lj_num2int x))")
      case True
      then have "x = int2num (lj_num2int x)" using num_eq_int2num v VNum by auto
      then show ?thesis using True VNum
        by (simp add: ktabk_bytes_def bcread_ktabk_def sbind_def bcread_uleb128_def small_uleb uleb.dec_enc dump_codes
            word_le_nat_alt word_less_nat_alt del: lj_buf_ruleb128.simps)
    next
      case False
      then show ?thesis using VNum v
        by (auto simp add: ktabk_bytes_def num_bytes_def bcread_ktabk_def sbind_def bcread_uleb128_def small_uleb
            uleb.dec_enc dump_codes word_le_nat_alt word_less_nat_alt simp del: lj_buf_ruleb128.simps)
    qed
  qed (use v in \<open>simp_all add: ktabk_bytes_def bcread_ktabk_def sbind_def bcread_uleb128_def small_uleb dump_codes
      word_le_nat_alt word_less_nat_alt del: lj_buf_ruleb128.simps\<close>)
qed

end
