(* ===== verification/DumpTab.thy ===== *)
theory DumpTab
  imports DumpNum TwinProps
begin

text \<open>
  Template tables in dumps: what the writer puts into the buffer for a table, and the table
  the reader makes of it.
\<close>

section \<open>Writing\<close>

definition pair_bytes :: "kv \<Rightarrow> bytes" where
  "pair_bytes p = ktabk_bytes False (fst p) @ ktabk_bytes True (snd p)"

definition ktab_bytes :: "GCtab \<Rightarrow> bytes" where
  "ktab_bytes t =
     (let n = last_used (t_array t) (asize t); ps = node_pairs (t_node t)
      in lj_strfmt_wuleb128 (word_of_nat n) @ lj_strfmt_wuleb128 (word_of_nat (length ps)) @
         concat (map (ktabk_bytes True) (take n (t_array t))) @ concat (map pair_bytes (rev ps)))"

fun ktabk_need :: "TValue \<Rightarrow> nat" where
  "ktabk_need (VStr s) = 16 + length (s_data s)"
| "ktabk_need v = 11"

lemma appends_more: "appends n [] (\<lambda>sb. lj_buf_more sb n)"
  unfolding appends_def
proof (intro conjI allI impI)
  fix sb assume ok: "sbuf_ok sb"
  show "case lj_buf_more sb n of Inl e \<Rightarrow> e = Throw LJ_ERR_ERRMEM \<and> LJ_MAX_BUF < sbuflen sb + n
    | Inr sb' \<Rightarrow> sbuf_ok sb' \<and> sb_data sb' = sb_data sb @ []"
    by (rule lj_buf_more_cases [OF ok, of n]) simp_all
qed simp

lemma bcwrite_ktabk_appends: "appends (ktabk_need v) (ktabk_bytes narrow v) (bcwrite_ktabk v narrow)"
proof (cases v)
  case (VStr s)
  let ?out = "lj_strfmt_wuleb128 (BCDUMP_KTAB_STR + word_of_nat (length (s_data s))) @ s_data s"
  have "length ?out \<le> 5 + length (s_data s)" using length_wuleb128 by simp
  from appends_bind [OF appends_more [of 11] appends_more_put [OF this]]
  have "appends (16 + length (s_data s)) ?out
      (\<lambda>sb. rbind (lj_buf_more sb 11) (\<lambda>sb. rbind (lj_buf_more sb (5 + length (s_data s))) (\<lambda>sb. buf_put sb ?out)))"
    by simp
  then show ?thesis
    by (simp add: VStr ktabk_bytes_def) (erule appends_cong, simp add: bcwrite_ktabk_def Let_def)
next
  case (VNum x)
  have "length (ktabk_bytes narrow v) \<le> 11"
    using length_wuleb128 [of "lj_num2int x"] length_wuleb128 [of "num_lo x"] length_wuleb128 [of "num_hi x"]
    by (simp add: VNum ktabk_bytes_def num_bytes_def)
  from appends_more_put [OF this] have "appends 11 (ktabk_bytes narrow v) (\<lambda>sb. rbind (lj_buf_more sb 11) (\<lambda>sb. buf_put sb (ktabk_bytes narrow v)))" .
  then show ?thesis
    by (cases "narrow \<and> num_eq x (int2num (lj_num2int x))")
      (auto simp: VNum bcwrite_ktabk_def ktabk_bytes_def num_bytes_def elim!: appends_cong)
qed (auto simp: ktabk_bytes_def bcwrite_ktabk_def intro!: appends_cong [OF appends_more_put])

interpretation put_value: buf_appender "\<lambda>sb v. bcwrite_ktabk v narrow sb" "ktabk_bytes narrow" ktabk_need for narrow
  by unfold_locales (rule bcwrite_ktabk_appends)

definition put_pair :: "SBuf \<Rightarrow> kv \<Rightarrow> SBuf res" where
  "put_pair sb p = rbind (bcwrite_ktabk (fst p) False sb) (bcwrite_ktabk (snd p) True)"

definition pair_need :: "kv \<Rightarrow> nat" where
  "pair_need p = ktabk_need (fst p) + ktabk_need (snd p)"

interpretation put_pair: buf_appender put_pair pair_bytes pair_need
  unfolding put_pair_def pair_bytes_def pair_need_def
  by unfold_locales (intro appends_bind bcwrite_ktabk_appends)

lemma write_array_eq: "write_array vs = put_all (\<lambda>sb v. bcwrite_ktabk v True sb) vs"
  by (induction vs) (rule ext, simp)+

lemma write_nodes_eq:
  "i = length (node_pairs ns) \<Longrightarrow> 0 < i \<Longrightarrow> write_nodes ns i sb = put_all put_pair (node_pairs ns) sb"
proof (induction ns arbitrary: i sb)
  case (Cons n ns)
  show ?case
  proof (cases "n_val n = VNil")
    case False
    show ?thesis
    proof (cases "i - 1 = 0")
      case True
      then have "node_pairs ns = []" using Cons.prems(1) False by simp
      moreover have "put_all put_pair [] = Inr" by (rule ext) simp
      ultimately show ?thesis using True False by (simp add: put_pair_def [of _ "(n_key n, n_val n)"])
    next
      case more: False
      then have "write_nodes ns (i - 1) = put_all put_pair (node_pairs ns)"
        using Cons.IH [of "i - 1"] Cons.prems False by (intro ext) simp
      then show ?thesis using more False by (simp add: put_pair_def [of _ "(n_key n, n_val n)"])
    qed
  qed (use Cons in simp)
qed simp

lemma node_pairs_rev: "node_pairs (rev ns) = rev (node_pairs ns)"
  by (simp add: node_pairs_def rev_map rev_filter)

definition ktab_need :: "GCtab \<Rightarrow> nat" where
  "ktab_need t = 11 + sum_list (map ktabk_need (take (last_used (t_array t) (asize t)) (t_array t))) +
     sum_list (map pair_need (node_pairs (t_node t)))"

lemma used_nodes_pairs: "tab_ok t \<Longrightarrow> used_nodes t = length (node_pairs (t_node t))"
  by (cases "t_hmask t = 0") (auto simp: used_nodes_def node_pairs_def tab_ok_def hash_ok_def blank_node_def word_gt_0)

lemma bcwrite_ktab_appends:
  assumes t: "tab_ok t" and pre: "length pre \<le> 1"
  shows "appends (ktab_need t) (pre @ ktab_bytes t) (\<lambda>sb. rbind (lj_buf_more sb 11) (bcwrite_ktab pre t))"
proof -
  let ?n = "last_used (t_array t) (asize t)" let ?ps = "node_pairs (t_node t)"
  let ?hd = "pre @ lj_strfmt_wuleb128 (word_of_nat ?n) @ lj_strfmt_wuleb128 (word_of_nat (length ?ps))"
  let ?arr = "take ?n (t_array t)"
  have "length ?hd \<le> 11" using pre length_wuleb128 [of "word_of_nat ?n"] length_wuleb128 [of "word_of_nat (length ?ps)"] by simp
  then have hd: "appends 11 ?hd (\<lambda>sb. rbind (lj_buf_more sb 11) (\<lambda>sb. buf_put sb ?hd))" by (rule appends_more_put)
  have len: "length (t_node t) = unat (t_hmask t) + 1" using t by (simp add: tab_ok_def hash_ok_def)
  have nodes: "(if ?ps \<noteq> [] then write_nodes (rev (take (unat (t_hmask t) + 1) (t_node t))) (length ?ps) sb else Inr sb) =
      put_all put_pair (rev ?ps) sb" for sb
    using write_nodes_eq [of "length ?ps" "rev (t_node t)" sb] len by (auto simp: node_pairs_rev)
  have tail: "appends (sum_list (map ktabk_need ?arr) + sum_list (map pair_need (rev ?ps)))
      (concat (map (ktabk_bytes True) ?arr) @ concat (map pair_bytes (rev ?ps)))
      (\<lambda>sb. rbind (write_array ?arr sb) (put_all put_pair (rev ?ps)))"
    unfolding write_array_eq by (intro appends_bind put_value.put_list put_pair.put_list)
  have "sum_list (map pair_need (rev ?ps)) = sum_list (map pair_need ?ps)" by (simp flip: rev_map)
  then have "appends (ktab_need t) (pre @ ktab_bytes t)
    (\<lambda>sb. rbind (rbind (lj_buf_more sb 11) (\<lambda>sb. buf_put sb ?hd)) (\<lambda>sb. rbind (write_array ?arr sb) (put_all put_pair (rev ?ps))))"
    using appends_bind [OF hd tail] by (simp add: ktab_need_def ktab_bytes_def Let_def add.assoc)
  then show ?thesis
    by (rule appends_cong)
      (simp only: rbind_assoc, rule rbind_cong [OF refl], simp add: bcwrite_ktab_def Let_def used_nodes_pairs [OF t] nodes)
qed

section \<open>Reading\<close>

text \<open>The tables that can be dumped.\<close>

definition ktab_ok :: "GCtab \<Rightarrow> bool" where
  "ktab_ok t \<longleftrightarrow> tab_ok t \<and> list_all (ktab_value True) (t_array t) \<and>
     list_all (\<lambda>p. ktab_value False (fst p) \<and> ktab_value True (snd p)) (node_pairs (t_node t))"

lemma last_used_le: "last_used a n \<le> n"
  by (induction n) auto

lemma last_used_nil: "last_used a n \<le> i \<Longrightarrow> i < n \<Longrightarrow> a ! i = VNil"
  by (induction n) (auto simp: less_Suc_eq split: if_splits)

text \<open>The hash entries are stored one after the other.\<close>

lemma ktab_hash_stored:
  assumes "tab_ok t" "\<forall>p \<in> set L. key_ok (fst p)" "fits t L"
    and "list_all (\<lambda>p. ktab_value False (fst p) \<and> ktab_value True (snd p)) L"
  shows "\<exists>t'. ktab_hash lj_tab_set (length L) t (concat (map pair_bytes L) @ rest) = Inr (t', rest) \<and> stored t L t'"
  using assms
proof (induction L arbitrary: t)
  case Nil
  then show ?case by (simp add: stored_Nil)
next
  case (Cons p L)
  obtain k v where p: "p = (k, v)" by (cases p)
  have k: "key_ok k" using Cons.prems(2) p by simp
  then have nk: "norm_key k = k" by (auto simp: norm_key_def)
  have set: "lj_tab_set t k = set_with (newkey_body (newkey_fuel 1)) t k"
    by (simp only: lj_tab_set_def lj_tab_newkey_def) (simp add: numeral_2_eq_2 newkey_fuel_Suc)
  have fit: "fits t ((k, v) # L)" using Cons.prems(3) p by simp
  obtain t1 s where s: "lj_tab_set t k = Inr (t1, s)" "set_post t k (t1, s)"
    using set_room [OF Cons.prems(1) k fits_room [OF fit], of "newkey_fuel 1"] set by auto
  obtain t' where t': "ktab_hash lj_tab_set (length L) (store t1 s v) (concat (map pair_bytes L) @ rest) = Inr (t', rest)"
    "stored (store t1 s v) L t'"
    using Cons.IH [OF store_ok [OF s(2) k] _ fits_Cons [OF fit s(2)]] Cons.prems(2,4) by auto
  have read: "bcread_ktabk (ktabk_bytes False k @ bs) = Inr (k, bs)" "bcread_ktabk (ktabk_bytes True v @ bs) = Inr (v, bs)" for bs
    using Cons.prems(4) p by (auto intro!: ktabk.dec_enc)
  have "ktab_hash lj_tab_set (length (p # L)) t (concat (map pair_bytes (p # L)) @ rest) = Inr (t', rest)"
    using s(1) t'(1) by (simp add: p pair_bytes_def sbind_def slift_def read)
  then show ?case using stored_Cons [OF s(2) k t'(2)] p by blast
qed

lemma node_pairs_key: "tab_ok t \<Longrightarrow> p \<in> set (node_pairs (t_node t)) \<Longrightarrow> key_ok (fst p) \<and> arr_index (asize t) (fst p) = None"
proof -
  assume t: "tab_ok t" and p: "p \<in> set (node_pairs (t_node t))"
  then have "nodes_ok (hashkey t) (t_node t)" by (simp add: tab_ok_def)
  then show ?thesis using t p nodes_free by (force simp: node_pairs_def in_set_conv_nth tab_ok_def)
qed

text \<open>The new table with the array entries, and what it maps to with the hash entries.\<close>

lemma reread_map:
  assumes t: "tab_ok t" and n: "n = last_used (t_array t) (asize t)"
    and t1: "tab_ok t1" "t_array t1 = take n (t_array t)" "\<And>k. key_ok k \<Longrightarrow> node_map (t_node t1) k = VNil"
    and t': "stored t1 (rev (node_pairs (t_node t))) t'"
  shows "tab_map t' = tab_map t"
proof
  fix k
  let ?ps = "node_pairs (t_node t)"
  have ok: "nodes_ok (hashkey t) (t_node t)" using t by (simp add: tab_ok_def)
  have as: "asize t1 = n" using t1(2) last_used_le [of "t_array t" "asize t"] n by simp
  have "tab_map t' k = fold upd (rev ?ps) (tab_map t1) k" using t' by (simp add: stored_def)
  also have "\<dots> = (case map_of ?ps k of Some v \<Rightarrow> v | None \<Rightarrow> tab_map t1 k)"
  proof -
    have "distinct (map fst ?ps)" by (rule node_pairs_map(1) [OF ok])
    moreover from this have "map_of (rev ?ps) = map_of ?ps" by (subst map_of_inject_set) (simp_all flip: rev_map)
    ultimately show ?thesis by (subst fold_upd) (simp_all flip: rev_map)
  qed
  also have "\<dots> = tab_map t k"
  proof (cases "map_of ?ps k")
    case (Some v)
    then have "key_ok k \<and> arr_index (asize t) k = None" using node_pairs_key [OF t] by (force dest: map_of_SomeD)
    then show ?thesis using Some node_pairs_map(3) [OF ok Some] by (simp add: tab_map_def)
  next
    case None
    show ?thesis
    proof (cases "key_ok k")
      case k: True
      then have nm: "node_map (t_node t) k = VNil" using node_pairs_map(4) [OF ok None] key_ok_not_nil [OF k] by simp
      show ?thesis
      proof (cases "arr_index (asize t) k")
        case (Some i)
        then have "i < asize t" using arr_index_Some k by blast
        moreover have "i < n \<Longrightarrow> t_array t1 ! i = t_array t ! i" by (simp add: t1(2))
        moreover have "\<not> i < n \<Longrightarrow> i < asize t \<Longrightarrow> t_array t ! i = VNil" using last_used_nil [of "t_array t" "asize t" i] n by simp
        ultimately show ?thesis using None k Some arr_index_mono [OF Some, of n]
          by (simp add: tab_map_def as t1(3))
      next
        case no: None
        have "arr_index n k = None"
        proof (rule ccontr)
          assume "arr_index n k \<noteq> None"
          then obtain i where i: "arr_index n k = Some i" by auto
          then have "i < n" using arr_index_Some k by blast
          then show False using arr_index_mono [OF i, of "asize t"] no last_used_le [of "t_array t" "asize t"] n by simp
        qed
        then show ?thesis using None no nm k by (simp add: tab_map_def as t1(3))
      qed
    qed (simp add: None tab_map_not_ok)
  qed
  finally show "tab_map t' k = tab_map t k" .
qed

text \<open>
  The table read back: the same lookups, with the array part cut behind its last value.  It
  holds the same entries, so it can be dumped again with the same room.
\<close>

definition same_table :: "GCtab \<Rightarrow> GCtab \<Rightarrow> bool" where
  "same_table t t' \<longleftrightarrow> tab_ok t' \<and> tab_map t' = tab_map t \<and> asize t' = last_used (t_array t) (asize t)"

lemma tab_map_array:
  assumes "tab_ok t" "i < asize t"
  shows "tab_map t (VNum (int2num (word_of_nat i))) = t_array t ! i"
proof -
  have "i < 2 ^ 32" using assms by (auto simp: tab_ok_def LJ_MAX_ASIZE_def)
  then have "unat (word_of_nat i :: u32) = i" by (intro unat_of_nat_eq) simp
  moreover have "key_ok (VNum (int2num k))" for k by (simp add: int2num_not_nan int2num_not_mzero)
  ultimately show ?thesis using assms(2) by (simp add: tab_map_def del: key_ok.simps)
qed

lemma node_pairs_iff:
  assumes t: "tab_ok t"
  shows "(k, v) \<in> set (node_pairs (t_node t)) \<longleftrightarrow>
    v \<noteq> VNil \<and> key_ok k \<and> arr_index (asize t) k = None \<and> tab_map t k = v"
proof -
  have ok: "nodes_ok (hashkey t) (t_node t)" using t by (simp add: tab_ok_def)
  have "(k, v) \<in> set (node_pairs (t_node t)) \<longleftrightarrow> map_of (node_pairs (t_node t)) k = Some v"
    using node_pairs_map(1) [OF ok] by simp
  moreover have "map_of (node_pairs (t_node t)) k = Some v \<longleftrightarrow> k \<noteq> VNil \<and> v \<noteq> VNil \<and> node_map (t_node t) k = v"
    if "key_ok k"
    using node_pairs_map(3,4) [OF ok] key_ok_not_nil [OF that] by (cases "map_of (node_pairs (t_node t)) k") auto
  ultimately show ?thesis using node_pairs_key [OF t, of "(k, v)"] by (auto simp: tab_map_def dest: key_ok_not_nil)
qed

lemma same_table_array:
  assumes t: "tab_ok t" and s: "same_table t t'"
  shows "t_array t' = take (last_used (t_array t) (asize t)) (t_array t)"
proof (rule nth_equalityI)
  have l: "asize t' = last_used (t_array t) (asize t)" using s by (simp add: same_table_def)
  show "length (t_array t') = length (take (last_used (t_array t) (asize t)) (t_array t))"
    using l last_used_le [of "t_array t" "asize t"] by simp
  fix i assume "i < length (t_array t')"
  then have i: "i < asize t'" "i < asize t" using l last_used_le [of "t_array t" "asize t"] by simp_all
  then show "t_array t' ! i = take (last_used (t_array t) (asize t)) (t_array t) ! i"
    using tab_map_array [of t' i] tab_map_array [OF t i(2)] s by (simp add: same_table_def)
qed

lemma last_used_take: "n \<le> m \<Longrightarrow> last_used (take m a) n = last_used a n"
  by (induction n) auto

lemma last_used_last: "last_used (take (last_used a n) a) (last_used a n) = last_used a n" if "n \<le> length a"
  using that by (induction n) (auto simp: last_used_take)

lemma same_table_pairs:
  assumes t: "tab_ok t" and s: "same_table t t'"
  shows "mset (node_pairs (t_node t')) = mset (node_pairs (t_node t))"
proof -
  let ?n = "last_used (t_array t) (asize t)"
  have t': "tab_ok t'" "tab_map t' = tab_map t" "asize t' = ?n" using s by (simp_all add: same_table_def)
  have "arr_index ?n k = None \<longleftrightarrow> arr_index (asize t) k = None" if "key_ok k" "tab_map t k \<noteq> VNil" for k
  proof (cases "arr_index (asize t) k")
    case None
    have "arr_index ?n k = None"
    proof (rule ccontr)
      assume "arr_index ?n k \<noteq> None"
      then obtain i where "arr_index ?n k = Some i" by auto
      then show False
        using arr_index_mono [of ?n k i "asize t"] None arr_index_Some [of ?n k i] that(1) last_used_le [of "t_array t" "asize t"] by simp
    qed
    then show ?thesis using None by simp
  next
    case (Some i)
    then have "t_array t ! i \<noteq> VNil" "i < asize t" using that arr_index_Some [OF Some] by (simp_all add: tab_map_def)
    then have "i < ?n" using last_used_nil [of "t_array t" "asize t" i] by (meson not_le)
    then show ?thesis using arr_index_mono [OF Some, of ?n] Some by simp
  qed
  then have "set (node_pairs (t_node t')) = set (node_pairs (t_node t))"
    using node_pairs_iff [OF t] node_pairs_iff [OF t'(1)] t'(2,3) by auto
  moreover have "distinct (node_pairs (t_node t))" "distinct (node_pairs (t_node t'))"
    using node_pairs_map(1) t t'(1) by (auto simp: tab_ok_def distinct_map)
  ultimately show ?thesis by (simp add: set_eq_iff_mset_eq_distinct)
qed

lemma same_table_dump:
  assumes "ktab_ok t" "same_table t t'"
  shows "ktab_ok t' \<and> ktab_need t' = ktab_need t"
proof -
  let ?n = "last_used (t_array t) (asize t)"
  have t: "tab_ok t" using assms(1) by (simp add: ktab_ok_def)
  have n: "asize t' = ?n" "tab_ok t'" using assms(2) by (simp_all add: same_table_def)
  note arr = same_table_array [OF t assms(2)] and pairs = same_table_pairs [OF t assms(2)]
  have "set (node_pairs (t_node t')) = set (node_pairs (t_node t))" using pairs by (metis set_mset_mset)
  then have "ktab_ok t'" using assms(1) n(2) arr by (auto simp: ktab_ok_def list_all_iff dest: in_set_takeD)
  moreover have "sum_list (map pair_need (node_pairs (t_node t'))) = sum_list (map pair_need (node_pairs (t_node t)))"
    using pairs by (metis mset_map sum_mset_sum_list)
  moreover have "last_used (t_array t') (asize t') = ?n" using last_used_last [of "asize t" "t_array t"] n(1) arr by simp
  ultimately show ?thesis by (simp add: ktab_need_def arr)
qed

lemma hsize2hbits_le: "n \<le> 2 ^ k \<Longrightarrow> 0 < k \<Longrightarrow> k < 32 \<Longrightarrow> hsize2hbits (word_of_nat n) \<le> k"
proof -
  assume n: "n \<le> 2 ^ k" "0 < k" "k < 32"
  have "(2::nat) ^ k < 2 ^ 32" using n(3) by (rule power_strict_increasing) simp
  then have u: "unat (word_of_nat n :: u32) = n" "unat (word_of_nat (n - 1) :: u32) = n - 1"
    using n(1) by (intro unat_of_nat_eq; simp)+
  show ?thesis
  proof (cases "1 < n")
    case True
    have "word_of_nat n - 1 = (word_of_nat (n - 1) :: u32)" using True by (simp add: of_nat_diff)
    moreover have "fls (n - 1) < k" using True n(1) by (intro fls_less) simp_all
    ultimately show ?thesis using n(2) u(2) by (simp add: hsize2hbits_def lj_fls_def)
  next
    case False
    then have "n = 0 \<or> n = 1" by linarith
    then show ?thesis using n(2) by (auto simp: hsize2hbits_def)
  qed
qed

lemma sbind_uleb: "sbind lj_buf_ruleb128 f (lj_strfmt_wuleb128 v @ bs) = f v bs"
  by (simp add: sbind_def uleb.dec_enc)

lemma ktab_reread:
  assumes "ktab_ok t"
  shows "\<exists>t'. bcread_ktab (ktab_bytes t @ rest) = Inr (t', rest) \<and> same_table t t'"
proof -
  define n where "n = last_used (t_array t) (asize t)"
  define ps where "ps = node_pairs (t_node t)"
  let ?hb = "hsize2hbits (word_of_nat (length ps))"
  have t: "tab_ok t" and vals: "list_all (ktab_value True) (take n (t_array t))"
    "list_all (\<lambda>p. ktab_value False (fst p) \<and> ktab_value True (snd p)) (rev ps)"
    using assms by (auto simp: ktab_ok_def ps_def list_all_iff dest: in_set_takeD)
  have n: "n \<le> LJ_MAX_ASIZE" "n \<le> asize t" using t last_used_le [of "t_array t" "asize t"] by (simp_all add: n_def tab_ok_def)
  then have un: "unat (word_of_nat n :: u32) = n" by (intro unat_of_nat_eq) (simp add: LJ_MAX_ASIZE_def)
  have m: "length ps \<le> 2 ^ 26" unfolding ps_def using node_pairs_length nodes_length [OF t] by (rule order_trans)
  then have um: "unat (word_of_nat (length ps) :: u32) = length ps" by (intro unat_of_nat_eq) simp
  have hb: "length ps \<le> 2 ^ ?hb" "?hb = 0 \<Longrightarrow> length ps = 0" "?hb \<le> LJ_MAX_HBITS"
    using hsize2hbits_bound [of "length ps"] hsize2hbits_le [of "length ps" 26] m by (auto simp: LJ_MAX_HBITS_def)
  obtain t0 where t0: "lj_tab_new n ?hb = Inr t0" "tab_ok t0" "asize t0 = n" "length (t_node t0) = 2 ^ ?hb"
    "t_hmask t0 = mask ?hb" "n_used (t_node t0) = 0"
    using lj_tab_new_eq [of n ?hb] n(1) hb(3) by auto
  define t1 where "t1 = t0\<lparr>t_array := take n (t_array t)\<rparr>"
  have t1: "tab_ok t1" "t_array t1 = take n (t_array t)" using t0(2,3) n(2) by (simp_all add: t1_def)
  have blank: "node_map (t_node t1) k = VNil" if "key_ok k" for k
  proof (rule node_map_out)
    fix i assume "i < length (t_node t1)"
    then have "t_node t0 ! i \<in> set (t_node t0)" by (simp add: t1_def)
    then have "n_key (t_node t0 ! i) = VNil" using t0(6) by (simp add: n_used_def filter_empty_conv)
    then show "n_key (t_node t1 ! i) \<noteq> k" using that by (auto simp: t1_def)
  qed
  have fit: "fits t1 (rev ps)"
  proof -
    have "hash_bound (asize t1) (rev ps) \<le> length ps"
      using length_filter_le [of _ "rev ps"] by (simp add: hash_bound_def)
    moreover have "length ps = 0" if "t_hmask t1 = 0" using that hb(2) t0(5) by (simp add: t1_def)
    ultimately show ?thesis using t0(4,6) hb(1) by (auto simp: fits_def t1_def)
  qed
  obtain t' where t': "ktab_hash lj_tab_set (length (rev ps)) t1 (concat (map pair_bytes (rev ps)) @ rest) = Inr (t', rest)"
    "stored t1 (rev ps) t'"
  proof -
    have "\<forall>p \<in> set (rev ps). key_ok (fst p)" using node_pairs_key [OF t] by (simp add: ps_def)
    from ktab_hash_stored [OF t1(1) this fit vals(2), of rest] show ?thesis using that by blast
  qed
  have arr: "read_n bcread_ktabk n (concat (map (ktabk_bytes True) (take n (t_array t))) @ bs) = Inr (take n (t_array t), bs)" for bs
    using ktabk.dec_list [OF vals(1), of bs] n(2) by simp
  have z: "word_of_nat n \<noteq> (0 :: u32) \<longleftrightarrow> n \<noteq> 0" "word_of_nat (length ps) \<noteq> (0 :: u32) \<longleftrightarrow> length ps \<noteq> 0"
    using un um unat_eq_zero [of "word_of_nat n :: u32"] unat_eq_zero [of "word_of_nat (length ps) :: u32"] by simp_all
  have "n = 0 \<Longrightarrow> t1 = t0" using t0(3) by (simp add: t1_def)
  then have array: "(if word_of_nat n \<noteq> (0 :: u32)
      then sbind (read_n bcread_ktabk n) (\<lambda>vs. sret (t0\<lparr>t_array := vs\<rparr>)) else sret t0)
      (concat (map (ktabk_bytes True) (take n (t_array t))) @ bs) = Inr (t1, bs)" for bs
    using arr [of bs] by (cases "n = 0") (auto simp: z sbind_def t1_def)
  have hash: "(if word_of_nat (length ps) \<noteq> (0 :: u32) then ktab_hash lj_tab_set (length ps) t1 else sret t1)
      (concat (map pair_bytes (rev ps)) @ rest) = Inr (t', rest)"
    using t'(1) by (cases "length ps = 0") (auto simp: z)
  have sbind_array: "sbind (if word_of_nat n \<noteq> (0 :: u32)
      then sbind (read_n bcread_ktabk n) (\<lambda>vs. sret (t0\<lparr>t_array := vs\<rparr>)) else sret t0) f
      (concat (map (ktabk_bytes True) (take n (t_array t))) @ bs) = f t1 bs" for f :: "GCtab \<Rightarrow> bytes \<Rightarrow> (GCtab \<times> bytes) res" and bs
    by (rule sbind_Inr) (rule array)
  have "bcread_ktab (ktab_bytes t @ rest) = Inr (t', rest)"
    unfolding bcread_ktab_def ktab_bytes_def Let_def n_def [symmetric] ps_def [symmetric] bcread_uleb128_def append_assoc
    using hash by (simp only: sbind_uleb un um t0(1) sbind_simps sbind_array)
  moreover have "tab_map t' = tab_map t" using reread_map [OF t n_def t1 blank] t'(2) by (simp add: ps_def)
  moreover have "asize t1 = n" using t1(2) n(2) by simp
  ultimately show ?thesis using t'(2) by (auto simp: stored_def same_table_def n_def)
qed

end
