(* ===== verification/DumpWrite.thy ===== *)
theory DumpWrite
  imports DumpTab
begin

text \<open>
  What the bytecode writer hands to its callback: the dump as a list of chunks, and the
  proof that \<^verbatim>\<open>lj_bcwrite\<close> passes exactly these, one after the other, until the callback
  fails.
\<close>

section \<open>The chunks of a dump\<close>

definition kgc_bytes :: "kgc \<Rightarrow> bytes" where
  "kgc_bytes k = lj_strfmt_wuleb128 (kgc_tp k) @
     (case k of
        KStr s \<Rightarrow> s_data s
      | KTab t \<Rightarrow> ktab_bytes t
      | KChild pt \<Rightarrow> []
      | KCdata cid q \<Rightarrow>
          if kgc_tp k = BCDUMP_KGC_COMPLEX then num_bytes (q ! 0) @ num_bytes (q ! 1) else num_bytes (q ! 0))"

definition body_bytes :: "bool \<Rightarrow> (nat \<Rightarrow> u32) \<Rightarrow> pinfo \<Rightarrow> kgc list \<Rightarrow> bytes" where
  "body_bytes strip startins i ks =
     proto_header strip i ks @ bcwrite_bytecode startins i @ concat (map bytes16 (p_uv i)) @
     concat (map kgc_bytes ks) @ concat (map knum_bytes (p_kn i)) @ (if strip then [] else p_dbg i)"

definition sized :: "bytes \<Rightarrow> bytes" where
  "sized b = lj_strfmt_wuleb128 (word_of_nat (length b)) @ b"

fun proto_chunks :: "bool \<Rightarrow> (nat \<Rightarrow> u32) \<Rightarrow> proto \<Rightarrow> bytes list"
  and child_chunks :: "bool \<Rightarrow> (nat \<Rightarrow> u32) \<Rightarrow> kgc list \<Rightarrow> bytes list" where
  "proto_chunks strip startins (Proto i ks) =
     (if p_flags i AND PROTO_CHILD \<noteq> 0 then child_chunks strip startins ks else []) @ [sized (body_bytes strip startins i ks)]"
| "child_chunks strip startins [] = []"
| "child_chunks strip startins (k # ks) =
     child_chunks strip startins ks @ (case k of KChild pt \<Rightarrow> proto_chunks strip startins pt | _ \<Rightarrow> [])"

definition dump_chunks :: "bool \<Rightarrow> (nat \<Rightarrow> u32) \<Rightarrow> proto \<Rightarrow> bytes list" where
  "dump_chunks strip startins pt = dump_header strip (p_info pt) # proto_chunks strip startins pt @ [[0]]"

text \<open>Passing chunks to the callback, until it returns something else than zero.\<close>

definition pass :: "'d bcwriter \<Rightarrow> bytes \<Rightarrow> int \<times> 'd \<Rightarrow> int \<times> 'd" where
  "pass wfunc chunk s = (if fst s = 0 then wfunc chunk (snd s) else s)"

abbreviation pass_all :: "'d bcwriter \<Rightarrow> bytes list \<Rightarrow> int \<times> 'd \<Rightarrow> int \<times> 'd" where
  "pass_all wfunc \<equiv> fold (pass wfunc)"

section \<open>What can be written\<close>

fun kgc_writable :: "kgc \<Rightarrow> bool" where
  "kgc_writable (KTab t) = tab_ok t"
| "kgc_writable (KCdata cid q) = ((if cid = CTID_INT64 \<or> cid = CTID_UINT64 then 1 else 2) \<le> length q)"
| "kgc_writable _ = True"

fun kgc_room :: "kgc \<Rightarrow> nat" where
  "kgc_room (KTab t) = ktab_need t"
| "kgc_room k = kgc_need k"

definition fixed_room :: "pinfo \<Rightarrow> nat" where
  "fixed_room i = 5 + 4 + 6 * 5 + (length (p_bc i) - 1) * 4 + length (p_uv i) * 2"

definition body_room :: "pinfo \<Rightarrow> kgc list \<Rightarrow> nat" where
  "body_room i ks = fixed_room i + sum_list (map kgc_room ks) + 10 * length (p_kn i) + length (p_dbg i)"

fun proto_writable :: "proto \<Rightarrow> bool" and children_writable :: "kgc list \<Rightarrow> bool" where
  "proto_writable (Proto i ks) =
     (body_room i ks \<le> LJ_MAX_BUF \<and> list_all kgc_writable ks \<and> children_writable ks)"
| "children_writable [] = True"
| "children_writable (k # ks) = ((case k of KChild pt \<Rightarrow> proto_writable pt | _ \<Rightarrow> True) \<and> children_writable ks)"

section \<open>Constants\<close>

lemma small_tp:
  "lj_strfmt_wuleb128 0 = [0]" "lj_strfmt_wuleb128 1 = [1]" "lj_strfmt_wuleb128 2 = [2]"
  "lj_strfmt_wuleb128 3 = [3]" "lj_strfmt_wuleb128 4 = [4]"
  by (subst lj_strfmt_wuleb128.simps, simp add: word_le_nat_alt)+

lemma length_num_bytes: "length (num_bytes x) \<le> 10"
  using length_wuleb128 [of "num_lo x"] length_wuleb128 [of "num_hi x"] by (simp add: num_bytes_def)

lemma cdata_tp_cases: "cdata_tp cid = 2 \<or> cdata_tp cid = 3 \<or> cdata_tp cid = 4"
  by (simp add: cdata_tp_def dump_codes)

lemma bcwrite_kgc_one_appends:
  assumes "kgc_writable k"
  shows "appends (kgc_room k) (kgc_bytes k) (bcwrite_kgc_one k)"
proof (cases k)
  case (KStr s)
  have "length (kgc_bytes k) \<le> 5 + length (s_data s)" using length_wuleb128 by (simp add: KStr kgc_bytes_def)
  from appends_more_put [OF this] show ?thesis
    by (auto simp: KStr bcwrite_kgc_one_def kgc_bytes_def Let_def elim!: appends_cong)
next
  case (KChild pt)
  have "length (kgc_bytes k) \<le> 1" by (simp add: KChild kgc_bytes_def small_tp BCDUMP_KGC_CHILD_def)
  from appends_more_put [OF this] show ?thesis
    by (auto simp: KChild bcwrite_kgc_one_def kgc_bytes_def Let_def elim!: appends_cong)
next
  case (KTab t)
  then have "appends (ktab_need t) ([1] @ ktab_bytes t) (\<lambda>sb. rbind (lj_buf_more sb 11) (bcwrite_ktab [1] t))"
    using assms by (intro bcwrite_ktab_appends) simp_all
  then show ?thesis
    by (auto simp: KTab bcwrite_kgc_one_def kgc_bytes_def Let_def small_tp BCDUMP_KGC_TAB_def elim!: appends_cong)
next
  case (KCdata cid q)
  have tp: "length (lj_strfmt_wuleb128 (cdata_tp cid)) = 1" using cdata_tp_cases [of cid] by (auto simp: small_tp)
  have "length (kgc_bytes k) \<le> 21" unfolding KCdata kgc_bytes_def
    using tp length_num_bytes [of "q ! 0"] length_num_bytes [of "q ! 1"] by simp
  moreover have "cdata_tp cid = BCDUMP_KGC_COMPLEX \<longleftrightarrow> \<not> (cid = CTID_INT64 \<or> cid = CTID_UINT64)"
    by (simp add: cdata_tp_def dump_codes)
  ultimately show ?thesis using appends_more_put [of "kgc_bytes k" 21] assms
    by (auto simp: KCdata bcwrite_kgc_one_def kgc_bytes_def Let_def elim!: appends_cong)
qed

lemma bcwrite_kgc_appends:
  "list_all kgc_writable ks \<Longrightarrow> appends (sum_list (map kgc_room ks)) (concat (map kgc_bytes ks)) (bcwrite_kgc ks)"
proof (induction ks)
  case Nil
  show ?case using appends_Nil by (auto elim: appends_cong)
next
  case (Cons k ks)
  then have "appends (kgc_room k) (kgc_bytes k) (bcwrite_kgc_one k)" by (intro bcwrite_kgc_one_appends) simp
  from appends_bind [OF this Cons.IH] Cons.prems show ?case by (auto elim: appends_cong)
qed

lemma bcwrite_knum_appends:
  assumes "10 * length kn \<le> LJ_MAX_BUF"
  shows "appends (10 * length kn) (concat (map knum_bytes kn)) (bcwrite_knum kn)"
proof -
  have "length (concat (map knum_bytes kn)) \<le> 10 * length kn"
    using length_knum_bytes by (induction kn) (auto intro: add_mono)
  from appends_more_put [OF this] show ?thesis
    using assms by (auto simp: bcwrite_knum_def LJ_MAX_BUF_def elim!: appends_cong)
qed

section \<open>The size in front of a prototype\<close>

lemma fls_div_128: "128 \<le> n \<Longrightarrow> fls n = fls (n div 128) + 7"
proof (rule fls_unique)
  assume n: "128 \<le> n"
  have b: "2 ^ fls (n div 128) \<le> n div 128" "n div 128 < 2 ^ Suc (fls (n div 128))"
    using fls_bounds [of "n div 128"] n by auto
  have "2 ^ (fls (n div 128) + 7) = 2 ^ fls (n div 128) * (128 :: nat)" by (simp add: power_add)
  also have "\<dots> \<le> n" using b(1) by (simp add: less_eq_div_iff_mult_less_eq)
  finally show "2 ^ (fls (n div 128) + 7) \<le> n" .
  have "n < 2 ^ Suc (fls (n div 128)) * 128" using b(2) by (simp add: div_less_iff_less_mult)
  also have "\<dots> = 2 ^ Suc (fls (n div 128) + 7)" by (simp add: power_add)
  finally show "n < 2 ^ Suc (fls (n div 128) + 7)" .
qed

lemma length_wuleb_fls: "v \<noteq> 0 \<Longrightarrow> length (lj_strfmt_wuleb128 v) = fls (unat v) div 7 + 1"
proof (induction v rule: lj_strfmt_wuleb128.induct)
  case (1 v)
  show ?case
  proof (cases "0x80 \<le> v")
    case True
    then have "128 \<le> unat v" by (simp add: word_le_nat_alt)
    then show ?thesis using 1(1) [OF True] True fls_div_128 [of "unat v"]
      by (simp add: wuleb_more unat_drop_bit ge_80)
  next
    case False
    then have "fls (unat v) < 7" using 1(2) by (intro fls_less) (simp_all add: word_le_nat_alt unat_gt_0)
    then show ?thesis by (simp add: wuleb_last [OF False])
  qed
qed

lemma nn_formula: "x < 32 \<Longrightarrow> (x + 8) * 9 div 2 ^ 6 = x div 7 + (1 :: nat)"
proof -
  have "\<forall>x \<in> {..< 32}. (x + 8) * 9 div 2 ^ 6 = x div 7 + (1 :: nat)" by (simp add: lessThan_nat_numeral lessThan_Suc)
  then show "x < 32 \<Longrightarrow> ?thesis" by simp
qed

lemma final_size_eq:
  assumes "buf = replicate 5 0 @ b" "b \<noteq> []" "length b < 2 ^ 32"
  shows "final_size buf = sized b"
proof -
  let ?v = "word_of_nat (length b) :: u32" let ?p = "lj_strfmt_wuleb128 ?v"
  have u: "unat ?v = length b" using assms(3) by (intro unat_of_nat_eq) simp
  then have nz: "?v \<noteq> 0" using assms(2) by (metis length_0_conv unat_0)
  have "lj_fls ?v < 32" unfolding lj_fls_def using assms u by (intro fls_less) simp_all
  then have nn: "(lj_fls ?v + 8) * 9 div 2 ^ 6 = length ?p"
    unfolding length_wuleb_fls [OF nz] lj_fls_def by (rule nn_formula)
  have "length ?p \<le> 5" by (rule length_wuleb128)
  then show ?thesis using assms(1) nn by (simp add: final_size_def sized_def Let_def)
qed

section \<open>Prototypes\<close>

lemma lj_buf_need_ok:
  assumes "sbuf_ok sb" "n \<le> LJ_MAX_BUF"
  shows "\<exists>sb'. lj_buf_need sb n = Inr sb' \<and> sbuf_ok sb' \<and> n \<le> sbufsz sb'"
proof (cases "sbufsz sb < n")
  case True
  have "n \<le> 2 ^ 31" using assms(2) by (simp add: LJ_MAX_BUF_def)
  from buf_grow_ok [OF assms(1) this] sbuf_okD [OF assms(1)] True assms(2)
  show ?thesis by (auto simp: lj_buf_need_def lj_buf_need2_def)
next
  case False
  then show ?thesis using assms(1) by (auto simp: lj_buf_need_def)
qed

lemma length_concat_const: "(\<And>x. x \<in> set xs \<Longrightarrow> length (f x) = n) \<Longrightarrow> length (concat (map f xs)) = n * length xs"
  by (induction xs) simp_all

lemma length_proto_header: "length (proto_header strip i ks) \<le> 4 + 6 * 5"
  using length_wuleb128 [of "word_of_nat (length ks)"] length_wuleb128 [of "word_of_nat (length (p_kn i))"]
    length_wuleb128 [of "word_of_nat (length (p_bc i) - 1)"] length_wuleb128 [of "word_of_nat (length (p_dbg i))"]
    length_wuleb128 [of "p_firstline i"] length_wuleb128 [of "p_numline i"] length_wuleb128 [of 0]
  by (auto simp: proto_header_def)

lemma length_bytecode: "length (bcwrite_bytecode startins i) = 4 * (length (p_bc i) - 1)"
  by (auto simp: bcwrite_bytecode_def length_concat_const [where n = 4])

definition fixed_bytes :: "bool \<Rightarrow> (nat \<Rightarrow> u32) \<Rightarrow> pinfo \<Rightarrow> kgc list \<Rightarrow> bytes" where
  "fixed_bytes strip startins i ks =
     replicate 5 0 @ proto_header strip i ks @ bcwrite_bytecode startins i @ concat (map bytes16 (p_uv i))"

lemma length_fixed: "length (fixed_bytes strip startins i ks) \<le> fixed_room i"
proof -
  have "length (concat (map bytes16 (p_uv i))) = 2 * length (p_uv i)" by (rule length_concat_const) simp
  then show ?thesis using length_proto_header [of strip i ks] length_bytecode [of startins i]
    by (simp add: fixed_bytes_def fixed_room_def)
qed

text \<open>\<open>wrote w c cs c'\<close>: from \<open>c\<close> to \<open>c'\<close> the chunks \<open>cs\<close> have been passed to the callback.\<close>

definition wrote :: "'d bcwriter \<Rightarrow> 'd bcctx \<Rightarrow> bytes list \<Rightarrow> 'd bcctx \<Rightarrow> bool" where
  "wrote w c cs c' \<longleftrightarrow> sbuf_ok (w_sb c') \<and> w_strip c' = w_strip c \<and>
     (w_status c', w_data c') = pass_all w cs (w_status c, w_data c)"

lemma wrote_trans: "wrote w c cs c' \<Longrightarrow> wrote w c' ds c'' \<Longrightarrow> wrote w c (cs @ ds) c''"
  by (simp add: wrote_def)

lemma wrote_one:
  "sbuf_ok sb \<Longrightarrow> wrote w c [chunk] (if w_status c = 0 then write_chunk w chunk (c\<lparr>w_sb := sb\<rparr>) else c\<lparr>w_sb := sb\<rparr>)"
  by (auto simp: wrote_def write_chunk_def pass_def split: prod.split)

lemma bcwrite_body_wrote:
  assumes ok: "sbuf_ok (w_sb c)" and room: "body_room i ks \<le> LJ_MAX_BUF" and ks: "list_all kgc_writable ks"
  shows "\<exists>c'. bcwrite_body startins w i ks c = Inr c' \<and> wrote w c [sized (body_bytes (w_strip c) startins i ks)] c'"
proof -
  let ?strip = "w_strip c"
  let ?fix = "fixed_bytes ?strip startins i ks"
  let ?b = "body_bytes ?strip startins i ks"
  let ?dbg = "if ?strip then [] else p_dbg i"
  let ?n = "if ?strip then 0 else length (p_dbg i)"
  have fr: "fixed_room i \<le> LJ_MAX_BUF" "10 * length (p_kn i) \<le> LJ_MAX_BUF" using room by (simp_all add: body_room_def)
  then have need: "(5 + 4 + 6 * 5 + (length (p_bc i) - 1) * 4 + length (p_uv i) * 2) mod 2 ^ 32 = fixed_room i"
    by (simp add: fixed_room_def LJ_MAX_BUF_def)
  obtain sb where sb: "lj_buf_need (w_sb c) (fixed_room i) = Inr sb" "sbuf_ok sb" "fixed_room i \<le> sbufsz sb"
    using lj_buf_need_ok [OF ok fr(1)] by blast
  define sb1 where "sb1 = sb\<lparr>sb_data := ?fix\<rparr>"
  have put: "buf_put (sb\<lparr>sb_data := []\<rparr>) ?fix = Inr sb1"
    using sb(3) length_fixed [of ?strip startins i ks] by (simp add: buf_put_def sb1_def)
  have sb1: "sbuf_ok sb1" "sb_data sb1 = ?fix"
    using sb(2,3) length_fixed [of ?strip startins i ks] by (auto simp: sb1_def sbuf_ok_def)
  have dbg: "appends (length ?dbg) ?dbg
      (\<lambda>sb. if ?n \<noteq> 0 then rbind (lj_buf_more sb ?n) (\<lambda>sb. buf_put sb (p_dbg i)) else Inr sb)"
    using appends_more_put [of "p_dbg i" "length (p_dbg i)"] appends_Nil by (cases "p_dbg i = []") auto
  let ?rest = "\<lambda>sb. rbind (bcwrite_kgc ks sb) (\<lambda>sb. rbind (bcwrite_knum (p_kn i) sb)
        (\<lambda>sb. if ?n \<noteq> 0 then rbind (lj_buf_more sb ?n) (\<lambda>sb. buf_put sb (p_dbg i)) else Inr sb))"
  have app: "appends (sum_list (map kgc_room ks) + (10 * length (p_kn i) + length ?dbg))
      (concat (map kgc_bytes ks) @ concat (map knum_bytes (p_kn i)) @ ?dbg) ?rest"
    by (intro appends_bind bcwrite_kgc_appends [OF ks] bcwrite_knum_appends fr dbg)
  have "sbuflen sb1 + (sum_list (map kgc_room ks) + (10 * length (p_kn i) + length ?dbg)) \<le> LJ_MAX_BUF"
    using length_fixed [of ?strip startins i ks] room by (auto simp: sb1(2) body_room_def)
  from appends_fits [OF app sb1(1) this] obtain sb2 where sb2: "?rest sb1 = Inr sb2" "sbuf_ok sb2"
    "sb_data sb2 = replicate 5 0 @ ?b"
    unfolding sb1(2) fixed_bytes_def body_bytes_def append_assoc by blast
  have "?b \<noteq> []" by (simp add: body_bytes_def proto_header_def)
  moreover have "length ?b < 2 ^ 32" using sbuf_okD [OF sb2(2)] unfolding sb2(3) by simp
  ultimately have size: "final_size (sb_data sb2) = sized ?b" by (rule final_size_eq [OF sb2(3)])
  have "bcwrite_body startins w i ks c = rbind (?rest sb1) (\<lambda>sb.
      Inr (if w_status c = 0 then write_chunk w (final_size (sb_data sb)) (c\<lparr>w_sb := sb\<rparr>) else c\<lparr>w_sb := sb\<rparr>))"
    using put unfolding bcwrite_body_def Let_def need sb(1) rbind_simps fixed_bytes_def
    by (simp cong: rbind_cong)
  then have "bcwrite_body startins w i ks c =
      Inr (if w_status c = 0 then write_chunk w (sized ?b) (c\<lparr>w_sb := sb2\<rparr>) else c\<lparr>w_sb := sb2\<rparr>)"
    unfolding sb2(1) rbind_simps size .
  then show ?thesis using wrote_one [OF sb2(2)] by blast
qed

lemma bcwrite_proto_wrote:
  "sbuf_ok (w_sb c) \<Longrightarrow> proto_writable pt \<Longrightarrow>
   \<exists>c'. bcwrite_proto startins w pt c = Inr c' \<and> wrote w c (proto_chunks (w_strip c) startins pt) c'"
  "sbuf_ok (w_sb c) \<Longrightarrow> children_writable ks \<Longrightarrow>
   \<exists>c'. bcwrite_children startins w ks c = Inr c' \<and> wrote w c (child_chunks (w_strip c) startins ks) c'"
proof (induction pt and ks arbitrary: c and c rule: proto_writable_children_writable.induct)
  case (1 i ks)
  obtain c1 where c1: "(if p_flags i AND PROTO_CHILD \<noteq> 0 then bcwrite_children startins w ks c else Inr c) = Inr c1"
    "wrote w c (if p_flags i AND PROTO_CHILD \<noteq> 0 then child_chunks (w_strip c) startins ks else []) c1"
    using 1(1) [of c] 1(2,3) by (cases "p_flags i AND PROTO_CHILD = 0") (auto simp: wrote_def)
  then have s: "sbuf_ok (w_sb c1)" "w_strip c1 = w_strip c" by (simp_all add: wrote_def)
  obtain c' where "bcwrite_body startins w i ks c1 = Inr c'"
    "wrote w c1 [sized (body_bytes (w_strip c) startins i ks)] c'"
    using bcwrite_body_wrote [OF s(1), of i ks startins w] 1(3) s(2) by auto
  then show ?case using c1(1) wrote_trans [OF c1(2)] by simp
next
  case 2
  then show ?case by (simp add: wrote_def)
next
  case (3 k ks)
  obtain c1 where c1: "bcwrite_children startins w ks c = Inr c1" "wrote w c (child_chunks (w_strip c) startins ks) c1"
    using 3(2) [of c] 3(3,4) by auto
  then have s: "sbuf_ok (w_sb c1)" "w_strip c1 = w_strip c" by (simp_all add: wrote_def)
  show ?case
  proof (cases k)
    case (KChild pt)
    obtain c' where c': "bcwrite_proto startins w pt c1 = Inr c'" "wrote w c1 (proto_chunks (w_strip c) startins pt) c'"
      using 3(1) [OF KChild s(1)] 3(4) s(2) KChild by auto
    then show ?thesis using c1 KChild wrote_trans [OF c1(2) c'(2)] by simp
  qed (use c1 in simp_all)
qed

text \<open>The whole dump.\<close>

lemma length_dump_header: "length (dump_header strip i) \<le> 5 + 5 + length (s_data (p_chunkname i))"
  using length_wuleb128 [of "word_of_nat (length (s_data (p_chunkname i)))"] by (simp add: dump_header_def)

lemma lj_bcwrite_eq:
  assumes "proto_writable pt" "5 + 5 + length (s_data (p_chunkname (p_info pt))) \<le> LJ_MAX_BUF"
  shows "lj_bcwrite startins w pt d strip = Inr (pass_all w (dump_chunks strip startins pt) (0, d))"
proof -
  let ?i = "p_info pt"
  let ?c = "\<lparr>w_sb = lj_buf_init, w_strip = strip, w_status = 0, w_data = d\<rparr>"
  obtain sb0 where sb0: "lj_buf_need lj_buf_init 1024 = Inr sb0" "sbuf_ok sb0"
    using lj_buf_need_ok [OF sbuf_ok_init, of 1024] by (auto simp: LJ_MAX_BUF_def)
  obtain sb1 where sb1: "lj_buf_need sb0 (5 + 5 + length (s_data (p_chunkname ?i))) = Inr sb1" "sbuf_ok sb1"
    "5 + 5 + length (s_data (p_chunkname ?i)) \<le> sbufsz sb1"
    using lj_buf_need_ok [OF sb0(2) assms(2)] by blast
  define c1 where "c1 = write_chunk w (dump_header strip ?i) (?c\<lparr>w_sb := sb1\<rparr>)"
  have hd: "bcwrite_header w ?i (?c\<lparr>w_sb := sb0\<rparr>) = Inr c1"
    using sb1 length_dump_header [of strip ?i] by (simp add: bcwrite_header_def c1_def)
  have w1: "wrote w ?c [dump_header strip ?i] c1"
    using wrote_one [OF sb1(2), of w ?c "dump_header strip ?i"] by (simp add: c1_def)
  then have s: "sbuf_ok (w_sb c1)" "w_strip c1 = strip" by (simp_all add: wrote_def)
  obtain c2 where c2: "bcwrite_proto startins w pt c1 = Inr c2" "wrote w c1 (proto_chunks strip startins pt) c2"
    using bcwrite_proto_wrote(1) [OF s(1) assms(1)] s(2) by auto
  have "wrote w c2 [[0]] (bcwrite_footer w c2)"
  proof -
    have "c2\<lparr>w_sb := w_sb c2\<rparr> = c2" by (cases c2) simp
    moreover have "sbuf_ok (w_sb c2)" using c2(2) by (simp add: wrote_def)
    ultimately show ?thesis using wrote_one [of "w_sb c2" w c2 "[0]"] by (simp only: bcwrite_footer_def)
  qed
  then have "wrote w ?c (dump_chunks strip startins pt) (bcwrite_footer w c2)"
    using wrote_trans [OF wrote_trans [OF w1 c2(2)]] by (simp add: dump_chunks_def)
  then show ?thesis using sb0(1) hd c2(1) by (simp add: lj_bcwrite_def cpwriter_def wrote_def)
qed

end
