(* ===== verification/DumpRead.thy ===== *)
theory DumpRead
  imports DumpWrite BcreadLoop
begin

text \<open>
  What the bytecode reader makes of a dump: the relation between a prototype and the one
  read back, and the proof that reading the content of a prototype from the window gives it.
\<close>

section \<open>The prototype read back\<close>

definition reread_flags :: "pinfo \<Rightarrow> u8" where
  "reread_flags i = p_flags i AND (PROTO_CHILD OR PROTO_VARARG OR PROTO_FFI)"

definition reread_bc :: "(nat \<Rightarrow> u32) \<Rightarrow> pinfo \<Rightarrow> u32 list" where
  "reread_bc startins i =
     (if p_flags i AND PROTO_ILOOP \<noteq> 0 \<or> p_trace i \<noteq> 0 then map (unpatch startins) (tl (p_bc i)) else tl (p_bc i))"

definition reread_info :: "bool \<Rightarrow> (nat \<Rightarrow> u32) \<Rightarrow> gcstr \<Rightarrow> pinfo \<Rightarrow> pinfo" where
  "reread_info strip startins nm i =
     (let nodbg = strip \<or> p_dbg i = [] in
      \<lparr>p_flags = reread_flags i, p_numparams = p_numparams i, p_framesize = p_framesize i,
       p_bc = BCINS_AD (if reread_flags i AND PROTO_VARARG \<noteq> 0 then BC_FUNCV else BC_FUNCF) (ucast (p_framesize i)) 0 #
         reread_bc startins i,
       p_uv = p_uv i, p_kn = p_kn i, p_trace = 0,
       p_firstline = (if nodbg then 0 else p_firstline i), p_numline = (if nodbg then 0 else p_numline i),
       p_dbg = (if strip then [] else p_dbg i), p_varinfo = (if nodbg then 0 else p_varinfo i), p_chunkname = nm\<rparr>)"

text \<open>
  Tables come back with the same lookups and strings as the interned string with their
  content, everything else as it was.
\<close>

inductive kgc_reread :: "bool \<Rightarrow> (nat \<Rightarrow> u32) \<Rightarrow> gcstr \<Rightarrow> kgc \<Rightarrow> kgc \<Rightarrow> bool"
  and proto_reread :: "bool \<Rightarrow> (nat \<Rightarrow> u32) \<Rightarrow> gcstr \<Rightarrow> proto \<Rightarrow> proto \<Rightarrow> bool"
  for strip startins nm where
  str: "kgc_reread strip startins nm (KStr s) (KStr (the_str (s_data s)))"
| tab: "same_table t t' \<Longrightarrow> kgc_reread strip startins nm (KTab t) (KTab t')"
| cdata: "kgc_reread strip startins nm (KCdata cid q) (KCdata cid q)"
| child: "proto_reread strip startins nm pt pt' \<Longrightarrow> kgc_reread strip startins nm (KChild pt) (KChild pt')"
| proto: "list_all2 (kgc_reread strip startins nm) ks ks' \<Longrightarrow>
    proto_reread strip startins nm (Proto i ks) (Proto (reread_info strip startins nm i) ks')"

section \<open>What can be read back\<close>

fun kgc_dumpable :: "kgc \<Rightarrow> bool" where
  "kgc_dumpable (KStr s) = (length (s_data s) < LJ_MAX_STR)"
| "kgc_dumpable (KTab t) = ktab_ok t"
| "kgc_dumpable (KCdata cid q) =
     ((cid = CTID_INT64 \<or> cid = CTID_UINT64) \<and> length q = 1 \<or> cid = CTID_COMPLEX_DOUBLE \<and> length q = 2)"
| "kgc_dumpable (KChild pt) = True"

definition info_dumpable :: "bool \<Rightarrow> pinfo \<Rightarrow> kgc list \<Rightarrow> bool" where
  "info_dumpable strip i ks \<longleftrightarrow>
     p_bc i \<noteq> [] \<and> length (p_uv i) < 256 \<and> list_all (\<lambda>x. x \<noteq> mzero) (p_kn i) \<and>
     proto_size (length (p_bc i)) (length ks) (length (p_kn i)) (length (p_uv i)) (if strip then 0 else length (p_dbg i)) < 2 ^ 32 \<and>
     (\<not> strip \<longrightarrow> p_dbg i \<noteq> [] \<longrightarrow>
        bcread_varinfo (length (p_uv i)) (p_dbg i) (sizeli (sint (p_numline i)) (length (p_bc i) - 1)) = Inr (p_varinfo i))"

section \<open>Moving through the window\<close>

definition adv :: "lexstate \<Rightarrow> bytes \<Rightarrow> lexstate" where
  "adv ls w = ls\<lparr>ls_buf := w, ls_room := ls_room ls - (length (ls_buf ls) - length w)\<rparr>"

lemma adv_fields [simp]:
  "ls_buf (adv ls w) = w" "ls_protos (adv ls w) = ls_protos ls" "ls_L (adv ls w) = ls_L ls"
  "ls_lastline (adv ls w) = ls_lastline ls" "ls_level (adv ls w) = ls_level ls"
  "ls_chunkname (adv ls w) = ls_chunkname ls"
  by (simp_all add: adv_def)

lemma adv_same: "adv ls (ls_buf ls) = ls"
  by (cases ls) (simp add: adv_def)

lemma adv_adv: "length v \<le> length w \<Longrightarrow> length w \<le> length (ls_buf ls) \<Longrightarrow> adv (adv ls w) v = adv ls v"
  by (cases ls) (simp add: adv_def)

lemma sbind_on_buf: "r (ls_buf ls) = Inr (x, w) \<Longrightarrow> sbind (on_buf r) f ls = f x (adv ls w)"
  by (simp add: sbind_def on_buf_def adv_def)

lemma on_buf_adv: "r u = Inr (x, w) \<Longrightarrow> length w \<le> length u \<Longrightarrow> length u \<le> length (ls_buf ls) \<Longrightarrow>
    on_buf r (adv ls u) = Inr (x, adv ls w)"
  by (cases ls) (simp add: on_buf_def adv_def)

lemma sbind_adv: "r u = Inr (x, w) \<Longrightarrow> length w \<le> length u \<Longrightarrow> length u \<le> length (ls_buf ls) \<Longrightarrow>
    sbind (on_buf r) f (adv ls u) = f x (adv ls w)"
  by (simp add: sbind_def on_buf_adv)

lemma sbind_adv_uleb:
  "length (lj_strfmt_wuleb128 v @ bs) \<le> length (ls_buf ls) \<Longrightarrow>
   sbind (on_buf bcread_uleb128) f (adv ls (lj_strfmt_wuleb128 v @ bs)) = f v (adv ls bs)"
  by (rule sbind_adv) (simp_all add: bcread_uleb128_def uleb.dec_enc)

lemma sbind_adv_byte:
  "length (b # bs) \<le> length (ls_buf ls) \<Longrightarrow> sbind (on_buf bcread_byte) f (adv ls (b # bs)) = f b (adv ls bs)"
  by (rule sbind_adv) (simp_all add: bcread_byte_def)

section \<open>Constants\<close>

definition popped :: "lexstate \<Rightarrow> proto list \<Rightarrow> nat \<Rightarrow> lexstate" where
  "popped ls S n = ls\<lparr>ls_protos := S, ls_L := (ls_L ls)\<lparr>L_top := L_top (ls_L ls) - n\<rparr>\<rparr>"

lemma popped_fields [simp]:
  "ls_buf (popped ls S n) = ls_buf ls" "ls_protos (popped ls S n) = S" "L_top (ls_L (popped ls S n)) = L_top (ls_L ls) - n"
  "ls_lastline (popped ls S n) = ls_lastline ls"
  by (simp_all add: popped_def)

lemma popped_0: "popped ls (ls_protos ls) 0 = ls"
  by (cases ls) (simp add: popped_def)

lemma popped_popped: "popped (popped ls S m) S' n = popped ls S' (m + n)"
  by (simp add: popped_def)

lemma adv_popped: "adv (popped ls S n) w = popped (adv ls w) S n"
  by (simp add: popped_def adv_def)

definition kgc_children :: "kgc list \<Rightarrow> proto list" where
  "kgc_children ks = concat (map (\<lambda>k. case k of KChild pt \<Rightarrow> [pt] | _ \<Rightarrow> []) ks)"

lemma kgc_children_simps [simp]:
  "kgc_children [] = []"
  "kgc_children (k # ks) = (case k of KChild pt \<Rightarrow> [pt] | _ \<Rightarrow> []) @ kgc_children ks"
  by (simp_all add: kgc_children_def)

text \<open>
  The interface of a list of constants: reading one constant of any kind but a prototype, and
  taking a prototype off the stack.
\<close>

locale kgc_reader =
  fixes one :: "kgc lreader" and enc :: "kgc \<Rightarrow> bytes" and ok :: "kgc \<Rightarrow> bool"
    and krel :: "kgc \<Rightarrow> kgc \<Rightarrow> bool" and prel :: "proto \<Rightarrow> proto \<Rightarrow> bool"
  assumes leaf: "ok k \<Longrightarrow> \<forall>pt. k \<noteq> KChild pt \<Longrightarrow> ls_buf ls = enc k @ w \<Longrightarrow> \<exists>k'. one ls = Inr (k', adv ls w) \<and> krel k k'"
    and child: "ls_buf ls = enc (KChild pt) @ w \<Longrightarrow> ls_protos ls = pt' # S \<Longrightarrow> ls_lastline ls < L_top (ls_L ls) \<Longrightarrow>
      one ls = Inr (KChild pt', popped (adv ls w) S 1)"
    and krel_child: "prel pt pt' \<Longrightarrow> krel (KChild pt) (KChild pt')"
begin

lemma kgc_read:
  assumes "list_all ok ks" "list_all2 prel (kgc_children ks) cs"
    and "ls_buf ls = concat (map enc ks) @ w" "ls_protos ls = cs @ S" "ls_lastline ls + length cs \<le> L_top (ls_L ls)"
  shows "\<exists>ks'. stimes (length ks) one ls = Inr (ks', popped (adv ls w) S (length cs)) \<and> list_all2 krel ks ks'"
  using assms
proof (induction ks arbitrary: ls cs)
  case Nil
  then have "popped (adv ls w) S 0 = ls" using adv_same [of ls] popped_0 [of ls] by simp
  then show ?case using Nil by simp
next
  case (Cons k ks)
  let ?u = "concat (map enc ks) @ w"
  show ?case
  proof (cases "\<exists>pt. k = KChild pt")
    case True
    then obtain pt where k: "k = KChild pt" by blast
    then obtain pt' cs' where cs: "cs = pt' # cs'" "prel pt pt'"
      "list_all2 prel (kgc_children ks) cs'"
      using Cons.prems(2) by (auto simp: list_all2_Cons1)
    have one: "one ls = Inr (KChild pt', popped (adv ls ?u) (cs' @ S) 1)"
      using Cons.prems cs(1) k by (intro child) simp_all
    obtain ks' where ks': "stimes (length ks) one (popped (adv ls ?u) (cs' @ S) 1) =
        Inr (ks', popped (adv (popped (adv ls ?u) (cs' @ S) 1) w) S (length cs'))"
      "list_all2 krel ks ks'"
    proof -
      have "ls_lastline ls + length cs' \<le> L_top (ls_L ls) - 1" using Cons.prems(5) cs(1) by simp
      then show ?thesis
        using Cons.IH [OF _ cs(3), of "popped (adv ls ?u) (cs' @ S) 1"] Cons.prems(1) that by auto
    qed
    have "popped (adv (popped (adv ls ?u) (cs' @ S) 1) w) S (length cs') = popped (adv ls w) S (length cs)"
      using Cons.prems(3) cs(1) by (simp add: adv_popped popped_popped adv_adv)
    then show ?thesis using one ks' k cs(2) by (auto simp: sbind_def intro: krel_child)
  next
    case False
    then have cs: "list_all2 prel (kgc_children ks) cs"
      using Cons.prems(2) by (cases k) auto
    obtain k' where one: "one ls = Inr (k', adv ls ?u)" "krel k k'"
      using leaf [of k ls ?u] Cons.prems(1,3) False by auto
    obtain ks' where ks': "stimes (length ks) one (adv ls ?u) = Inr (ks', popped (adv (adv ls ?u) w) S (length cs))"
      "list_all2 krel ks ks'"
      using Cons.IH [OF _ cs, of "adv ls ?u"] Cons.prems by auto
    have "adv (adv ls ?u) w = adv ls w" using Cons.prems(3) by (simp add: adv_adv)
    then show ?thesis using one ks' by (auto simp: sbind_def)
  qed
qed

end

lemma kcdata_read:
  assumes "kgc_dumpable (KCdata cid q)"
  shows "bcread_kcdata (cdata_tp cid)
    ((if cdata_tp cid = BCDUMP_KGC_COMPLEX then num_bytes (q ! 0) @ num_bytes (q ! 1) else num_bytes (q ! 0)) @ bs) =
    Inr (KCdata cid q, bs)"
proof -
  have q: "length q = 1 \<Longrightarrow> q = [q ! 0]" "length q = 2 \<Longrightarrow> q = [q ! 0, q ! 1]"
    by (auto simp: length_Suc_conv numeral_2_eq_2)
  have ids: "CTID_INT64 \<noteq> CTID_COMPLEX_DOUBLE" "CTID_UINT64 \<noteq> CTID_COMPLEX_DOUBLE" "CTID_UINT64 \<noteq> CTID_INT64"
    by (simp_all add: CTID_INT64_def CTID_UINT64_def CTID_COMPLEX_DOUBLE_def)
  show ?thesis using assms q ids
    by (auto simp: bcread_kcdata_def cdata_tp_def num_bytes_def dump_codes sbind_def bcread_uleb128_def uleb.dec_enc)
qed

lemma kgc_one_read:
  assumes "kgc_dumpable k" "k \<noteq> KChild pt" "ls_buf ls = kgc_bytes k @ w"
  shows "(\<exists>k'. bcread_kgc_one ls = Inr (k', adv ls w) \<and> kgc_reread strip startins nm k k') \<or> (\<exists>pt. k = KChild pt)"
proof -
  have start: "bcread_kgc_one ls = bcread_kgc_one (adv ls (kgc_bytes k @ w))"
    using adv_same [of ls] assms(3) by simp
  show ?thesis
  proof (cases k)
    case (KStr s)
    then have s: "length (s_data s) < LJ_MAX_STR" using assms(1) by simp
    define tp where "tp = BCDUMP_KGC_STR + word_of_nat (length (s_data s))"
    have tp: "BCDUMP_KGC_STR \<le> tp" using str_type(1) [OF s] by (simp add: tp_def BCDUMP_KGC_STR_def)
    have r: "bcread_str (unat (tp - BCDUMP_KGC_STR)) (s_data s @ w) = Inr (the_str (s_data s), w)"
      using s str_type(2) [OF s] by (simp add: bcread_str_def bcread_mem_def tp_def BCDUMP_KGC_STR_def sbind_def)
    have "kgc_bytes k = lj_strfmt_wuleb128 tp @ s_data s" by (simp add: KStr kgc_bytes_def tp_def)
    then have "bcread_kgc_one ls = Inr (KStr (the_str (s_data s)), adv ls w)"
      using assms(3) tp unfolding start
      by (simp add: bcread_kgc_one_def sbind_adv_uleb sbind_adv [where r = "bcread_str n" for n, OF r])
    then show ?thesis using KStr by (auto intro: kgc_reread_proto_reread.str)
  next
    case (KTab t)
    obtain t' where t': "bcread_ktab (ktab_bytes t @ w) = Inr (t', w)" "same_table t t'"
      using ktab_reread assms(1) KTab by fastforce
    have "bcread_kgc_one ls = Inr (KTab t', adv ls w)"
      using assms(3) unfolding start KTab kgc_bytes_def
      by (simp add: bcread_kgc_one_def sbind_adv_uleb sbind_adv [where r = bcread_ktab, OF t'(1)] dump_codes word_le_nat_alt)
    then show ?thesis using KTab t' by (auto intro: kgc_reread_proto_reread.tab)
  next
    case (KCdata cid q)
    have "bcread_kgc_one ls = Inr (KCdata cid q, adv ls w)"
      using assms(3) cdata_tp_cases [of cid] kcdata_read [of cid q w] assms(1) unfolding start KCdata kgc_bytes_def
      by (auto simp: bcread_kgc_one_def sbind_adv_uleb on_buf_adv dump_codes word_le_nat_alt)
    then show ?thesis using KCdata by (auto intro: kgc_reread_proto_reread.cdata)
  qed simp
qed


lemma kgc_child_read:
  assumes "ls_buf ls = kgc_bytes (KChild pt) @ w" "ls_protos ls = pt' # S" "ls_lastline ls < L_top (ls_L ls)"
  shows "bcread_kgc_one ls = Inr (KChild pt', popped (adv ls w) S 1)"
proof -
  have "bcread_kgc_one (adv ls (kgc_bytes (KChild pt) @ w)) = pop_child (adv ls w)"
    using assms(1) by (simp add: kgc_bytes_def bcread_kgc_one_def sbind_adv_uleb dump_codes word_le_nat_alt)
  then show ?thesis using adv_same [of ls] assms by (simp add: pop_child_def popped_def)
qed

interpretation bcread_consts:
  kgc_reader bcread_kgc_one kgc_bytes kgc_dumpable "kgc_reread strip startins nm" "proto_reread strip startins nm"
  for strip startins nm
proof unfold_locales
  fix k :: kgc and ls :: lexstate and w :: bytes
  assume "kgc_dumpable k" "\<forall>pt. k \<noteq> KChild pt" "ls_buf ls = kgc_bytes k @ w"
  then show "\<exists>k'. bcread_kgc_one ls = Inr (k', adv ls w) \<and> kgc_reread strip startins nm k k'"
    using kgc_one_read [of k _ ls w] by blast
qed (use kgc_child_read kgc_reread_proto_reread.child in auto)

section \<open>Prototypes\<close>

lemma sbind_popped: "r u = Inr (x, w) \<Longrightarrow> length w \<le> length u \<Longrightarrow> length u \<le> length (ls_buf ls) \<Longrightarrow>
    sbind (on_buf r) f (popped (adv ls u) S n) = f x (popped (adv ls w) S n)"
  by (cases ls) (simp add: sbind_def on_buf_def adv_def popped_def)

lemma bytecode_read:
  assumes "p_bc i \<noteq> []"
  shows "bcread_bytecode False (reread_flags i) (p_framesize i) (length (p_bc i)) (bcwrite_bytecode startins i @ u) =
    Inr (p_bc (reread_info strip startins nm i), u)"
proof -
  have e: "bcwrite_bytecode startins i = concat (map bytes32 (reread_bc startins i))"
    by (simp add: bcwrite_bytecode_def reread_bc_def)
  have "length (bcwrite_bytecode startins i) = (length (p_bc i) - 1) * 4" by (simp add: length_bytecode)
  then show ?thesis by (simp add: bcread_bytecode_def bcread_mem_def sbind_def reread_info_def Let_def e)
qed

lemma uv_read: "bcread_uv False (length uv) (concat (map bytes16 uv) @ u) = Inr (uv, u)"
proof -
  have "length (concat (map bytes16 uv)) = length uv * 2" by (simp add: length_concat_const [where n = 2])
  then show ?thesis by (simp add: bcread_uv_def bcread_mem_def sbind_def)
qed

lemma unat_32: "n < 2 ^ 32 \<Longrightarrow> unat (word_of_nat n :: u32) = n"
  by (intro unat_of_nat_eq) simp

lemma proto_read:
  assumes i: "info_dumpable strip i ks" and ks: "list_all kgc_dumpable ks"
    and cs: "list_all2 (proto_reread strip startins nm) (kgc_children ks) cs"
    and buf: "ls_buf ls = body_bytes strip startins i ks @ w"
    and stack: "ls_protos ls = cs @ S" "ls_lastline ls + length cs \<le> L_top (ls_L ls)"
    and level: "ls_level ls AND BCDUMP_F_BE = 0" "ls_level ls AND BCDUMP_F_STRIP = 0 \<longleftrightarrow> \<not> strip" "ls_chunkname ls = nm"
  shows "\<exists>pt. lj_bcread_proto ls = Inr (pt, popped (adv ls w) S (length cs)) \<and> proto_reread strip startins nm (Proto i ks) pt"
proof -
  define dbg where "dbg = (if strip then [] else p_dbg i)"
  define u4 where "u4 = dbg @ w"
  define u3 where "u3 = concat (map knum_bytes (p_kn i)) @ u4"
  define u2 where "u2 = concat (map kgc_bytes ks) @ u3"
  define u1 where "u1 = concat (map bytes16 (p_uv i)) @ u2"
  define u0 where "u0 = bcwrite_bytecode startins i @ u1"
  have whole: "ls_buf ls = proto_header strip i ks @ u0"
    by (simp add: buf body_bytes_def u0_def u1_def u2_def u3_def u4_def dbg_def)
  then have len: "length u0 \<le> length (ls_buf ls)" "length u1 \<le> length u0" "length u2 \<le> length u1"
    "length u3 \<le> length u2" "length u4 \<le> length u3" "length w \<le> length u4"
    by (simp_all add: u0_def u1_def u2_def u3_def u4_def)
  have bc: "p_bc i \<noteq> []" and uv: "length (p_uv i) < 256" and kn: "list_all (\<lambda>x. x \<noteq> mzero) (p_kn i)"
    and size: "proto_size (length (p_bc i)) (length ks) (length (p_kn i)) (length (p_uv i)) (length dbg) < 2 ^ 32"
    and vi: "dbg \<noteq> [] \<Longrightarrow>
      bcread_varinfo (length (p_uv i)) dbg (sizeli (sint (p_numline i)) (length (p_bc i) - 1)) = Inr (p_varinfo i)"
    using i by (auto simp: info_dumpable_def dbg_def split: if_splits)
  have sz: "length (p_bc i) < 2 ^ 32" "length ks < 2 ^ 32" "length (p_kn i) < 2 ^ 32" "length dbg < 2 ^ 32"
    using size by (auto simp: proto_size_def Let_def)
  obtain nb where nb: "length (p_bc i) = Suc nb" using bc by (cases "p_bc i") auto
  with sz have un: "unat (word_of_nat (length ks) :: u32) = length ks" "unat (word_of_nat (length (p_kn i)) :: u32) = length (p_kn i)"
    "unat (word_of_nat nb :: u32) = nb"
    "unat (word_of_nat (length dbg) :: u32) = length dbg" "unat (word_of_nat (length (p_uv i)) :: u8) = length (p_uv i)"
    using bc uv by (auto simp: unat_32 intro: unat_of_nat_eq)
  then have z: "word_of_nat (length dbg) = (0 :: u32) \<longleftrightarrow> dbg = []" 
    using unat_eq_zero [of "word_of_nat (length dbg) :: u32"] by simp
  have head: "adv ls (proto_header strip i ks @ u0) = ls" using adv_same [of ls] whole by simp
  have kgc: "\<exists>ks'. bcread_kgc (length ks) (adv ls u2) = Inr (ks', popped (adv ls u3) S (length cs)) \<and>
      list_all2 (kgc_reread strip startins nm) ks ks'"
    using bcread_consts.kgc_read [OF ks cs, of "adv ls u2" u3 S] stack len by (simp add: u2_def adv_adv bcread_kgc_def)
  then obtain ks' where ks': "bcread_kgc (length ks) (adv ls u2) = Inr (ks', popped (adv ls u3) S (length cs))"
    "list_all2 (kgc_reread strip startins nm) ks ks'" by blast
  have kn_read: "bcread_knum (length (p_kn i)) u3 = Inr (p_kn i, u4)"
    unfolding bcread_knum_def u3_def using knum.dec_list [of "p_kn i"] kn by simp
  define dh where "dh = (if strip then [] else lj_strfmt_wuleb128 (word_of_nat (length dbg)) @
      (if dbg \<noteq> [] then lj_strfmt_wuleb128 (p_firstline i) @ lj_strfmt_wuleb128 (p_numline i) else []))"
  define fl nl where "fl = (if dbg = [] then 0 else p_firstline i)" and "nl = (if dbg = [] then 0 else p_numline i)"
  have hd: "proto_header strip i ks @ u0 = reread_flags i # p_numparams i # p_framesize i # word_of_nat (length (p_uv i)) #
      lj_strfmt_wuleb128 (word_of_nat (length ks)) @ lj_strfmt_wuleb128 (word_of_nat (length (p_kn i))) @
      lj_strfmt_wuleb128 (word_of_nat nb) @ dh @ u0"
    by (simp add: proto_header_def reread_flags_def dh_def dbg_def nb)
  have dh_read: "sbind (if ls_level ls AND BCDUMP_F_STRIP = 0
      then sbind (on_buf bcread_uleb128) (\<lambda>sizedbg.
           if sizedbg \<noteq> 0
           then sbind (on_buf bcread_uleb128) (\<lambda>firstline.
                sbind (on_buf bcread_uleb128) (\<lambda>numline. sret (sizedbg, firstline, numline)))
           else sret (sizedbg, 0, 0))
      else sret (0, 0, 0)) f (adv ls (dh @ u0)) = f (word_of_nat (length dbg), fl, nl) (adv ls u0)"
    for f :: "u32 \<times> u32 \<times> u32 \<Rightarrow> proto lreader"
  proof (cases "strip \<or> dbg = []")
    case True
    have "length (dh @ u0) \<le> length (ls_buf ls)" unfolding whole hd by simp
    with True show ?thesis
      by (cases strip) (simp_all add: level(2) dh_def dbg_def fl_def nl_def sbind_def [of _ f] sbind_adv_uleb)
  next
    case False
    have "length (dh @ u0) \<le> length (ls_buf ls)" unfolding whole hd by simp
    with False show ?thesis
      by (simp add: level(2) dh_def fl_def nl_def sbind_def [of _ f] sbind_adv_uleb z)
  qed
  have dbg_read: "sbind (if word_of_nat (length dbg) \<noteq> (0 :: u32)
      then sbind (on_buf (bcread_dbg False (sint nl) nb (length dbg))) (\<lambda>d.
           sbind (slift (bcread_varinfo (length (p_uv i)) d (sizeli (sint nl) nb))) (\<lambda>vi. sret (d, vi)))
      else sret ([], 0)) f (popped (adv ls u4) S m) = f (dbg, if dbg = [] then 0 else p_varinfo i) (popped (adv ls w) S m)"
    for f :: "bytes \<times> nat \<Rightarrow> proto lreader" and m
  proof (cases "dbg = []")
    case False
    have "bcread_dbg False (sint nl) nb (length dbg) u4 = Inr (dbg, w)"
      by (simp add: bcread_dbg_def bcread_mem_def u4_def sbind_def)
    then show ?thesis using False vi [unfolded nb] len
      by (simp add: z sbind_def [of _ f] sbind_popped [where r = "bcread_dbg False a b c" for a b c] nl_def)
  qed (simp add: z u4_def)
  have swap: "bcread_swap (ls_level ls) = False" using level(1) by (simp add: bcread_swap_def)
  have head_len: "length (reread_flags i # p_numparams i # p_framesize i # word_of_nat (length (p_uv i)) #
      lj_strfmt_wuleb128 (word_of_nat (length ks)) @ lj_strfmt_wuleb128 (word_of_nat (length (p_kn i))) @
      lj_strfmt_wuleb128 (word_of_nat nb) @ dh @ u0) \<le> length (ls_buf ls)"
    unfolding hd [symmetric] whole ..
  have bc_read: "sbind (on_buf (bcread_bytecode False (reread_flags i) (p_framesize i) (Suc nb))) f (adv ls u0) =
      f (p_bc (reread_info strip startins nm i)) (adv ls u1)" for f :: "u32 list \<Rightarrow> proto lreader"
    unfolding u0_def by (rule sbind_adv, rule bytecode_read [OF bc, unfolded nb]) (use len in \<open>simp_all add: u0_def\<close>)
  have uv_read': "sbind (on_buf (bcread_uv False (length (p_uv i)))) f (adv ls u1) = f (p_uv i) (adv ls u2)"
    for f :: "u16 list \<Rightarrow> proto lreader"
    unfolding u1_def by (rule sbind_adv, rule uv_read) (use len in \<open>simp_all add: u1_def\<close>)
  have kn_read': "sbind (on_buf (bcread_knum (length (p_kn i)))) f (popped (adv ls u3) S m) = f (p_kn i) (popped (adv ls u4) S m)"
    for f :: "u64 list \<Rightarrow> proto lreader" and m
    by (rule sbind_popped, rule kn_read) (use len in simp_all)
  have kgc_read': "sbind (bcread_kgc (length ks)) f (adv ls u2) = f ks' (popped (adv ls u3) S (length cs))"
    for f :: "kgc list \<Rightarrow> proto lreader"
    by (rule sbind_Inr, rule ks'(1))
  have info: "\<lparr>p_flags = reread_flags i, p_numparams = p_numparams i, p_framesize = p_framesize i,
      p_bc = p_bc (reread_info strip startins nm i), p_uv = p_uv i, p_kn = p_kn i, p_trace = 0, p_firstline = fl,
      p_numline = nl, p_dbg = dbg, p_varinfo = (if dbg = [] then 0 else p_varinfo i), p_chunkname = nm\<rparr> =
      reread_info strip startins nm i"
    by (simp add: reread_info_def Let_def fl_def nl_def dbg_def)
  have "lj_bcread_proto (adv ls (proto_header strip i ks @ u0)) =
      Inr (Proto (reread_info strip startins nm i) ks', popped (adv ls w) S (length cs))"
    unfolding hd lj_bcread_proto_def Let_def adv_fields swap
    using head_len size [unfolded nb]
    by (simp split del: if_split cong: if_cong add: info sbind_adv_byte sbind_adv_uleb dh_read un bc_read uv_read' kgc_read' kn_read' dbg_read level(3))
  then show ?thesis unfolding head using kgc_reread_proto_reread.proto [OF ks'(2)] by blast
qed

end
