(* ===== verification/DumpFeed.thy ===== *)
theory DumpFeed
  imports DumpRead
begin

text \<open>
  The input of the reader as a stream: whatever chunks the callback hands it over in, the
  refills of \<^verbatim>\<open>bcread_fill\<close> deliver the same bytes.
\<close>

section \<open>The stream\<close>

text \<open>
  \<open>feeds K cs bs ls\<close>: the window and the chunks \<open>cs\<close> to come are the bytes \<open>bs\<close>, at most \<open>K\<close>, and
  no block lies so close to the end of the address space that adding \<open>K\<close> to a position in
  it wraps around.
\<close>

definition feeds :: "nat \<Rightarrow> (bytes \<times> nat) list \<Rightarrow> bytes \<Rightarrow> lexstate \<Rightarrow> bool" where
  "feeds K cs bs ls \<longleftrightarrow> ls_buf ls @ concat (map fst cs) = bs \<and>
     (\<forall>c \<in> set cs. fst c \<noteq> [] \<and> K + length (fst c) < snd c) \<and>
     K + length (ls_buf ls) < ls_room ls \<and> 2 * K < ls_sbroom ls \<and>
     length bs \<le> K \<and> 13 \<le> K \<and> K \<le> LJ_MAX_BUF \<and>
     (sb_data (ls_sb ls) \<noteq> [] \<longrightarrow> length (ls_buf ls) \<le> sbufsz (ls_sb ls))"

definition feed :: "nat \<Rightarrow> bytes \<Rightarrow> lexstate \<Rightarrow> bool" where
  "feed K bs ls \<longleftrightarrow> feeds K (ls_chunks ls) bs ls \<and> (ls_c ls < 0 \<longrightarrow> ls_chunks ls = [])"

text \<open>What a refill leaves alone.\<close>

definition same :: "lexstate \<Rightarrow> lexstate \<Rightarrow> bool" where
  "same ls ls' \<longleftrightarrow> ls_level ls' = ls_level ls \<and> ls_chunkname ls' = ls_chunkname ls \<and>
     ls_chunkarg ls' = ls_chunkarg ls \<and> ls_lastline ls' = ls_lastline ls \<and> ls_protos ls' = ls_protos ls \<and>
     ls_L ls' = ls_L ls"

lemma same_refl [simp]: "same ls ls"
  by (simp add: same_def)

lemma same_trans: "same a b \<Longrightarrow> same b c \<Longrightarrow> same a c"
  by (simp add: same_def)

lemma same_adv [simp]: "same ls (adv ls w)"
  by (simp add: same_def adv_def)

section \<open>Refills\<close>

lemma grow_size_ge: "0 < nsz \<Longrightarrow> sz \<le> grow_size nsz sz"
  by (induction nsz sz rule: grow_size.induct) (subst grow_size.simps, simp)

lemma lj_buf_need_size:
  assumes "n \<le> LJ_MAX_BUF"
  obtains sb' where "lj_buf_need sb n = Inr sb'" "sb_data sb' = sb_data sb" "n \<le> sbufsz sb'" "sbufsz sb \<le> sbufsz sb' \<or> n \<le> sbufsz sb'"
proof (cases "sbufsz sb < n")
  case True
  have "n \<le> sbufsz (buf_grow sb n)" by (simp add: buf_grow_def Let_def grow_size_ge LJ_MIN_SBUF_def)
  then show ?thesis using True assms that [of "buf_grow sb n"]
    by (simp add: lj_buf_need_def lj_buf_need2_def buf_grow_def Let_def)
qed (use that [of sb] in \<open>simp add: lj_buf_need_def\<close>)

lemma fill_keep_feeds:
  assumes "feeds K cs bs ls" "length (ls_buf ls) < len" "len \<le> K"
  shows "\<exists>ls'. fill_keep len ls = Inr ls' \<and> feeds K cs bs ls' \<and> ls_buf ls' = ls_buf ls \<and> same ls ls' \<and>
    ls_c ls' = ls_c ls \<and> (ls_buf ls = [] \<longrightarrow> sb_data (ls_sb ls') = [])"
proof (cases "ls_buf ls = []")
  case True
  then show ?thesis using assms(1) by (auto simp: fill_keep_def feeds_def same_def)
next
  case False
  have len: "len \<le> LJ_MAX_BUF" using assms(1,3) by (simp add: feeds_def)
  have buf: "length (ls_buf ls) \<le> K" using assms(1) by (auto simp: feeds_def)
  show ?thesis
  proof (cases "sb_data (ls_sb ls) = []")
    case True
    obtain sb where "lj_buf_need (ls_sb ls) len = Inr sb" "len \<le> sbufsz sb" using len by (rule lj_buf_need_size)
    then show ?thesis using True False assms(1,2) buf by (auto simp: fill_keep_def feeds_def same_def)
  next
    case sb: False
    then show ?thesis using False assms(1) buf by (auto simp: fill_keep_def feeds_def same_def)
  qed
qed

lemma fill_append_feeds:
  assumes "feeds K (c # cs) bs ls" "len \<le> K" "ls_buf ls = [] \<longrightarrow> sb_data (ls_sb ls) = []"
  shows "\<exists>ls'. fill_append len c ls = Inr ls' \<and> feeds K cs bs ls' \<and> ls_buf ls' = ls_buf ls @ fst c \<and> same ls ls' \<and>
    ls_c ls' = ls_c ls"
proof (cases "ls_buf ls = []")
  case True
  then show ?thesis using assms by (auto simp: fill_append_def feeds_def same_def)
next
  case False
  let ?n = "length (ls_buf ls) + length (fst c)"
  have "length bs = ?n + length (concat (map fst cs))" using assms(1) by (auto simp: feeds_def)
  then have n: "?n \<le> K" using assms(1) by (simp add: feeds_def)
  then have "(if ?n < len then len else ?n) \<le> LJ_MAX_BUF" using assms(1,2) by (auto simp: feeds_def)
  then obtain sb where "lj_buf_need (ls_sb ls) (if ?n < len then len else ?n) = Inr sb"
    "(if ?n < len then len else ?n) \<le> sbufsz sb" by (rule lj_buf_need_size)
  then show ?thesis using False assms(1) n
    by (auto simp: fill_append_def Let_def feeds_def same_def split: if_splits)
qed

lemma needs_feeds:
  assumes "feeds K cs bs ls" "len \<le> K"
  shows "needs len ls \<longleftrightarrow> length (ls_buf ls) < len"
proof -
  have "length (ls_buf ls) \<le> K" "K + length (ls_buf ls) < ls_room ls" "K \<le> LJ_MAX_BUF" using assms(1) by (auto simp: feeds_def)
  then show ?thesis using needs_iff [of ls len] assms(2) by (simp add: LJ_MAX_BUF_def)
qed

lemma fill_loop_feeds:
  assumes "feeds K cs bs ls" "length (ls_buf ls) < len" "len \<le> K" "need \<longrightarrow> len \<le> length bs" "0 \<le> ls_c ls"
  shows "\<exists>ls'. fill_loop len need cs ls = Inr ls' \<and> feed K bs ls' \<and> same ls ls' \<and> min len (length bs) \<le> length (ls_buf ls')"
  using assms
proof (induction cs arbitrary: ls)
  case Nil
  obtain ls1 where ls1: "fill_keep len ls = Inr ls1" "feeds K [] bs ls1" "ls_buf ls1 = ls_buf ls" "same ls ls1"
    using fill_keep_feeds [OF Nil(1-3)] by blast
  have "\<not> need" "ls_buf ls1 = bs" using Nil ls1(2) by (auto simp: feeds_def)
  then show ?case using ls1 by (auto simp: feed_def feeds_def same_def)
next
  case (Cons c cs)
  obtain ls1 where ls1: "fill_keep len ls = Inr ls1" "feeds K (c # cs) bs ls1" "ls_buf ls1 = ls_buf ls" "same ls ls1"
    "ls_c ls1 = ls_c ls" "ls_buf ls = [] \<longrightarrow> sb_data (ls_sb ls1) = []"
    using fill_keep_feeds [OF Cons.prems(1-3)] by blast
  obtain ls2 where ls2: "fill_append len c ls1 = Inr ls2" "feeds K cs bs ls2" "ls_buf ls2 = ls_buf ls1 @ fst c"
    "same ls1 ls2" "ls_c ls2 = ls_c ls1"
    using fill_append_feeds [OF ls1(2) Cons.prems(3)] ls1(3,6) by auto
  have c: "fst c \<noteq> []" using Cons.prems(1) by (simp add: feeds_def)
  have eq: "fill_loop len need (c # cs) ls =
      (if length (ls_buf ls2) < len then fill_loop len need cs ls2 else Inr (ls2\<lparr>ls_chunks := cs\<rparr>))"
    using ls1(1) ls2(1) c needs_feeds [OF ls2(2) Cons.prems(3)] by simp
  have same: "same ls ls2" using same_trans [OF ls1(4) ls2(4)] .
  show ?case
  proof (cases "length (ls_buf ls2) < len")
    case True
    then show ?thesis using Cons.IH [OF ls2(2) True Cons.prems(3,4)] Cons.prems(5) ls1(5) ls2(5) eq same_trans [OF same]
      by auto
  next
    case False
    then show ?thesis using eq ls2(2) same Cons.prems(5) ls1(5) ls2(5)
      by (auto simp: feed_def feeds_def same_def)
  qed
qed

lemma bcread_fill_feed:
  assumes "feed K bs ls" "length (ls_buf ls) < len" "len \<le> K" "need \<longrightarrow> len \<le> length bs" "ls_c ls < 0 \<longrightarrow> len \<le> length bs"
  shows "\<exists>ls'. bcread_fill len need ls = Inr ls' \<and> feed K bs ls' \<and> same ls ls' \<and> min len (length bs) \<le> length (ls_buf ls')"
proof -
  have c: "\<not> ls_c ls < 0" using assms(1,2,5) by (auto simp: feed_def feeds_def)
  moreover have "\<not> LJ_MAX_BUF < len" using assms(1,3) by (auto simp: feed_def feeds_def)
  ultimately show ?thesis using fill_loop_feeds [OF _ assms(2-4)] assms(1) by (simp add: bcread_fill_def feed_def)
qed

lemma window_enough:
  assumes "feed K bs ls" "len \<le> K" "ls_c ls < 0 \<longrightarrow> len \<le> length bs"
  shows "\<exists>ls'. bcread_want len ls = Inr ((), ls') \<and> feed K bs ls' \<and> same ls ls' \<and> min len (length bs) \<le> length (ls_buf ls')"
    "len \<le> length bs \<Longrightarrow>
      \<exists>ls'. bcread_need len ls = Inr ((), ls') \<and> feed K bs ls' \<and> same ls ls' \<and> len \<le> length (ls_buf ls')"
proof -
  have n: "needs len ls \<longleftrightarrow> length (ls_buf ls) < len" using needs_feeds [of K "ls_chunks ls" bs ls len] assms(1,2) by (simp add: feed_def)
  show "\<exists>ls'. bcread_want len ls = Inr ((), ls') \<and> feed K bs ls' \<and> same ls ls' \<and> min len (length bs) \<le> length (ls_buf ls')"
  proof (cases "length (ls_buf ls) < len")
    case True
    then show ?thesis using bcread_fill_feed [OF assms(1) True assms(2) _ assms(3), of False] n by (auto simp: bcread_want_def)
  qed (use n assms(1) in \<open>auto simp: bcread_want_def\<close>)
  show "\<exists>ls'. bcread_need len ls = Inr ((), ls') \<and> feed K bs ls' \<and> same ls ls' \<and> len \<le> length (ls_buf ls')"
    if len: "len \<le> length bs"
  proof (cases "length (ls_buf ls) < len")
    case True
    then show ?thesis using bcread_fill_feed [OF assms(1) True assms(2) _ assms(3), of True] n len by (auto simp: bcread_need_def)
  qed (use n assms(1) in \<open>auto simp: bcread_need_def\<close>)
qed

text \<open>Taking the front of the stream from the window.\<close>

lemma feed_split:
  assumes "feed K (u @ bs) ls" "length u \<le> length (ls_buf ls)"
  obtains w where "ls_buf ls = u @ w" "feed K bs (adv ls w)"
proof -
  have "ls_buf ls @ concat (map fst (ls_chunks ls)) = u @ bs" using assms(1) by (simp add: feed_def feeds_def)
  then obtain w where w: "ls_buf ls = u @ w" "w @ concat (map fst (ls_chunks ls)) = bs"
    using assms(2) by (auto simp: append_eq_append_conv2)
  then have "feed K bs (adv ls w)" using assms(1) by (auto simp: feed_def feeds_def adv_def)
  then show ?thesis using w that by blast
qed

end
