(* ===== verification/DumpLoop.thy ===== *)
theory DumpLoop
  imports DumpFeed
begin

text \<open>
  The loop over the prototypes of a dump, for any reader of one prototype: if a round reads a
  prototype whose children lie on the stack, the loop reads the tree of prototypes in the
  order the writer passes them.
\<close>

section \<open>The parts of a dump\<close>

fun parts :: "(pinfo \<Rightarrow> kgc list \<Rightarrow> bytes) \<Rightarrow> proto \<Rightarrow> bytes list"
  and child_parts :: "(pinfo \<Rightarrow> kgc list \<Rightarrow> bytes) \<Rightarrow> kgc list \<Rightarrow> bytes list" where
  "parts part (Proto i ks) = (if p_flags i AND PROTO_CHILD \<noteq> 0 then child_parts part ks else []) @ [part i ks]"
| "child_parts part [] = []"
| "child_parts part (k # ks) = child_parts part ks @ (case k of KChild pt \<Rightarrow> parts part pt | _ \<Rightarrow> [])"

fun all_protos :: "(pinfo \<Rightarrow> kgc list \<Rightarrow> bool) \<Rightarrow> proto \<Rightarrow> bool"
  and all_children :: "(pinfo \<Rightarrow> kgc list \<Rightarrow> bool) \<Rightarrow> kgc list \<Rightarrow> bool" where
  "all_protos ok (Proto i ks) =
     (ok i ks \<and> (kgc_children ks \<noteq> [] \<longrightarrow> p_flags i AND PROTO_CHILD \<noteq> 0) \<and> all_children ok ks)"
| "all_children ok [] = True"
| "all_children ok (k # ks) = ((case k of KChild pt \<Rightarrow> all_protos ok pt | _ \<Rightarrow> True) \<and> all_children ok ks)"

fun proto_count :: "proto \<Rightarrow> nat" and children_count :: "kgc list \<Rightarrow> nat" where
  "proto_count (Proto i ks) = Suc (children_count ks)"
| "children_count [] = 0"
| "children_count (k # ks) = (case k of KChild pt \<Rightarrow> proto_count pt | _ \<Rightarrow> 0) + children_count ks"

text \<open>The reader between two prototypes, with \<open>S\<close> on its stack and \<open>bs\<close> to read.\<close>

definition ready :: "bool \<Rightarrow> gcstr \<Rightarrow> nat \<Rightarrow> nat \<Rightarrow> bytes \<Rightarrow> proto list \<Rightarrow> lexstate \<Rightarrow> bool" where
  "ready strip nm l0 K bs S ls \<longleftrightarrow> feed K bs ls \<and> ls_protos ls = S \<and> ls_lastline ls = l0 \<and>
     L_top (ls_L ls) = l0 + length S \<and> stack_ok (ls_L ls) \<and> L_stacksize (ls_L ls) \<le> LJ_STACK_MAXEX \<and>
     ls_level ls AND BCDUMP_F_BE = 0 \<and> (ls_level ls AND BCDUMP_F_STRIP = 0 \<longleftrightarrow> \<not> strip) \<and> ls_chunkname ls = nm"

section \<open>Rounds\<close>

fun rounds :: "bool lreader \<Rightarrow> nat \<Rightarrow> lexstate \<Rightarrow> lexstate res" where
  "rounds round 0 ls = Inl Undef"
| "rounds round (Suc f) ls = rbind (round ls) (\<lambda>(more, ls). if more then rounds round f ls else Inr ls)"

text \<open>\<open>runs round n ls ls'\<close>: \<open>n\<close> rounds of the loop take \<open>ls\<close> to \<open>ls'\<close>.\<close>

definition runs :: "bool lreader \<Rightarrow> nat \<Rightarrow> lexstate \<Rightarrow> lexstate \<Rightarrow> bool" where
  "runs round n ls ls' \<longleftrightarrow> (\<forall>f. rounds round (n + f) ls = rounds round f ls')"

lemma runs_0: "runs round 0 ls ls"
  by (simp add: runs_def)

lemma runs_trans: "runs round m ls ls' \<Longrightarrow> runs round n ls' ls'' \<Longrightarrow> runs round (m + n) ls ls''"
  by (simp add: runs_def add.assoc)

lemma runs_one: "round ls = Inr (True, ls') \<Longrightarrow> runs round 1 ls ls'"
  by (simp add: runs_def)

text \<open>The interface: a round reads one prototype, and a zero byte ends the loop.\<close>

locale round_reader =
  fixes round :: "bool lreader" and part :: "pinfo \<Rightarrow> kgc list \<Rightarrow> bytes"
    and ok :: "pinfo \<Rightarrow> kgc list \<Rightarrow> bool" and rel :: "proto \<Rightarrow> proto \<Rightarrow> bool"
    and strip :: bool and nm :: gcstr
  assumes round_part:
    "ready strip nm l0 K (part i ks @ bs) (cs @ S) ls \<Longrightarrow> ok i ks \<Longrightarrow> list_all2 rel (kgc_children ks) cs \<Longrightarrow>
     l0 + length S + LJ_STACK_EXTRA + 2 < LJ_STACK_MAX \<Longrightarrow>
     \<exists>pt ls'. round ls = Inr (True, ls') \<and> ready strip nm l0 K bs (pt # S) ls' \<and> rel (Proto i ks) pt"
    and round_end: "ready strip nm l0 K [0] S ls \<Longrightarrow> \<exists>ls'. round ls = Inr (False, ls') \<and> ready strip nm l0 K [] S ls'"
begin

lemma protos_read:
  "ready strip nm l0 K (concat (parts part pt) @ bs) S ls \<Longrightarrow> all_protos ok pt \<Longrightarrow>
   l0 + length S + proto_count pt + LJ_STACK_EXTRA + 1 < LJ_STACK_MAX \<Longrightarrow>
   \<exists>n pt' ls'. runs round n ls ls' \<and> ready strip nm l0 K bs (pt' # S) ls' \<and> rel pt pt'"
  "ready strip nm l0 K (concat (child_parts part ks) @ bs) S ls \<Longrightarrow> all_children ok ks \<Longrightarrow>
   l0 + length S + children_count ks + LJ_STACK_EXTRA + 1 < LJ_STACK_MAX \<Longrightarrow>
   \<exists>n cs ls'. runs round n ls ls' \<and> ready strip nm l0 K bs (cs @ S) ls' \<and> length cs \<le> children_count ks \<and>
     list_all2 rel (kgc_children ks) cs"
proof (induction pt and ks arbitrary: bs S ls and bs S ls rule: proto_count_children_count.induct)
  case (1 i ks)
  obtain m cs ls1 where ls1: "runs round m ls ls1" "ready strip nm l0 K (part i ks @ bs) (cs @ S) ls1"
    "length cs \<le> children_count ks" "list_all2 rel (kgc_children ks) cs"
  proof (cases "p_flags i AND PROTO_CHILD = 0")
    case True
    then have "kgc_children ks = []" using 1(3) by auto
    then show ?thesis using that [of 0 ls "[]"] 1(2) True runs_0 by simp
  next
    case False
    then show ?thesis using 1(1) [of "part i ks @ bs" S ls] 1(2-4) that by auto
  qed
  have "l0 + length S + LJ_STACK_EXTRA + 2 < LJ_STACK_MAX" using 1(4) by simp
  from round_part [OF ls1(2) _ ls1(4) this] 1(3)
  obtain pt ls' where "round ls1 = Inr (True, ls')" "ready strip nm l0 K bs (pt # S) ls'" "rel (Proto i ks) pt" by auto
  then show ?case using runs_trans [OF ls1(1) runs_one] by blast
next
  case 2
  then show ?case using runs_0 by fastforce
next
  case (3 k ks)
  let ?kb = "concat (case k of KChild pt \<Rightarrow> parts part pt | _ \<Rightarrow> [])"
  obtain m cs ls1 where ls1: "runs round m ls ls1" "ready strip nm l0 K (?kb @ bs) (cs @ S) ls1"
    "length cs \<le> children_count ks" "list_all2 rel (kgc_children ks) cs"
    using 3(2) [of "?kb @ bs" S ls] 3(3-5) by auto
  show ?case
  proof (cases k)
    case (KChild pt)
    have "l0 + length (cs @ S) + proto_count pt + LJ_STACK_EXTRA + 1 < LJ_STACK_MAX" using 3(5) ls1(3) KChild by simp
    then obtain n pt' ls' where "runs round n ls1 ls'" "ready strip nm l0 K bs (pt' # cs @ S) ls'" "rel pt pt'"
      using 3(1) [OF KChild, of bs "cs @ S" ls1] ls1(2) 3(4) KChild by auto
    moreover have "1 \<le> proto_count pt" by (cases pt) simp
    ultimately have "runs round (m + n) ls ls'" "ready strip nm l0 K bs ((pt' # cs) @ S) ls'"
      "length (pt' # cs) \<le> children_count (k # ks)" "list_all2 rel (kgc_children (k # ks)) (pt' # cs)"
      using runs_trans [OF ls1(1)] ls1(3,4) KChild 3(5) by auto
    then show ?thesis by blast
  qed (use ls1 in auto)
qed

text \<open>The whole loop, with fuel for any number of rounds.\<close>

lemma loop_read:
  assumes start: "ready strip nm l0 K (concat (parts part pt) @ [0]) [] ls" and pt: "all_protos ok pt"
    and room: "l0 + proto_count pt + LJ_STACK_EXTRA + 1 < LJ_STACK_MAX"
    and fuel: "\<And>n. rounds round f ls = rounds round (n + f) ls" and f: "0 < f"
  shows "\<exists>pt' ls'. rounds round f ls = Inr ls' \<and> ready strip nm l0 K [] [pt'] ls' \<and> rel pt pt'"
proof -
  have "l0 + length ([] :: proto list) + proto_count pt + LJ_STACK_EXTRA + 1 < LJ_STACK_MAX" using room by simp
  from protos_read(1) [OF start pt this] obtain n pt' ls2 where
    ls2: "runs round n ls ls2" "ready strip nm l0 K [0] [pt'] ls2" "rel pt pt'" by blast
  obtain ls3 where ls3: "round ls2 = Inr (False, ls3)" "ready strip nm l0 K [] [pt'] ls3" using round_end [OF ls2(2)] by blast
  have "rounds round f ls = rounds round f ls2" using ls2(1) fuel [of n] unfolding runs_def by simp
  also have "\<dots> = Inr ls3" using ls3(1) f by (cases f) simp_all
  finally show ?thesis using ls3(2) ls2(3) by blast
qed

end

lemma push_ok:
  assumes "stack_ok L" "L_stacksize L \<le> LJ_STACK_MAXEX" "L_top L + LJ_STACK_EXTRA + 2 < LJ_STACK_MAX"
  shows "\<exists>L'. incr_top L = (None, L') \<and> stack_ok L' \<and> L_stacksize L' \<le> LJ_STACK_MAXEX \<and> L_top L' = L_top L + 1"
  using assms
  by (auto simp: incr_top_def lj_state_growstack1_def lj_state_growstack_def growstack_size_def
      resizestack_def Let_def stack_defs)

lemma wuleb_first:
  assumes "v \<noteq> 0"
  shows "\<exists>p ps. lj_strfmt_wuleb128 v = p # ps \<and> p \<noteq> 0"
proof (cases "0x80 \<le> v")
  case True
  have "uleb_byte v \<noteq> 0" using uleb_byte_high [of v] by (auto simp: uleb_byte_def word_le_nat_alt)
  then show ?thesis by (simp add: wuleb_more [OF True])
next
  case False
  have "ucast v \<noteq> (0 :: u8)" using uleb_single [OF False] assms by auto
  then show ?thesis by (simp add: wuleb_last [OF False])
qed

lemma feed_first:
  assumes "feed K (b # bs) ls" "b \<noteq> 0"
  shows "\<not> (ls_buf ls \<noteq> [] \<and> ls_buf ls ! 0 = 0)"
  using assms by (cases "ls_buf ls") (auto simp: feed_def feeds_def)

section \<open>One round\<close>

text \<open>\<open>at_end\<close> is what has to hold behind a length of zero that ends the loop.\<close>

definition round_with ::
  "(nat \<Rightarrow> unit lreader) \<Rightarrow> (nat \<Rightarrow> unit lreader) \<Rightarrow> proto lreader \<Rightarrow> fault \<Rightarrow> (bytes \<Rightarrow> bool) \<Rightarrow> bool lreader" where
  "round_with want need rd bad at_end ls =
     (if ls_buf ls \<noteq> [] \<and> ls_buf ls ! 0 = 0
      then sbind (on_buf get1) (\<lambda>_. sret False) ls
      else sbind (want 5) (\<lambda>_.
           sbind (on_buf lj_buf_ruleb128) (\<lambda>len.
           if len = 0 then (\<lambda>ls. if at_end (ls_buf ls) then Inr (False, ls) else Inl bad)
           else sbind (need (unat len)) (\<lambda>_ ls1.
                sbind rd (\<lambda>pt ls2.
                if length (ls_buf ls2) + unat len \<noteq> length (ls_buf ls1) then Inl bad
                else sbind (push_proto pt) (\<lambda>_. sret True) ls2) ls1))) ls)"

text \<open>The interface of a window: \<open>want\<close> and \<open>need\<close> refill it without losing input.\<close>

locale window =
  fixes want need :: "nat \<Rightarrow> unit lreader"
  assumes want: "feed K bs ls \<Longrightarrow> len \<le> K \<Longrightarrow> ls_c ls < 0 \<longrightarrow> len \<le> length bs \<Longrightarrow>
      \<exists>ls'. want len ls = Inr ((), ls') \<and> feed K bs ls' \<and> same ls ls' \<and> min len (length bs) \<le> length (ls_buf ls')"
    and need: "feed K bs ls \<Longrightarrow> len \<le> K \<Longrightarrow> len \<le> length bs \<Longrightarrow>
      \<exists>ls'. need len ls = Inr ((), ls') \<and> feed K bs ls' \<and> same ls ls' \<and> len \<le> length (ls_buf ls')"

text \<open>The interface of a reader of one prototype from the window.\<close>

locale part_reader = window want need for want need +
  fixes rd :: "proto lreader" and body :: "pinfo \<Rightarrow> kgc list \<Rightarrow> bytes" and ok :: "pinfo \<Rightarrow> kgc list \<Rightarrow> bool"
    and rel :: "proto \<Rightarrow> proto \<Rightarrow> bool" and strip :: bool and nm :: gcstr and bad :: fault
    and at_end :: "bytes \<Rightarrow> bool"
  assumes at_end: "at_end []"
    and long: "ok i ks \<Longrightarrow> 7 \<le> length (body i ks)"
    and read: "ok i ks \<Longrightarrow> list_all2 rel (kgc_children ks) cs \<Longrightarrow> ls_buf ls = body i ks @ w \<Longrightarrow>
      ls_protos ls = cs @ S \<Longrightarrow> ls_lastline ls + length cs \<le> L_top (ls_L ls) \<Longrightarrow>
      ls_level ls AND BCDUMP_F_BE = 0 \<Longrightarrow> ls_level ls AND BCDUMP_F_STRIP = 0 \<longleftrightarrow> \<not> strip \<Longrightarrow> ls_chunkname ls = nm \<Longrightarrow>
      \<exists>pt. rd ls = Inr (pt, popped (adv ls w) S (length cs)) \<and> rel (Proto i ks) pt"
begin

lemma round_read:
  assumes ready: "ready strip nm l0 K (sized (body i ks) @ bs) (cs @ S) ls"
    and ok: "ok i ks" and cs: "list_all2 rel (kgc_children ks) cs"
    and top: "l0 + length S + LJ_STACK_EXTRA + 2 < LJ_STACK_MAX"
  shows "\<exists>pt ls'. round_with want need rd bad at_end ls = Inr (True, ls') \<and> ready strip nm l0 K bs (pt # S) ls' \<and>
    rel (Proto i ks) pt"
proof -
  let ?b = "body i ks"
  let ?v = "word_of_nat (length ?b) :: u32" let ?u = "lj_strfmt_wuleb128 ?v"
  have feed: "feed K (?u @ ?b @ bs) ls" using ready by (simp add: ready_def sized_def)
  then have K: "length (?u @ ?b @ bs) \<le> K" "K \<le> LJ_MAX_BUF" by (simp_all add: feed_def feeds_def)
  then have un: "unat ?v = length ?b" by (intro unat_32) (simp add: LJ_MAX_BUF_def)
  then have v0: "?v \<noteq> 0" using long [OF ok] by (metis unat_0 not_numeral_le_zero)
  obtain p ps where p: "?u = p # ps" "p \<noteq> 0" using wuleb_first [OF v0] by blast
  have go: "\<not> (ls_buf ls \<noteq> [] \<and> ls_buf ls ! 0 = 0)" using feed_first [of K p] feed p by simp
  have five: "5 \<le> length (?u @ ?b @ bs)" "5 \<le> K" using long [OF ok] K by simp_all
  obtain ls1 where ls1: "want 5 ls = Inr ((), ls1)" "feed K (?u @ ?b @ bs) ls1" "same ls ls1" "5 \<le> length (ls_buf ls1)"
    using want [OF feed five(2)] five(1) by auto
  obtain w1 where w1: "ls_buf ls1 = ?u @ w1" "feed K (?b @ bs) (adv ls1 w1)"
    using feed_split [OF ls1(2) order_trans [OF length_wuleb128 ls1(4)]] by blast
  have "length ?b \<le> K" using K by simp
  from need [OF w1(2) this] obtain ls2 where ls2: "need (length ?b) (adv ls1 w1) = Inr ((), ls2)"
    "feed K (?b @ bs) ls2" "same (adv ls1 w1) ls2" "length ?b \<le> length (ls_buf ls2)" by auto
  obtain w2 where w2: "ls_buf ls2 = ?b @ w2" "feed K bs (adv ls2 w2)" using feed_split [OF ls2(2,4)] by blast
  have same: "same ls ls2" using same_trans [OF ls1(3) same_trans [OF same_adv ls2(3)]] .
  have at2: "ls_protos ls2 = cs @ S" "ls_lastline ls2 + length cs \<le> L_top (ls_L ls2)" "ls_level ls2 AND BCDUMP_F_BE = 0"
    "ls_level ls2 AND BCDUMP_F_STRIP = 0 \<longleftrightarrow> \<not> strip" "ls_chunkname ls2 = nm"
    using ready same by (auto simp: ready_def same_def)
  obtain pt where pt: "rd ls2 = Inr (pt, popped (adv ls2 w2) S (length cs))"
    "rel (Proto i ks) pt"
    using read [OF ok cs w2(1) at2] by blast
  let ?ls3 = "popped (adv ls2 w2) S (length cs)"
  have L3: "stack_ok (ls_L ?ls3)" "L_stacksize (ls_L ?ls3) \<le> LJ_STACK_MAXEX" "L_top (ls_L ?ls3) = l0 + length S"
    using ready same by (auto simp: ready_def same_def popped_def stack_ok_def)
  obtain L' where L': "incr_top (ls_L ?ls3) = (None, L')" "stack_ok L'" "L_stacksize L' \<le> LJ_STACK_MAXEX"
    "L_top L' = l0 + length S + 1"
    using push_ok [OF L3(1,2)] L3(3) top by auto
  let ?ls4 = "?ls3\<lparr>ls_protos := pt # S, ls_L := L'\<rparr>"
  have "round_with want need rd bad at_end ls = Inr (True, ?ls4)"
  proof -
    have "on_buf lj_buf_ruleb128 ls1 = Inr (?v, adv ls1 w1)"
      using w1(1) by (simp add: on_buf_def adv_def uleb.dec_enc)
    moreover have "push_proto pt ?ls3 = Inr ((), ?ls4)" using L'(1) by (simp add: push_proto_def)
    moreover have "length (ls_buf ?ls3) + length ?b = length (ls_buf ls2)" using w2(1) by simp
    ultimately show ?thesis using ls1(1) ls2(1) pt(1) v0
      unfolding round_with_def if_not_P [OF go] by (simp add: sbind_def un)
  qed
  moreover have "ready strip nm l0 K bs (pt # S) ?ls4"
    using w2(2) L' ready same by (auto simp: ready_def same_def feed_def feeds_def popped_def)
  ultimately show ?thesis using pt(2) by blast
qed

lemma round_stop:
  assumes "ready strip nm l0 K [0] S ls"
  shows "\<exists>ls'. round_with want need rd bad at_end ls = Inr (False, ls') \<and> ready strip nm l0 K [] S ls'"
proof -
  have feed: "feed K [0] ls" using assms by (simp add: ready_def)
  have K: "5 \<le> K" using feed by (simp add: feed_def feeds_def)
  have step: "ready strip nm l0 K [] S (adv ls1 w)" if "feed K [] (adv ls1 w)" "same ls ls1" for ls1 w
    using that assms by (auto simp: ready_def same_def adv_def)
  show ?thesis
  proof (cases "ls_buf ls = []")
    case True
    then have "\<not> ls_c ls < 0" using feed by (auto simp: feed_def feeds_def)
    then obtain ls1 where ls1: "want 5 ls = Inr ((), ls1)" "feed K [0] ls1" "same ls ls1" "1 \<le> length (ls_buf ls1)"
      using want [OF feed K] by auto
    obtain w where w: "ls_buf ls1 = [0] @ w" "feed K [] (adv ls1 w)"
      using feed_split [of K "[0]" "[]" ls1] ls1(2,4) by auto
    have "on_buf lj_buf_ruleb128 ls1 = Inr (0, adv ls1 w)" using w(1) by (simp add: on_buf_def adv_def)
    moreover have "at_end w" using w(2) at_end by (simp add: feed_def feeds_def)
    ultimately show ?thesis using True ls1(1) step [OF w(2) ls1(3)] by (simp add: round_with_def sbind_def)
  next
    case False
    then obtain w where w: "ls_buf ls = [0] @ w" "feed K [] (adv ls w)"
      using feed_split [of K "[0]" "[]" ls] feed by (cases "ls_buf ls") auto
    have "on_buf get1 ls = Inr (0, adv ls w)" using w(1) by (simp add: on_buf_def adv_def)
    then show ?thesis using w(1) step [OF w(2)] by (simp add: round_with_def sbind_def)
  qed
qed

end

sublocale part_reader \<subseteq> round_reader "round_with want need rd bad at_end" "\<lambda>i ks. sized (body i ks)" ok rel strip nm
  using round_read round_stop by unfold_locales auto

end
