(* ===== verification/DumpTrip.thy ===== *)
theory DumpTrip
  imports DumpLoop
begin

text \<open>
  Reading a whole dump back, in whatever chunks it arrives.
\<close>

section \<open>What can be dumped\<close>

definition part_dumpable :: "bool \<Rightarrow> pinfo \<Rightarrow> kgc list \<Rightarrow> bool" where
  "part_dumpable strip i ks \<longleftrightarrow> info_dumpable strip i ks \<and> list_all kgc_dumpable ks"

abbreviation proto_dumpable :: "bool \<Rightarrow> proto \<Rightarrow> bool" where
  "proto_dumpable strip \<equiv> all_protos (part_dumpable strip)"

lemma proto_chunks_parts:
  "proto_chunks strip startins pt = parts (\<lambda>i ks. sized (body_bytes strip startins i ks)) pt"
  "child_chunks strip startins ks = child_parts (\<lambda>i ks. sized (body_bytes strip startins i ks)) ks"
proof (induction pt and ks rule: proto_count_children_count.induct)
  case (3 k ks)
  then show ?case by (cases k) simp_all
qed simp_all

definition dump_round :: "bool lreader" where
  "dump_round = round_with bcread_want bcread_need lj_bcread_proto (Throw LJ_ERR_BCBAD) (\<lambda>_. True)"

lemma bcread_round_with: "bcread_round = dump_round"
proof -
  have stop: "(\<lambda>ls. Inr (False, ls)) = (sret False :: bool lreader)" by (simp add: fun_eq_iff)
  show ?thesis
    unfolding fun_eq_iff dump_round_def bcread_round_def round_with_def bcread_byte_def bcread_uleb128_def bcread_error_def if_True stop
    by simp
qed

lemma bcread_loop_rounds: "bcread_loop f ls = rounds dump_round f ls"
  unfolding bcread_round_with [symmetric]
proof (induction f arbitrary: ls)
  case (Suc f)
  then show ?case by simp (rule rbind_cong, auto)
qed simp

lemma length_body: "7 \<le> length (body_bytes strip startins i ks)"
proof -
  have "1 \<le> length (lj_strfmt_wuleb128 v)" for v using wuleb128_not_Nil [of v] by (cases "lj_strfmt_wuleb128 v") simp_all
  from this [of "word_of_nat (length ks)"] this [of "word_of_nat (length (p_kn i))"] this [of "word_of_nat (length (p_bc i) - 1)"]
  show ?thesis by (simp add: body_bytes_def proto_header_def)
qed

section \<open>The loop\<close>

interpretation bcread_window: window bcread_want bcread_need
  using window_enough by unfold_locales blast+

interpretation bcread_parts: part_reader bcread_want bcread_need lj_bcread_proto "body_bytes strip startins"
    "part_dumpable strip" "proto_reread strip startins nm" strip nm "Throw LJ_ERR_BCBAD" "\<lambda>_. True"
  for strip startins nm
  using length_body proto_read by unfold_locales (auto simp: part_dumpable_def)

section \<open>The header\<close>

lemma dump_flags:
  fixes strip ffi :: bool
  defines "fl \<equiv> (if strip then BCDUMP_F_STRIP else 0) + (if ffi then BCDUMP_F_FFI else 0)"
  shows "(ucast fl :: u8) < 0x80" "ucast (ucast fl :: u8) = fl" "fl AND NOT BCDUMP_F_KNOWN = 0" "fl AND BCDUMP_F_FR2 = 0"
    "fl AND BCDUMP_F_BE = 0" "fl AND BCDUMP_F_STRIP = 0 \<longleftrightarrow> \<not> strip"
  by (cases strip; cases ffi; simp add: fl_def BCDUMP_F_STRIP_def BCDUMP_F_FFI_def BCDUMP_F_FR2_def BCDUMP_F_BE_def
      BCDUMP_F_KNOWN_def word_less_nat_alt)+

text \<open>The name of the chunk: the one in the dump, or the argument of the load.\<close>

definition chunk_name :: "bool \<Rightarrow> pinfo \<Rightarrow> lexstate \<Rightarrow> gcstr" where
  "chunk_name strip i ls = (if strip then the_str (ls_chunkarg ls) else p_chunkname i)"

definition name_dumpable :: "bool \<Rightarrow> pinfo \<Rightarrow> bool" where
  "name_dumpable strip i \<longleftrightarrow> strip \<or>
     p_chunkname i = the_str (s_data (p_chunkname i)) \<and> length (s_data (p_chunkname i)) < LJ_MAX_STR"

lemma header_read:
  assumes feed: "feed K (tl (dump_header strip i) @ bs) ls" and c: "0 \<le> ls_c ls" and name: "name_dumpable strip i"
  shows "\<exists>ls'. bcread_header ls = Inr (True, ls') \<and> feed K bs ls' \<and> ls_protos ls' = ls_protos ls \<and> ls_L ls' = ls_L ls \<and>
    ls_lastline ls' = ls_lastline ls \<and> ls_level ls' AND BCDUMP_F_BE = 0 \<and>
    (ls_level ls' AND BCDUMP_F_STRIP = 0 \<longleftrightarrow> \<not> strip) \<and> ls_chunkname ls' = chunk_name strip i ls"
proof -
  define fl where "fl = (if strip then BCDUMP_F_STRIP else 0) + (if p_flags i AND PROTO_FFI \<noteq> 0 then BCDUMP_F_FFI else 0)"
  note fl = dump_flags [where strip = strip and ffi = "p_flags i AND PROTO_FFI \<noteq> 0", folded fl_def]
  let ?n = "word_of_nat (length (s_data (p_chunkname i))) :: u32" and ?s = "s_data (p_chunkname i)"
  define nb where "nb = (if strip then [] else lj_strfmt_wuleb128 ?n @ ?s)"
  have hd: "tl (dump_header strip i) @ bs = [BCDUMP_HEAD2, BCDUMP_HEAD3, BCDUMP_VERSION, ucast fl] @ (nb @ bs)"
    by (simp add: dump_header_def fl_def nb_def)
  have K: "13 \<le> K" "length (tl (dump_header strip i) @ bs) \<le> K" "K \<le> LJ_MAX_BUF" using feed by (simp_all add: feed_def feeds_def)
  obtain ls1 where ls1: "bcread_want 13 ls = Inr ((), ls1)" "feed K (tl (dump_header strip i) @ bs) ls1" "same ls ls1"
    "min 13 (length (tl (dump_header strip i) @ bs)) \<le> length (ls_buf ls1)"
    using window_enough(1) [OF feed K(1)] c by auto
  have "length [BCDUMP_HEAD2, BCDUMP_HEAD3, BCDUMP_VERSION, ucast fl] \<le> length (ls_buf ls1)" using ls1(4) hd by simp
  then obtain w1 where w1: "ls_buf ls1 = [BCDUMP_HEAD2, BCDUMP_HEAD3, BCDUMP_VERSION, ucast fl] @ w1" "feed K (nb @ bs) (adv ls1 w1)"
    using feed_split [OF ls1(2) [unfolded hd]] by blast
  have fr: "lj_buf_ruleb128 (ucast fl # w1) = Inr (fl, w1)" using small_uleb [OF fl(1), of w1] by (simp only: fl(2))
  let ?ls2 = "(adv ls1 w1)\<lparr>ls_level := fl\<rparr>"
  have f2: "feed K (nb @ bs) ?ls2" using w1(2) by (simp add: feed_def feeds_def)
  have start: "bcread_header ls = (if strip
      then Inr (True, ?ls2\<lparr>ls_chunkname := the_str (ls_chunkarg ?ls2)\<rparr>)
      else sbind (on_buf bcread_uleb128) (\<lambda>len.
           sbind (bcread_need (unat len)) (\<lambda>_.
           sbind (on_buf (bcread_str (unat len))) (\<lambda>s.
           (\<lambda>ls. Inr (True, ls\<lparr>ls_chunkname := s\<rparr>))))) ?ls2)"
  proof -
    have l: "length (ls_buf ls1) = 4 + length w1" using w1(1) by simp
    have h: "ls1 = adv ls1 (BCDUMP_HEAD2 # BCDUMP_HEAD3 # BCDUMP_VERSION # ucast fl # w1)"
      using adv_same [of ls1] w1(1) by simp
    have ful: "sbind (on_buf bcread_uleb128) f (adv ls1 (ucast fl # w1)) = f fl (adv ls1 w1)" for f :: "u32 \<Rightarrow> bool lreader"
      by (rule sbind_adv) (simp_all add: l bcread_uleb128_def fr del: lj_buf_ruleb128.simps)
    have "bcread_header ls = sbind (on_buf bcread_byte) (\<lambda>b1. if b1 \<noteq> BCDUMP_HEAD2 then sret False else
        sbind (on_buf bcread_byte) (\<lambda>b2. if b2 \<noteq> BCDUMP_HEAD3 then sret False else
        sbind (on_buf bcread_byte) (\<lambda>b3. if b3 \<noteq> BCDUMP_VERSION then sret False else
        sbind (on_buf bcread_uleb128) (\<lambda>flags.
        sbind (\<lambda>ls. Inr ((), ls\<lparr>ls_level := flags\<rparr>)) (\<lambda>_.
        if flags AND NOT BCDUMP_F_KNOWN \<noteq> 0 then sret False
        else if flags AND BCDUMP_F_FR2 \<noteq> 0 then sret False
        else if flags AND BCDUMP_F_STRIP \<noteq> 0
        then (\<lambda>ls. Inr (True, ls\<lparr>ls_chunkname := the_str (ls_chunkarg ls)\<rparr>))
        else sbind (on_buf bcread_uleb128) (\<lambda>len.
             sbind (bcread_need (unat len)) (\<lambda>_.
             sbind (on_buf (bcread_str (unat len))) (\<lambda>s.
             (\<lambda>ls. Inr (True, ls\<lparr>ls_chunkname := s\<rparr>))))))))))
        (adv ls1 (BCDUMP_HEAD2 # BCDUMP_HEAD3 # BCDUMP_VERSION # ucast fl # w1))"
      using ls1(1) h by (simp add: bcread_header_def sbind_def)
    then show ?thesis
      using fl(3-6) by (cases strip) (simp_all add: sbind_adv_byte l ful sbind_def [of "\<lambda>ls. Inr ((), ls\<lparr>ls_level := _\<rparr>)"])
  qed
  show ?thesis
  proof (cases strip)
    case True
    then have "feed K bs (?ls2\<lparr>ls_chunkname := the_str (ls_chunkarg ?ls2)\<rparr>)"
      using f2 by (simp add: nb_def feed_def feeds_def)
    moreover have "same ls ls1" by (rule ls1(3))
    ultimately show ?thesis using True start fl(5,6) by (auto simp: same_def chunk_name_def adv_def)
  next
    case False
    have nm: "p_chunkname i = the_str ?s" "length ?s < LJ_MAX_STR" using name False by (simp_all add: name_dumpable_def)
    then have un: "unat ?n = length ?s" by (intro unat_32) (simp add: LJ_MAX_STR_def)
    have f2': "feed K (lj_strfmt_wuleb128 ?n @ ?s @ bs) ?ls2" using f2 False by (simp add: nb_def)
    have "min 9 (length (lj_strfmt_wuleb128 ?n @ ?s @ bs)) \<le> length (ls_buf ?ls2)"
      using ls1(4) w1(1) unfolding hd using False by (simp add: nb_def)
    then have "length (lj_strfmt_wuleb128 ?n) \<le> length (ls_buf ?ls2)" using length_wuleb128 [of ?n] by simp
    then obtain w2 where w2: "ls_buf ?ls2 = lj_strfmt_wuleb128 ?n @ w2" "feed K (?s @ bs) (adv ?ls2 w2)"
      using feed_split [OF f2'] by blast
    have lk: "length ?s \<le> K" "length ?s \<le> length (?s @ bs)" using w2(2) by (simp_all add: feed_def feeds_def)
    from window_enough(2) [OF w2(2) lk(1) _ lk(2)] obtain ls3 where ls3: "bcread_need (length ?s) (adv ?ls2 w2) = Inr ((), ls3)"
      "feed K (?s @ bs) ls3" "same (adv ?ls2 w2) ls3" "length ?s \<le> length (ls_buf ls3)" using lk(2) by blast
    obtain w3 where w3: "ls_buf ls3 = ?s @ w3" "feed K bs (adv ls3 w3)" using feed_split [OF ls3(2,4)] by blast
    have "on_buf bcread_uleb128 ?ls2 = Inr (?n, adv ?ls2 w2)"
      using w2(1) by (simp add: on_buf_def adv_def bcread_uleb128_def uleb.dec_enc)
    moreover have "on_buf (bcread_str (length ?s)) ls3 = Inr (p_chunkname i, adv ls3 w3)"
      using w3(1) nm by (simp add: on_buf_def adv_def bcread_str_def bcread_mem_def sbind_def)
    ultimately have "bcread_header ls = Inr (True, (adv ls3 w3)\<lparr>ls_chunkname := p_chunkname i\<rparr>)"
      using start False ls3(1) by (simp add: sbind_def un)
    moreover have "feed K bs ((adv ls3 w3)\<lparr>ls_chunkname := p_chunkname i\<rparr>)" using w3(2) by (simp add: feed_def feeds_def)
    ultimately show ?thesis using False fl(5,6) ls1(3) ls3(3) by (auto simp: same_def chunk_name_def)
  qed
qed

end
