(* ===== verification/DumpProps.thy ===== *)
theory DumpProps
  imports DumpTrip
begin

text \<open>
  The properties of the dump format: what the writer passes on, and that the reader gives it
  back.
\<close>

section \<open>The whole dump\<close>

text \<open>
  \<open>delivers bs ls\<close>: window and callback of \<open>ls\<close> give the bytes \<open>bs\<close>, in chunks that are not empty
  and lie far enough from the end of the address space.
\<close>

definition delivers :: "bytes \<Rightarrow> lexstate \<Rightarrow> bool" where
  "delivers bs ls \<longleftrightarrow> ls_buf ls @ concat (map fst (ls_chunks ls)) = bs \<and>
     (\<forall>c \<in> set (ls_chunks ls). fst c \<noteq> [] \<and> length bs + 13 + length (fst c) < snd c) \<and>
     length bs + 13 + length (ls_buf ls) < ls_room ls \<and> 2 * (length bs + 13) < ls_sbroom ls \<and>
     length bs + 13 \<le> LJ_MAX_BUF \<and> 0 \<le> ls_c ls"

text \<open>A lexer state at the start of a load, with room on the stack for \<open>n\<close> prototypes.\<close>

definition fresh_reader :: "nat \<Rightarrow> lexstate \<Rightarrow> bool" where
  "fresh_reader n ls \<longleftrightarrow> ls_protos ls = [] \<and> stack_ok (ls_L ls) \<and> L_stacksize (ls_L ls) \<le> LJ_STACK_MAXEX \<and>
     L_top (ls_L ls) + n + LJ_STACK_EXTRA + 1 < LJ_STACK_MAX"

lemma lj_bcread_dump:
  assumes pt: "proto_dumpable strip pt" and name: "name_dumpable strip (p_info pt)"
    and ls: "fresh_reader (proto_count pt) ls" and bs: "delivers (tl (concat (dump_chunks strip startins pt))) ls"
  shows "\<exists>pt' ls'. lj_bcread ls = Inr (pt', ls') \<and> proto_reread strip startins (chunk_name strip (p_info pt) ls) pt pt'"
proof -
  let ?i = "p_info pt" and ?bs = "tl (concat (dump_chunks strip startins pt))"
  let ?nm = "chunk_name strip ?i ls" and ?l0 = "L_top (ls_L ls)"
  define K where "K = length ?bs + 13"
  let ?ls0 = "ls\<lparr>ls_lastline := ?l0, ls_sb := lj_buf_reset (ls_sb ls)\<rparr>"
  have split: "?bs = tl (dump_header strip ?i) @ concat (proto_chunks strip startins pt) @ [0]"
    by (simp add: dump_chunks_def dump_header_def)
  have "feed K ?bs ?ls0" using bs by (auto simp: K_def delivers_def feed_def feeds_def lj_buf_reset_def)
  then have f0: "feed K (tl (dump_header strip ?i) @ concat (proto_chunks strip startins pt) @ [0]) ?ls0" by (simp only: split)
  have "0 \<le> ls_c ?ls0" using bs by (simp add: delivers_def)
  from header_read [OF f0 this name] obtain ls1 where ls1: "bcread_header ?ls0 = Inr (True, ls1)" "feed K (concat (proto_chunks strip startins pt) @ [0]) ls1"
    "ls_protos ls1 = ls_protos ls" "ls_L ls1 = ls_L ls" "ls_lastline ls1 = ?l0" "ls_level ls1 AND BCDUMP_F_BE = 0"
    "ls_level ls1 AND BCDUMP_F_STRIP = 0 \<longleftrightarrow> \<not> strip" "ls_chunkname ls1 = ?nm"
    by (auto simp: chunk_name_def [of _ _ ls] chunk_name_def [of _ _ ?ls0])
  have r1: "ready strip ?nm ?l0 K (concat (proto_chunks strip startins pt) @ [0]) [] ls1"
    using ls1 ls by (simp add: ready_def fresh_reader_def)
  have fuel: "rounds dump_round (Suc (avail ls1)) ls1 = rounds dump_round (n + Suc (avail ls1)) ls1" for n
    unfolding bcread_loop_rounds [symmetric] by (rule bcread_loop_fuel) simp_all
  have room: "?l0 + proto_count pt + LJ_STACK_EXTRA + 1 < LJ_STACK_MAX" using ls by (simp add: fresh_reader_def)
  obtain pt' ls3 where loop: "bcread_loop (Suc (avail ls1)) ls1 = Inr ls3" and ls3: "ready strip ?nm ?l0 K [] [pt'] ls3"
    and rel: "proto_reread strip startins ?nm pt pt'"
    using bcread_parts.loop_read [OF r1 [unfolded proto_chunks_parts] pt room fuel [unfolded dump_round_def]]
    unfolding bcread_loop_rounds dump_round_def by blast
  have "ls_buf ls3 = []" "L_top (ls_L ls3) = ?l0 + 1" "ls_lastline ls3 = ?l0" "ls_protos ls3 = [pt']"
    using ls3 by (auto simp: ready_def feed_def feeds_def)
  then show ?thesis using ls1(1) loop rel by (auto simp: lj_bcread_def pop_child_def simp del: bcread_loop.simps)
qed

lemma lj_bcwrite_append:
  assumes "proto_writable pt" "10 + length (s_data (p_chunkname (p_info pt))) \<le> LJ_MAX_BUF"
  shows "lj_bcwrite startins (\<lambda>chunk out. (0, out @ chunk)) pt [] strip =
    Inr (0, BCDUMP_HEAD1 # tl (concat (dump_chunks strip startins pt)))"
proof -
  have "pass_all (\<lambda>chunk out. (0 :: int, out @ chunk)) cs (0, d) = (0, d @ concat cs)" for cs d
    by (induction cs arbitrary: d) (simp_all add: pass_def)
  then have "lj_bcwrite startins (\<lambda>chunk out. (0, out @ chunk)) pt [] strip = Inr (0, concat (dump_chunks strip startins pt))"
    using lj_bcwrite_eq [of pt startins "\<lambda>chunk out. (0, out @ chunk)" "[]" strip] assms by simp
  moreover have "concat (dump_chunks strip startins pt) = BCDUMP_HEAD1 # tl (concat (dump_chunks strip startins pt))"
    by (simp add: dump_chunks_def dump_header_def)
  ultimately show ?thesis by simp
qed

lemma length_sized_body:
  assumes "list_all kgc_writable ks"
  shows "length (sized (body_bytes strip startins i ks)) \<le> body_room i ks"
proof -
  have "length (concat (map kgc_bytes ks)) \<le> sum_list (map kgc_room ks)"
    by (rule appends_length [OF bcwrite_kgc_appends [OF assms]])
  moreover have kn: "length (concat (map knum_bytes kn)) \<le> 10 * length kn" for kn
    using length_knum_bytes by (induction kn) (auto intro: add_mono)
  note kn [of "p_kn i"]
  ultimately have "5 + length (body_bytes strip startins i ks) \<le> body_room i ks"
    using length_fixed [of strip startins i ks]
    by (cases strip; simp add: body_bytes_def fixed_bytes_def body_room_def; linarith)
  then show ?thesis using length_wuleb128 [of "word_of_nat (length (body_bytes strip startins i ks))"]
    by (simp add: sized_def del: of_nat_add)
qed

text \<open>
  C2: writing a prototype and reading the dump gives the prototype back, children, constants
  and debug information included, in whatever chunks the reader gets the bytes. Template tables
  come back as tables with the same lookups, the compiler's patches of the bytecode are
  undone, and a stripped dump loses the debug information and the name only.
\<close>

theorem dump_roundtrip:
  assumes "proto_writable pt" "proto_dumpable strip pt" "name_dumpable strip (p_info pt)"
    and "10 + length (s_data (p_chunkname (p_info pt))) \<le> LJ_MAX_BUF"
  shows "\<exists>bs. lj_bcwrite startins (\<lambda>chunk out. (0, out @ chunk)) pt [] strip = Inr (0, BCDUMP_HEAD1 # bs) \<and>
    (\<forall>ls. fresh_reader (proto_count pt) ls \<longrightarrow> delivers bs ls \<longrightarrow>
       (\<exists>pt' ls'. lj_bcread ls = Inr (pt', ls') \<and> proto_reread strip startins (chunk_name strip (p_info pt) ls) pt pt'))"
  using lj_bcwrite_append [OF assms(1,4), of startins strip] lj_bcread_dump [OF assms(2,3)] by blast

text \<open>An example: a function with a child, a string, a number and an instruction.\<close>

definition example_info :: pinfo where
  "example_info = \<lparr>p_flags = PROTO_CHILD OR PROTO_VARARG, p_numparams = 0, p_framesize = 2, p_bc = [0, 0x01020304], p_uv = [7],
     p_kn = [0x3ff8000000000000], p_trace = 0, p_firstline = 1, p_numline = 3, p_dbg = [1, 0x61, 0], p_varinfo = 3,
     p_chunkname = the_str [0x40, 0x61]\<rparr>"

definition example_proto :: proto where
  "example_proto = Proto example_info [KChild (Proto example_info []), KStr (the_str [0x68, 0x69]), KCdata CTID_INT64 [5]]"

lemma example_ok:
  "proto_writable example_proto" "proto_dumpable False example_proto" "name_dumpable False (p_info example_proto)"
  "10 + length (s_data (p_chunkname (p_info example_proto))) \<le> LJ_MAX_BUF"
proof -
  have f: "(PROTO_CHILD OR PROTO_VARARG) AND PROTO_CHILD \<noteq> 0" by (simp add: PROTO_CHILD_def PROTO_VARARG_def)
  have s: "sint (3 :: u32) = 3" by simp
  have m: "(0x3ff8000000000000 :: u64) \<noteq> mzero" by (simp add: mzero_def)
  have vi: "bcread_varinfo 1 [1, 0x61, 0] 1 = Inr 3" by (simp add: bcread_varinfo_def)
  have info: "info_dumpable False example_info ks" if "length ks \<le> 3" for ks
    using that m by (simp add: info_dumpable_def example_info_def proto_size_def sizeof_GCproto_def Let_def sizeli_def s vi [simplified])
  show "proto_dumpable False example_proto"
    using info f by (simp add: example_proto_def example_info_def [symmetric] CTID_INT64_def the_str_def LJ_MAX_STR_def)
      (simp add: example_info_def part_dumpable_def the_str_def LJ_MAX_STR_def CTID_INT64_def)
  show "proto_writable example_proto"
    by (simp add: example_proto_def example_info_def body_room_def fixed_room_def LJ_MAX_BUF_def the_str_def)
  show "name_dumpable False (p_info example_proto)" "10 + length (s_data (p_chunkname (p_info example_proto))) \<le> LJ_MAX_BUF"
    by (simp_all add: example_proto_def example_info_def name_dumpable_def the_str_def LJ_MAX_STR_def LJ_MAX_BUF_def)
qed

lemma example_length: "length (tl (concat (dump_chunks False startins example_proto))) \<le> 1000"
proof -
  let ?ks = "[KChild (Proto example_info []), KStr (the_str [0x68, 0x69]), KCdata CTID_INT64 [5]]"
  have "length (dump_header False example_info) \<le> 12"
    using length_dump_header [of False example_info] by (simp add: example_info_def the_str_def)
  moreover have "length (sized (body_bytes False startins example_info [])) \<le> 60"
    using length_sized_body [of "[]" False startins example_info] by (simp add: body_room_def fixed_room_def example_info_def)
  moreover have "length (sized (body_bytes False startins example_info ?ks)) \<le> 100"
    using length_sized_body [of ?ks False startins example_info]
    by (simp add: body_room_def fixed_room_def example_info_def the_str_def)
  ultimately show ?thesis by (simp add: dump_chunks_def example_proto_def)
qed

theorem dump_roundtrip_witness:
  "\<exists>bs pt' ls'. lj_bcwrite (\<lambda>_. 0) (\<lambda>chunk out. (0, out @ chunk)) example_proto [] False = Inr (0, BCDUMP_HEAD1 # bs) \<and>
     lj_bcread (lex_start (take 3 bs) [(drop 3 bs, 2 ^ 31)]) = Inr (pt', ls') \<and>
     proto_reread False (\<lambda>_. 0) (the_str [0x40, 0x61]) example_proto pt'"
proof -
  obtain bs where bs: "lj_bcwrite (\<lambda>_. 0) (\<lambda>chunk out. (0, out @ chunk)) example_proto [] False = Inr (0, BCDUMP_HEAD1 # bs)"
    and read: "\<forall>ls. fresh_reader (proto_count example_proto) ls \<longrightarrow> delivers bs ls \<longrightarrow>
      (\<exists>pt' ls'. lj_bcread ls = Inr (pt', ls') \<and>
         proto_reread False (\<lambda>_. 0) (chunk_name False (p_info example_proto) ls) example_proto pt')"
    using dump_roundtrip [OF example_ok, of "\<lambda>_. 0"] by blast
  have "length bs \<le> 1000"
    using bs lj_bcwrite_append [OF example_ok(1,4), of "\<lambda>_. 0" False] example_length [of "\<lambda>_. 0"] by simp
  moreover have "3 < length bs"
  proof -
    have "bs = tl (concat (dump_chunks False (\<lambda>_. 0) example_proto))"
      using bs lj_bcwrite_append [OF example_ok(1,4), of "\<lambda>_. 0" False] by simp
    moreover have "3 < length (tl (concat (dump_chunks False (\<lambda>_. 0) example_proto)))"
      by (simp add: dump_chunks_def dump_header_def)
    ultimately show ?thesis by (simp only:)
  qed
  ultimately have "delivers bs (lex_start (take 3 bs) [(drop 3 bs, 2 ^ 31)])"
    by (simp add: delivers_def lex_start_def LJ_MAX_BUF_def)
  moreover have "fresh_reader (proto_count example_proto) (lex_start (take 3 bs) [(drop 3 bs, 2 ^ 31)])"
    by (simp add: fresh_reader_def lex_start_def stack_init_ok example_proto_def)
      (simp add: stack_init_def stack_defs Let_def)
  moreover have "chunk_name False (p_info example_proto) ls = the_str [0x40, 0x61]" for ls
    by (simp add: chunk_name_def example_proto_def example_info_def)
  ultimately show ?thesis using bs read by metis
qed

section \<open>The writer\<close>

text \<open>
  C31: for every callback, \<^verbatim>\<open>lj_bcwrite\<close> passes it the header, the prototypes with every child
  before its parent and the footer, one chunk each, until it returns something else than zero;
  it returns what the callback returned last, and writes no byte outside its buffer.
\<close>

theorem lj_bcwrite_chunks:
  assumes "proto_writable pt" "10 + length (s_data (p_chunkname (p_info pt))) \<le> LJ_MAX_BUF"
  shows "lj_bcwrite startins w pt d strip = Inr (pass_all w (dump_chunks strip startins pt) (0, d))"
  by (rule lj_bcwrite_eq) (use assms in simp_all)

theorem lj_bcwrite_chunks_witness:
  "lj_bcwrite (\<lambda>_. 0) (\<lambda>chunk n. (if n < 1 then 0 else 7, n + 1)) example_proto (0 :: nat) True = Inr (7, 2)"
  using lj_bcwrite_chunks [OF example_ok(1,4), of "\<lambda>_. 0" "\<lambda>chunk n. (if n < 1 then 0 else 7, n + 1)" "0 :: nat" True]
  by (simp add: dump_chunks_def example_proto_def example_info_def pass_def PROTO_CHILD_def PROTO_VARARG_def)

section \<open>Constants\<close>

text \<open>
  Template tables. The writer appends the entries of a table, and the reader makes of
  them a table with the same lookups, whatever the order of the hash part.
\<close>

theorem template_table_roundtrip:
  assumes "ktab_ok t" "sbuf_ok sb" "sbuflen sb + ktab_need t \<le> LJ_MAX_BUF"
  shows "\<exists>sb' out. rbind (lj_buf_more sb 11) (bcwrite_ktab [] t) = Inr sb' \<and> sb_data sb' = sb_data sb @ out \<and>
    (\<forall>rest. \<exists>t'. bcread_ktab (out @ rest) = Inr (t', rest) \<and> tab_ok t' \<and> (\<forall>k. lj_tab_get t' k = lj_tab_get t k))"
proof -
  have t: "tab_ok t" using assms(1) by (simp add: ktab_ok_def)
  obtain sb' where "rbind (lj_buf_more sb 11) (bcwrite_ktab [] t) = Inr sb'" "sb_data sb' = sb_data sb @ ktab_bytes t"
    using appends_fits [OF bcwrite_ktab_appends [OF t, of "[]"] assms(2,3)] by auto
  moreover have "\<exists>t'. bcread_ktab (ktab_bytes t @ rest) = Inr (t', rest) \<and> tab_ok t' \<and> (\<forall>k. lj_tab_get t' k = lj_tab_get t k)" for rest
    using ktab_reread [OF assms(1), of rest] t by (auto simp: same_table_def lj_tab_get_map)
  ultimately show ?thesis by blast
qed

definition pair_tab :: GCtab where
  "pair_tab = \<lparr>t_nomm = 0xff, t_colo = 0, t_array = [VNil, VTrue], t_node = [blank_node], t_hmask = 0, t_freetop = 0\<rparr>"

lemma pair_tab_ok: "tab_ok pair_tab" "ktab_ok pair_tab" "ktab_need pair_tab \<le> 100"
proof -
  show t: "tab_ok pair_tab"
    by (rule tab_ok_blank(1)) (auto simp: hash_ok_def pair_tab_def LJ_MAX_ASIZE_def intro!: exI [of _ 0])
  then show "ktab_ok pair_tab" by (simp add: ktab_ok_def) (simp add: pair_tab_def blank_node_def)
  show "ktab_need pair_tab \<le> 100" by (simp add: pair_tab_def ktab_need_def blank_node_def eval_nat_numeral)
qed

theorem template_table_roundtrip_witness:
  "\<exists>sb' out. rbind (lj_buf_more lj_buf_init 11) (bcwrite_ktab [] pair_tab) = Inr sb' \<and> sb_data sb' = sb_data lj_buf_init @ out \<and>
    (\<exists>t'. bcread_ktab out = Inr (t', []) \<and> tab_ok t' \<and> (\<forall>k. lj_tab_get t' k = lj_tab_get pair_tab k))"
proof -
  have "sbuflen lj_buf_init + ktab_need pair_tab \<le> LJ_MAX_BUF"
    using pair_tab_ok(3) by (simp add: lj_buf_init_def LJ_MAX_BUF_def)
  from template_table_roundtrip [OF pair_tab_ok(2) sbuf_ok_init this] show ?thesis by (metis append_Nil2)
qed

text \<open>
  Number constants. Integers and other numbers, above \<^verbatim>\<open>0x80000000\<close> too, come back bit by
  bit, except that minus zero is written as the integer zero.
\<close>

theorem number_constants_roundtrip:
  "bcread_knum (length kn) (concat (map knum_bytes kn) @ rest) = Inr (map (\<lambda>x. if x = mzero then 0 else x) kn, rest)"
proof (induction kn)
  case (Cons x kn)
  have "bcread_knum_one (knum_bytes x @ bs) = Inr (if x = mzero then 0 else x, bs)" for bs
    using knum.dec_enc [of x bs] by (simp add: knum_bytes_def knum_int_enc knum_read_enc33)
  then show ?case using Cons by (simp add: bcread_knum_def)
qed (simp add: bcread_knum_def)

section \<open>The input\<close>

text \<open>
  A refill delivers what the callback has: after \<^verbatim>\<open>bcread_need(ls, len)\<close> the next \<open>len\<close>
  bytes of the input stand in the window, whatever the chunks they came in, and nothing of the
  input is lost.
\<close>

theorem refill_delivers:
  assumes "feed K bs ls" "len \<le> length bs"
  shows "\<exists>ls'. bcread_need len ls = Inr ((), ls') \<and> feed K bs ls' \<and> len \<le> length (ls_buf ls') \<and>
    take len (ls_buf ls') = take len bs"
proof -
  have "len \<le> K" using assms by (simp add: feed_def feeds_def)
  then obtain ls' where ls': "bcread_need len ls = Inr ((), ls')" "feed K bs ls'" "len \<le> length (ls_buf ls')"
    using window_enough(2) [OF assms(1), of len] assms(2) by blast
  have "bs = ls_buf ls' @ concat (map fst (ls_chunks ls'))" using ls'(2) by (simp add: feed_def feeds_def)
  then show ?thesis using ls' by auto
qed

theorem refill_delivers_witness:
  "\<exists>ls'. bcread_need 4 (lex_start [1, 2] [([3], 1000), ([4, 5], 1000)]) = Inr ((), ls') \<and> take 4 (ls_buf ls') = [1, 2, 3, 4]"
proof -
  have "feed 13 [1, 2, 3, 4, 5] (lex_start [1, 2] [([3], 1000), ([4, 5], 1000)])"
    by (simp add: feed_def feeds_def lex_start_def lj_buf_init_def LJ_MAX_BUF_def)
  from refill_delivers [OF this, of 4] show ?thesis by auto
qed

text \<open>
  C32: the check of \<^verbatim>\<open>bcread_need\<close> adds the length to a pointer. For every length up to the end of
  the address space it refills exactly when the window has fewer bytes. A length from the input
  that reaches past that end makes the sum wrap around: whatever the window has, no refill
  happens, no error is raised, and taking the bytes reads behind the window.
\<close>

theorem need_wraps_around:
  assumes "length (ls_buf ls) < ls_room ls" "ls_room ls \<le> 2 ^ 32" "len < 2 ^ 32"
  shows "bcread_need len ls =
      (if length (ls_buf ls) < len \<and> len < ls_room ls then rbind (bcread_fill len True ls) (\<lambda>ls. Inr ((), ls))
       else Inr ((), ls)) \<and>
    (ls_room ls \<le> len \<longrightarrow> sbind (bcread_need len) (\<lambda>_. on_buf (bcread_mem len)) ls = Inl Undef)"
proof -
  have "length (ls_buf ls) < 2 ^ 32" using assms(1,2) by (rule less_le_trans)
  note n = needs_iff [OF assms(1) this assms(3)]
  have "sbind (bcread_need len) (\<lambda>_. on_buf (bcread_mem len)) ls = Inl Undef" if "ls_room ls \<le> len"
    using n that assms(1) by (simp add: bcread_need_def sbind_def on_buf_def bcread_mem_def getn_def)
  then show ?thesis using n by (simp add: bcread_need_def)
qed

theorem need_wraps_around_witness:
  "bcread_need 2 (lex_start [1] [([2, 3], 9)]) = rbind (bcread_fill 2 True (lex_start [1] [([2, 3], 9)])) (\<lambda>ls. Inr ((), ls)) \<and>
   sbind (bcread_need (2 ^ 32 - 1)) (\<lambda>_. on_buf (bcread_mem (2 ^ 32 - 1))) (lex_start [1] [([2, 3], 9)]) = Inl Undef"
proof -
  have f: "length (ls_buf (lex_start [1] [([2, 3], 9)])) = 1" "ls_room (lex_start [1] [([2, 3], 9)]) = 2 ^ 32 - 1"
    by (simp_all add: lex_start_def)
  show ?thesis
    using need_wraps_around [of "lex_start [1] [([2, 3], 9)]" 2] need_wraps_around [of "lex_start [1] [([2, 3], 9)]" "2 ^ 32 - 1"]
    unfolding f by simp
qed

end
