(* ===== verification/Strfmt.thy ===== *)
theory Strfmt
  imports Obj Buf Chars
begin

text \<open>
  String formatting: \<^verbatim>\<open>src/src/lj_strfmt.c\<close> and \<^verbatim>\<open>src/src/lj_strfmt.h\<close>, that is, the
  parser of format strings, the raw conversions of integers and pointers, quoting, and the
  formatted output of characters, strings and integers.  The floating-point conversions
  (\<^verbatim>\<open>src/src/lj_strfmt_num.c\<close>) and the functions that call them are left out.

  A pointer into a format string is the rest of the string from there on, without its
  terminating NUL, which is what \<open>peek\<close> reads at the end.
\<close>

type_synonym SFormat = u32

datatype FormatType =
  STRFMT_EOF | STRFMT_ERR | STRFMT_LIT | STRFMT_INT | STRFMT_UINT | STRFMT_NUM | STRFMT_STR
| STRFMT_CHAR | STRFMT_PTR

fun ftype :: "FormatType \<Rightarrow> SFormat" where
  "ftype STRFMT_EOF = 0" | "ftype STRFMT_ERR = 1" | "ftype STRFMT_LIT = 2" | "ftype STRFMT_INT = 3"
| "ftype STRFMT_UINT = 4" | "ftype STRFMT_NUM = 5" | "ftype STRFMT_STR = 6" | "ftype STRFMT_CHAR = 7"
| "ftype STRFMT_PTR = 8"

definition STRFMT_T_HEX :: SFormat where "STRFMT_T_HEX = 0x10"
definition STRFMT_T_OCT :: SFormat where "STRFMT_T_OCT = 0x20"
definition STRFMT_T_FP_A :: SFormat where "STRFMT_T_FP_A = 0x00"
definition STRFMT_T_FP_E :: SFormat where "STRFMT_T_FP_E = 0x10"
definition STRFMT_T_FP_F :: SFormat where "STRFMT_T_FP_F = 0x20"
definition STRFMT_T_FP_G :: SFormat where "STRFMT_T_FP_G = 0x30"
definition STRFMT_T_QUOTED :: SFormat where "STRFMT_T_QUOTED = 0x10"

definition STRFMT_F_LEFT :: SFormat where "STRFMT_F_LEFT = 0x100"
definition STRFMT_F_PLUS :: SFormat where "STRFMT_F_PLUS = 0x200"
definition STRFMT_F_ZERO :: SFormat where "STRFMT_F_ZERO = 0x400"
definition STRFMT_F_SPACE :: SFormat where "STRFMT_F_SPACE = 0x800"
definition STRFMT_F_ALT :: SFormat where "STRFMT_F_ALT = 0x1000"
definition STRFMT_F_UPPER :: SFormat where "STRFMT_F_UPPER = 0x2000"

definition STRFMT_TYPE :: "SFormat \<Rightarrow> SFormat" where "STRFMT_TYPE sf = sf AND 15"
definition STRFMT_WIDTH :: "SFormat \<Rightarrow> u32" where "STRFMT_WIDTH sf = drop_bit 16 sf AND 255"
definition STRFMT_PREC :: "SFormat \<Rightarrow> u32" where "STRFMT_PREC sf = (drop_bit 24 sf AND 255) - 1"

definition STRFMT_MAXBUF_XINT :: nat where "STRFMT_MAXBUF_XINT = 23"
definition STRFMT_MAXBUF_INT :: nat where "STRFMT_MAXBUF_INT = 11"
definition STRFMT_MAXBUF_PTR :: nat where "STRFMT_MAXBUF_PTR = 10"

text \<open>A flag test \<^verbatim>\<open>if ((sf & flag))\<close>.\<close>

definition flag_set :: "SFormat \<Rightarrow> SFormat \<Rightarrow> bool" where "flag_set sf flag = (sf AND flag \<noteq> 0)"

section \<open>Format parser\<close>

record FormatState =
  fs_p :: bytes
  fs_str :: bytes
  fs_len :: nat

definition lj_strfmt_init :: "bytes \<Rightarrow> FormatState" where
  "lj_strfmt_init p = \<lparr>fs_p = p, fs_str = [], fs_len = 0\<rparr>"

definition strfmt_map :: "SFormat list" where
  "strfmt_map =
     (let A = ftype STRFMT_NUM OR STRFMT_T_FP_A; C = ftype STRFMT_CHAR; D = ftype STRFMT_INT;
          E = ftype STRFMT_NUM OR STRFMT_T_FP_E; F = ftype STRFMT_NUM OR STRFMT_T_FP_F;
          G = ftype STRFMT_NUM OR STRFMT_T_FP_G; I = D; O' = ftype STRFMT_UINT OR STRFMT_T_OCT;
          P = ftype STRFMT_PTR; Q = ftype STRFMT_STR OR STRFMT_T_QUOTED; S = ftype STRFMT_STR;
          U = ftype STRFMT_UINT; X = ftype STRFMT_UINT OR STRFMT_T_HEX
      in [A,0,0,0,E,F,G,0,0,0,0,0,0,
          0,0,0,0,0,0,0,0,0,0,X,0,0,
          0,0,0,0,0,0,
          A,0,C,D,E,F,G,0,I,0,0,0,0,
          0,O',P,Q,0,S,0,U,0,0,X])"

fun peek :: "bytes \<Rightarrow> u8" where
  "peek [] = 0"
| "peek (c # ps) = c"

fun parse_flags :: "bytes \<Rightarrow> SFormat \<Rightarrow> SFormat \<times> bytes" where
  "parse_flags [] sf = (sf, [])"
| "parse_flags (c # ps) sf =
     (if (ucast c :: u32) - 0x20 \<le> 0x10
      then if c = 0x2d then parse_flags ps (sf OR STRFMT_F_LEFT)
           else if c = 0x2b then parse_flags ps (sf OR STRFMT_F_PLUS)
           else if c = 0x30 then parse_flags ps (sf OR STRFMT_F_ZERO)
           else if c = 0x20 then parse_flags ps (sf OR STRFMT_F_SPACE)
           else if c = 0x23 then parse_flags ps (sf OR STRFMT_F_ALT)
           else (sf, c # ps)
      else (sf, c # ps))"

text \<open>One or two decimal digits; no digit leaves \<^verbatim>\<open>p\<close> where it is.\<close>

definition is_dig :: "bytes \<Rightarrow> bool" where
  "is_dig ps = ((ucast (peek ps) :: u32) - 0x30 < 10)"

definition parse_digits :: "bytes \<Rightarrow> (u32 \<times> bytes) option" where
  "parse_digits ps =
     (if is_dig ps
      then let w = ucast (peek ps) - 0x30; ps = tl ps in
           if is_dig ps then Some (ucast (peek ps) - 0x30 + w * 10, tl ps) else Some (w, ps)
      else None)"

definition parse_width :: "SFormat \<times> bytes \<Rightarrow> SFormat \<times> bytes" where
  "parse_width x = (case x of (sf, ps) \<Rightarrow>
     (case parse_digits ps of
        Some (w, ps') \<Rightarrow> (sf OR push_bit 16 w, ps') | None \<Rightarrow> (sf, ps)))"

definition parse_prec :: "SFormat \<times> bytes \<Rightarrow> SFormat \<times> bytes" where
  "parse_prec x = (case x of (sf, ps) \<Rightarrow>
     (if peek ps = 0x2e
      then case parse_digits (tl ps) of
             Some (w, ps') \<Rightarrow> (sf OR push_bit 24 (w + 1), ps')
           | None \<Rightarrow> (sf OR push_bit 24 (0 + 1), tl ps)
      else (sf, ps)))"

text \<open>The part after \<^verbatim>\<open>%\<close>: the format, or the end of the erroneous part.\<close>

definition parse_conv :: "bytes \<Rightarrow> FormatState \<Rightarrow> FormatState \<times> SFormat" where
  "parse_conv ps fs =
     (case parse_prec (parse_width (parse_flags ps 0)) of (sf, ps) \<Rightarrow>
      let c = (ucast (peek ps) :: u32) - 0x41;
          sx = (if c \<le> 0x37 then strfmt_map ! unat c else 0) in
      if sx \<noteq> 0
      then (fs\<lparr>fs_p := tl ps\<rparr>, (sf OR sx) OR (if c AND 0x20 \<noteq> 0 then 0 else STRFMT_F_UPPER))
      else let ps = (if 32 \<le> peek ps then tl ps else ps) in
           (fs\<lparr>fs_p := [], fs_len := length (fs_str fs) - length ps\<rparr>, ftype STRFMT_ERR))"

definition retlit :: "bytes \<Rightarrow> FormatState \<Rightarrow> FormatState \<times> SFormat" where
  "retlit p fs =
     (let fs = fs\<lparr>fs_len := length (fs_str fs) - length p\<rparr> in
      (fs, if fs_len fs \<noteq> 0 then ftype STRFMT_LIT else ftype STRFMT_EOF))"

fun parse_loop :: "bytes \<Rightarrow> FormatState \<Rightarrow> FormatState \<times> SFormat" where
  "parse_loop [] fs = retlit [] (fs\<lparr>fs_p := []\<rparr>)"
| "parse_loop (c # p) fs =
     (if c = 0x25
      then if peek p = 0x25 then retlit p (fs\<lparr>fs_p := tl p\<rparr>)
           else if length (c # p) \<noteq> length (fs_str fs) then retlit (c # p) (fs\<lparr>fs_p := c # p\<rparr>)
           else parse_conv p fs
      else parse_loop p fs)"

definition lj_strfmt_parse :: "FormatState \<Rightarrow> FormatState \<times> SFormat" where
  "lj_strfmt_parse fs = parse_loop (fs_p fs) (fs\<lparr>fs_str := fs_p fs\<rparr>)"

section \<open>Raw conversions\<close>

definition dchr :: "u32 \<Rightarrow> u8" where "dchr d = ucast (0x30 + d)"

text \<open>\<^verbatim>\<open>WINT_R\<close>: the leading digit by a multiplication, and the rest.\<close>

definition WINT_R :: "u32 \<Rightarrow> nat \<Rightarrow> u32 \<Rightarrow> u8 \<times> u32" where
  "WINT_R x sh sc = (let d = drop_bit sh (x * ((2 ^ sh + sc - 1) div sc)) in (dchr d, x - d * sc))"

definition dig1 :: "u32 \<Rightarrow> bytes" where "dig1 u = [dchr u]"
definition dig2 :: "u32 \<Rightarrow> bytes" where "dig2 u = (case WINT_R u 10 10 of (c, u) \<Rightarrow> c # dig1 u)"
definition dig3 :: "u32 \<Rightarrow> bytes" where "dig3 u = (case WINT_R u 12 100 of (c, u) \<Rightarrow> c # dig2 u)"
definition dig4 :: "u32 \<Rightarrow> bytes" where "dig4 u = (case WINT_R u 23 1000 of (c, u) \<Rightarrow> c # dig3 u)"
definition dig5 :: "u32 \<Rightarrow> u32 \<Rightarrow> bytes" where "dig5 v u = dchr v # dig4 u"
definition dig6 :: "u32 \<Rightarrow> u32 \<Rightarrow> bytes" where
  "dig6 v u = (case WINT_R v 10 10 of (c, v) \<Rightarrow> c # dig5 v u)"
definition dig7 :: "u32 \<Rightarrow> u32 \<Rightarrow> bytes" where
  "dig7 v u = (case WINT_R v 12 100 of (c, v) \<Rightarrow> c # dig6 v u)"
definition dig8 :: "u32 \<Rightarrow> u32 \<Rightarrow> bytes" where
  "dig8 v u = (case WINT_R v 23 1000 of (c, v) \<Rightarrow> c # dig7 v u)"

definition wint_digits :: "u32 \<Rightarrow> bytes" where
  "wint_digits u =
     (if u < 10000
      then if u < 10 then dig1 u else if u < 100 then dig2 u else if u < 1000 then dig3 u else dig4 u
      else let v = u div 10000; u = u - v * 10000 in
           if v < 10000
           then if v < 10 then dig5 v u else if v < 100 then dig6 v u
                else if v < 1000 then dig7 v u else dig8 v u
           else let w = v div 10000; v = v - w * 10000 in
                (if 10 \<le> w then case WINT_R w 10 10 of (c, w) \<Rightarrow> [c, dchr w] else [dchr w]) @ dig8 v u)"

definition lj_strfmt_wint :: "u32 \<Rightarrow> bytes" where
  "lj_strfmt_wint k = (if k <s 0 then 0x2d # wint_digits (- k) else wint_digits k)"

definition hexdigits :: bytes where
  "hexdigits = [0x30, 0x31, 0x32, 0x33, 0x34, 0x35, 0x36, 0x37, 0x38, 0x39,
                0x61, 0x62, 0x63, 0x64, 0x65, 0x66]"

definition hexdigits_upper :: bytes where
  "hexdigits_upper = [0x30, 0x31, 0x32, 0x33, 0x34, 0x35, 0x36, 0x37, 0x38, 0x39,
                      0x41, 0x42, 0x43, 0x44, 0x45, 0x46]"

text \<open>The loop of \<^verbatim>\<open>lj_strfmt_wptr\<close> fills the block from its end.\<close>

fun wptr_loop :: "nat \<Rightarrow> u32 \<Rightarrow> bytes \<Rightarrow> bytes" where
  "wptr_loop i x out =
     (if 2 \<le> i then wptr_loop (i - 1) (signed_drop_bit 4 x) (hexdigits ! unat (x AND 15) # out) else out)"

declare wptr_loop.simps [simp del]

definition lj_strfmt_wptr :: "u32 \<Rightarrow> bytes" where
  "lj_strfmt_wptr v =
     (if v = 0 then [0x4e, 0x55, 0x4c, 0x4c] else 0x30 # 0x78 # wptr_loop (STRFMT_MAXBUF_PTR - 1) v [])"

section \<open>Unformatted conversions to a buffer\<close>

definition lj_strfmt_putint :: "SBuf \<Rightarrow> u32 \<Rightarrow> SBuf res" where
  "lj_strfmt_putint sb k =
     rbind (lj_buf_more sb STRFMT_MAXBUF_INT) (\<lambda>sb. buf_put sb (lj_strfmt_wint k))"

definition lj_strfmt_putptr :: "SBuf \<Rightarrow> u32 \<Rightarrow> SBuf res" where
  "lj_strfmt_putptr sb v =
     rbind (lj_buf_more sb STRFMT_MAXBUF_PTR) (\<lambda>sb. buf_put sb (lj_strfmt_wptr v))"

text \<open>
  What \<^verbatim>\<open>lj_strfmt_putquoted\<close> writes for one character; \<open>nxt\<close> is the byte behind it in the
  string, the terminating NUL for the last one.
\<close>

definition quote_tens :: "u32 \<Rightarrow> bytes" where
  "quote_tens c = (let d = drop_bit 11 (c * 205); c = c - d * 10 in [dchr d, ucast (c + 0x30)])"

definition quote_digits :: "u32 \<Rightarrow> u8 \<Rightarrow> bytes" where
  "quote_digits c nxt =
     (if 100 \<le> c \<or> lj_char_isdigit (uint nxt)
      then (if 100 \<le> c then dchr 1 else dchr 0) # quote_tens (if 100 \<le> c then c - 100 else c)
      else if 10 \<le> c then quote_tens c
      else [ucast (c + 0x30)])"

definition quote_char :: "u8 \<Rightarrow> u8 \<Rightarrow> bytes" where
  "quote_char c8 nxt =
     (let c = ucast c8 :: u32 in
      if c = 0x22 \<or> c = 0x5c \<or> c = 0x0a then [0x5c, c8]
      else if lj_char_iscntrl (uint c) then 0x5c # quote_digits c nxt
      else [c8])"

fun putquoted_loop :: "bytes \<Rightarrow> SBuf \<Rightarrow> SBuf res" where
  "putquoted_loop [] sb = Inr sb"
| "putquoted_loop (c # s) sb =
     rbind (lj_buf_more sb 4) (\<lambda>sb.
     rbind (buf_put sb (quote_char c (peek s))) (\<lambda>sb. putquoted_loop s sb))"

definition lj_strfmt_putquoted :: "SBuf \<Rightarrow> bytes \<Rightarrow> SBuf res" where
  "lj_strfmt_putquoted sb str =
     rbind (lj_buf_putb sb 0x22) (\<lambda>sb.
     rbind (putquoted_loop str sb) (\<lambda>sb. lj_buf_putb sb 0x22))"

section \<open>Formatted conversions to a buffer\<close>

text \<open>\<^verbatim>\<open>while (width-- > lim) *p++ = c\<close>\<close>

function pad_loop :: "u32 \<Rightarrow> u32 \<Rightarrow> u8 \<Rightarrow> bytes" where
  "pad_loop width lim c = (if lim < width then c # pad_loop (width - 1) lim c else [])"
  by pat_completeness auto
termination
proof (relation "measure (\<lambda>(w, _, _). unat w)", goal_cases)
  case (2 w lim c)
  then have "w \<noteq> 0" by auto
  then show ?case by (auto intro: measure_unat)
qed simp

declare pad_loop.simps [simp del]

definition lj_strfmt_putfchar :: "SBuf \<Rightarrow> SFormat \<Rightarrow> u32 \<Rightarrow> SBuf res" where
  "lj_strfmt_putfchar sb sf c =
     (let width = STRFMT_WIDTH sf in
      rbind (lj_buf_more sb (if 1 < width then unat width else 1)) (\<lambda>sb.
      buf_put sb ((if flag_set sf STRFMT_F_LEFT then [ucast c] else []) @ pad_loop width 1 0x20 @
                  (if \<not> flag_set sf STRFMT_F_LEFT then [ucast c] else []))))"

definition lj_strfmt_putfstr :: "SBuf \<Rightarrow> SFormat \<Rightarrow> bytes \<Rightarrow> SBuf res" where
  "lj_strfmt_putfstr sb sf str =
     (let slen = word_of_nat (length str);
          len = (if slen \<le> STRFMT_PREC sf then slen else STRFMT_PREC sf);
          width = STRFMT_WIDTH sf;
          out = take (unat len) str in
      rbind (lj_buf_more sb (unat (if len < width then width else len))) (\<lambda>sb.
      buf_put sb ((if flag_set sf STRFMT_F_LEFT then out else []) @ pad_loop width len 0x20 @
                  (if \<not> flag_set sf STRFMT_F_LEFT then out else []))))"

text \<open>
  The digit loops of \<^verbatim>\<open>lj_strfmt_putfxint\<close> fill the local array from its end: each takes the
  digits written so far.
\<close>

function dec32_loop :: "u32 \<Rightarrow> bytes \<Rightarrow> bytes" where
  "dec32_loop k2 q =
     (let q = dchr (k2 mod 10) # q; k2 = k2 div 10 in if k2 \<noteq> 0 then dec32_loop k2 q else q)"
  by pat_completeness auto
termination
  by (relation "measure (\<lambda>(k, _). unat k)") (auto simp: unat_div word_neq_0_conv word_less_nat_alt)

function dec64_loop :: "u64 \<Rightarrow> bytes \<Rightarrow> u64 \<times> bytes" where
  "dec64_loop k q =
     (if drop_bit 32 k \<noteq> 0 then dec64_loop (k div 10) (ucast (0x30 + k mod 10) # q) else (k, q))"
  by pat_completeness auto
termination
proof (relation "measure (\<lambda>(k, _). unat k)", goal_cases)
  case (2 k q)
  then have "k \<noteq> 0" by auto
  then show ?case by (simp add: unat_div word_neq_0_conv word_less_nat_alt)
qed simp

function hex_loop :: "bytes \<Rightarrow> u64 \<Rightarrow> bytes \<Rightarrow> bytes" where
  "hex_loop hexdig k q =
     (let q = hexdig ! unat (k AND 15) # q; k = drop_bit 4 k in if k \<noteq> 0 then hex_loop hexdig k q else q)"
  by pat_completeness auto
termination
  by (relation "measure (\<lambda>(_, k, _). unat k)")
    (auto simp: unat_drop_bit word_less_nat_alt unat_eq_zero [symmetric] simp del: unat_eq_zero)

function oct_loop :: "u64 \<Rightarrow> bytes \<Rightarrow> bytes" where
  "oct_loop k q =
     (let q = dchr (ucast (k AND 7)) # q; k = drop_bit 3 k in if k \<noteq> 0 then oct_loop k q else q)"
  by pat_completeness auto
termination
  by (relation "measure (\<lambda>(k, _). unat k)")
    (auto simp: unat_drop_bit word_less_nat_alt unat_eq_zero [symmetric] simp del: unat_eq_zero)

declare dec32_loop.simps [simp del] dec64_loop.simps [simp del] hex_loop.simps [simp del]
  oct_loop.simps [simp del]

text \<open>The sign: the magnitude and the prefix, a count in the high bits and a character.\<close>

definition xint_sign :: "SFormat \<Rightarrow> u64 \<Rightarrow> u64 \<times> u32" where
  "xint_sign sf k =
     (if STRFMT_TYPE sf = ftype STRFMT_INT
      then if k <s 0 then (- k, 256 + 0x2d)
           else if flag_set sf STRFMT_F_PLUS then (k, 256 + 0x2b)
           else if flag_set sf STRFMT_F_SPACE then (k, 256 + 0x20)
           else (k, 0)
      else (k, 0))"

definition xint_digits :: "SFormat \<Rightarrow> u64 \<Rightarrow> u32 \<Rightarrow> u32 \<Rightarrow> bytes \<times> u32" where
  "xint_digits sf k prec prefix =
     (if k = 0
      then (if prec \<noteq> 0 \<or> sf AND (STRFMT_T_OCT OR STRFMT_F_ALT) = STRFMT_T_OCT OR STRFMT_F_ALT
            then [0x30] else [], prefix)
      else if sf AND (STRFMT_T_HEX OR STRFMT_T_OCT) = 0
      then (case dec64_loop k [] of (k, q) \<Rightarrow> dec32_loop (ucast k) q, prefix)
      else if flag_set sf STRFMT_T_HEX
      then (hex_loop (if flag_set sf STRFMT_F_UPPER then hexdigits_upper else hexdigits) k [],
            if flag_set sf STRFMT_F_ALT
            then 512 + (if flag_set sf STRFMT_F_UPPER then 0x58 else 0x78) else prefix)
      else (if flag_set sf STRFMT_F_ALT then 0x30 # oct_loop k [] else oct_loop k [], prefix))"

text \<open>Digits beyond the local array of \<^verbatim>\<open>STRFMT_MAXBUF_XINT\<close> bytes are \<open>Undef\<close>.\<close>

definition lj_strfmt_putfxint :: "SBuf \<Rightarrow> SFormat \<Rightarrow> u64 \<Rightarrow> SBuf res" where
  "lj_strfmt_putfxint sb sf k =
     (case xint_sign sf k of (k, prefix) \<Rightarrow>
      let prec = STRFMT_PREC sf;
          sf = (if 0 <=s prec then sf AND NOT STRFMT_F_ZERO else sf) in
      case xint_digits sf k prec prefix of (q, prefix) \<Rightarrow>
      rbind (in_range (length q \<le> STRFMT_MAXBUF_XINT)) (\<lambda>_.
      let len = word_of_nat (length q);
          prec = (if prec <=s len then len else prec);
          width = STRFMT_WIDTH sf;
          pprec = prec + drop_bit 8 prefix;
          need = (if pprec < width then width else pprec) in
      rbind (lj_buf_more sb (unat need)) (\<lambda>sb.
      buf_put sb
        ((if sf AND (STRFMT_F_LEFT OR STRFMT_F_ZERO) = 0 then pad_loop width pprec 0x20 else []) @
         (if prefix \<noteq> 0
          then (if (0x58 :: u8) <=s ucast prefix then [0x30] else []) @ [ucast prefix] else []) @
         (if sf AND (STRFMT_F_LEFT OR STRFMT_F_ZERO) = STRFMT_F_ZERO then pad_loop width pprec 0x30 else []) @
         pad_loop prec len 0x30 @
         q @
         (if flag_set sf STRFMT_F_LEFT then pad_loop width pprec 0x20 else [])))))"

text \<open>
  \<^verbatim>\<open>(int64_t)n\<close> and the conversions of numbers to integers: truncation, with the ``integer
  indefinite'' value out of range.  For \<^verbatim>\<open>n\<close> of at least \<open>2 ^ 63\<close> the unsigned conversion
  subtracts \<open>2 ^ 64\<close> first, which is exact where the difference is in range.
\<close>

definition num_trunc :: "u64 \<Rightarrow> nat" where
  "num_trunc n =
     (let e = num_exp n; m = 2 ^ 52 + num_man n in
      if e < 1023 then 0 else if e \<le> 1075 then m div 2 ^ (1075 - e) else m * 2 ^ (e - 1075))"

definition num2i64 :: "u64 \<Rightarrow> u64" where
  "num2i64 n =
     (if 1086 \<le> num_exp n then 0x8000000000000000
      else if num_neg n then - word_of_nat (num_trunc n) else word_of_nat (num_trunc n))"

definition checki32 :: "u64 \<Rightarrow> bool" where
  "checki32 k = (scast (ucast k :: u32) = k)"

definition lj_strfmt_putfnum_int :: "SBuf \<Rightarrow> SFormat \<Rightarrow> u64 \<Rightarrow> SBuf res" where
  "lj_strfmt_putfnum_int sb sf n =
     (let k = num2i64 n in
      if checki32 k \<and> sf = ftype STRFMT_INT then lj_strfmt_putint sb (ucast k)
      else lj_strfmt_putfxint sb sf k)"

definition num_minus_2_64 :: "u64 \<Rightarrow> u64" where
  "num_minus_2_64 n =
     (if num_exp n \<le> 1087 \<and> num_trunc n < 2 ^ 64 + 2 ^ 63
      then word_of_int (int (num_trunc n) - 2 ^ 64) else 0x8000000000000000)"

definition lj_strfmt_putfnum_uint :: "SBuf \<Rightarrow> SFormat \<Rightarrow> u64 \<Rightarrow> SBuf res" where
  "lj_strfmt_putfnum_uint sb sf n =
     lj_strfmt_putfxint sb sf
       (if \<not> num_nan n \<and> \<not> num_neg n \<and> 1086 \<le> num_exp n then num_minus_2_64 n else num2i64 n)"

end
