(* ===== verification/StrfmtInt.thy ===== *)
theory StrfmtInt
  imports Strfmt BufCorrect
begin

text \<open>
  The integer conversions of \<^verbatim>\<open>src/src/lj_strfmt.c\<close> against the positional notation:
  \<open>base_text\<close> is the digits of a number in a base.
\<close>

section \<open>Positional notation\<close>

function base_text :: "nat \<Rightarrow> bytes \<Rightarrow> nat \<Rightarrow> bytes" where
  "base_text b ds n =
     (if n < b \<or> b < 2 then [ds ! n] else base_text b ds (n div b) @ [ds ! (n mod b)])"
  by pat_completeness auto
termination by (relation "measure (\<lambda>(b, ds, n). n)") auto

declare base_text.simps [simp del]

abbreviation dec_text :: "nat \<Rightarrow> bytes" where "dec_text \<equiv> base_text 10 hexdigits"

lemma base_text_less [simp]: "n < b \<Longrightarrow> base_text b ds n = [ds ! n]"
  by (simp add: base_text.simps)

lemma base_text_step: "0 < v \<Longrightarrow> 2 \<le> b \<Longrightarrow> u < b \<Longrightarrow> base_text b ds (v * b + u) = base_text b ds v @ [ds ! u]"
proof -
  assume a: "0 < v" "2 \<le> b" "u < b"
  have "b \<le> v * b + u" using a(1) by (simp add: trans_le_add1)
  then show ?thesis using a by (subst base_text.simps) simp
qed

lemma base_text_nonempty [simp]: "base_text b ds n \<noteq> []"
  by (subst base_text.simps) simp

lemma base_text_set: "2 \<le> b \<Longrightarrow> set (base_text b ds n) \<subseteq> (!) ds ` {..< b}"
proof (induction b ds n rule: base_text.induct)
  case (1 b ds n)
  then show ?case by (subst base_text.simps) auto
qed

lemma base_text_length: "2 \<le> b \<Longrightarrow> n < b ^ Suc k \<Longrightarrow> length (base_text b ds n) \<le> Suc k"
proof (induction k arbitrary: n)
  case (Suc k)
  then have "n div b < b ^ Suc k" by (simp add: less_mult_imp_div_less mult.commute)
  then have "length (base_text b ds (n div b)) \<le> Suc k" using Suc by simp
  then show ?case by (subst base_text.simps) simp
qed (simp add: base_text.simps)

text \<open>The digits of a number padded with zeros to a fixed width.\<close>

fun fixed_text :: "nat \<Rightarrow> bytes \<Rightarrow> nat \<Rightarrow> nat \<Rightarrow> bytes" where
  "fixed_text b ds 0 n = []"
| "fixed_text b ds (Suc k) n = ds ! (n div b ^ k) # fixed_text b ds k (n mod b ^ k)"

lemma base_text_fixed:
  assumes "2 \<le> b" "0 < v" "u < b ^ k"
  shows "base_text b ds (v * b ^ k + u) = base_text b ds v @ fixed_text b ds k u"
  using assms(2,3)
proof (induction k arbitrary: v u)
  case (Suc k)
  have b: "0 < b ^ k" using assms(1) by simp
  have d: "u div b ^ k < b" using Suc.prems(2) by (simp add: less_mult_imp_div_less)
  have "v * b ^ Suc k + u = (v * b + u div b ^ k) * b ^ k + u mod b ^ k"
    by (simp add: algebra_simps)
  also have "base_text b ds \<dots> = base_text b ds (v * b + u div b ^ k) @ fixed_text b ds k (u mod b ^ k)"
    using Suc.IH [of "v * b + u div b ^ k" "u mod b ^ k"] Suc.prems(1) assms(1) b by simp
  also have "base_text b ds (v * b + u div b ^ k) = base_text b ds v @ [ds ! (u div b ^ k)]"
    by (rule base_text_step [OF Suc.prems(1) assms(1) d])
  finally show ?case by simp
qed simp

lemma base_text_eq_fixed:
  assumes "2 \<le> b" "b ^ k \<le> u" "u < b ^ Suc k"
  shows "base_text b ds u = fixed_text b ds (Suc k) u"
proof -
  have b: "0 < b ^ k" using assms(1) by simp
  have "0 < u div b ^ k" "u div b ^ k < b" using assms b
    by (simp_all add: div_greater_zero_iff less_mult_imp_div_less)
  then show ?thesis
    using base_text_fixed [OF assms(1), of "u div b ^ k" "u mod b ^ k" k ds] b
    by (simp only: div_mult_mod_eq mod_less_divisor base_text_less fixed_text.simps append_Cons append_Nil)
qed

section \<open>Division by multiplication\<close>

lemma div_by_mult:
  fixes x :: nat
  assumes "m * c = 2 ^ sh + e" "e * (x div c) + m * (c - 1) < 2 ^ sh" "0 < c"
  shows "x * m div 2 ^ sh = x div c"
proof -
  let ?q = "x div c" and ?r = "x mod c"
  have d: "(q * c + r) * m = q * (m * c) + m * r" for q r :: nat by (simp add: algebra_simps)
  have "x * m = (?q * c + ?r) * m" by (simp only: div_mult_mod_eq)
  also have "\<dots> = ?q * (m * c) + m * ?r" by (rule d)
  also have "\<dots> = ?q * 2 ^ sh + (e * ?q + m * ?r)" unfolding assms(1) by (simp add: algebra_simps)
  finally have x: "x * m = ?q * 2 ^ sh + (e * ?q + m * ?r)" .
  have "m * ?r \<le> m * (c - 1)"
  proof (rule mult_le_mono2)
    show "?r \<le> c - 1" using mod_less_divisor [OF assms(3), of x] by linarith
  qed
  then have "e * ?q + m * ?r < 2 ^ sh" using assms(2) by linarith
  then show ?thesis unfolding x by simp
qed

lemma dchr_eq: "unat d < 10 \<Longrightarrow> dchr d = hexdigits ! unat d"
proof -
  assume "unat d < 10"
  then have "unat d \<in> {0, 1, 2, 3, 4, 5, 6, 7, 8, 9}" by auto
  then have "d \<in> {0, 1, 2, 3, 4, 5, 6, 7, 8, 9}" by (simp add: word_unat_eq_iff)
  then show ?thesis by (auto simp: dchr_def hexdigits_def)
qed

lemma WINT_R_eq:
  assumes m: "word_of_nat m = (2 ^ sh + sc - 1) div sc" and sc: "unat sc = c" and c: "0 < c"
    and x: "unat x < 10 * c" "10 * c * m < 2 ^ 32" and e: "m * c = 2 ^ sh + e" "e * 9 + m * (c - 1) < 2 ^ sh"
  shows "WINT_R x sh sc = (hexdigits ! (unat x div c), x mod sc)"
proof -
  have q: "unat x div c < 10" using x(1) by (simp add: less_mult_imp_div_less)
  have "m \<le> 10 * c * m" using c by simp
  then have "m < 2 ^ 32" using x(2) by (rule le_less_trans)
  then have um: "unat (word_of_nat m :: u32) = m" by (intro unat_of_nat_eq) simp
  have "unat x * m \<le> 10 * c * m" using x(1) by simp
  then have xm: "unat x * m < 2 ^ 32" using x(2) by (rule le_less_trans)
  have "unat (x * word_of_nat m) = unat x * m"
    using xm um by (subst unat_mult_lem [THEN iffD1]) auto
  then have d: "unat (drop_bit sh (x * word_of_nat m)) = unat x * m div 2 ^ sh" by (simp add: unat_drop_bit)
  have "e * (unat x div c) \<le> e * 9" using q by simp
  then have "unat x * m div 2 ^ sh = unat x div c" by (intro div_by_mult [OF e(1) _ c]) (use e(2) in linarith)
  then have "drop_bit sh (x * word_of_nat m) = x div sc" using d by (simp add: word_unat_eq_iff unat_div sc)
  then have "WINT_R x sh sc = (dchr (x div sc), x - x div sc * sc)" by (simp add: WINT_R_def m [symmetric] Let_def)
  moreover have "x - x div sc * sc = x mod sc" by (simp add: minus_div_mult_eq_mod)
  moreover have "dchr (x div sc) = hexdigits ! (unat x div c)"
    using q dchr_eq [of "x div sc"] by (simp add: unat_div sc)
  ultimately show ?thesis by simp
qed

lemma WINT_R_10: "unat x < 100 \<Longrightarrow> WINT_R x 10 10 = (hexdigits ! (unat x div 10), x mod 10)"
  by (rule WINT_R_eq [where m = 103 and e = 6]) simp_all

lemma WINT_R_100: "unat x < 1000 \<Longrightarrow> WINT_R x 12 100 = (hexdigits ! (unat x div 100), x mod 100)"
  by (rule WINT_R_eq [where m = 41 and e = 4]) simp_all

lemma WINT_R_1000: "unat x < 10000 \<Longrightarrow> WINT_R x 23 1000 = (hexdigits ! (unat x div 1000), x mod 1000)"
  by (rule WINT_R_eq [where m = 8389 and e = 392]) simp_all

abbreviation dec_fixed :: "nat \<Rightarrow> nat \<Rightarrow> bytes" where "dec_fixed \<equiv> fixed_text 10 hexdigits"

lemma dig1_eq: "unat u < 10 \<Longrightarrow> dig1 u = dec_fixed 1 (unat u)"
  by (simp add: dig1_def dchr_eq)

lemma dig2_eq: "unat u < 100 \<Longrightarrow> dig2 u = dec_fixed (Suc 1) (unat u)"
  using dig1_eq [of "u mod 10"] by (simp add: dig2_def WINT_R_10 unat_mod)

lemma dig3_eq: "unat u < 1000 \<Longrightarrow> dig3 u = dec_fixed (Suc (Suc 1)) (unat u)"
  using dig2_eq [of "u mod 100"] by (simp add: dig3_def WINT_R_100 unat_mod)

lemma dig4_eq: "unat u < 10000 \<Longrightarrow> dig4 u = dec_fixed (Suc (Suc (Suc 1))) (unat u)"
  using dig3_eq [of "u mod 1000"] by (simp add: dig4_def WINT_R_1000 unat_mod)

lemma dig5_eq: "unat v < 10 \<Longrightarrow> dig5 v u = dec_fixed 1 (unat v) @ dig4 u"
  by (simp add: dig5_def dchr_eq)

lemma dig6_eq: "unat v < 100 \<Longrightarrow> dig6 v u = dec_fixed (Suc 1) (unat v) @ dig4 u"
  using dig5_eq [of "v mod 10"] by (simp add: dig6_def WINT_R_10 unat_mod)

lemma dig7_eq: "unat v < 1000 \<Longrightarrow> dig7 v u = dec_fixed (Suc (Suc 1)) (unat v) @ dig4 u"
  using dig6_eq [of "v mod 100"] by (simp add: dig7_def WINT_R_100 unat_mod)

lemma dig8_eq: "unat v < 10000 \<Longrightarrow> dig8 v u = dec_fixed (Suc (Suc (Suc 1))) (unat v) @ dig4 u"
  using dig7_eq [of "v mod 1000"] by (simp add: dig8_def WINT_R_1000 unat_mod)

text \<open>The text of a number below ten thousand, by its size.\<close>

lemma dec_text_small:
  "n < 10 \<Longrightarrow> dec_text n = dec_fixed 1 n"
  "10 \<le> n \<Longrightarrow> n < 100 \<Longrightarrow> dec_text n = dec_fixed (Suc 1) n"
  "100 \<le> n \<Longrightarrow> n < 1000 \<Longrightarrow> dec_text n = dec_fixed (Suc (Suc 1)) n"
  "1000 \<le> n \<Longrightarrow> n < 10000 \<Longrightarrow> dec_text n = dec_fixed (Suc (Suc (Suc 1))) n"
  using base_text_eq_fixed [of 10 1 n hexdigits] base_text_eq_fixed [of 10 "Suc 1" n hexdigits]
    base_text_eq_fixed [of 10 "Suc (Suc 1)" n hexdigits]
  by simp_all

lemma dec_text_10000:
  assumes "0 < v" "u < 10000"
  shows "dec_text (v * 10000 + u) = dec_text v @ dec_fixed (Suc (Suc (Suc 1))) u"
  using base_text_fixed [of 10 v u "Suc (Suc (Suc 1))" hexdigits] assms by simp

lemma wint_digits_eq: "wint_digits u = dec_text (unat u)"
proof -
  let ?u = "unat u"
  have u: "(u < 10000) = (?u < 10000)" by (simp add: word_less_nat_alt)
  show ?thesis
  proof (cases "?u < 10000")
    case True
    then show ?thesis
      using dec_text_small [of ?u]
      by (auto simp: wint_digits_def word_less_nat_alt dig1_eq dig2_eq dig3_eq dig4_eq not_less
          simp del: fixed_text.simps)
  next
    case False
    let ?v = "u div 10000" and ?r = "u - u div 10000 * 10000"
    have v: "unat ?v = ?u div 10000" by (simp add: unat_div)
    have "?r = u mod 10000" by (simp add: minus_div_mult_eq_mod)
    then have r: "unat ?r = ?u mod 10000" by (simp add: unat_mod)
    have split: "dec_text ?u = dec_text (?u div 10000) @ dig4 ?r"
      using dec_text_10000 [of "?u div 10000" "?u mod 10000"] dig4_eq [of ?r] False
      by (simp add: r div_greater_zero_iff)
    show ?thesis
    proof (cases "?u div 10000 < 10000")
      case True
      then show ?thesis
        using dec_text_small [of "?u div 10000"] False
        by (auto simp: wint_digits_def Let_def word_less_nat_alt v split dig5_eq dig6_eq dig7_eq dig8_eq not_less
            simp del: fixed_text.simps)
    next
      case big: False
      let ?w = "?v div 10000" and ?s = "?v - ?v div 10000 * 10000"
      have w: "unat ?w = ?u div 10000 div 10000" by (simp add: unat_div)
      have "?s = ?v mod 10000" by (simp add: minus_div_mult_eq_mod)
      then have s: "unat ?s = ?u div 10000 mod 10000" by (simp add: unat_mod v)
      have w100: "unat ?w < 100" using u32_less [of u] unfolding w by simp
      have "dec_text (?u div 10000) = dec_text (unat ?w) @ dec_fixed (Suc (Suc (Suc 1))) (unat ?s)"
        using dec_text_10000 [of "?u div 10000 div 10000" "?u div 10000 mod 10000"] big
        by (simp add: w s div_greater_zero_iff del: fixed_text.simps)
      then have "dec_text ?u = dec_text (unat ?w) @ dig8 ?s ?r"
        using dig8_eq [of ?s ?r] by (simp add: split s del: fixed_text.simps)
      moreover have "dec_text (unat ?w) =
          (if 10 \<le> ?w then case WINT_R ?w 10 10 of (c, w) \<Rightarrow> [c, dchr w] else [dchr ?w])"
        using dec_text_small(1,2) [of "unat ?w"] w100
        by (auto simp: word_le_nat_alt WINT_R_10 dchr_eq unat_mod not_le)
      ultimately show ?thesis
        using False big by (simp only: wint_digits_def Let_def word_less_nat_alt v u if_False unat_numeral if_cancel)
          (simp add: v)
    qed
  qed
qed

definition dec_int :: "int \<Rightarrow> bytes" where
  "dec_int i = (if i < 0 then 0x2d # dec_text (nat (- i)) else dec_text (nat i))"

lemma unat_word_of_sint:
  fixes k :: "'a::len word"
  assumes "0 \<le> i" "i \<le> 2 ^ (LENGTH('a) - 1)" "k = word_of_int i"
  shows "unat k = nat i"
proof -
  have "(2::int) ^ (LENGTH('a) - 1) < 2 ^ LENGTH('a)" by (rule power_strict_increasing) simp_all
  then have "i < 2 ^ LENGTH('a)" using assms(2) by linarith
  then have "uint k = i" unfolding assms(3) using assms(1)
    by (simp add: unsigned_of_int take_bit_int_eq_self)
  then show ?thesis by (simp only: unat_eq_nat_uint)
qed

lemma unat_sint_nonneg: "\<not> k <s 0 \<Longrightarrow> unat k = nat (sint (k :: 'a::len word))"
  by (rule unat_word_of_sint) (use sint_lt [of k] in \<open>simp_all add: word_sless_alt\<close>)

lemma unat_sint_neg: "k <s 0 \<Longrightarrow> unat (- k) = nat (- sint (k :: 'a::len word))"
  by (rule unat_word_of_sint) (use sint_ge [of k] in \<open>simp_all add: word_sless_alt\<close>)

lemma lj_strfmt_wint_dec: "lj_strfmt_wint k = dec_int (sint k)"
  by (simp add: lj_strfmt_wint_def dec_int_def wint_digits_eq unat_sint_neg unat_sint_nonneg word_sless_alt)

lemma wint_digits_length: "length (wint_digits u) \<le> 10"
  using base_text_length [of 10 "unat u" 9 hexdigits] u32_less [of u] by (simp add: wint_digits_eq)

lemma lj_strfmt_wint_length: "length (lj_strfmt_wint k) \<le> STRFMT_MAXBUF_INT"
  using wint_digits_length [of k] wint_digits_length [of "- k"]
  by (simp add: lj_strfmt_wint_def STRFMT_MAXBUF_INT_def)

lemma lj_strfmt_putint_appends: "appends STRFMT_MAXBUF_INT (lj_strfmt_wint k) (\<lambda>sb. lj_strfmt_putint sb k)"
  unfolding lj_strfmt_putint_def by (rule appends_more_put) (rule lj_strfmt_wint_length)

interpretation putint: buf_appender lj_strfmt_putint lj_strfmt_wint "\<lambda>_. STRFMT_MAXBUF_INT"
  by unfold_locales (rule lj_strfmt_putint_appends)

end
