(* ===== verification/StrfmtXint.thy ===== *)
theory StrfmtXint
  imports StrfmtInt
begin

text \<open>
  \<^verbatim>\<open>lj_strfmt_putfxint\<close> against the meaning of the \<^verbatim>\<open>%d\<close>, \<^verbatim>\<open>%u\<close>, \<^verbatim>\<open>%o\<close>, \<^verbatim>\<open>%x\<close> and \<^verbatim>\<open>%X\<close>
  conversions: sign or prefix, precision, width, and the flags for the side and the kind of
  padding.
\<close>

section \<open>The digit loops\<close>

lemma drop_bit_zero: "drop_bit n k = 0 \<longleftrightarrow> unat (k :: 'a::len word) < 2 ^ n"
  by (simp add: word_unat_eq_iff unat_drop_bit div_eq_0_iff)

lemma dec32_loop_eq: "dec32_loop k q = dec_text (unat k) @ q"
proof (induction k q rule: dec32_loop.induct)
  case (1 k q)
  have d: "dchr (k mod 10) = hexdigits ! (unat k mod 10)"
    using dchr_eq [of "k mod 10"] by (simp add: unat_mod)
  show ?case
  proof (cases "k div 10 = 0")
    case True
    then have "unat k div 10 = 0" by (simp add: word_unat_eq_iff unat_div)
    then have "unat k < 10" by simp
    then show ?thesis using True d by (simp add: dec32_loop.simps [of k] Let_def)
  next
    case False
    then have "unat k div 10 \<noteq> 0" by (simp add: word_unat_eq_iff unat_div)
    then have "\<not> unat k < 10" by simp
    then show ?thesis using 1 False d
      by (simp add: dec32_loop.simps [of k] base_text.simps [of 10 _ "unat k"] unat_div Let_def)
  qed
qed

lemma dchr64: "unat d < 10 \<Longrightarrow> ucast (0x30 + d :: u64) = hexdigits ! unat d"
proof -
  assume "unat d < 10"
  then have "unat d \<in> {0, 1, 2, 3, 4, 5, 6, 7, 8, 9}" by auto
  then have "d \<in> {0, 1, 2, 3, 4, 5, 6, 7, 8, 9}" by (simp add: word_unat_eq_iff)
  then show ?thesis by (auto simp: hexdigits_def)
qed

lemma dec64_loop_eq:
  assumes "k \<noteq> 0"
  shows "\<exists>k' q'. dec64_loop k q = (k', q') \<and> dec32_loop (ucast k') q' = dec_text (unat k) @ q"
  using assms
proof (induction k q rule: dec64_loop.induct)
  case (1 k q)
  show ?case
  proof (cases "drop_bit 32 k = 0")
    case True
    then have "unat k < 2 ^ 32" by (simp only: drop_bit_zero)
    then have "unat (ucast k :: u32) = unat k" by (simp add: unsigned_ucast_eq take_bit_nat_eq_self)
    then show ?thesis using True by (simp add: dec64_loop.simps [of k] dec32_loop_eq)
  next
    case False
    then have "2 ^ 32 \<le> unat k" by (simp only: drop_bit_zero not_less)
    then have k: "\<not> unat k < 10" "k div 10 \<noteq> 0" by (simp_all add: word_unat_eq_iff unat_div)
    have d: "ucast (0x30 + k mod 10) = hexdigits ! (unat k mod 10)"
      using dchr64 [of "k mod 10"] by (simp add: unat_mod)
    show ?thesis using 1(1) [OF False k(2)] False k d
      by (simp add: dec64_loop.simps [of k] base_text.simps [of 10 _ "unat k"] unat_div)
  qed
qed

lemma hex_loop_eq: "hex_loop hs k q = base_text 16 hs (unat k) @ q"
proof (induction hs k q rule: hex_loop.induct)
  case (1 hs k q)
  have "k AND 15 = take_bit 4 k" by (simp add: take_bit_eq_mask mask_eq_exp_minus_1)
  then have a: "unat (k AND 15) = unat k mod 16"
    by (simp add: unat_mod take_bit_eq_mod)
  show ?case
  proof (cases "drop_bit 4 k = 0")
    case True
    then have "unat k < 16" by (simp add: drop_bit_zero)
    then show ?thesis using True a by (simp add: hex_loop.simps [of _ k] Let_def)
  next
    case False
    then have "\<not> unat k < 16" by (simp add: drop_bit_zero)
    then show ?thesis using 1 False a
      by (simp add: hex_loop.simps [of _ k] base_text.simps [of 16 _ "unat k"] unat_drop_bit Let_def)
  qed
qed

lemma oct_loop_eq: "oct_loop k q = base_text 8 hexdigits (unat k) @ q"
proof (induction k q rule: oct_loop.induct)
  case (1 k q)
  have "k AND 7 = take_bit 3 k" by (simp add: take_bit_eq_mask mask_eq_exp_minus_1)
  then have a: "unat (k AND 7) = unat k mod 8"
    by (simp add: unat_mod take_bit_eq_mod)
  then have "unat (ucast (k AND 7) :: u32) = unat k mod 8"
    by (simp add: unsigned_ucast_eq take_bit_nat_eq_self)
  then have d: "dchr (ucast (k AND 7)) = hexdigits ! (unat k mod 8)"
    using dchr_eq [of "ucast (k AND 7)"] by simp
  show ?case
  proof (cases "drop_bit 3 k = 0")
    case True
    then have "unat k < 8" by (simp add: drop_bit_zero)
    then show ?thesis using True d by (simp add: oct_loop.simps [of k] Let_def)
  next
    case False
    then have "\<not> unat k < 8" by (simp add: drop_bit_zero)
    then show ?thesis using 1 False d
      by (simp add: oct_loop.simps [of k] base_text.simps [of 8 _ "unat k"] unat_drop_bit Let_def)
  qed
qed

lemma pad_loop_eq: "pad_loop w lim c = replicate (unat w - unat lim) c"
proof (induction w lim c rule: pad_loop.induct)
  case (1 w lim c)
  show ?case
  proof (cases "lim < w")
    case True
    then have "w \<noteq> 0" "unat lim < unat w" by (auto simp: word_less_nat_alt)
    then have w: "unat (w - 1) = unat w - 1" "unat lim < unat w" by (simp_all add: unat_minus_one)
    then have "unat w - unat lim = Suc (unat w - 1 - unat lim)" by simp
    then show ?thesis using 1 [OF True] True w by (simp add: pad_loop.simps [of w])
  next
    case False
    then show ?thesis by (simp add: pad_loop.simps [of w] word_less_nat_alt)
  qed
qed

section \<open>The meaning of a conversion\<close>

definition xint_conv :: "SFormat \<Rightarrow> bool" where
  "xint_conv sf \<longleftrightarrow>
     (STRFMT_TYPE sf = ftype STRFMT_INT \<and> \<not> flag_set sf STRFMT_T_HEX \<and> \<not> flag_set sf STRFMT_T_OCT) \<or>
     (STRFMT_TYPE sf = ftype STRFMT_UINT \<and> \<not> (flag_set sf STRFMT_T_HEX \<and> flag_set sf STRFMT_T_OCT))"

text \<open>The precision field: 0 for none, otherwise the precision plus one.\<close>

definition prec_field :: "SFormat \<Rightarrow> nat" where "prec_field sf = unat (drop_bit 24 sf AND 255)"

definition printf_digits :: "SFormat \<Rightarrow> nat \<Rightarrow> bytes" where
  "printf_digits sf n =
     (if flag_set sf STRFMT_T_HEX
      then base_text 16 (if flag_set sf STRFMT_F_UPPER then hexdigits_upper else hexdigits) n
      else if flag_set sf STRFMT_T_OCT
      then (if flag_set sf STRFMT_F_ALT \<and> n \<noteq> 0 then [0x30] else []) @ base_text 8 hexdigits n
      else dec_text n)"

definition printf_body :: "SFormat \<Rightarrow> nat \<Rightarrow> bytes" where
  "printf_body sf n =
     (let ds = (if n = 0 \<and> prec_field sf = 1 \<and> \<not> (flag_set sf STRFMT_T_OCT \<and> flag_set sf STRFMT_F_ALT)
                then [] else printf_digits sf n)
      in replicate (prec_field sf - 1 - length ds) 0x30 @ ds)"

definition printf_prefix :: "SFormat \<Rightarrow> int \<Rightarrow> bytes" where
  "printf_prefix sf v =
     (if STRFMT_TYPE sf = ftype STRFMT_INT
      then if v < 0 then [0x2d] else if flag_set sf STRFMT_F_PLUS then [0x2b]
           else if flag_set sf STRFMT_F_SPACE then [0x20] else []
      else if v \<noteq> 0 \<and> flag_set sf STRFMT_T_HEX \<and> flag_set sf STRFMT_F_ALT
      then [0x30, if flag_set sf STRFMT_F_UPPER then 0x58 else 0x78] else [])"

definition printf_int :: "SFormat \<Rightarrow> u64 \<Rightarrow> bytes" where
  "printf_int sf k =
     (let v = (if STRFMT_TYPE sf = ftype STRFMT_INT then sint k else uint k);
          pre = printf_prefix sf v; body = printf_body sf (nat \<bar>v\<bar>);
          fill = unat (STRFMT_WIDTH sf) - (length pre + length body)
      in if flag_set sf STRFMT_F_LEFT then pre @ body @ replicate fill 0x20
         else if flag_set sf STRFMT_F_ZERO \<and> prec_field sf = 0 then pre @ replicate fill 0x30 @ body
         else replicate fill 0x20 @ pre @ body)"

text \<open>The prefix word of the code: a count and a character.\<close>

definition prefix_text :: "u32 \<Rightarrow> bytes" where
  "prefix_text prefix =
     (if prefix \<noteq> 0
      then (if (0x58 :: u8) <=s ucast prefix then [0x30] else []) @ [ucast prefix] else [])"

definition sign_words :: "u32 set" where
  "sign_words = {0, 256 + 0x2d, 256 + 0x2b, 256 + 0x20, 512 + 0x58, 512 + 0x78}"

lemma prefix_text_length: "p \<in> sign_words \<Longrightarrow> unat (drop_bit 8 p) = length (prefix_text p)"
  unfolding sign_words_def prefix_text_def by (elim insertE emptyE) simp_all

section \<open>Flags as bits\<close>

lemma and_flag: "x AND 2 ^ n = (if bit (x :: 'a::len word) n then 2 ^ n else 0)"
  by (rule bit_word_eqI) (auto simp: bit_simps)

lemma and_flag_numeral:
  "sf AND 0x10 = (if bit (sf :: u32) 4 then 0x10 else 0)" "sf AND 0x20 = (if bit sf 5 then 0x20 else 0)"
  "sf AND 0x100 = (if bit sf 8 then 0x100 else 0)" "sf AND 0x200 = (if bit sf 9 then 0x200 else 0)"
  "sf AND 0x400 = (if bit sf 10 then 0x400 else 0)" "sf AND 0x800 = (if bit sf 11 then 0x800 else 0)"
  "sf AND 0x1000 = (if bit sf 12 then 0x1000 else 0)" "sf AND 0x2000 = (if bit sf 13 then 0x2000 else 0)"
  using and_flag [of sf 4] and_flag [of sf 5] and_flag [of sf 8] and_flag [of sf 9] and_flag [of sf 10]
    and_flag [of sf 11] and_flag [of sf 12] and_flag [of sf 13]
  by simp_all

lemma flag_bits:
  "flag_set sf STRFMT_T_HEX = bit sf 4" "flag_set sf STRFMT_T_OCT = bit sf 5"
  "flag_set sf STRFMT_F_LEFT = bit sf 8" "flag_set sf STRFMT_F_PLUS = bit sf 9"
  "flag_set sf STRFMT_F_ZERO = bit sf 10" "flag_set sf STRFMT_F_SPACE = bit sf 11"
  "flag_set sf STRFMT_F_ALT = bit sf 12" "flag_set sf STRFMT_F_UPPER = bit sf 13"
  by (simp_all add: flag_set_def STRFMT_T_HEX_def STRFMT_T_OCT_def STRFMT_F_LEFT_def STRFMT_F_PLUS_def
      STRFMT_F_ZERO_def STRFMT_F_SPACE_def STRFMT_F_ALT_def STRFMT_F_UPPER_def and_flag_numeral)

lemma two_flags:
  "sf AND (STRFMT_F_LEFT OR STRFMT_F_ZERO) = 0 \<longleftrightarrow> \<not> bit sf 8 \<and> \<not> bit sf 10"
  "sf AND (STRFMT_F_LEFT OR STRFMT_F_ZERO) = STRFMT_F_ZERO \<longleftrightarrow> \<not> bit sf 8 \<and> bit sf 10"
  "sf AND (STRFMT_T_OCT OR STRFMT_F_ALT) = STRFMT_T_OCT OR STRFMT_F_ALT \<longleftrightarrow> bit sf 5 \<and> bit sf 12"
  "sf AND (STRFMT_T_HEX OR STRFMT_T_OCT) = 0 \<longleftrightarrow> \<not> bit sf 4 \<and> \<not> bit sf 5"
  unfolding bit.conj_disj_distrib STRFMT_F_LEFT_def STRFMT_F_ZERO_def STRFMT_T_OCT_def STRFMT_F_ALT_def
    STRFMT_T_HEX_def and_flag_numeral
  by simp_all

definition no_zero :: "SFormat \<Rightarrow> SFormat" where
  "no_zero sf = (if 0 <=s STRFMT_PREC sf then sf AND NOT STRFMT_F_ZERO else sf)"

lemma bit_no_zero: "bit (no_zero sf) n \<longleftrightarrow> bit sf n \<and> (n = 10 \<longrightarrow> \<not> 0 <=s STRFMT_PREC sf)"
proof -
  have "STRFMT_F_ZERO = push_bit 10 1" by (simp add: STRFMT_F_ZERO_def)
  then have "bit STRFMT_F_ZERO n \<longleftrightarrow> n = 10"
    using bit_push_bit_iff [of 10 "1 :: u32" n] by (simp only: bit_1_iff possible_bit_word) auto
  then show ?thesis by (auto simp: no_zero_def bit_and_iff bit_not_iff dest: bit_imp_le_length)
qed

lemma width_no_zero: "STRFMT_WIDTH (no_zero sf) = STRFMT_WIDTH sf"
proof (rule bit_word_eqI)
  fix n
  show "bit (STRFMT_WIDTH (no_zero sf)) n = bit (STRFMT_WIDTH sf) n"
    by (auto simp: STRFMT_WIDTH_def bit_simps bit_no_zero)
qed

lemma sless_eq_unat: "unat a < 2 ^ 31 \<Longrightarrow> unat b < 2 ^ 31 \<Longrightarrow> a <=s b \<longleftrightarrow> unat a \<le> unat (b :: u32)"
  by (simp only: word_sle_eq sint_small of_nat_le_iff)

section \<open>The conversion\<close>

lemma xint_sign_eq:
  assumes "xint_sign sf k = (k', p)"
  shows "unat k' = nat \<bar>if STRFMT_TYPE sf = ftype STRFMT_INT then sint k else uint k\<bar>"
    "p \<in> sign_words" "p \<noteq> 512 + 0x58" "p \<noteq> 512 + 0x78"
    "STRFMT_TYPE sf = ftype STRFMT_INT \<Longrightarrow> prefix_text p = printf_prefix sf (sint k)"
    "STRFMT_TYPE sf \<noteq> ftype STRFMT_INT \<Longrightarrow> p = 0"
  using assms unat_sint_neg [of k] unat_sint_nonneg [of k]
  by (auto simp: xint_sign_def sign_words_def prefix_text_def printf_prefix_def word_sless_alt
      split: if_splits)

lemma prec_word:
  "prec_field sf = 0 \<Longrightarrow> STRFMT_PREC sf = - 1"
  "0 < prec_field sf \<Longrightarrow> unat (STRFMT_PREC sf) = prec_field sf - 1"
  "prec_field sf < 256"
proof -
  have "drop_bit 24 sf AND 255 = take_bit 8 (drop_bit 24 sf)"
    by (simp only: take_bit_eq_mask mask_eq_exp_minus_1) simp
  then show "prec_field sf < 256"
    using take_bit_nat_less_exp [of 8 "unat (drop_bit 24 sf)"] by (simp add: prec_field_def unsigned_take_bit_eq)
  show "prec_field sf = 0 \<Longrightarrow> STRFMT_PREC sf = - 1"
    by (simp add: prec_field_def STRFMT_PREC_def unat_eq_zero)
  show "0 < prec_field sf \<Longrightarrow> unat (STRFMT_PREC sf) = prec_field sf - 1"
    unfolding prec_field_def STRFMT_PREC_def by (subst unat_minus_one) (auto simp: unat_gt_0)
qed

lemma xint_digits_eq:
  assumes "xint_conv sf"
    and sf': "\<forall>n. n \<noteq> 10 \<longrightarrow> bit sf' n = bit sf n"
    and dg: "xint_digits sf' k (STRFMT_PREC sf) p = (q, p')"
  defines "n \<equiv> unat k"
  shows "q = (if n = 0 \<and> prec_field sf = 1 \<and> \<not> (flag_set sf STRFMT_T_OCT \<and> flag_set sf STRFMT_F_ALT)
              then [] else printf_digits sf n)"
    "p' = (if n \<noteq> 0 \<and> flag_set sf STRFMT_T_HEX \<and> flag_set sf STRFMT_F_ALT
           then 512 + (if flag_set sf STRFMT_F_UPPER then 0x58 else 0x78) else p)"
proof -
  have fl: "bit sf' 4 = bit sf 4" "bit sf' 5 = bit sf 5" "bit sf' 12 = bit sf 12" "bit sf' 13 = bit sf 13"
    using sf' by auto
  have nt: "\<not> (bit sf 4 \<and> bit sf 5)" using assms(1) by (auto simp: xint_conv_def flag_bits)
  have pz: "STRFMT_PREC sf = 0 \<longleftrightarrow> prec_field sf = 1"
  proof (cases "prec_field sf")
    case (Suc m)
    then have "unat (STRFMT_PREC sf) = m" using prec_word(2) [of sf] by simp
    then show ?thesis using Suc by (simp add: word_unat_eq_iff)
  qed (simp add: prec_word(1))
  have hd0: "hexdigits ! 0 = 0x30" "hexdigits_upper ! 0 = 0x30"
    by (simp_all add: hexdigits_def hexdigits_upper_def)
  show "q = (if n = 0 \<and> prec_field sf = 1 \<and> \<not> (flag_set sf STRFMT_T_OCT \<and> flag_set sf STRFMT_F_ALT)
              then [] else printf_digits sf n)"
  proof (cases "k = 0")
    case True
    then show ?thesis
      using dg by (auto simp: xint_digits_def n_def two_flags fl pz printf_digits_def hd0 flag_bits)
  next
    case False
    obtain k' q' where d: "dec64_loop k [] = (k', q')" "dec32_loop (ucast k') q' = dec_text (unat k)"
      using dec64_loop_eq [OF False, of "[]"] by auto
    have "n \<noteq> 0" using False by (simp add: n_def unat_eq_zero)
    then show ?thesis
      using dg False nt d
      by (auto simp: xint_digits_def n_def two_flags fl printf_digits_def flag_bits hex_loop_eq oct_loop_eq)
  qed
  show "p' = (if n \<noteq> 0 \<and> flag_set sf STRFMT_T_HEX \<and> flag_set sf STRFMT_F_ALT
           then 512 + (if flag_set sf STRFMT_F_UPPER then 0x58 else 0x78) else p)"
    using dg nt by (cases "k = 0") (auto simp: xint_digits_def n_def two_flags fl flag_bits unat_eq_zero split: prod.splits if_splits)
qed

lemma printf_digits_length: "n < 2 ^ 64 \<Longrightarrow> length (printf_digits sf n) \<le> STRFMT_MAXBUF_XINT"
  using base_text_length [of 10 n 19 hexdigits] base_text_length [of 8 n 21 hexdigits]
    base_text_length [of 16 n 15 hexdigits] base_text_length [of 16 n 15 hexdigits_upper]
  by (auto simp: printf_digits_def STRFMT_MAXBUF_XINT_def)

text \<open>The prefix the code ends up with is the one of the conversion.\<close>

lemma xint_prefix:
  assumes "xint_conv sf" "xint_sign sf k = (k', p)"
    and p': "p' = (if unat k' \<noteq> 0 \<and> flag_set sf STRFMT_T_HEX \<and> flag_set sf STRFMT_F_ALT
                   then 512 + (if flag_set sf STRFMT_F_UPPER then 0x58 else 0x78) else p)"
  shows "p' \<in> sign_words"
    "prefix_text p' = printf_prefix sf (if STRFMT_TYPE sf = ftype STRFMT_INT then sint k else uint k)"
proof -
  note sign = xint_sign_eq [OF assms(2)]
  show "p' \<in> sign_words" using sign(2) by (auto simp: p' sign_words_def)
  show "prefix_text p' = printf_prefix sf (if STRFMT_TYPE sf = ftype STRFMT_INT then sint k else uint k)"
  proof (cases "STRFMT_TYPE sf = ftype STRFMT_INT")
    case True
    then have "\<not> flag_set sf STRFMT_T_HEX" using assms(1) by (auto simp: xint_conv_def)
    then show ?thesis using True sign(5) by (simp add: p')
  next
    case False
    then have "unat k' = unat k" "p = 0" using sign(1,6) by simp_all
    then show ?thesis using False
      by (auto simp: p' printf_prefix_def prefix_text_def unat_eq_zero uint_0_iff)
  qed
qed

lemma putfxint_layout:
  assumes out: "prefix_text p = pre" "p \<in> sign_words" and q: "length q \<le> STRFMT_MAXBUF_XINT"
    and f: "prec_field sf < 256"
  defines "len \<equiv> word_of_nat (length q) :: u32"
  defines "prec \<equiv> (if STRFMT_PREC sf <=s len then len else STRFMT_PREC sf)"
  defines "pprec \<equiv> prec + drop_bit 8 p" and "width \<equiv> STRFMT_WIDTH sf"
  defines "body \<equiv> replicate (prec_field sf - 1 - length q) 0x30 @ q"
  shows "pad_loop prec len 0x30 = replicate (prec_field sf - 1 - length q) 0x30"
    "unat pprec = length pre + length body"
    "pad_loop width pprec c = replicate (unat width - (length pre + length body)) c"
    "unat (if pprec < width then width else pprec) = max (length pre + length body) (unat width)"
proof -
  have len: "unat len = length q" unfolding len_def using q by (simp add: STRFMT_MAXBUF_XINT_def unat_of_nat_eq)
  have prec: "unat prec = max (prec_field sf - 1) (length q)"
  proof (cases "prec_field sf")
    case 0
    have "(- 1 :: u32) <=s len"
      using sint_small [of len] len q by (simp add: word_sle_eq STRFMT_MAXBUF_XINT_def)
    then show ?thesis using 0 prec_word(1) [of sf] len by (simp add: prec_def)
  next
    case (Suc m)
    then have m: "unat (STRFMT_PREC sf) = m" using prec_word(2) [of sf] by simp
    then have "STRFMT_PREC sf <=s len \<longleftrightarrow> m \<le> length q"
      using Suc f q len by (subst sless_eq_unat) (simp_all add: STRFMT_MAXBUF_XINT_def)
    then show ?thesis using Suc m len by (simp add: prec_def max_def)
  qed
  show "pad_loop prec len 0x30 = replicate (prec_field sf - 1 - length q) 0x30"
    by (simp add: pad_loop_eq prec len max_def)
  have lb: "length body = max (prec_field sf - 1) (length q)" by (simp add: body_def)
  have lp: "unat (drop_bit 8 p) = length pre" using prefix_text_length [OF out(2)] out(1) by simp
  have "length pre \<le> 2" unfolding out(1) [symmetric] by (simp add: prefix_text_def)
  then have small: "unat prec + unat (drop_bit 8 p) < 2 ^ 32"
    using f q by (simp add: prec lp STRFMT_MAXBUF_XINT_def)
  show pp: "unat pprec = length pre + length body"
    unfolding pprec_def using small by (subst unat_add_lem [THEN iffD1]) (simp_all add: prec lp lb)
  show "pad_loop width pprec c = replicate (unat width - (length pre + length body)) c"
    by (simp add: pad_loop_eq pp)
  show "unat (if pprec < width then width else pprec) = max (length pre + length body) (unat width)"
    using pp by (auto simp: word_less_nat_alt max_def)
qed

lemma lj_strfmt_putfxint_appends:
  assumes "xint_conv sf"
  shows "appends (length (printf_int sf k)) (printf_int sf k) (\<lambda>sb. lj_strfmt_putfxint sb sf k)"
proof -
  obtain k' p where sign: "xint_sign sf k = (k', p)" by fastforce
  obtain q p' where dg: "xint_digits (no_zero sf) k' (STRFMT_PREC sf) p = (q, p')" by fastforce
  define v where "v = (if STRFMT_TYPE sf = ftype STRFMT_INT then sint k else uint k)"
  have k': "unat k' = nat \<bar>v\<bar>" unfolding v_def by (rule xint_sign_eq [OF sign])
  have bits: "\<forall>n. n \<noteq> 10 \<longrightarrow> bit (no_zero sf) n = bit sf n" by (simp add: bit_no_zero)
  note d = xint_digits_eq [OF assms bits dg]
  note q = d(1) [unfolded k'] and pre = xint_prefix [OF assms sign d(2), folded v_def]
  have qlen: "length q \<le> STRFMT_MAXBUF_XINT"
    using printf_digits_length [of "unat k'" sf] u64_less [of k'] by (simp add: q k')
  note lay = putfxint_layout [OF pre(2,1) qlen prec_word(3)]
  have z: "0 <=s STRFMT_PREC sf \<longleftrightarrow> 0 < prec_field sf"
    using prec_word [of sf] sint_small [of "STRFMT_PREC sf"]
    by (cases "prec_field sf = 0") (auto simp: word_sle_eq)
  have bits': "bit (no_zero sf) 8 = bit sf 8" "bit (no_zero sf) 10 \<longleftrightarrow> bit sf 10 \<and> prec_field sf = 0"
    by (simp_all add: bit_no_zero z)
  let ?body = "replicate (prec_field sf - 1 - length q) 0x30 @ q"
  let ?pre = "printf_prefix sf v" and ?w = "unat (STRFMT_WIDTH sf)"
  let ?fill = "\<lambda>c. replicate (?w - (length ?pre + length ?body)) (c :: u8)"
  have "printf_body sf (nat \<bar>v\<bar>) = ?body" by (simp only: printf_body_def Let_def q)
  then have out: "printf_int sf k =
      (if flag_set sf STRFMT_F_LEFT then ?pre @ ?body @ ?fill 0x20
       else if flag_set sf STRFMT_F_ZERO \<and> prec_field sf = 0 then ?pre @ ?fill 0x30 @ ?body
       else ?fill 0x20 @ ?pre @ ?body)"
    by (simp only: printf_int_def Let_def v_def [symmetric])
  have len: "length (printf_int sf k) = max (length ?pre + length ?body) ?w"
    unfolding out by (auto simp: max_def)
  have "lj_strfmt_putfxint sb sf k =
      rbind (lj_buf_more sb (length (printf_int sf k))) (\<lambda>sb. buf_put sb (printf_int sf k))" for sb
    using qlen
    unfolding lj_strfmt_putfxint_def sign prod.case Let_def no_zero_def [symmetric] dg two_flags
      flag_bits bits' width_no_zero prefix_text_def [symmetric] lay pre(2) len
    by (simp add: out flag_bits)
  then show ?thesis by (intro appends_cong [OF appends_more_put]) simp_all
qed

end
