(* ===== verification/Strscan.thy ===== *)
theory Strscan
  imports Obj Chars
begin

text \<open>
  Scanning numbers: \<^verbatim>\<open>src/src/lj_strscan.c\<close>.  A pointer into the string is its rest from
  there on, without the terminating NUL, which \<open>cur\<close> reads at the end.  The offsets that C
  keeps in \<^verbatim>\<open>int32_t\<close> are integers (strings are shorter than \<open>2 ^ 28\<close>).
\<close>

section \<open>Doubles\<close>

text \<open>
  IEEE rounding of \<open>m * 2 ^ e\<close> to the nearest double, ties to even, as C's conversions and
  \<^verbatim>\<open>ldexp\<close> do it.  \<open>rne m k\<close> rounds \<open>m / 2 ^ k\<close>; \<open>q\<close> is the exponent of the last place, and
  the pattern is the count of doubles below.
\<close>

definition rne :: "nat \<Rightarrow> nat \<Rightarrow> nat" where
  "rne m k =
     (let q = m div 2 ^ k; r = m mod 2 ^ k in
      if 2 ^ k < 2 * r \<or> (2 ^ k = 2 * r \<and> odd q) then q + 1 else q)"

definition last_place :: "nat \<Rightarrow> int \<Rightarrow> int" where
  "last_place m e = max (int (fls m) + e - 52) (- 1074)"

definition scaled :: "nat \<Rightarrow> int \<Rightarrow> int \<Rightarrow> nat" where
  "scaled m e q = (if q \<le> e then m * 2 ^ nat (e - q) else rne m (nat (q - e)))"

definition magnitude :: "nat \<Rightarrow> int \<Rightarrow> nat" where
  "magnitude m e =
     (if m = 0 then 0
      else let q = last_place m e in min (nat (q + 1074) * 2 ^ 52 + scaled m e q) (2047 * 2 ^ 52))"

definition round_num :: "bool \<Rightarrow> nat \<Rightarrow> int \<Rightarrow> u64" where
  "round_num neg m e = word_of_nat ((if neg then 2 ^ 63 else 0) + magnitude m e)"

text \<open>Negation, the conversion from a non-negative \<^verbatim>\<open>int64_t\<close>, and \<^verbatim>\<open>ldexp\<close>.\<close>

definition num_uminus :: "u64 \<Rightarrow> u64" where "num_uminus n = flip_bit 63 n"

definition i64_num :: "u64 \<Rightarrow> u64" where "i64_num x = round_num False (unat x) 0"

definition num_mant :: "u64 \<Rightarrow> nat" where
  "num_mant n = (if num_exp n = 0 then num_man n else 2 ^ 52 + num_man n)"

definition num_place :: "u64 \<Rightarrow> int" where
  "num_place n = (if num_exp n = 0 then - 1074 else int (num_exp n) - 1075)"

definition ldexp :: "u64 \<Rightarrow> int \<Rightarrow> u64" where
  "ldexp n k =
     (if num_exp n = 2047 then n else round_num (num_neg n) (num_mant n) (num_place n + k))"

section \<open>Options, formats and results\<close>

definition STRSCAN_OPT_TOINT :: u32 where "STRSCAN_OPT_TOINT = 0x01"
definition STRSCAN_OPT_TONUM :: u32 where "STRSCAN_OPT_TONUM = 0x02"
definition STRSCAN_OPT_IMAG :: u32 where "STRSCAN_OPT_IMAG = 0x04"
definition STRSCAN_OPT_LL :: u32 where "STRSCAN_OPT_LL = 0x08"
definition STRSCAN_OPT_C :: u32 where "STRSCAN_OPT_C = 0x10"

definition opt_set :: "u32 \<Rightarrow> u32 \<Rightarrow> bool" where "opt_set opt f = (opt AND f \<noteq> 0)"

text \<open>\<^verbatim>\<open>StrScanFmt\<close> is an enumeration the code computes with.\<close>

definition STRSCAN_ERROR :: nat where "STRSCAN_ERROR = 0"
definition STRSCAN_NUM :: nat where "STRSCAN_NUM = 1"
definition STRSCAN_IMAG :: nat where "STRSCAN_IMAG = 2"
definition STRSCAN_INT :: nat where "STRSCAN_INT = 3"
definition STRSCAN_U32 :: nat where "STRSCAN_U32 = 4"
definition STRSCAN_I64 :: nat where "STRSCAN_I64 = 5"
definition STRSCAN_U64 :: nat where "STRSCAN_U64 = 6"

lemmas strscan_fmts = STRSCAN_ERROR_def STRSCAN_NUM_def STRSCAN_IMAG_def STRSCAN_INT_def
  STRSCAN_U32_def STRSCAN_I64_def STRSCAN_U64_def

text \<open>What is stored in \<^verbatim>\<open>*o\<close>: a number, an integer in \<^verbatim>\<open>o->i\<close>, a 64-bit integer, or nothing.\<close>

datatype scanval = SNum u64 | SInt u32 | SU64 u64 | SNone

type_synonym scanned = "(nat \<times> scanval) res"

definition scan_error :: scanned where "scan_error = Inr (STRSCAN_ERROR, SNone)"

fun cur :: "bytes \<Rightarrow> u8" where
  "cur [] = 0"
| "cur (c # p) = c"

definition casecmp :: "u8 \<Rightarrow> u8 \<Rightarrow> bool" where "casecmp c k = (c OR 0x20 = k)"

fun skip_space :: "bytes \<Rightarrow> bytes" where
  "skip_space [] = []"
| "skip_space (c # p) = (if lj_char_isspace (uint c) then skip_space p else c # p)"

text \<open>
  \<^verbatim>\<open>(*p != '.' ? *p : *++p)\<close> followed by \<^verbatim>\<open>p++\<close>; stepping over the terminating NUL is
  \<open>Undef\<close>.
\<close>

fun next_digit :: "bytes \<Rightarrow> (u8 \<times> bytes) res" where
  "next_digit [] = Inl Undef"
| "next_digit (c # p) =
     (if c \<noteq> 0x2e then Inr (c, p) else case p of [] \<Rightarrow> Inl Undef | c # p \<Rightarrow> Inr (c, p))"

definition neg32 :: "bool \<Rightarrow> u32 \<Rightarrow> u32" where "neg32 neg x = (if neg then - x else x)"
definition neg64 :: "bool \<Rightarrow> u64 \<Rightarrow> u64" where "neg64 neg x = (if neg then - x else x)"
definition int_limit :: "bool \<Rightarrow> u64" where "int_limit neg = 0x80000000 + (if neg then 1 else 0)"

section \<open>Conversion to double\<close>

definition fls64 :: "u64 \<Rightarrow> nat" where
  "fls64 x =
     (if drop_bit 32 x \<noteq> 0 then 32 + lj_fls (ucast (drop_bit 32 x)) else lj_fls (ucast x))"

definition denormal_fix :: "u64 \<Rightarrow> int \<Rightarrow> u64" where
  "denormal_fix x ex2 =
     (if ex2 \<le> - 1075 \<and> x \<noteq> 0
      then let b = int (fls64 x) in
           if b + ex2 \<le> - 1023 \<and> b + ex2 \<ge> - 1075
           then let rb = push_bit (nat (- 1075 - ex2)) 1;
                    x = (if x AND rb \<noteq> 0 \<and> x AND (rb + rb + rb - 1) \<noteq> 0 then x + (rb + rb) else x)
                in x AND NOT (rb + rb - 1)
           else x
      else x)"

definition strscan_double :: "u64 \<Rightarrow> int \<Rightarrow> bool \<Rightarrow> u64" where
  "strscan_double x ex2 neg =
     (let n = i64_num (denormal_fix x ex2);
          n = (if neg then num_uminus n else n)
      in if ex2 \<noteq> 0 then ldexp n ex2 else n)"

text \<open>The range reduction before the conversion of a hexadecimal or binary number.\<close>

definition reduce_double :: "u64 \<Rightarrow> int \<Rightarrow> bool \<Rightarrow> u64" where
  "reduce_double x ex2 neg =
     (if x AND 0xc000000000000000 \<noteq> 0
      then strscan_double (drop_bit 2 x OR (x AND 3)) (ex2 + 2) neg
      else strscan_double x ex2 neg)"

section \<open>Hexadecimal\<close>

definition hex_digit :: "u8 \<Rightarrow> u64" where
  "hex_digit c = (let d = ucast c :: u32; d = (if 0x39 < d then d + 9 else d) in ucast (d AND 15))"

fun hex_digits :: "nat \<Rightarrow> bytes \<Rightarrow> u64 \<Rightarrow> (u64 \<times> bytes) res" where
  "hex_digits 0 p x = Inr (x, p)"
| "hex_digits (Suc i) p x =
     rbind (next_digit p) (\<lambda>(c, p). hex_digits i p (push_bit 4 x + hex_digit c))"

fun hex_excess :: "nat \<Rightarrow> bytes \<Rightarrow> u64 \<Rightarrow> int \<Rightarrow> (u64 \<times> int) res" where
  "hex_excess 0 p x ex2 = Inr (x, ex2)"
| "hex_excess (Suc i) p x ex2 =
     rbind (next_digit p) (\<lambda>(c, p).
     hex_excess i p (x OR (if c \<noteq> 0x30 then 1 else 0)) (ex2 + 4))"

text \<open>
  The part of the \<^verbatim>\<open>switch (fmt)\<close> that the bases share: the integer results, or the format
  to go on with to a double.
\<close>

definition switch_int :: "bool \<Rightarrow> nat \<Rightarrow> nat \<Rightarrow> u32 \<Rightarrow> u64 \<Rightarrow> bool \<Rightarrow> nat \<Rightarrow> nat + (nat \<times> scanval)" where
  "switch_int u32_ok max64 fmt opt x neg dig =
     (if fmt = STRSCAN_INT \<and> \<not> opt_set opt STRSCAN_OPT_TONUM \<and> x < int_limit neg
      then Inr (STRSCAN_INT, SInt (neg32 neg (ucast x)))
      else if fmt = STRSCAN_INT \<and> \<not> opt_set opt STRSCAN_OPT_C then Inl STRSCAN_NUM
      else if fmt = STRSCAN_INT \<or> fmt = STRSCAN_U32
      then if \<not> u32_ok then Inr (STRSCAN_ERROR, SNone) else Inr (STRSCAN_U32, SInt (neg32 neg (ucast x)))
      else if fmt = STRSCAN_I64 \<or> fmt = STRSCAN_U64
      then if max64 < dig then Inr (STRSCAN_ERROR, SNone) else Inr (fmt, SU64 (neg64 neg x))
      else Inl fmt)"

definition strscan_hex :: "bytes \<Rightarrow> nat \<Rightarrow> u32 \<Rightarrow> int \<Rightarrow> bool \<Rightarrow> nat \<Rightarrow> scanned" where
  "strscan_hex p fmt opt ex2 neg dig =
     rbind (hex_digits (if 16 < dig then 16 else dig) p 0) (\<lambda>(x, p).
     rbind (hex_excess (dig - 16) p x ex2) (\<lambda>(x, ex2).
     case switch_int (dig \<le> 8) 16 fmt opt x neg dig of
       Inr r \<Rightarrow> Inr r
     | Inl fmt \<Rightarrow> Inr (fmt, SNum (reduce_double x ex2 neg))))"

section \<open>Octal and binary\<close>

fun oct_digits :: "nat \<Rightarrow> bytes \<Rightarrow> u64 \<Rightarrow> u64 option res" where
  "oct_digits 0 p x = Inr (Some x)"
| "oct_digits (Suc dig) p x =
     (if \<not> (0x30 \<le> cur p \<and> cur p \<le> 0x37) then Inr None
      else oct_digits dig (tl p) (push_bit 3 x + (ucast (cur p) AND 7)))"

definition strscan_oct :: "bytes \<Rightarrow> nat \<Rightarrow> bool \<Rightarrow> nat \<Rightarrow> scanned" where
  "strscan_oct p fmt neg dig =
     (if 22 < dig \<or> (dig = 22 \<and> 0x31 < cur p) then scan_error
      else rbind (oct_digits dig p 0) (\<lambda>r. case r of None \<Rightarrow> scan_error | Some x \<Rightarrow>
        let fmt = (if fmt = STRSCAN_INT \<and> int_limit neg \<le> x then STRSCAN_U32 else fmt) in
        if fmt = STRSCAN_INT \<or> fmt = STRSCAN_U32
        then if drop_bit 32 x \<noteq> 0 then scan_error else Inr (fmt, SInt (neg32 neg (ucast x)))
        else Inr (fmt, SU64 (neg64 neg x))))"

fun bin_digits :: "nat \<Rightarrow> bytes \<Rightarrow> u64 \<Rightarrow> u64 option" where
  "bin_digits 0 p x = Some x"
| "bin_digits (Suc i) p x =
     (if cur p AND NOT 1 \<noteq> 0x30 then None
      else bin_digits i (tl p) (push_bit 1 x OR (ucast (cur p) AND 1)))"

definition strscan_bin :: "bytes \<Rightarrow> nat \<Rightarrow> u32 \<Rightarrow> int \<Rightarrow> bool \<Rightarrow> nat \<Rightarrow> scanned" where
  "strscan_bin p fmt opt ex2 neg dig =
     (if ex2 \<noteq> 0 \<or> 64 < dig then scan_error
      else case bin_digits dig p 0 of None \<Rightarrow> scan_error | Some x \<Rightarrow>
        (case switch_int (dig \<le> 32) 64 fmt opt x neg dig of
           Inr r \<Rightarrow> Inr r
         | Inl fmt \<Rightarrow> Inr (fmt, SNum (reduce_double x ex2 neg))))"

section \<open>Decimal\<close>

definition STRSCAN_MAXDIG :: nat where "STRSCAN_MAXDIG = 800"

definition dval :: "u8 \<Rightarrow> nat" where "dval c = unat (c AND 15)"

fun dec_pairs :: "nat \<Rightarrow> bytes \<Rightarrow> nat list \<Rightarrow> (bytes \<times> nat list) res" where
  "dec_pairs i p xi =
     (if 1 < i
      then rbind (next_digit p) (\<lambda>(c1, p).
           rbind (next_digit p) (\<lambda>(c2, p).
           dec_pairs (i - 2) p (xi @ [(10 * dval c1 + dval c2) mod 256])))
      else Inr (p, xi))"

declare dec_pairs.simps [simp del]

text \<open>
  The excess digits: a non-zero one is or-ed into the last digit kept.  The loop tests the
  character before it steps over it, so that it stops at the terminating NUL at the latest.
\<close>

fun peek_digit :: "bytes \<Rightarrow> u8 \<times> bytes" where
  "peek_digit [] = (0, [])"
| "peek_digit (c # p) = (if c \<noteq> 0x2e then (c, p) else (cur p, tl p))"

definition or_last :: "nat list \<Rightarrow> nat list" where
  "or_last xi = xi[length xi - 1 := last xi OR 1]"

fun dec_excess :: "nat \<Rightarrow> bytes \<Rightarrow> nat list \<Rightarrow> nat list" where
  "dec_excess 0 p xi = xi"
| "dec_excess (Suc n) p xi =
     (case peek_digit p of (c, p) \<Rightarrow> if c \<noteq> 0x30 then or_last xi else dec_excess n p xi)"

text \<open>\<^verbatim>\<open>while (ex10 > 0 && dig <= 18) *xip++ = 0, ex10 -= 2, dig += 2;\<close>\<close>

function pad_exp :: "nat list \<Rightarrow> int \<Rightarrow> nat \<Rightarrow> nat list \<times> int \<times> nat" where
  "pad_exp xi ex10 dig =
     (if 0 < ex10 \<and> dig \<le> 18 then pad_exp (xi @ [0]) (ex10 - 2) (dig + 2) else (xi, ex10, dig))"
  by pat_completeness auto
termination by (relation "measure (\<lambda>(_, _, dig). 20 - dig)") auto

declare pad_exp.simps [simp del]

definition dec_collect :: "bytes \<Rightarrow> int \<Rightarrow> nat \<Rightarrow> (nat list \<times> int \<times> nat) res" where
  "dec_collect p ex10 dig =
     (if dig = 0 then Inr ([0], 0, 0)
      else
      let i = (if STRSCAN_MAXDIG < dig then STRSCAN_MAXDIG else dig);
          ex10 = (if STRSCAN_MAXDIG < dig then ex10 + int (dig - STRSCAN_MAXDIG) else ex10) in
      rbind (if odd (ex10 + int i)
             then rbind (next_digit p) (\<lambda>(c, p). Inr ([dval c], i - 1, p)) else Inr ([], i, p))
        (\<lambda>(xi, i, p).
      rbind (dec_pairs i p xi) (\<lambda>(p, xi).
      rbind (if odd i
             then rbind (next_digit p) (\<lambda>(c, p). Inr (xi @ [10 * dval c], ex10 - 1, dig + 1, p))
             else Inr (xi, ex10, dig, p))
        (\<lambda>(xi, ex10, dig, p).
      if STRSCAN_MAXDIG < dig
      then Inr (dec_excess (dig - STRSCAN_MAXDIG) p xi, ex10, STRSCAN_MAXDIG)
      else Inr (pad_exp xi ex10 dig)))))"

text \<open>\<^verbatim>\<open>x = x * 100 + *xis\<close> over the digits, at 64 bits.\<close>

definition base100 :: "nat list \<Rightarrow> u64" where
  "base100 xi = foldl (\<lambda>x d. x * 100 + word_of_nat d) 0 xi"

text \<open>
  The slow path works on a circular buffer of 512 base-100 digits; its indices are numbers
  modulo 512.  A byte of it that was never written has no value: \<open>None\<close>, and reading it is undefined.
\<close>

type_synonym u9 = "9 word"

record digbuf =
  db_xi :: "nat option list"
  db_hi :: u9
  db_lo :: u9
  db_idig :: int
  db_ex2 :: int

definition xi_at :: "nat option list \<Rightarrow> u9 \<Rightarrow> nat res" where
  "xi_at xi i = (case xi ! unat i of None \<Rightarrow> Inl Undef | Some d \<Rightarrow> Inr d)"

definition xi_set :: "nat option list \<Rightarrow> u9 \<Rightarrow> nat \<Rightarrow> nat option list" where
  "xi_set xi i d = xi[unat i := Some (d mod 256)]"

definition DLEN :: "digbuf \<Rightarrow> int" where "DLEN b = uint (db_lo b - db_hi b)"

text \<open>One digit times 64 plus a carry; the quotient by 100 is a multiplication and a shift.\<close>

definition mul64_digit :: "nat \<Rightarrow> nat \<Rightarrow> nat \<times> nat" where
  "mul64_digit x cy = (let d = x * 64 + cy; cy = d div 4 * 5243 div 2 ^ 17 in (d - cy * 100, cy))"

function up_digits :: "u9 \<Rightarrow> nat \<Rightarrow> u9 \<Rightarrow> digbuf \<Rightarrow> (digbuf \<times> nat) res" where
  "up_digits i cy hi b =
     rbind (xi_at (db_xi b) i) (\<lambda>x.
     case mul64_digit x cy of (d, cy) \<Rightarrow>
      let b = b\<lparr>db_xi := xi_set (db_xi b) i d\<rparr> in
      if i = hi then Inr (b, cy)
      else up_digits (i - 1) cy hi (if d = 0 \<and> i = db_lo b - 1 then b\<lparr>db_lo := i\<rparr> else b))"
  by pat_completeness auto
termination
proof (relation "measure (\<lambda>(i, _, hi, _). unat (i - hi))", goal_cases)
  case (2 i cy hi b x)
  then have "i - hi \<noteq> 0" by simp
  then have "unat (i - hi - 1) < unat (i - hi)" by (rule measure_unat)
  then show ?case by (simp add: algebra_simps)
qed simp

definition scale_up :: "digbuf \<Rightarrow> digbuf res" where
  "scale_up b =
     rbind (up_digits (db_lo b - 1) 0 (db_hi b) (b\<lparr>db_ex2 := db_ex2 b - 6\<rparr>)) (\<lambda>(b, cy).
      if cy = 0 then Inr b
      else let hi = db_hi b - 1; lo = db_lo b; xi = db_xi b in
           rbind (xi_at xi (lo - 1)) (\<lambda>x.
           rbind (if x = 0 then Inr (xi, lo - 1)
                  else if hi = lo
                  then rbind (xi_at xi (lo - 2)) (\<lambda>y. Inr (xi_set xi (lo - 2) (y OR x), lo - 1))
                  else Inr (xi, lo)) (\<lambda>(xi, lo).
           Inr (b\<lparr>db_xi := xi_set xi hi cy, db_hi := hi, db_lo := lo, db_idig := db_idig b + 1\<rparr>))))"

function down_digits :: "u9 \<Rightarrow> nat \<Rightarrow> digbuf \<Rightarrow> (digbuf \<times> nat) res" where
  "down_digits i cy b =
     rbind (xi_at (db_xi b) i) (\<lambda>x.
      let cy = cy + x; d = cy div 64; cy = 100 * (cy mod 64);
          b = b\<lparr>db_xi := xi_set (db_xi b) i d\<rparr>;
          b = (if d mod 256 = 0 \<and> i = db_hi b
               then b\<lparr>db_hi := db_hi b + 1, db_idig := db_idig b - 1\<rparr> else b)
      in if i + 1 \<noteq> db_lo b then down_digits (i + 1) cy b else Inr (b, cy))"
  by pat_completeness auto
termination
proof (relation "measure (\<lambda>(i, _, b). unat (db_lo b - (i + 1)))", goal_cases)
  case (2 i cy b x cy1 d cy2 b1 b2)
  then have lo: "db_lo b2 = db_lo b" "i + 1 \<noteq> db_lo b2" by auto
  then have "db_lo b - (i + 1) \<noteq> 0" by simp
  then have "unat (db_lo b - (i + 1) - 1) < unat (db_lo b - (i + 1))" by (rule measure_unat)
  then show ?case using lo by (simp add: algebra_simps)
qed simp

text \<open>
  The carry of a scaling down ends after at most four divisions by 64: multiplied by 100, it gains
  two factors of 2 each time.
\<close>

definition carry_steps :: "nat \<Rightarrow> nat" where
  "carry_steps cy =
     (if cy = 0 then 0 else if cy mod 64 = 0 then 1 else if cy mod 16 = 0 then 2 else if cy mod 4 = 0 then 3 else 4)"

lemma carry_steps_less: "0 < cy \<Longrightarrow> carry_steps (100 * (cy mod 64)) < carry_steps cy"
proof -
  assume cy: "0 < cy"
  have r: "cy mod 64 mod 16 = cy mod 16" "cy mod 64 mod 4 = cy mod 4" by (simp_all add: mod_mod_cancel)
  have "100 * (cy mod 64) mod 64 = 0" if "cy mod 16 = 0"
  proof -
    have "16 dvd cy mod 64" using r(1) that by (simp only: dvd_eq_mod_eq_0)
    then obtain j where "cy mod 64 = 16 * j" by (rule dvdE)
    then have "100 * (cy mod 64) = 25 * j * 64" by simp
    then show ?thesis by (simp only: mod_mult_self2_is_0)
  qed
  moreover have "100 * (cy mod 64) mod 16 = 0" if "cy mod 4 = 0"
  proof -
    have "4 dvd cy mod 64" using r(2) that by (simp only: dvd_eq_mod_eq_0)
    then obtain j where "cy mod 64 = 4 * j" by (rule dvdE)
    then have "100 * (cy mod 64) = 25 * j * 16" by simp
    then show ?thesis by (simp only: mod_mult_self2_is_0)
  qed
  moreover have "100 * (cy mod 64) mod 4 = 0"
  proof -
    have "100 * (cy mod 64) = 25 * (cy mod 64) * 4" by simp
    then show ?thesis by (simp only: mod_mult_self2_is_0)
  qed
  ultimately show ?thesis using cy by (auto simp: carry_steps_def)
qed

function down_carry :: "nat \<Rightarrow> digbuf \<Rightarrow> digbuf res" where
  "down_carry cy b =
     (if cy = 0 then Inr b
      else let lo = db_lo b; xi = db_xi b in
           if db_hi b = lo
           then rbind (xi_at xi (lo - 1)) (\<lambda>x. Inr (b\<lparr>db_xi := xi_set xi (lo - 1) (x OR 1)\<rparr>))
           else down_carry (100 * (cy mod 64)) (b\<lparr>db_xi := xi_set xi lo (cy div 64), db_lo := lo + 1\<rparr>))"
  by pat_completeness auto
termination by (relation "measure (\<lambda>(cy, _). carry_steps cy)") (auto simp: carry_steps_less)

declare down_carry.simps [simp del]

text \<open>
  When the only digit left becomes zero, \<^verbatim>\<open>hi\<close> catches up with \<^verbatim>\<open>lo\<close>, which the loop over the carry
  takes for a full buffer.
\<close>

definition scale_down :: "digbuf \<Rightarrow> digbuf res" where
  "scale_down b =
     rbind (down_digits (db_hi b) 0 (b\<lparr>db_ex2 := db_ex2 b + 6\<rparr>)) (\<lambda>(b, cy). down_carry cy b)"

text \<open>
  The two scaling loops with a bound on their rounds, \<open>Abort\<close> beyond it: a round changes the value
  by a factor of 64, and there are at most 172 digits to gain or lose.
\<close>

fun scale_loop :: "nat \<Rightarrow> digbuf \<Rightarrow> digbuf res" where
  "scale_loop 0 b = Inl Abort"
| "scale_loop (Suc n) b =
     (if db_idig b < 9 \<and> db_idig b < DLEN b then rbind (scale_up b) (scale_loop n) else Inr b)"

fun shrink_loop :: "nat \<Rightarrow> digbuf \<Rightarrow> digbuf res" where
  "shrink_loop 0 b = Inl Abort"
| "shrink_loop (Suc n) b =
     (if 9 < db_idig b then rbind (scale_down b) (shrink_loop n) else Inr b)"

text \<open>The integer part, then zeros or the round bit.\<close>

function int_part :: "digbuf \<Rightarrow> u9 \<Rightarrow> int \<Rightarrow> u64 \<Rightarrow> (u64 \<times> u9 \<times> int) res" where
  "int_part b i idig x =
     (let idig = idig - 1 in
      if 0 < idig \<and> i \<noteq> db_lo b
      then rbind (xi_at (db_xi b) i) (\<lambda>d. int_part b (i + 1) idig (x * 100 + word_of_nat d))
      else Inr (x, i, idig))"
  by pat_completeness auto
termination by (relation "measure (\<lambda>(_, _, idig, _). nat idig)") auto

fun times100 :: "nat \<Rightarrow> u64 \<Rightarrow> u64" where
  "times100 0 x = x"
| "times100 (Suc n) x = times100 n (x * 100)"

function round_digit :: "digbuf \<Rightarrow> u9 \<Rightarrow> bool res" where
  "round_digit b i =
     rbind (xi_at (db_xi b) i) (\<lambda>x.
     if x \<noteq> 0 then Inr True else if i + 1 \<noteq> db_lo b then round_digit b (i + 1) else Inr False)"
  by pat_completeness auto
termination
proof (relation "measure (\<lambda>(b, i). unat (db_lo b - (i + 1)))", goal_cases)
  case (2 b i)
  then have "db_lo b - (i + 1) \<noteq> 0" by simp
  then have "unat (db_lo b - (i + 1) - 1) < unat (db_lo b - (i + 1))" by (rule measure_unat)
  then show ?case by (simp add: algebra_simps)
qed simp

declare up_digits.simps [simp del] down_digits.simps [simp del] int_part.simps [simp del]
  round_digit.simps [simp del]

definition dec_double :: "digbuf \<Rightarrow> bool \<Rightarrow> u64 res" where
  "dec_double b neg =
     rbind (xi_at (db_xi b) (db_hi b)) (\<lambda>d.
     rbind (int_part b (db_hi b + 1) (db_idig b) (word_of_nat d)) (\<lambda>(x, i, idig).
      if i = db_lo b then Inr (strscan_double (times100 (nat idig) x) (db_ex2 b) neg)
      else rbind (round_digit b i) (\<lambda>r.
           Inr (strscan_double (push_bit 1 x OR (if r then 1 else 0)) (db_ex2 b - 1) neg))))"

definition dec_buf :: "nat list \<Rightarrow> int \<Rightarrow> digbuf" where
  "dec_buf xi idig =
     \<lparr>db_xi = map Some xi @ replicate (512 - length xi) None, db_hi = 0, db_lo = word_of_nat (length xi),
      db_idig = idig, db_ex2 = 0\<rparr>"

definition dec_slow :: "nat list \<Rightarrow> nat \<Rightarrow> int \<Rightarrow> bool \<Rightarrow> scanned" where
  "dec_slow xi fmt ex10 neg =
     (let idig = int (length xi) + ex10 div 2 in
      if 310 div 2 < idig
      then Inr (fmt, SNum (if neg then 0xfff0000000000000 else 0x7ff0000000000000))
      else if idig < - (326 div 2) then Inr (fmt, SNum (if neg then mzero else 0))
      else rbind (scale_loop 1024 (dec_buf xi idig)) (\<lambda>b.
           rbind (shrink_loop 1024 b) (\<lambda>b.
           rbind (dec_double b neg) (\<lambda>n. Inr (fmt, SNum n)))))"

definition strscan_dec :: "bytes \<Rightarrow> nat \<Rightarrow> u32 \<Rightarrow> int \<Rightarrow> bool \<Rightarrow> nat \<Rightarrow> scanned" where
  "strscan_dec p fmt opt ex10 neg dig =
     rbind (dec_collect p ex10 dig) (\<lambda>(xi, ex10, dig).
     let slow = (\<lambda>fmt.
           if fmt = STRSCAN_INT
           then if opt_set opt STRSCAN_OPT_C then scan_error else dec_slow xi STRSCAN_NUM ex10 neg
           else if STRSCAN_INT < fmt then scan_error
           else dec_slow xi fmt ex10 neg);
         x = base100 xi in
     if dig \<le> 20 \<and> ex10 = 0 \<and> \<not> (dig = 20 \<and> (18 < xi ! 0 \<or> 0 <=s x))
     then case switch_int (drop_bit 32 x = 0) dig fmt opt x neg dig of
            Inr r \<Rightarrow> Inr r
          | Inl fmt \<Rightarrow>
              if x <s 0 then slow fmt
              else Inr (fmt, SNum (if neg then num_uminus (i64_num x) else i64_num x))
     else slow fmt)"

section \<open>The scanner\<close>

text \<open>\<^verbatim>\<open>inf\<close>, \<^verbatim>\<open>infinity\<close> and \<^verbatim>\<open>nan\<close>, behind space and sign.\<close>

definition at :: "bytes \<Rightarrow> nat \<Rightarrow> u8" where "at p i = cur (drop i p)"

definition case_prefix :: "bytes \<Rightarrow> bytes \<Rightarrow> bool" where
  "case_prefix w p = list_all (\<lambda>i. casecmp (at p i) (w ! i)) [0 ..< length w]"

definition scan_word :: "bytes \<Rightarrow> bool \<Rightarrow> scanned" where
  "scan_word p neg =
     (let (p, tmp) =
        (if case_prefix [0x69, 0x6e, 0x66] p
         then let p = drop 3 p;
                  p = (if case_prefix [0x69, 0x6e, 0x69, 0x74, 0x79] p then drop 5 p else p)
              in (p, if neg then 0xfff0000000000000 else 0x7ff0000000000000)
         else if case_prefix [0x6e, 0x61, 0x6e] p then (drop 3 p, 0xfff8000000000000)
         else (p, 0xfff8000000000000))
      in if cur (skip_space p) \<noteq> 0 then scan_error else Inr (STRSCAN_NUM, SNum tmp))"

text \<open>
  Leading zeros, then the digits; \<open>dp\<close> is the position of the point, a second point is an
  error (\<open>None\<close>).
\<close>

fun scan_zeros :: "bytes \<Rightarrow> bool \<Rightarrow> bytes option \<Rightarrow> (bytes \<times> bool \<times> bytes option) option" where
  "scan_zeros [] hasdig dp = Some ([], hasdig, dp)"
| "scan_zeros (c # p) hasdig dp =
     (if c = 0x30 then scan_zeros p True dp
      else if c = 0x2e then (if dp \<noteq> None then None else scan_zeros p hasdig (Some (c # p)))
      else Some (c # p, hasdig, dp))"

fun scan_digits :: "nat \<Rightarrow> bytes \<Rightarrow> u32 \<Rightarrow> nat \<Rightarrow> bytes option \<Rightarrow> (bytes \<times> u32 \<times> nat \<times> bytes option) option" where
  "scan_digits cmask [] x dig dp = Some ([], x, dig, dp)"
| "scan_digits cmask (c # p) x dig dp =
     (if lj_char_isa (uint c) cmask \<noteq> 0
      then scan_digits cmask p (x * 10 + (ucast c AND 15)) (dig + 1) dp
      else if c = 0x2e then (if dp \<noteq> None then None else scan_digits cmask p x dig (Some (c # p)))
      else Some (c # p, x, dig, dp))"

text \<open>\<^verbatim>\<open>while (ex < 0 && *dp-- == '0') ex++, dig--;\<close> over the characters before \<^verbatim>\<open>p\<close>, last first.\<close>

fun skip_trailing :: "bytes \<Rightarrow> int \<Rightarrow> nat \<Rightarrow> int \<times> nat" where
  "skip_trailing (c # r) ex dig =
     (if ex < 0 \<and> c = 0x30 then skip_trailing r (ex + 1) (dig - 1) else (ex, dig))"
| "skip_trailing [] ex dig = (ex, dig)"

fun exp_digits :: "bytes \<Rightarrow> nat \<Rightarrow> bytes \<times> nat" where
  "exp_digits [] xx = ([], xx)"
| "exp_digits (c # p) xx =
     (if lj_char_isdigit (uint c) then exp_digits p (if xx < 65536 then xx * 10 + dval c else xx)
      else (c # p, xx))"

definition scan_exp :: "bytes \<Rightarrow> (bytes \<times> int) option" where
  "scan_exp p =
     (let negx = (cur p = 0x2d); p = (if cur p = 0x2b \<or> cur p = 0x2d then tl p else p) in
      if \<not> lj_char_isdigit (uint (cur p)) then None
      else case exp_digits (tl p) (dval (cur p)) of (p, xx) \<Rightarrow> Some (p, if negx then - int xx else int xx))"

text \<open>The suffix: the format, and nothing but space behind it.\<close>

definition scan_suffix :: "bytes \<Rightarrow> u32 \<Rightarrow> nat \<Rightarrow> nat option" where
  "scan_suffix p opt fmt =
     (if cur p = 0 then Some fmt
      else
      let r = (if casecmp (cur p) 0x69
               then if \<not> opt_set opt STRSCAN_OPT_IMAG then None else Some (tl p, STRSCAN_IMAG)
               else if fmt = STRSCAN_INT
               then let (p, fmt) = (if casecmp (cur p) 0x75 then (tl p, STRSCAN_U32) else (p, fmt)) in
                    case (if casecmp (cur p) 0x6c
                          then let p = tl p in
                               if casecmp (cur p) 0x6c then Some (tl p, fmt + (STRSCAN_I64 - STRSCAN_INT))
                               else if \<not> opt_set opt STRSCAN_OPT_C then None
                               else Some (p, fmt)
                          else Some (p, fmt)) of
                      None \<Rightarrow> None
                    | Some (p, fmt) \<Rightarrow>
                        let (p, fmt) =
                          (if casecmp (cur p) 0x75 \<and> (fmt = STRSCAN_INT \<or> fmt = STRSCAN_I64)
                           then (tl p, fmt + (STRSCAN_U32 - STRSCAN_INT)) else (p, fmt)) in
                        if (fmt = STRSCAN_U32 \<and> \<not> opt_set opt STRSCAN_OPT_C) \<or>
                           (STRSCAN_I64 \<le> fmt \<and> \<not> opt_set opt STRSCAN_OPT_LL)
                        then None else Some (p, fmt)
               else Some (p, fmt))
      in case r of None \<Rightarrow> None | Some (p, fmt) \<Rightarrow> if cur (skip_space p) \<noteq> 0 then None else Some fmt)"

text \<open>The conversion of the digits at \<open>sp\<close>, once the whole string is known to be a number.\<close>

definition scan_fast :: "bytes \<Rightarrow> u32 \<Rightarrow> bool \<Rightarrow> u32 \<Rightarrow> nat \<Rightarrow> nat \<Rightarrow> nat \<Rightarrow> bool" where
  "scan_fast sp opt neg x dig fmt base \<longleftrightarrow>
     fmt = STRSCAN_INT \<and> base = 10 \<and>
     (dig < 10 \<or> (dig = 10 \<and> cur sp \<le> 0x32 \<and> x < 0x80000000 + (if neg then 1 else 0)))"

definition scan_toint :: "u32 \<Rightarrow> nat \<times> scanval \<Rightarrow> nat \<times> scanval" where
  "scan_toint opt r =
     (case r of
        (fmt, SNum n) \<Rightarrow>
          if fmt = STRSCAN_NUM \<and> opt_set opt STRSCAN_OPT_TOINT \<and> num_eq n (int2num (lj_num2int n))
          then (STRSCAN_INT, SInt (lj_num2int n)) else r
      | _ \<Rightarrow> r)"

definition scan_dispatch :: "bytes \<Rightarrow> u32 \<Rightarrow> int \<Rightarrow> bool \<Rightarrow> u32 \<Rightarrow> nat \<Rightarrow> nat \<Rightarrow> nat \<Rightarrow> scanned" where
  "scan_dispatch sp opt ex neg x dig fmt base =
     (if scan_fast sp opt neg x dig fmt base
      then let y = neg32 neg x in
           if opt_set opt STRSCAN_OPT_TONUM then Inr (STRSCAN_NUM, SNum (int2num y))
           else Inr (STRSCAN_INT, SInt y)
      else if base = 0 \<and> \<not> (fmt = STRSCAN_NUM \<or> fmt = STRSCAN_IMAG) then strscan_oct sp fmt neg dig
      else rbind (if base = 16 then strscan_hex sp fmt opt ex neg dig
                  else if base = 2 then strscan_bin sp fmt opt ex neg dig
                  else strscan_dec sp fmt opt ex neg dig)
             (\<lambda>r. Inr (scan_toint opt r)))"

definition scan_base :: "bytes \<Rightarrow> nat \<Rightarrow> nat \<times> nat \<times> bytes" where
  "scan_base p base =
     (if cur p = 0x30
      then if casecmp (at p 1) 0x78 then (16, LJ_CHAR_XDIGIT, drop 2 p)
           else if casecmp (at p 1) 0x62 then (2, LJ_CHAR_DIGIT, drop 2 p)
           else (base, LJ_CHAR_DIGIT, p)
      else (base, LJ_CHAR_DIGIT, p))"

text \<open>
  The decimal point, the exponent and the suffix.  \<open>s\<close> is the start of the number, behind
  space and sign, \<open>sp\<close> the first digit that counts, and \<open>p\<close> the end of the digits.
\<close>

definition scan_point :: "bytes \<Rightarrow> nat \<Rightarrow> bytes \<Rightarrow> nat \<Rightarrow> bytes option \<Rightarrow> nat \<times> int \<times> nat" where
  "scan_point s base p dig dp =
     (case dp of
        None \<Rightarrow> (STRSCAN_INT, 0, dig)
      | Some q \<Rightarrow>
          if dig = 0 then (STRSCAN_NUM, 0, dig)
          else let (ex, dig) = skip_trailing (rev (take (length s - length p) s))
                                 (int (length p) + 1 - int (length q)) dig
               in (STRSCAN_NUM, if base = 16 then ex * 4 else ex, dig))"

definition scan_exponent :: "nat \<Rightarrow> bytes \<Rightarrow> nat \<Rightarrow> int \<Rightarrow> (bytes \<times> nat \<times> int) option" where
  "scan_exponent base p fmt ex =
     (if 10 \<le> base \<and> casecmp (cur p) (if base = 16 then 0x70 else 0x65)
      then map_option (\<lambda>(p, e). (p, STRSCAN_NUM, ex + e)) (scan_exp (tl p))
      else Some (p, fmt, ex))"

definition scan_rest ::
  "bytes \<Rightarrow> u32 \<Rightarrow> bool \<Rightarrow> nat \<Rightarrow> bytes \<Rightarrow> bytes \<Rightarrow> u32 \<Rightarrow> nat \<Rightarrow> bytes option \<Rightarrow> scanned" where
  "scan_rest s opt neg base sp p x dig dp =
     (let (fmt, ex, dig) = scan_point s base p dig dp in
      case scan_exponent base p fmt ex of
        None \<Rightarrow> scan_error
      | Some (p, fmt, ex) \<Rightarrow>
          (case scan_suffix p opt fmt of
             None \<Rightarrow> scan_error
           | Some fmt \<Rightarrow> scan_dispatch sp opt ex neg x dig fmt base))"

definition scan_number :: "bytes \<Rightarrow> u32 \<Rightarrow> bool \<Rightarrow> scanned" where
  "scan_number s opt neg =
     (let base = (if opt_set opt STRSCAN_OPT_C \<and> cur s = 0x30 then 0 else 10);
          (base, cmask, p) = (if cur s \<le> 0x30 then scan_base s base else (base, LJ_CHAR_DIGIT, s)) in
      case (if cur s \<le> 0x30 then scan_zeros p False None else Some (p, False, None)) of
        None \<Rightarrow> scan_error
      | Some (sp, hasdig, dp) \<Rightarrow>
          (case scan_digits cmask sp 0 0 dp of
             None \<Rightarrow> scan_error
           | Some (p, x, dig, dp) \<Rightarrow>
               if \<not> hasdig \<and> dig = 0 then scan_error
               else scan_rest s opt neg base sp p x dig dp))"

definition lj_strscan_scan :: "bytes \<Rightarrow> u32 \<Rightarrow> scanned" where
  "lj_strscan_scan p opt =
     (if \<not> lj_char_isdigit (uint (cur p))
      then let p = skip_space p;
               neg = (cur p = 0x2d);
               p = (if cur p = 0x2b \<or> cur p = 0x2d then tl p else p)
           in if 0x41 \<le> cur p then scan_word p neg else scan_number p opt neg
      else scan_number p opt False)"

text \<open>
  The entry points.  \<^verbatim>\<open>LJ_DUALNUM\<close> is 0 on this target, so \<^verbatim>\<open>lj_strscan_number\<close> is
  \<^verbatim>\<open>lj_strscan_num\<close>.
\<close>

definition lj_strscan_num :: "bytes \<Rightarrow> u64 option res" where
  "lj_strscan_num str =
     rbind (lj_strscan_scan str STRSCAN_OPT_TONUM) (\<lambda>r.
     case r of
       (fmt, SNum n) \<Rightarrow> Inr (if fmt \<noteq> STRSCAN_ERROR then Some n else None)
     | (fmt, _) \<Rightarrow> if fmt = STRSCAN_ERROR then Inr None else Inl Abort)"

end
