(* ===== verification/StrscanRound.thy ===== *)
theory StrscanRound
  imports Strscan
begin

text \<open>
  \<^verbatim>\<open>strscan_double\<close> rounds once: whatever it does to denormals, the result is the double
  nearest to \<open>x * 2 ^ ex2\<close>.
\<close>

section \<open>Rounding\<close>

lemma rne_0 [simp]: "rne m 0 = m"
  by (simp add: rne_def)

lemma rne_mult [simp]: "rne (n * 2 ^ j) j = n"
  by (simp add: rne_def)

lemma rne_exact: "j \<le> k \<Longrightarrow> rne (m * 2 ^ k) j = m * 2 ^ (k - j)"
proof -
  assume "j \<le> k"
  then have e: "m * 2 ^ k = (m * 2 ^ (k - j)) * 2 ^ j" by (simp add: power_add [symmetric])
  show ?thesis unfolding e by (rule rne_mult)
qed

lemma rne_scale: "rne (m * 2 ^ j) (k + j) = rne m k"
proof -
  have d: "m * 2 ^ j div 2 ^ (k + j) = m div 2 ^ k" by (simp add: power_add)
  have r: "m * 2 ^ j mod 2 ^ (k + j) = (m mod 2 ^ k) * 2 ^ j" by (simp add: power_add mult_mod_left)
  have a: "2 ^ (k + j) < 2 * (m mod 2 ^ k * 2 ^ j) \<longleftrightarrow> 2 ^ k < 2 * (m mod 2 ^ k)"
    using mult_less_cancel2 [of "2 ^ k" "2 ^ j" "2 * (m mod 2 ^ k)"] by (simp add: power_add mult.assoc)
  have b: "2 ^ (k + j) = 2 * (m mod 2 ^ k * 2 ^ j) \<longleftrightarrow> 2 ^ k = 2 * (m mod 2 ^ k)"
    using mult_cancel2 [of "2 ^ k" "2 ^ j" "2 * (m mod 2 ^ k)"] by (simp add: power_add mult.assoc)
  show ?thesis unfolding rne_def Let_def d r a b ..
qed

lemma rne_bounds: "m div 2 ^ k \<le> rne m k" "rne m k \<le> m div 2 ^ k + 1"
  by (simp_all add: rne_def Let_def)

lemma rne_small: "2 * m \<le> 2 ^ k \<Longrightarrow> 0 < k \<Longrightarrow> rne m k = 0"
proof -
  assume a: "2 * m \<le> 2 ^ k" "0 < k"
  have "(0::nat) < 2 ^ k" by simp
  then have "m < 2 ^ k" using a(1) by linarith
  then show ?thesis using a by (simp add: rne_def Let_def)
qed

lemma fls_scale: "0 < m \<Longrightarrow> fls (m * 2 ^ j) = fls m + j"
proof -
  assume "0 < m"
  then have b: "2 ^ fls m \<le> m" "m < 2 ^ Suc (fls m)" using fls_bounds by auto
  have "2 ^ fls m * 2 ^ j \<le> m * 2 ^ j" "m * 2 ^ j < 2 ^ Suc (fls m) * 2 ^ j"
    using b by (simp_all del: power_Suc)
  then show ?thesis by (intro fls_unique) (simp_all only: power_add [symmetric] add_Suc)
qed

lemma fls_le: "0 < m \<Longrightarrow> m < 2 ^ Suc k \<Longrightarrow> fls m \<le> k"
  using fls_less [of m "Suc k"] by simp

lemma last_place_scale: "0 < m \<Longrightarrow> last_place (m * 2 ^ j) e = last_place m (e + int j)"
  by (simp add: last_place_def fls_scale algebra_simps)

lemma scaled_scale: "scaled (m * 2 ^ j) e q = scaled m (e + int j) q"
proof -
  consider "q \<le> e" | "e < q" "q \<le> e + int j" | "e + int j < q" by linarith
  then show ?thesis
  proof cases
    case 1
    have "nat (e + int j - q) = j + nat (e - q)" using 1 by simp
    then show ?thesis using 1 by (simp add: scaled_def power_add)
  next
    case 2
    have "nat (e + int j - q) = j - nat (q - e)" "nat (q - e) \<le> j" using 2 by simp_all
    then show ?thesis using 2 by (simp add: scaled_def rne_exact)
  next
    case 3
    have "nat (q - e) = nat (q - (e + int j)) + j" using 3 by simp
    then show ?thesis using 3 by (simp add: scaled_def rne_scale)
  qed
qed

lemma magnitude_scale: "magnitude (m * 2 ^ j) e = magnitude m (e + int j)"
  by (cases "m = 0") (simp_all add: magnitude_def Let_def last_place_scale scaled_scale)

lemma magnitude_le: "magnitude m e \<le> 2047 * 2 ^ 52"
  by (simp add: magnitude_def Let_def)

lemma magnitude_0 [simp]: "magnitude 0 e = 0"
  by (simp add: magnitude_def)

lemma magnitude_small:
  "0 < m \<Longrightarrow> int (fls m) + e \<le> - 1022 \<Longrightarrow> scaled m e (- 1074) \<le> 2 ^ 53 \<Longrightarrow>
    magnitude m e = scaled m e (- 1074)"
proof -
  assume a: "0 < m" "int (fls m) + e \<le> - 1022" "scaled m e (- 1074) \<le> 2 ^ 53"
  have "last_place m e = - 1074" using a(2) by (simp add: last_place_def)
  then show ?thesis using a(1,3) by (simp add: magnitude_def Let_def)
qed

section \<open>Doubles and their parts\<close>

lemma unat_round_num: "unat (round_num neg m e) = (if neg then 2 ^ 63 else 0) + magnitude m e"
proof -
  have "magnitude m e \<le> 2047 * 2 ^ 52" by (rule magnitude_le)
  also have "2047 * 2 ^ 52 < (2 ^ 63 :: nat)" by simp
  finally have "(if neg then 2 ^ 63 else 0) + magnitude m e < 2 ^ 64" by (simp split: if_splits)
  then show ?thesis unfolding round_num_def by (intro unat_of_nat_eq) simp
qed

lemma round_num_eq: "magnitude m e = magnitude m' e' \<Longrightarrow> round_num neg m e = round_num neg m' e'"
  by (simp add: round_num_def)

lemma flip_add: "\<not> bit w 63 \<Longrightarrow> flip_bit 63 w = w + push_bit 63 (1 :: u64)"
proof -
  assume n: "\<not> bit w 63"
  have b: "bit (push_bit 63 (1 :: u64)) i \<longleftrightarrow> i = 63" for i
    unfolding bit_push_bit_iff bit_1_iff possible_bit_word by auto
  have "w AND push_bit 63 1 = 0"
    using n by (intro bit_word_eqI) (auto simp only: b bit_and_iff bit_0_eq bot_apply bot_bool_def)
  then have "w + push_bit 63 1 = w OR push_bit 63 1" by (rule disjunctive_add_eq_or)
  then show ?thesis unfolding flip_bit_eq_xor
    using n by (simp only:) (intro bit_word_eqI, auto simp only: b bit_or_iff bit_xor_iff)
qed

lemma num_uminus_round: "num_uminus (round_num False m e) = round_num True m e"
proof -
  have "magnitude m e < 2 ^ 63" using magnitude_le [of m e] by simp
  then have "unat (round_num False m e) < 2 ^ 63" by (simp add: unat_round_num)
  then have "\<not> bit (round_num False m e) 63" using bit_less_exp [of "round_num False m e" 63 63] by auto
  then have "num_uminus (round_num False m e) = round_num False m e + push_bit 63 1"
    unfolding num_uminus_def by (rule flip_add)
  then show ?thesis by (simp add: round_num_def push_bit_eq_mult add.commute)
qed

lemma round_num_parts:
  "num_neg (round_num neg m e) = neg" "num_exp (round_num neg m e) = magnitude m e div 2 ^ 52"
  "num_man (round_num neg m e) = magnitude m e mod 2 ^ 52"
proof -
  have m: "magnitude m e \<le> 2047 * 2 ^ 52" by (rule magnitude_le)
  then have lt: "magnitude m e < 2 ^ 63" by simp
  show "num_neg (round_num neg m e) = neg" using lt by (simp add: num_neg_def unat_round_num)
  have "(if neg then 2 ^ 63 else 0) + magnitude m e = (if neg then 2 ^ 11 else 0) * 2 ^ 52 + magnitude m e"
    by simp
  then have u: "unat (round_num neg m e) = (if neg then 2 ^ 11 else 0) * 2 ^ 52 + magnitude m e"
    by (simp only: unat_round_num)
  show "num_man (round_num neg m e) = magnitude m e mod 2 ^ 52" unfolding num_man_def u by (rule mod_mult_self3)
  have "magnitude m e div 2 ^ 52 \<le> 2047" using m by (simp add: div_le_mono [of _ "2047 * 2 ^ 52", simplified])
  moreover have d: "(a * 2 ^ 52 + magnitude m e) div 2 ^ 52 = a + magnitude m e div 2 ^ 52" for a
    by (rule div_mult_self3) simp
  ultimately show "num_exp (round_num neg m e) = magnitude m e div 2 ^ 52"
    unfolding num_exp_def u d by (cases neg) simp_all
qed

text \<open>The parts of the conversion of a positive integer.\<close>

definition cplace :: "nat \<Rightarrow> int" where "cplace x = int (fls x) - 52"
definition cmant :: "nat \<Rightarrow> nat" where "cmant x = scaled x 0 (cplace x)"

lemma div_fls:
  assumes "0 < x" "52 < fls x"
  shows "2 ^ 52 \<le> x div 2 ^ (fls x - 52)" "x div 2 ^ (fls x - 52) < 2 ^ 53"
proof -
  have b: "2 ^ fls x \<le> x" "x < 2 ^ Suc (fls x)" using fls_bounds [OF assms(1)] by auto
  have "(2::nat) ^ fls x = 2 ^ 52 * 2 ^ (fls x - 52)" "(2::nat) ^ Suc (fls x) = 2 ^ 53 * 2 ^ (fls x - 52)"
    using assms(2) by (simp_all only: power_add [symmetric]) simp_all
  with b have b': "2 ^ 52 * 2 ^ (fls x - 52) \<le> x" "x < 2 ^ 53 * 2 ^ (fls x - 52)" by simp_all
  show "2 ^ 52 \<le> x div 2 ^ (fls x - 52)" using div_le_mono [OF b'(1), of "2 ^ (fls x - 52)"] by simp
  show "x div 2 ^ (fls x - 52) < 2 ^ 53" by (rule less_mult_imp_div_less [OF b'(2)])
qed

lemma cmant_bounds:
  assumes "0 < x"
  shows "2 ^ 52 \<le> cmant x" "cmant x \<le> 2 ^ 53"
proof -
  have b: "2 ^ fls x \<le> x" "x < 2 ^ Suc (fls x)" using fls_bounds [OF assms] by auto
  have "2 ^ 52 \<le> cmant x \<and> cmant x \<le> 2 ^ 53"
  proof (cases "fls x \<le> 52")
    case True
    have c: "cmant x = x * 2 ^ (52 - fls x)"
      using True by (simp add: cmant_def cplace_def scaled_def nat_diff_distrib nat_minus_as_int [symmetric])
    have "2 ^ fls x * 2 ^ (52 - fls x) \<le> cmant x" "cmant x < 2 ^ Suc (fls x) * 2 ^ (52 - fls x)"
      unfolding c using b by (simp_all del: power_Suc)
    then show ?thesis using True by (simp add: power_add [symmetric] del: power_Suc)
  next
    case False
    then have "cmant x = rne x (fls x - 52)" by (simp add: cmant_def cplace_def scaled_def nat_diff_distrib)
    then show ?thesis using rne_bounds [of x "fls x - 52"] div_fls [OF assms] False by simp
  qed
  then show "2 ^ 52 \<le> cmant x" "cmant x \<le> 2 ^ 53" by simp_all
qed

lemma magnitude_int:
  assumes "0 < x" "fls x < 64"
  shows "magnitude x 0 = (fls x + 1022) * 2 ^ 52 + cmant x"
proof -
  have "last_place x 0 = cplace x" by (simp add: last_place_def cplace_def)
  moreover have "nat (cplace x + 1074) = fls x + 1022" by (simp add: cplace_def)
  moreover have "(fls x + 1022) * 2 ^ 52 + cmant x \<le> 2047 * 2 ^ 52"
    using cmant_bounds(2) [OF assms(1)] assms(2) by simp
  ultimately show ?thesis using assms(1) by (simp add: magnitude_def cmant_def)
qed

text \<open>\<^verbatim>\<open>ldexp\<close> on the conversion of an integer.\<close>

lemma ldexp_int:
  assumes "0 < x" "fls x < 64"
  shows "ldexp (round_num neg x 0) k = round_num neg (cmant x) (cplace x + k)"
proof -
  let ?n = "round_num neg x 0"
  note mag = magnitude_int [OF assms] and cb = cmant_bounds [OF assms(1)]
  show ?thesis
  proof (cases "cmant x = 2 ^ 53")
    case True
    have "magnitude x 0 = (fls x + 1024) * 2 ^ 52" using True by (simp add: mag)
    then have e: "num_exp ?n = fls x + 1024" "num_man ?n = 0" by (simp_all add: round_num_parts)
    then have "num_mant ?n = 2 ^ 52" "num_place ?n = cplace x + 1" by (simp_all add: num_mant_def num_place_def cplace_def)
    moreover have "magnitude (2 ^ 52) (cplace x + 1 + k) = magnitude (cmant x) (cplace x + k)"
      using magnitude_scale [of "2 ^ 52" 1 "cplace x + k"] True by (simp add: algebra_simps)
    then have "round_num neg (2 ^ 52) (cplace x + 1 + k) = round_num neg (cmant x) (cplace x + k)"
      by (rule round_num_eq)
    ultimately show ?thesis using e(1) assms(2) by (simp add: ldexp_def round_num_parts(1))
  next
    case False
    then have lt: "cmant x - 2 ^ 52 < 2 ^ 52" using cb by simp
    have "magnitude x 0 = (fls x + 1023) * 2 ^ 52 + (cmant x - 2 ^ 52)" using cb(1) by (simp add: mag)
    then have e: "num_exp ?n = fls x + 1023" "num_man ?n = cmant x - 2 ^ 52"
      using lt by (simp_all only: round_num_parts div_mult_self3 mod_mult_self3 div_less mod_less)
    then have "num_mant ?n = cmant x" "num_place ?n = cplace x"
      using cb(1) by (simp_all add: num_mant_def num_place_def cplace_def)
    then show ?thesis using e(1) assms(2) by (simp add: ldexp_def round_num_parts)
  qed
qed

section \<open>One rounding\<close>

lemma fls_unat: "0 < unat (x :: u64) \<Longrightarrow> fls (unat x) < 64"
  using fls_less [of "unat x" 64] u64_less [of x] by simp

text \<open>A conversion that is exact.\<close>

lemma cmant_exact:
  assumes "0 < x" "2 ^ (fls x - 52) dvd x"
  shows "magnitude (cmant x) (cplace x + k) = magnitude x k"
proof (cases "fls x \<le> 52")
  case True
  then have "cmant x = x * 2 ^ (52 - fls x)" by (simp add: cmant_def cplace_def scaled_def nat_minus_as_int)
  moreover have "cplace x + k + int (52 - fls x) = k" using True by (simp add: cplace_def)
  ultimately show ?thesis by (simp only: magnitude_scale)
next
  case False
  obtain y where y: "x = y * 2 ^ (fls x - 52)" using assms(2) by (auto simp: mult.commute elim: dvdE)
  have "cmant x = rne x (fls x - 52)" using False by (simp add: cmant_def cplace_def scaled_def nat_minus_as_int)
  then have c: "cmant x = y" by (subst (asm) y) simp
  have "magnitude x k = magnitude y (k + int (fls x - 52))" by (subst y) (rule magnitude_scale)
  moreover have "cplace x + k = k + int (fls x - 52)" using False by (simp add: cplace_def)
  ultimately show ?thesis by (simp only: c)
qed

text \<open>A result in the normal range keeps the rounding of the conversion.\<close>

lemma cmant_normal:
  assumes "0 < x" "52 < fls x" "- 1022 \<le> int (fls x) + k"
  shows "magnitude (cmant x) (cplace x + k) = magnitude x k"
proof -
  let ?q = "cplace x + k"
  note cb = cmant_bounds [OF assms(1)]
  have q: "- 1074 \<le> ?q" using assms(3) by (simp add: cplace_def)
  have "last_place x k = ?q" using assms(3) by (simp add: last_place_def cplace_def)
  moreover have "scaled x k ?q = cmant x"
    using assms(2) by (simp add: cmant_def scaled_def cplace_def)
  ultimately have x: "magnitude x k = min (nat (?q + 1074) * 2 ^ 52 + cmant x) (2047 * 2 ^ 52)"
    using assms(1) by (simp add: magnitude_def)
  show ?thesis
  proof (cases "cmant x = 2 ^ 53")
    case True
    have "fls (2 ^ 53 :: nat) = 53" by (rule fls_unique) simp_all
    then have "last_place (cmant x) ?q = ?q + 1" using q by (simp add: True last_place_def)
    moreover have "scaled (cmant x) ?q (?q + 1) = 2 ^ 52"
      unfolding True scaled_def using rne_exact [of 1 53 1] by simp
    moreover have "nat (?q + 1 + 1074) * 2 ^ 52 + 2 ^ 52 = nat (?q + 1074) * 2 ^ 52 + cmant x"
    proof -
      have "nat (?q + 1 + 1074) = nat (?q + 1074) + 1" using q by simp
      then show ?thesis by (simp add: True)
    qed
    ultimately show ?thesis unfolding x True by (simp add: magnitude_def)
  next
    case False
    then have "fls (cmant x) = 52" using cb by (intro fls_unique) simp_all
    then have "last_place (cmant x) ?q = ?q" using q by (simp add: last_place_def)
    then show ?thesis using cb unfolding x by (simp add: magnitude_def scaled_def)
  qed
qed

text \<open>A result below half of the least denormal is zero however it is rounded.\<close>

lemma cmant_tiny:
  assumes "0 < x" "int (fls x) + k < - 1075"
  shows "magnitude (cmant x) (cplace x + k) = 0" "magnitude x k = 0"
proof -
  have x: "x < 2 ^ Suc (fls x)" using fls_bounds [OF assms(1)] by simp
  have z: "magnitude m e = 0" if m: "0 < m" "int (fls m) + e \<le> - 1022" and k: "e < - 1074" "2 * m \<le> 2 ^ nat (- 1074 - e)" for m e
  proof -
    have "scaled m e (- 1074) = 0" using k rne_small [of m "nat (- 1074 - e)"] by (simp add: scaled_def)
    then show ?thesis using magnitude_small [OF m] by simp
  qed
  have "2 * x \<le> 2 ^ Suc (Suc (fls x))" using x by simp
  also have "\<dots> \<le> 2 ^ nat (- 1074 - k)" by (rule power_increasing) (use assms(2) in simp_all)
  finally show "magnitude x k = 0" using assms by (intro z) simp_all
  note cb = cmant_bounds [OF assms(1)]
  have "fls (cmant x) \<le> 53" using cb by (intro fls_le) simp_all
  moreover have "2 * cmant x \<le> 2 ^ 54" using cb by simp
  then have "2 * cmant x \<le> 2 ^ nat (- 1074 - (cplace x + k))"
    by (rule order_trans) (rule power_increasing, use assms(2) in \<open>simp_all add: cplace_def\<close>)
  ultimately show "magnitude (cmant x) (cplace x + k) = 0"
    using assms(2) cb by (intro z) (simp_all add: cplace_def)
qed

text \<open>The treatment of denormals rounds to the last place of the denormals.\<close>

lemma fls64_eq: "fls64 x = fls (unat x)"
proof (cases "drop_bit 32 x = 0")
  case True
  then have "unat x div 2 ^ 32 = 0" by (metis unat_drop_bit unat_0)
  then have "unat x < 2 ^ 32" by (simp add: div_eq_0_iff)
  then have "unat (ucast x :: u32) = unat x" by (simp add: unsigned_ucast_eq take_bit_nat_eq_self)
  then show ?thesis using True by (simp add: fls64_def lj_fls_def)
next
  case False
  let ?h = "unat x div 2 ^ 32"
  have h: "unat (drop_bit 32 x) = ?h" by (rule unat_drop_bit)
  have h32: "?h < 2 ^ 32" using u64_less [of x] by (simp add: less_mult_imp_div_less)
  then have u: "unat (ucast (drop_bit 32 x) :: u32) = ?h"
    by (simp only: unsigned_ucast_eq h) (simp add: take_bit_nat_eq_self)
  have h0: "0 < ?h" using False h by (metis gr0I unat_eq_zero)
  have b: "2 ^ fls ?h \<le> ?h" "?h < 2 ^ Suc (fls ?h)" using fls_bounds [OF h0] by auto
  have "unat x = ?h * 2 ^ 32 + unat x mod 2 ^ 32" "unat x mod 2 ^ 32 < 2 ^ 32" by simp_all
  then have x: "?h * 2 ^ 32 \<le> unat x" "unat x < (?h + 1) * 2 ^ 32"
    unfolding distrib_right by linarith+
  have "2 ^ fls ?h * 2 ^ 32 \<le> ?h * (2 ^ 32 :: nat)" "(?h + 1) * 2 ^ 32 \<le> 2 ^ Suc (fls ?h) * (2 ^ 32 :: nat)"
    using b by (intro mult_le_mono1; simp)+
  then have "2 ^ (fls ?h + 32) \<le> unat x" "unat x < 2 ^ Suc (fls ?h + 32)"
    using x by (simp_all only: power_add [symmetric] add_Suc)
  then have "fls (unat x) = fls ?h + 32" by (rule fls_unique)
  then show ?thesis using False by (simp add: fls64_def lj_fls_def u)
qed

lemma and_not_mask: "y AND NOT (mask n) = push_bit n (drop_bit n (y :: 'a::len word))"
  by (rule bit_word_eqI) (auto simp: bit_simps)

lemma rne_round_bit:
  "rne m (Suc s) = m div 2 ^ Suc s + (if odd (m div 2 ^ s) \<and> (odd (m div 2 ^ Suc s) \<or> m mod 2 ^ s \<noteq> 0) then 1 else 0)"
proof -
  define p d t where "p = (2::nat) ^ s" and "d = m div 2 ^ s" and "t = m mod 2 ^ s"
  have r: "m mod 2 ^ Suc s = p * (d mod 2) + t"
    using mod_mult2_eq [of m p 2] by (simp add: p_def d_def t_def mult.commute)
  have t: "t < p" by (simp add: t_def p_def)
  have "(2 ^ Suc s < 2 * (m mod 2 ^ Suc s) \<or> 2 ^ Suc s = 2 * (m mod 2 ^ Suc s) \<and> odd (m div 2 ^ Suc s)) \<longleftrightarrow>
      odd d \<and> (odd (m div 2 ^ Suc s) \<or> t \<noteq> 0)"
    unfolding r unfolding power_Suc p_def [symmetric] using t by (cases "odd d") (auto simp: odd_iff_mod_2_eq_one)
  then show ?thesis unfolding rne_def Let_def d_def [symmetric] t_def [symmetric] by simp
qed

lemma of_nat_unat_self: "word_of_nat (unat w) = w"
  by simp

lemma unat_push_drop: "unat (push_bit n (drop_bit n (y :: 'a::len word))) = unat y div 2 ^ n * 2 ^ n"
proof -
  have "unat y div 2 ^ n * 2 ^ n \<le> unat y" by (rule div_times_less_eq_dividend)
  also have "unat y < 2 ^ LENGTH('a)" by simp
  finally show ?thesis
    by (simp only: unsigned_push_bit_eq unat_drop_bit) (simp add: push_bit_eq_mult take_bit_nat_eq_self)
qed

lemma denormal_word:
  fixes x :: u64
  assumes s: "s \<le> 61" and x: "unat x < 2 ^ 62"
  defines "rb \<equiv> push_bit s (1 :: u64)"
  shows "(if x AND rb \<noteq> 0 \<and> x AND (rb + rb + rb - 1) \<noteq> 0 then x + (rb + rb) else x) AND NOT (rb + rb - 1) =
    word_of_nat (rne (unat x) (Suc s) * 2 ^ Suc s)"
proof -
  let ?X = "unat x" and ?S = "Suc s"
  have exp: "unat (2 ^ n :: u64) = 2 ^ n" if "n < 64" for n
  proof -
    have "(2::nat) ^ n < 2 ^ LENGTH(64)" using that by (intro power_strict_increasing) simp_all
    then show ?thesis using unat_of_nat_eq [of "2 ^ n", where 'a = 64] by (simp only: of_nat_power of_nat_numeral)
  qed
  have P: "x AND 2 ^ n = 0 \<longleftrightarrow> \<not> bit x n" if "n < 64" for n
    using that exp [of n] by (auto simp: and_exp_eq_0_iff_not_bit)
  have bitx: "bit x n \<longleftrightarrow> odd (?X div 2 ^ n)" if "n < 64" for n
  proof -
    have "bit ?X n = bit x n" using that by (simp only: bit_unsigned_iff) simp
    then show ?thesis by (simp only: bit_iff_odd [of ?X])
  qed
  have T: "take_bit s x = 0 \<longleftrightarrow> ?X mod 2 ^ s = 0"
    using s exp [of s] by (simp only: word_unat_eq_iff take_bit_eq_mod unat_mod unsigned_0)
  have rb: "rb = 2 ^ s" by (simp add: rb_def push_bit_eq_mult)
  have "rb + rb + rb - 1 = 2 ^ ?S + mask s" by (simp add: rb mask_eq_exp_minus_1)
  also have "\<dots> = 2 ^ ?S OR mask s"
    by (rule disjunctive_add_eq_or, rule bit_word_eqI) (auto simp: bit_simps simp del: power_Suc)
  finally have "x AND (rb + rb + rb - 1) = (x AND 2 ^ ?S) OR take_bit s x"
    by (simp only: bit.conj_disj_distrib take_bit_eq_mask)
  then have B: "x AND (rb + rb + rb - 1) \<noteq> 0 \<longleftrightarrow> odd (?X div 2 ^ ?S) \<or> ?X mod 2 ^ s \<noteq> 0"
    using P [of ?S] s bitx [of ?S] T by (simp only: or_eq_0_iff) simp
  have A: "x AND rb \<noteq> 0 \<longleftrightarrow> odd (?X div 2 ^ s)"
    unfolding rb using P [of s] bitx [of s] s by simp
  have C: "unat (y AND NOT (rb + rb - 1)) = (unat y div 2 ^ ?S) * 2 ^ ?S" for y
  proof -
    have "rb + rb - 1 = mask ?S" by (simp add: rb mask_eq_exp_minus_1)
    then have "y AND NOT (rb + rb - 1) = push_bit ?S (drop_bit ?S y)"
      by (simp only: and_not_mask)
    then show ?thesis by (simp only: unat_push_drop)
  qed
  have "?X + 2 ^ ?S < 2 ^ 64" using x s power_increasing [of ?S 62 "2::nat"] by simp
  then have D: "unat (x + (rb + rb)) = ?X + 2 ^ ?S"
    using exp [of ?S] s by (subst unat_add_lem [THEN iffD1]) (simp_all add: rb)
  note rne = rne_round_bit [of ?X s]
  show ?thesis
  proof (cases "odd (?X div 2 ^ s) \<and> (odd (?X div 2 ^ ?S) \<or> ?X mod 2 ^ s \<noteq> 0)")
    case True
    then have c: "x AND rb \<noteq> 0 \<and> x AND (rb + rb + rb - 1) \<noteq> 0" using A B by simp
    have "rne ?X ?S = ?X div 2 ^ ?S + 1" unfolding rne if_P [OF True] ..
    moreover have "(?X + 2 ^ ?S) div 2 ^ ?S = ?X div 2 ^ ?S + 1"
      by (subst div_add_self2) simp_all
    ultimately have "rne ?X ?S * 2 ^ ?S = unat ((x + (rb + rb)) AND NOT (rb + rb - 1))"
      by (simp only: C D)
    then have "word_of_nat (rne ?X ?S * 2 ^ ?S) = (x + (rb + rb)) AND NOT (rb + rb - 1)"
      by (simp only: of_nat_unat_self)
    then show ?thesis unfolding if_P [OF c] by (rule sym)
  next
    case False
    then have c: "\<not> (x AND rb \<noteq> 0 \<and> x AND (rb + rb + rb - 1) \<noteq> 0)" using A B by simp
    have "rne ?X ?S = ?X div 2 ^ ?S" unfolding rne if_not_P [OF False] by simp
    then have "rne ?X ?S * 2 ^ ?S = unat (x AND NOT (rb + rb - 1))" by (simp only: C)
    then have "word_of_nat (rne ?X ?S * 2 ^ ?S) = x AND NOT (rb + rb - 1)"
      by (simp only: of_nat_unat_self)
    then show ?thesis unfolding if_not_P [OF c] by (rule sym)
  qed
qed

lemma denormal_fix_eq:
  assumes x: "0 < unat x" "unat x < 2 ^ 62"
    and k: "- 1075 \<le> int (fls (unat x)) + k" "int (fls (unat x)) + k \<le> - 1023" "k \<le> - 1075"
  shows "unat (denormal_fix x k) = rne (unat x) (nat (- 1074 - k)) * 2 ^ nat (- 1074 - k)"
proof -
  define s where "s = nat (- 1075 - k)"
  have fls: "fls (unat x) \<le> 61" using x by (intro fls_le) simp_all
  have s: "s \<le> 61" "nat (- 1074 - k) = Suc s" "s \<le> fls (unat x)" using k fls by (simp_all add: s_def)
  have "denormal_fix x k = word_of_nat (rne (unat x) (Suc s) * 2 ^ Suc s)"
    using k x(1) unfolding denormal_word [OF s(1) x(2), symmetric]
    by (simp only: denormal_fix_def Let_def fls64_eq s_def [symmetric] unat_gt_0 if_True simp_thms)
  moreover have "rne (unat x) (Suc s) * 2 ^ Suc s < 2 ^ LENGTH(64)"
  proof -
    have "rne (unat x) (Suc s) * 2 ^ Suc s \<le> (unat x div 2 ^ Suc s + 1) * 2 ^ Suc s"
      by (rule mult_le_mono1) (rule rne_bounds)
    also have "\<dots> \<le> unat x + 2 ^ Suc s" by (simp add: algebra_simps del: power_Suc)
    also have "\<dots> < 2 ^ 62 + 2 ^ 62" using x(2) power_increasing [of "Suc s" 62 "2::nat"] s(1) by simp
    finally show ?thesis by simp
  qed
  ultimately show ?thesis unfolding s(2) by (simp only: unat_of_nat_eq)
qed

lemma denormal_id:
  assumes "\<not> (k \<le> - 1075 \<and> - 1075 \<le> int (fls (unat x)) + k \<and> int (fls (unat x)) + k \<le> - 1023)"
  shows "denormal_fix x k = x"
  using assms by (auto simp: denormal_fix_def Let_def fls64_eq)

lemma cmant_magnitude:
  fixes x :: u64 and k :: int
  assumes x: "0 < unat x" "unat x < 2 ^ 62"
  defines "y \<equiv> unat (denormal_fix x k)"
  shows "y < 2 ^ 63 \<and> (if y = 0 then magnitude (unat x) k = 0
                       else magnitude (cmant y) (cplace y + k) = magnitude (unat x) k)"
proof (cases "k \<le> - 1075 \<and> - 1075 \<le> int (fls (unat x)) + k \<and> int (fls (unat x)) + k \<le> - 1023")
  case True
  define t where "t = nat (- 1074 - k)"
  define r where "r = rne (unat x) t"
  have y: "y = r * 2 ^ t" unfolding y_def r_def t_def by (rule denormal_fix_eq) (use x True in simp_all)
  have fx: "fls (unat x) \<le> 61" using x by (intro fls_le) simp_all
  have "int t = - 1074 - k" using True by (simp add: t_def)
  then have t: "t \<le> 62" "fls (unat x) \<le> t + 51" "k = - 1074 - int t" using True fx by linarith+
  have "unat x < 2 ^ Suc (fls (unat x))" using fls_bounds [OF x(1)] by simp
  also have "\<dots> \<le> 2 ^ (52 + t)" by (rule power_increasing) (use t(2) in simp_all)
  finally have "unat x div 2 ^ t < 2 ^ 52" by (intro less_mult_imp_div_less) (simp add: power_add)
  then have r52: "r \<le> 2 ^ 52" using rne_bounds(2) [of "unat x" t] unfolding r_def by linarith
  have sx: "scaled (unat x) k (- 1074) = r" using True by (simp add: scaled_def r_def t_def)
  have "scaled (unat x) k (- 1074) \<le> 2 ^ 53" unfolding sx using r52 by simp
  then have "magnitude (unat x) k = scaled (unat x) k (- 1074)"
    using True x(1) by (intro magnitude_small) simp_all
  then have mx: "magnitude (unat x) k = r" by (simp only: sx)
  have "y < 2 ^ 63"
  proof -
    have "y \<le> (unat x div 2 ^ t + 1) * 2 ^ t" unfolding y r_def by (rule mult_le_mono1) (rule rne_bounds)
    also have "\<dots> \<le> unat x + 2 ^ t" by simp
    also have "\<dots> < 2 ^ 62 + 2 ^ 62" using x(2) power_increasing [of t 62 "2::nat"] t(1) by simp
    finally show ?thesis by simp
  qed
  moreover have "magnitude (cmant y) (cplace y + k) = magnitude (unat x) k" if "y \<noteq> 0"
  proof -
    have r: "0 < r" using that by (simp add: y)
    have "fls r \<le> 52" using r r52 by (intro fls_le) simp_all
    then have "2 ^ (fls y - 52) dvd y" unfolding y using r
      by (intro dvd_mult le_imp_power_dvd) (simp add: fls_scale)
    then have "magnitude (cmant y) (cplace y + k) = magnitude y k" using that by (intro cmant_exact) simp_all
    also have "\<dots> = magnitude r (- 1074)" unfolding y by (simp add: magnitude_scale t(3))
    also have "\<dots> = r"
      using magnitude_small [of r "- 1074"] r r52 \<open>fls r \<le> 52\<close> by (simp add: scaled_def)
    finally show ?thesis by (simp add: mx)
  qed
  moreover have "magnitude (unat x) k = 0" if "y = 0" using that by (simp add: mx y)
  ultimately show ?thesis by simp
next
  case False
  have y: "y = unat x" unfolding y_def denormal_id [OF False] ..
  have "magnitude (cmant y) (cplace y + k) = magnitude (unat x) k"
  proof (cases "fls (unat x) \<le> 52")
    case True
    then show ?thesis unfolding y using x by (intro cmant_exact) simp_all
  next
    case big: False
    consider "- 1022 \<le> int (fls (unat x)) + k" | "int (fls (unat x)) + k < - 1075"
      using False big by linarith
    then show ?thesis
      by cases (use cmant_normal [OF x(1)] cmant_tiny [OF x(1)] big in \<open>simp_all add: y\<close>)
  qed
  then show ?thesis using x by (simp add: y)
qed

lemma strscan_double_rounds:
  assumes x: "unat x < 2 ^ 62"
  shows "strscan_double x ex2 neg = round_num neg (unat x) ex2"
proof -
  define y where "y = unat (denormal_fix x ex2)"
  have n: "(if neg then num_uminus (i64_num (denormal_fix x ex2)) else i64_num (denormal_fix x ex2)) =
      round_num neg y 0"
    by (cases neg) (simp_all add: i64_num_def num_uminus_round y_def)
  have z: "ldexp (round_num neg 0 0) k = round_num neg 0 k" for k
    by (simp add: ldexp_def round_num_parts num_mant_def) (rule round_num_eq, simp)
  show ?thesis
  proof (cases "ex2 = 0")
    case True
    then have "y = unat x" unfolding y_def by (subst denormal_id) simp_all
    then show ?thesis using True unfolding strscan_double_def Let_def n by simp
  next
    case False
    then have s: "strscan_double x ex2 neg = ldexp (round_num neg y 0) ex2"
      using n by (simp add: strscan_double_def Let_def)
    show ?thesis
    proof (cases "unat x = 0")
      case True
      then have "denormal_fix x ex2 = 0" by (simp add: unat_eq_zero denormal_fix_def)
      then have "y = 0" by (simp add: y_def)
      then show ?thesis unfolding s by (simp add: z True)
    next
      case x0: False
      note m = cmant_magnitude [of x ex2, folded y_def]
      show ?thesis
      proof (cases "y = 0")
        case True
        then have "magnitude (unat x) ex2 = magnitude 0 ex2" using m x x0 by simp
        then show ?thesis unfolding s True z using round_num_eq by metis
      next
        case False
        then have "fls y < 64" using m x x0 fls_less [of y 63] by simp
        then have "ldexp (round_num neg y 0) ex2 = round_num neg (cmant y) (cplace y + ex2)"
          using False by (intro ldexp_int) simp_all
        also have "\<dots> = round_num neg (unat x) ex2" using m x x0 False by (intro round_num_eq) simp
        finally show ?thesis unfolding s .
      qed
    qed
  qed
qed

end
