(* ===== verification/StrscanHex.thy ===== *)
theory StrscanHex
  imports StrscanRound
begin

text \<open>
  Hexadecimal numbers convert to the nearest double whatever their length: the digits behind
  the sixteenth, and the two bits lost to the sign and the range, only matter as ``something
  non-zero follows''.
\<close>

section \<open>Sticky bits\<close>

lemma rne_sticky:
  assumes "1 \<le> k" "w < 2 ^ m"
  shows "rne (c * 2 ^ m + w) (k + m) =
    (if 2 ^ k < 2 * (c mod 2 ^ k) \<or> 2 ^ k = 2 * (c mod 2 ^ k) \<and> (0 < w \<or> odd (c div 2 ^ k))
     then c div 2 ^ k + 1 else c div 2 ^ k)"
proof -
  define B h c' where "B = (2::nat) ^ m" and "h = (2::nat) ^ (k - 1)" and "c' = c mod 2 ^ k"
  have k: "2 ^ k = 2 * h" using assms(1) by (cases k) (simp_all add: h_def)
  have q: "(c * 2 ^ m + w) div 2 ^ (k + m) = c div 2 ^ k"
    using assms(2) by (simp add: power_add mult.commute [of "2 ^ k"] div_mult2_eq)
  have r: "(c * 2 ^ m + w) mod 2 ^ (k + m) = c' * B + w"
    using assms(2) mod_mult2_eq [of "c * 2 ^ m + w" "2 ^ m" "2 ^ k"]
    by (simp add: power_add B_def c'_def mult.commute)
  have p: "2 ^ (k + m) = 2 * (h * B)" by (simp add: power_add k B_def)
  have w: "w < B" using assms(2) by (simp add: B_def)
  have gt: "2 * (h * B) < 2 * (c' * B + w) \<longleftrightarrow> h < c' \<or> h = c' \<and> 0 < w"
  proof (cases "h < c'")
    case True
    then obtain d where "c' = h + 1 + d" using less_iff_Suc_add by auto
    then show ?thesis using w by (simp add: algebra_simps)
  next
    case False
    show ?thesis
    proof (cases "h = c'")
      case eq: False
      then obtain d where "h = c' + 1 + d" using False less_iff_Suc_add [of c' h] by auto
      then show ?thesis using w eq by (simp add: algebra_simps)
    qed simp
  qed
  have eq: "2 * (h * B) = 2 * (c' * B + w) \<longleftrightarrow> h = c' \<and> w = 0"
  proof (cases "h < c'")
    case True
    then obtain d where "c' = h + 1 + d" using less_iff_Suc_add by auto
    then show ?thesis using w by (simp add: algebra_simps)
  next
    case False
    show ?thesis
    proof (cases "h = c'")
      case eq: False
      then obtain d where "h = c' + 1 + d" using False less_iff_Suc_add [of c' h] by auto
      then show ?thesis using w eq by (simp add: algebra_simps)
    qed simp
  qed
  show ?thesis unfolding rne_def Let_def unfolding q r unfolding p gt eq c'_def [symmetric] unfolding k by auto
qed

lemma fls_append: "0 < c \<Longrightarrow> w < 2 ^ m \<Longrightarrow> fls (c * 2 ^ m + w) = fls c + m"
proof -
  assume a: "0 < c" "w < 2 ^ m"
  then have b: "2 ^ fls c \<le> c" "c + 1 \<le> 2 ^ Suc (fls c)" using fls_bounds [of c] by auto
  have "2 ^ fls c * 2 ^ m \<le> c * 2 ^ m" "(c + 1) * 2 ^ m \<le> 2 ^ Suc (fls c) * 2 ^ m"
    using b by (intro mult_le_mono1; simp)+
  then have "2 ^ (fls c + m) \<le> c * 2 ^ m + w" "c * 2 ^ m + w < 2 ^ Suc (fls c + m)"
    using a(2) unfolding distrib_right power_add [symmetric] add_Suc by linarith+
  then show ?thesis by (rule fls_unique)
qed

lemma fls_ge: "2 ^ k \<le> n \<Longrightarrow> k \<le> fls n"
proof -
  assume "2 ^ k \<le> n"
  moreover from this have "0 < n" by (rule less_le_trans [rotated]) simp
  ultimately have "(2::nat) ^ k < 2 ^ Suc (fls n)" using fls_bounds [of n] by linarith
  then have "k < Suc (fls n)" by (rule power_less_imp_less_exp [rotated]) simp
  then show ?thesis by simp
qed

lemma magnitude_sticky:
  assumes c: "54 \<le> fls c" and w: "w < 2 ^ m" "w' < 2 ^ m'" "0 < w \<longleftrightarrow> 0 < w'"
    and e: "e' + int m' = e + int m"
  shows "magnitude (c * 2 ^ m + w) e = magnitude (c * 2 ^ m' + w') e'"
proof -
  have c0: "0 < c" using c by (cases c) (simp_all add: fls.simps)
  note f = fls_append [OF c0 w(1)] fls_append [OF c0 w(2)]
  define q where "q = last_place (c * 2 ^ m + w) e"
  have q': "last_place (c * 2 ^ m' + w') e' = q" using e by (simp add: q_def last_place_def f)
  define k where "k = nat (q - e - int m)"
  have "e + int m + 2 \<le> q" using c by (simp add: q_def last_place_def f)
  then have k: "1 \<le> k" "nat (q - e) = k + m" "nat (q - e') = k + m'" "\<not> q \<le> e" "\<not> q \<le> e'"
    using e by (simp_all add: k_def)
  have "scaled (c * 2 ^ m + w) e q = scaled (c * 2 ^ m' + w') e' q"
    using rne_sticky [OF k(1) w(1), of c] rne_sticky [OF k(1) w(2), of c] w(3) k by (simp add: scaled_def)
  then show ?thesis using c0 by (simp add: magnitude_def q_def [symmetric] q')
qed

lemma reduce_double_rounds: "reduce_double x ex2 neg = round_num neg (unat x) ex2"
proof -
  let ?X = "unat x"
  have m: "(0xc000000000000000 :: u64) = NOT (mask 62)" by (simp add: mask_eq_exp_minus_1)
  have h: "x AND 0xc000000000000000 = 0 \<longleftrightarrow> ?X < 2 ^ 62"
  proof -
    have "unat (x AND 0xc000000000000000) = ?X div 2 ^ 62 * 2 ^ 62"
      unfolding m and_not_mask by (rule unat_push_drop)
    then show ?thesis by (simp add: word_unat_eq_iff div_eq_0_iff)
  qed
  show ?thesis
  proof (cases "?X < 2 ^ 62")
    case True
    then show ?thesis using h by (simp add: reduce_double_def strscan_double_rounds)
  next
    case False
    let ?y = "drop_bit 2 x OR (x AND 3)"
    have d: "drop_bit 2 ?y = drop_bit 4 x"
    proof (rule bit_word_eqI)
      fix n
      have "x AND 3 = take_bit 2 x" by (simp add: take_bit_eq_mask mask_eq_exp_minus_1)
      then show "bit (drop_bit 2 ?y) n = bit (drop_bit 4 x) n" by (auto simp: bit_simps)
    qed
    then have yd: "unat ?y div 4 = ?X div 16" using unat_drop_bit [of 2 ?y] unat_drop_bit [of 4 x] by simp
    have "take_bit 2 ?y = take_bit 2 (drop_bit 2 x) OR take_bit 2 x"
    proof (rule bit_word_eqI)
      fix n
      have "x AND 3 = take_bit 2 x" by (simp add: take_bit_eq_mask mask_eq_exp_minus_1)
      then show "bit (take_bit 2 ?y) n = bit (take_bit 2 (drop_bit 2 x) OR take_bit 2 x) n" by (auto simp: bit_simps)
    qed
    then have "take_bit 2 ?y = 0 \<longleftrightarrow> take_bit 2 (drop_bit 2 x) = 0 \<and> take_bit 2 x = 0" by (simp only: or_eq_0_iff)
    then have ym: "unat ?y mod 4 = 0 \<longleftrightarrow> ?X mod 16 = 0"
      using mod_mult2_eq [of ?X 4 4]
      by (simp add: word_unat_eq_iff unsigned_take_bit_eq take_bit_eq_mod unat_mod unat_drop_bit)
    have "?X div 16 < 2 ^ 60" using u64_less [of x] by (intro less_mult_imp_div_less) simp
    then have yl: "unat ?y < 2 ^ 62" unfolding yd [symmetric] by (simp add: div_less_iff_less_mult)
    have "magnitude (?X div 16 * 2 ^ 4 + ?X mod 16) ex2 = magnitude (?X div 16 * 2 ^ 2 + unat ?y mod 4) (ex2 + 2)"
    proof (rule magnitude_sticky)
      have "2 ^ 58 \<le> ?X div 16" using False div_le_mono [of "2 ^ 62" ?X 16] by simp
      then show "54 \<le> fls (?X div 16)" using fls_ge [of 58 "?X div 16"] by simp
    qed (use ym in \<open>auto intro!: gr0I\<close>)
    moreover have "?X div 16 * 2 ^ 4 + ?X mod 16 = ?X" by simp
    moreover have "?X div 16 * 2 ^ 2 + unat ?y mod 4 = unat ?y" using div_mult_mod_eq [of "unat ?y" 4] by (simp add: yd)
    ultimately have "round_num neg (unat ?y) (ex2 + 2) = round_num neg ?X ex2" by (intro round_num_eq) simp
    then show ?thesis using False h yl by (simp add: reduce_double_def strscan_double_rounds)
  qed
qed

section \<open>The digits\<close>

text \<open>
  \<open>digits_at ds p r\<close>: the characters from \<open>p\<close> up to \<open>r\<close> are \<open>ds\<close>, with at most one point
  before one of them.
\<close>

definition digits_at :: "bytes \<Rightarrow> bytes \<Rightarrow> bytes \<Rightarrow> bool" where
  "digits_at ds p r \<longleftrightarrow> 0x2e \<notin> set ds \<and>
     (p = ds @ r \<or> (\<exists>a b. ds = a @ b \<and> b \<noteq> [] \<and> p = a @ 0x2e # b @ r))"

lemma next_digit_at:
  assumes "digits_at (c # ds) p r"
  obtains p' where "next_digit p = Inr (c, p')" "digits_at ds p' r"
proof -
  have c: "c \<noteq> 0x2e" "0x2e \<notin> set ds" using assms by (auto simp: digits_at_def)
  from assms consider "p = c # ds @ r" | "p = 0x2e # c # ds @ r"
    | a b where "ds = a @ b" "b \<noteq> []" "p = c # a @ 0x2e # b @ r"
    unfolding digits_at_def by (auto simp: Cons_eq_append_conv)
  then show ?thesis by cases (use c that in \<open>auto simp: digits_at_def\<close>)
qed

definition hex_val :: "bytes \<Rightarrow> nat" where
  "hex_val ds = foldl (\<lambda>v c. v * 16 + unat (hex_digit c)) 0 ds"

lemma hex_digit_less: "unat (hex_digit c) < 16"
proof -
  have "unat (ucast (d AND 15 :: u32) :: u64) < 16" for d :: u32
  proof -
    have "d AND 15 = take_bit 4 d" by (simp add: take_bit_eq_mask mask_eq_exp_minus_1)
    then have "unat (d AND 15) = take_bit 4 (unat d)" by (simp only: unsigned_take_bit_eq)
    then have "unat (d AND 15) < 16" using take_bit_nat_less_exp [of 4 "unat d"] by simp
    then show ?thesis by (simp add: unsigned_ucast_eq take_bit_nat_eq_self)
  qed
  then show ?thesis unfolding hex_digit_def Let_def .
qed

lemma foldl_hex: "foldl (\<lambda>v c. v * 16 + unat (hex_digit c)) v ds = v * 16 ^ length ds + hex_val ds"
proof (induction ds arbitrary: v)
  case (Cons c ds)
  show ?case
    unfolding hex_val_def foldl_Cons Cons.IH [of "v * 16 + _"] Cons.IH [of "0 * 16 + _"] by (simp add: algebra_simps)
qed (simp add: hex_val_def)

lemma hex_val_simps [simp]:
  "hex_val [] = 0" "hex_val (c # ds) = unat (hex_digit c) * 16 ^ length ds + hex_val ds"
  using foldl_hex [of "unat (hex_digit c)" ds] by (simp_all add: hex_val_def)

lemma hex_val_append: "hex_val (a @ b) = hex_val a * 16 ^ length b + hex_val b"
  by (induction a) (simp_all add: power_add algebra_simps)

lemma hex_val_less: "hex_val ds < 16 ^ length ds"
proof (induction ds)
  case (Cons c ds)
  have "unat (hex_digit c) \<le> 15" using hex_digit_less [of c] by simp
  then have "unat (hex_digit c) * 16 ^ length ds \<le> 15 * 16 ^ length ds" by (rule mult_le_mono1)
  then show ?case using Cons.IH unfolding hex_val_simps length_Cons power_Suc by linarith
qed simp

lemma hex_digits_at:
  assumes "digits_at (ds @ ds') p r"
  shows "\<exists>p'. hex_digits (length ds) p x = Inr (x * 16 ^ length ds + word_of_nat (hex_val ds), p') \<and> digits_at ds' p' r"
  using assms
proof (induction ds arbitrary: p x)
  case (Cons c ds)
  obtain p1 where p1: "next_digit p = Inr (c, p1)" "digits_at (ds @ ds') p1 r"
    by (rule next_digit_at) (use Cons.prems in simp)
  have "push_bit 4 x = x * 16" by (simp add: push_bit_eq_mult)
  then show ?case using Cons.IH [OF p1(2), of "push_bit 4 x + hex_digit c"] p1(1) by (simp add: algebra_simps)
qed simp

text \<open>A digit other than \<open>0\<close> has a non-zero value.\<close>

definition is_xdigit :: "u8 \<Rightarrow> bool" where "is_xdigit c = lj_char_isxdigit (uint c)"

lemma class_u8: "class_spec (uint (c :: u8))"
proof (rule class_spec_eq)
  show "- 1 \<le> uint c" using uint_ge_0 [of c] by linarith
  show "uint c \<le> 255" using uint_bounded [of c] by simp
qed

lemma xdigit_cases:
  "is_xdigit c \<Longrightarrow> c \<in> {0x30, 0x31, 0x32, 0x33, 0x34, 0x35, 0x36, 0x37, 0x38, 0x39,
    0x41, 0x42, 0x43, 0x44, 0x45, 0x46, 0x61, 0x62, 0x63, 0x64, 0x65, 0x66}"
proof -
  assume "is_xdigit c"
  moreover have "class_spec (uint c)" by (rule class_u8)
  ultimately have "uint c \<in> {48..57} \<union> {65..70} \<union> {97..102}" by (auto simp: is_xdigit_def class_spec_def Let_def)
  then have "uint c \<in> {48, 49, 50, 51, 52, 53, 54, 55, 56, 57, 65, 66, 67, 68, 69, 70, 97, 98, 99, 100, 101, 102}"
    unfolding Un_iff atLeastAtMost_iff insert_iff empty_iff by presburger
  then show ?thesis by (simp add: word_uint_eq_iff)
qed

lemma hex_digit_0: "is_xdigit c \<Longrightarrow> hex_digit c = 0 \<longleftrightarrow> c = 0x30"
  using xdigit_cases [of c] by (auto simp: hex_digit_def)

lemma hex_val_0: "list_all is_xdigit ds \<Longrightarrow> hex_val ds = 0 \<longleftrightarrow> list_all (\<lambda>c. c = 0x30) ds"
  by (induction ds) (auto simp: unat_eq_zero hex_digit_0)

lemma hex_excess_at:
  assumes "digits_at ds p r" "list_all is_xdigit ds"
  shows "hex_excess (length ds) p x ex2 =
    Inr (if hex_val ds = 0 then x else x OR 1, ex2 + 4 * int (length ds))"
  using assms
proof (induction ds arbitrary: p x ex2)
  case (Cons c ds)
  obtain p1 where p1: "next_digit p = Inr (c, p1)" "digits_at ds p1 r"
    by (rule next_digit_at [OF Cons.prems(1)])
  have "hex_digit c = 0 \<longleftrightarrow> c = 0x30" using Cons.prems by (simp add: hex_digit_0)
  then show ?case using Cons.IH [OF p1(2)] Cons.prems(2) p1(1) by (simp add: unat_eq_zero or.assoc)
qed simp

section \<open>Hexadecimal numbers\<close>

lemma or_1_div_mod: "unat (x OR 1) div 16 = unat x div 16" "unat ((x :: u64) OR 1) mod 16 \<noteq> 0"
proof -
  have "drop_bit 4 (x OR 1) = drop_bit 4 x" by (rule bit_word_eqI) (auto simp: bit_simps)
  then show "unat (x OR 1) div 16 = unat x div 16"
    using unat_drop_bit [of 4 "x OR 1"] unat_drop_bit [of 4 x] by simp
  have "odd (x OR 1)" by (simp add: even_or_iff)
  then have "bit (x OR 1) 0" by (simp add: bit_0)
  then have "bit (unat (x OR 1)) 0" by (simp only: bit_unsigned_iff) simp
  then have "odd (unat (x OR 1))" by (simp add: bit_0)
  then show "unat (x OR 1) mod 16 \<noteq> 0" by (auto simp: mod_eq_0_iff_dvd dest: dvd_trans [of 2 16])
qed

lemma hex_accumulated:
  assumes ds: "digits_at ds p r" "list_all is_xdigit ds" and lead: "16 < length ds \<Longrightarrow> hd ds \<noteq> 0x30"
  shows "\<exists>x e p'. hex_digits (if 16 < length ds then 16 else length ds) p 0 = Inr (x, p') \<and>
    (\<exists>y. hex_excess (length ds - 16) p' x ex2 = Inr (y, e) \<and> magnitude (unat y) e = magnitude (hex_val ds) ex2)"
proof (cases "16 < length ds")
  case False
  then have "16 ^ length ds \<le> (16 ^ 16 :: nat)" by (intro power_increasing) simp_all
  then have "hex_val ds < 2 ^ 64" using hex_val_less [of ds] by simp
  then have "unat (word_of_nat (hex_val ds) :: u64) = hex_val ds" by (intro unat_of_nat_eq) simp
  then show ?thesis using hex_digits_at [of ds "[]" p r 0] ds(1) False by auto
next
  case True
  define a b where "a = take 16 ds" and "b = drop 16 ds"
  have l: "length a = 16" "length b = length ds - 16" "ds = a @ b" using True by (simp_all add: a_def b_def)
  have xs: "list_all is_xdigit a" "list_all is_xdigit b" using ds(2) unfolding l(3) by simp_all
  obtain p' where p': "hex_digits 16 p 0 = Inr (word_of_nat (hex_val a), p')" "digits_at b p' r"
    using hex_digits_at [of a b p r 0] ds(1) l by auto
  have "hex_val a < 2 ^ 64" using hex_val_less [of a] l(1) by simp
  then have ua: "unat (word_of_nat (hex_val a) :: u64) = hex_val a" by (intro unat_of_nat_eq) simp
  obtain c a' where c: "a = c # a'" "length a' = 15" using l(1) by (cases a) simp_all
  have "c \<noteq> 0x30" using lead True l(3) c(1) by simp
  then have "1 \<le> unat (hex_digit c)" using hex_digit_0 [of c] xs(1) c(1) by (simp add: Suc_le_eq unat_gt_0)
  then have "1 * 16 ^ 15 \<le> unat (hex_digit c) * 16 ^ 15" by (rule mult_le_mono1)
  then have big: "2 ^ 60 \<le> hex_val a" by (simp add: c)
  define n C where "n = length b" and "C = hex_val a div 16"
  let ?x = "word_of_nat (hex_val a) :: u64" and ?y = "if hex_val b = 0 then word_of_nat (hex_val a) else word_of_nat (hex_val a) OR (1 :: u64)"
  have y: "hex_excess (length ds - 16) p' ?x ex2 = Inr (?y, ex2 + 4 * int n)"
    using hex_excess_at [OF p'(2) xs(2)] by (simp add: l(2) n_def)
  have y16: "unat ?y div 16 = C" "unat ?y mod 16 = 0 \<longleftrightarrow> hex_val a mod 16 = 0 \<and> hex_val b = 0"
    using or_1_div_mod [of ?x] by (simp_all add: ua C_def)
  have "magnitude (C * 2 ^ (4 * n + 4) + (hex_val a mod 16 * 16 ^ n + hex_val b)) ex2 =
      magnitude (C * 2 ^ 4 + unat ?y mod 16) (ex2 + 4 * int n)"
  proof (rule magnitude_sticky)
    have "2 ^ 56 \<le> C" using big div_le_mono [of "2 ^ 60" "hex_val a" 16] by (simp add: C_def)
    then show "54 \<le> fls C" using fls_ge [of 56 C] by simp
    have "hex_val b < 16 ^ n" using hex_val_less [of b] by (simp add: n_def)
    moreover have "hex_val a mod 16 \<le> 15" using mod_less_divisor [of 16 "hex_val a"] by linarith
    then have "hex_val a mod 16 * 16 ^ n \<le> 15 * 16 ^ n" by (rule mult_le_mono1)
    moreover have "(2::nat) ^ (4 * n + 4) = 16 * 16 ^ n" by (simp add: power_add power_mult)
    ultimately show "hex_val a mod 16 * 16 ^ n + hex_val b < 2 ^ (4 * n + 4)" by linarith
    show "0 < hex_val a mod 16 * 16 ^ n + hex_val b \<longleftrightarrow> 0 < unat ?y mod 16" using y16(2) by auto
  qed simp_all
  moreover have "C * 2 ^ (4 * n + 4) + (hex_val a mod 16 * 16 ^ n + hex_val b) = hex_val ds"
  proof -
    have "hex_val ds = (C * 16 + hex_val a mod 16) * 16 ^ n + hex_val b"
      by (simp add: l(3) hex_val_append n_def C_def)
    moreover have "(2::nat) ^ (4 * n + 4) = 16 * 16 ^ n" by (simp add: power_add power_mult)
    ultimately show ?thesis by (simp only:) (simp add: algebra_simps)
  qed
  moreover have "C * 2 ^ 4 + unat ?y mod 16 = unat ?y" using div_mult_mod_eq [of "unat ?y" 16] y16(1) by simp
  ultimately have "magnitude (unat ?y) (ex2 + 4 * int n) = magnitude (hex_val ds) ex2" by simp
  then show ?thesis using p'(1) y True by (intro exI conjI) simp_all
qed

lemma strscan_hex_rounds:
  assumes "digits_at ds p r" "list_all is_xdigit ds" "16 < length ds \<Longrightarrow> hd ds \<noteq> 0x30"
  shows "strscan_hex p STRSCAN_NUM opt ex2 neg (length ds) = Inr (STRSCAN_NUM, SNum (round_num neg (hex_val ds) ex2))"
proof -
  obtain x e p' y where h: "hex_digits (if 16 < length ds then 16 else length ds) p 0 = Inr (x, p')"
      "hex_excess (length ds - 16) p' x ex2 = Inr (y, e)" "magnitude (unat y) e = magnitude (hex_val ds) ex2"
    using hex_accumulated [OF assms, of ex2] by blast
  have "reduce_double y e neg = round_num neg (hex_val ds) ex2"
    unfolding reduce_double_rounds by (rule round_num_eq) (rule h(3))
  then show ?thesis unfolding strscan_hex_def by (simp only: h rbind_simps prod.case) (simp add: switch_int_def strscan_fmts)
qed

end
