(* ===== verification/StrscanText.thy ===== *)
theory StrscanText
  imports StrscanHex StrfmtInt
begin

text \<open>
  The scanner on whole strings: the decimal text of an integer is read back as that integer,
  and hexadecimal text is read as the nearest double.
\<close>

section \<open>Character classes on bytes\<close>

lemma isdigit_u8: "lj_char_isdigit (uint (c :: u8)) \<longleftrightarrow> 0x30 \<le> c \<and> c \<le> 0x39"
  using class_u8 [of c] by (simp add: class_spec_def Let_def word_le_def)

lemma isxdigit_u8: "lj_char_isxdigit (uint (c :: u8)) \<longleftrightarrow>
    (0x30 \<le> c \<and> c \<le> 0x39) \<or> (0x41 \<le> c \<and> c \<le> 0x46) \<or> (0x61 \<le> c \<and> c \<le> 0x66)"
  using class_u8 [of c] by (simp add: class_spec_def Let_def word_le_def)

lemma isspace_u8: "lj_char_isspace (uint (c :: u8)) \<longleftrightarrow> (0x09 \<le> c \<and> c \<le> 0x0d) \<or> c = 0x20"
  using class_u8 [of c] by (simp add: class_spec_def Let_def word_le_def word_uint_eq_iff)

definition is_digit :: "u8 \<Rightarrow> bool" where "is_digit c \<longleftrightarrow> 0x30 \<le> c \<and> c \<le> 0x39"

lemma digit_mask: "lj_char_isa (uint c) LJ_CHAR_DIGIT \<noteq> 0 \<longleftrightarrow> is_digit c"
  using isdigit_u8 [of c] by (simp add: lj_char_isdigit_def is_digit_def)

lemma xdigit_mask: "lj_char_isa (uint c) LJ_CHAR_XDIGIT \<noteq> 0 \<longleftrightarrow> is_xdigit c"
  by (simp add: is_xdigit_def lj_char_isxdigit_def)

lemma hexdigits_nth: "d < 10 \<Longrightarrow> hexdigits ! d = 0x30 + word_of_nat d"
proof -
  assume "d < 10"
  then have "d \<in> {0, 1, 2, 3, 4, 5, 6, 7, 8, 9}" by auto
  then show ?thesis by (auto simp: hexdigits_def)
qed

lemma hexdigits_digit: "d < 10 \<Longrightarrow> is_digit (hexdigits ! d)"
proof -
  assume "d < 10"
  then have "d \<in> {0, 1, 2, 3, 4, 5, 6, 7, 8, 9}" by auto
  then show ?thesis by (auto simp: hexdigits_def is_digit_def)
qed

lemma hexdigits_value: "d < 10 \<Longrightarrow> (ucast (hexdigits ! d) :: u32) AND 15 = word_of_nat d"
proof -
  assume "d < 10"
  then have "d \<in> {0, 1, 2, 3, 4, 5, 6, 7, 8, 9}" by auto
  then show ?thesis by (auto simp: hexdigits_def)
qed

section \<open>Decimal integers\<close>

lemma dec_text_digits: "list_all is_digit (dec_text n)"
  using base_text_set [of 10 hexdigits n] hexdigits_digit by (auto simp: list_all_iff)

lemma dec_text_induct [case_names less step]:
  assumes "\<And>n. n < 10 \<Longrightarrow> P n" "\<And>v u. 0 < v \<Longrightarrow> u < 10 \<Longrightarrow> P v \<Longrightarrow> P (v * 10 + u)"
  shows "P (n :: nat)"
proof (induction n rule: less_induct)
  case (less n)
  show ?case
  proof (cases "n < 10")
    case False
    then have "P (n div 10 * 10 + n mod 10)" using less by (intro assms(2)) simp_all
    then show ?thesis by simp
  qed (rule assms(1))
qed

lemma dec_text_hd: "0 < n \<Longrightarrow> hd (dec_text n) \<noteq> 0x30"
proof (induction n rule: dec_text_induct)
  case (less n)
  then have "n \<in> {1, 2, 3, 4, 5, 6, 7, 8, 9}" by auto
  then show ?case by (auto simp: hexdigits_def)
next
  case (step v u)
  then show ?case by (simp add: base_text_step hd_append)
qed

definition dec_acc :: "u32 \<Rightarrow> bytes \<Rightarrow> u32" where
  "dec_acc x ds = foldl (\<lambda>x c. x * 10 + (ucast c AND 15)) x ds"

lemma dec_acc_text: "dec_acc 0 (dec_text n) = word_of_nat n"
proof (induction n rule: dec_text_induct)
  case (less n)
  then show ?case by (simp add: dec_acc_def hexdigits_value)
next
  case (step v u)
  then show ?case by (simp add: dec_acc_def base_text_step hexdigits_value)
qed

lemma scan_digits_dec:
  "list_all is_digit ds \<Longrightarrow>
    scan_digits LJ_CHAR_DIGIT (ds @ p) x dig dp = scan_digits LJ_CHAR_DIGIT p (dec_acc x ds) (dig + length ds) dp"
proof (induction ds arbitrary: x dig)
  case (Cons c ds)
  then have "lj_char_isa (uint c) LJ_CHAR_DIGIT \<noteq> 0" by (simp only: digit_mask list.pred_inject)
  with Cons show ?case by (simp only: append_Cons scan_digits.simps if_True if_P dec_acc_def foldl_Cons) simp
qed (simp add: dec_acc_def)

lemma dec_text_first:
  assumes "n < 3000000000"
  shows "length (dec_text n) \<le> 10" "length (dec_text n) = 10 \<Longrightarrow> cur (dec_text n) \<le> 0x32"
proof -
  show "length (dec_text n) \<le> 10" using base_text_length [of 10 n 9 hexdigits] assms by simp
  assume l: "length (dec_text n) = 10"
  have "10 ^ 9 \<le> n"
  proof (rule ccontr)
    assume "\<not> 10 ^ 9 \<le> n"
    then have "length (dec_text n) \<le> 9" using base_text_length [of 10 n 8 hexdigits] by simp
    then show False using l by simp
  qed
  then have "dec_text n = dec_fixed (Suc 9) n" using base_text_eq_fixed [of 10 9 n hexdigits] assms by simp
  then have "cur (dec_text n) = hexdigits ! (n div 10 ^ 9)" by (simp only: fixed_text.simps cur.simps)
  moreover have "n div 10 ^ 9 < 3" using assms by (intro less_mult_imp_div_less) simp
  ultimately show "cur (dec_text n) \<le> 0x32"
    using hexdigits_nth [of "n div 10 ^ 9"] by (auto simp: less_Suc_eq numeral_3_eq_3 hexdigits_def)
qed

lemma scan_number_dec:
  assumes n: "n < 2147483648 + (if neg then 1 else 0)" and opt: "\<not> opt_set opt STRSCAN_OPT_C"
  shows "scan_number (dec_text n) opt neg =
    (let y = neg32 neg (word_of_nat n) in
     if opt_set opt STRSCAN_OPT_TONUM then Inr (STRSCAN_NUM, SNum (int2num y)) else Inr (STRSCAN_INT, SInt y))"
proof -
  let ?s = "dec_text n" and ?x = "word_of_nat n :: u32"
  have lt: "n < 3000000000" using n by (simp split: if_splits)
  have scan: "scan_digits LJ_CHAR_DIGIT ?s 0 0 None = Some ([], ?x, length ?s, None)"
    using scan_digits_dec [OF dec_text_digits, of n "[]" 0 0 None] by (simp add: dec_acc_text)
  have rest: "scan_rest ?s opt neg 10 sp [] ?x dig None =
      scan_dispatch sp opt 0 neg ?x dig STRSCAN_INT 10" for sp dig
    by (simp add: scan_rest_def scan_point_def scan_exponent_def casecmp_def scan_suffix_def)
  show ?thesis
  proof (cases "n = 0")
    case True
    have "?s = [0x30]" using True by (simp add: hexdigits_def)
    then show ?thesis using opt rest [of "[]" 0] True
      by (simp add: scan_number_def scan_base_def at_def casecmp_def scan_dispatch_def scan_fast_def Let_def)
  next
    case False
    have first: "\<not> cur ?s \<le> 0x30"
    proof (cases ?s)
      case (Cons c ds)
      then have "is_digit c" "c \<noteq> 0x30" using dec_text_digits [of n] dec_text_hd [of n] False by simp_all
      then show ?thesis using Cons by (auto simp: is_digit_def)
    qed simp
    have base: "(if opt_set opt STRSCAN_OPT_C \<and> cur ?s = 0x30 then 0 else 10) = (10 :: nat)" using opt by simp
    have "scan_number ?s opt neg = scan_dispatch ?s opt 0 neg ?x (length ?s) STRSCAN_INT 10"
      unfolding scan_number_def base Let_def using first by (simp add: scan rest)
    moreover have "unat ?x = n" using lt by (intro unat_of_nat_eq) simp
    then have "?x < 0x80000000 + (if neg then 1 else 0)" using n by (cases neg) (simp_all add: word_less_nat_alt)
    then have "scan_fast ?s opt neg ?x (length ?s) STRSCAN_INT 10"
      using dec_text_first [OF lt] by (auto simp: scan_fast_def)
    ultimately show ?thesis by (simp add: scan_dispatch_def)
  qed
qed

lemma scan_wint:
  assumes "\<not> opt_set opt STRSCAN_OPT_C"
  shows "lj_strscan_scan (lj_strfmt_wint k) opt =
    (if opt_set opt STRSCAN_OPT_TONUM then Inr (STRSCAN_NUM, SNum (int2num k)) else Inr (STRSCAN_INT, SInt k))"
proof -
  have dig: "is_digit (cur (dec_text n))" for n
    using dec_text_digits [of n] base_text_nonempty [of 10 hexdigits n] by (cases "dec_text n") simp_all
  have minus: "\<not> lj_char_isdigit 0x2d" "\<not> lj_char_isspace 0x2d"
    using isdigit_u8 [of "0x2d"] isspace_u8 [of "0x2d"] by simp_all
  have d41: "\<not> 0x41 \<le> c" if "is_digit c" for c
    using that by (auto simp: is_digit_def word_le_nat_alt)
  show ?thesis
  proof (cases "sint k < 0")
    case True
    have r: "nat (- sint k) < 2147483648 + (if True then 1 else 0)" using sint_ge [of k] by simp
    have w: "neg32 True (word_of_nat (nat (- sint k))) = k" using True by (simp add: neg32_def)
    have "lj_strscan_scan (lj_strfmt_wint k) opt = scan_number (dec_text (nat (- sint k))) opt True"
      using True d41 [OF dig] by (simp add: lj_strscan_scan_def lj_strfmt_wint_dec dec_int_def minus Let_def)
    then show ?thesis using scan_number_dec [OF r assms] by (simp add: w)
  next
    case False
    have r: "nat (sint k) < 2147483648 + (if False then 1 else 0)" using sint_lt [of k] False by simp
    have w: "neg32 False (word_of_nat (nat (sint k))) = k" using False by (simp add: neg32_def)
    have "lj_strscan_scan (lj_strfmt_wint k) opt = scan_number (dec_text (nat (sint k))) opt False"
      using False dig [of "nat (sint k)"] by (simp add: lj_strscan_scan_def lj_strfmt_wint_dec dec_int_def isdigit_u8 is_digit_def)
    then show ?thesis using scan_number_dec [OF r assms] by (simp add: w)
  qed
qed

end
