(* ===== verification/Lex.thy ===== *)
theory Lex
  imports Strscan Strings Buf Chars
begin

text \<open>
  The lexical analyzer: \<^verbatim>\<open>src/src/lj_lex.c\<close> and \<^verbatim>\<open>src/src/lj_lex.h\<close>.  The input window
  between \<^verbatim>\<open>p\<close> and \<^verbatim>\<open>pe\<close> is a list of bytes, and the reader callback is the list of the
  chunks it returns; an empty chunk, or the end of that list, is the end of input.  The value
  of a token is a string, a number, or the payload of an \<^verbatim>\<open>int64_t\<close>, \<^verbatim>\<open>uint64_t\<close> or complex
  constant with its scan format.  Of \<^verbatim>\<open>lj_parse_keepstr\<close> only the interned string matters
  here; anchoring it in the function's constant table and creating the cdata object are left
  out.
\<close>

definition LJ_MAX_LINE :: nat where "LJ_MAX_LINE = 0x7fffff00"

section \<open>Tokens\<close>

text \<open>The names of the tokens above \<^verbatim>\<open>TK_OFS\<close>, in the order of \<^verbatim>\<open>TKDEF\<close>.\<close>

definition ascii :: "string \<Rightarrow> bytes" where "ascii s = map of_char s"

definition tokennames :: "bytes list" where
  "tokennames = map ascii
    [''and'', ''break'', ''do'', ''else'', ''elseif'', ''end'', ''false'',
     ''for'', ''function'', ''goto'', ''if'', ''in'', ''local'', ''nil'', ''not'', ''or'',
     ''repeat'', ''return'', ''then'', ''true'', ''until'', ''while'',
     ''..'', ''...'', ''=='', ''>='', ''<='', ''~='',
     ''::'', ''<number>'', ''<name>'', ''<string>'', ''<eof>'']"

type_synonym LexToken = int

definition TK_OFS :: LexToken where "TK_OFS = 256"
definition TK_RESERVED :: nat where "TK_RESERVED = 22"
definition TK_concat :: LexToken where "TK_concat = 279"
definition TK_dots :: LexToken where "TK_dots = 280"
definition TK_eq :: LexToken where "TK_eq = 281"
definition TK_ge :: LexToken where "TK_ge = 282"
definition TK_le :: LexToken where "TK_le = 283"
definition TK_ne :: LexToken where "TK_ne = 284"
definition TK_label :: LexToken where "TK_label = 285"
definition TK_number :: LexToken where "TK_number = 286"
definition TK_name :: LexToken where "TK_name = 287"
definition TK_string :: LexToken where "TK_string = 288"
definition TK_eof :: LexToken where "TK_eof = 289"

text \<open>
  \<^verbatim>\<open>lj_lex_init\<close> stores \<open>i + 1\<close> in the \<^verbatim>\<open>reserved\<close> byte of the string object of the \<open>i\<close>-th
  name; the string with a given content is unique, so this is a function of the content.
\<close>

fun reserved_loop :: "bytes list \<Rightarrow> nat \<Rightarrow> bytes \<Rightarrow> nat" where
  "reserved_loop [] i s = 0"
| "reserved_loop (n # names) i s = (if s = n then i + 1 else reserved_loop names (i + 1) s)"

definition lj_lex_init :: "bytes \<Rightarrow> nat" where
  "lj_lex_init s = reserved_loop (take TK_RESERVED tokennames) 0 s"

datatype tokval = NoVal | StrVal gcstr | NumVal u64 | CdataVal nat u64

record LexState =
  lx_in :: bytes
  lx_chunks :: "bytes list"
  lx_c :: int
  lx_sb :: SBuf
  lx_linenumber :: nat
  lx_lastline :: nat
  lx_tok :: LexToken
  lx_tokval :: tokval
  lx_lookahead :: LexToken
  lx_lookaheadval :: tokval

section \<open>Buffer handling\<close>

definition LEX_EOF :: int where "LEX_EOF = -1"

definition lex_iseol :: "LexState \<Rightarrow> bool" where
  "lex_iseol ls = (lx_c ls = 0x0a \<or> lx_c ls = 0x0d)"

definition lex_more :: "LexState \<Rightarrow> LexState" where
  "lex_more ls =
     (case lx_chunks ls of
        [] \<Rightarrow> ls\<lparr>lx_c := LEX_EOF\<rparr>
      | [] # chunks \<Rightarrow> ls\<lparr>lx_c := LEX_EOF, lx_chunks := chunks\<rparr>
      | (c # p) # chunks \<Rightarrow> ls\<lparr>lx_c := uint c, lx_in := p, lx_chunks := chunks\<rparr>)"

definition lex_next :: "LexState \<Rightarrow> LexState" where
  "lex_next ls =
     (case lx_in ls of [] \<Rightarrow> lex_more ls | c # p \<Rightarrow> ls\<lparr>lx_c := uint c, lx_in := p\<rparr>)"

definition lex_save :: "LexState \<Rightarrow> int \<Rightarrow> LexState res" where
  "lex_save ls c = rbind (lj_buf_putb (lx_sb ls) (word_of_int c)) (\<lambda>sb. Inr (ls\<lparr>lx_sb := sb\<rparr>))"

definition lex_savenext :: "LexState \<Rightarrow> LexState res" where
  "lex_savenext ls = rbind (lex_save ls (lx_c ls)) (\<lambda>ls. Inr (lex_next ls))"

definition lex_reset :: "LexState \<Rightarrow> LexState" where
  "lex_reset ls = ls\<lparr>lx_sb := lj_buf_reset (lx_sb ls)\<rparr>"

text \<open>For names, strings and numbers the error message quotes the buffer, behind a NUL.\<close>

definition lj_lex_error :: "LexState \<Rightarrow> LexToken \<Rightarrow> lj_error \<Rightarrow> 'a res" where
  "lj_lex_error ls tok em =
     (if tok = TK_name \<or> tok = TK_string \<or> tok = TK_number
      then rbind (lex_save ls 0) (\<lambda>_. Inl (Throw em)) else Inl (Throw em))"

definition lex_newline :: "LexState \<Rightarrow> LexState res" where
  "lex_newline ls =
     (let old = lx_c ls; ls = lex_next ls;
          ls = (if lex_iseol ls \<and> lx_c ls \<noteq> old then lex_next ls else ls);
          ls = ls\<lparr>lx_linenumber := lx_linenumber ls + 1\<rparr>
      in if LJ_MAX_LINE \<le> lx_linenumber ls then lj_lex_error ls (lx_tok ls) LJ_ERR_XLINES else Inr ls)"

section \<open>Termination\<close>

text \<open>The input left: what the loops below consume.\<close>

definition left :: "LexState \<Rightarrow> nat" where
  "left ls = 2 * (length (lx_in ls) + length (concat (lx_chunks ls))) + (if lx_c ls = LEX_EOF then 0 else 1)"

lemma uint_not_eof: "uint (c :: u8) \<noteq> LEX_EOF" "LEX_EOF \<noteq> uint (c :: u8)"
proof -
  have "0 \<le> uint c" by simp
  then show "uint c \<noteq> LEX_EOF" "LEX_EOF \<noteq> uint c" unfolding LEX_EOF_def by linarith+
qed

lemma left_next: "lx_c ls \<noteq> LEX_EOF \<or> lx_c (lex_next ls) \<noteq> LEX_EOF \<Longrightarrow> left (lex_next ls) < left ls"
  by (auto simp: left_def lex_next_def lex_more_def uint_not_eof split: list.splits)

lemma left_next_le: "left (lex_next ls) \<le> left ls"
  by (auto simp: left_def lex_next_def lex_more_def uint_not_eof split: list.splits)

lemma lex_save_fields:
  assumes "lex_save ls c = Inr ls'"
  shows "lx_c ls' = lx_c ls" "lx_in ls' = lx_in ls" "lx_chunks ls' = lx_chunks ls" "left ls' = left ls"
  using assms by (auto simp: lex_save_def rbind_eq_Inr left_def)

lemma lex_savenextE:
  assumes "lex_savenext ls = Inr ls'"
  obtains l where "lex_save ls (lx_c ls) = Inr l" "ls' = lex_next l" "left l = left ls" "lx_c l = lx_c ls"
  using assms by (auto simp: lex_savenext_def rbind_eq_Inr dest: lex_save_fields)

lemma left_savenext:
  assumes "lex_savenext ls = Inr ls'" "lx_c ls \<noteq> LEX_EOF \<or> lx_c ls' \<noteq> LEX_EOF"
  shows "left ls' < left ls"
  by (rule lex_savenextE [OF assms(1)]) (use assms(2) left_next in metis)

lemma left_savenext_le: "lex_savenext ls = Inr ls' \<Longrightarrow> left ls' \<le> left ls"
  using left_next_le by (metis lex_savenextE)

lemma left_reset [simp]: "left (lex_reset ls) = left ls"
  by (simp add: left_def lex_reset_def)

lemma left_newline:
  assumes "lex_newline ls = Inr ls'" "lx_c ls \<noteq> LEX_EOF"
  shows "left ls' < left ls"
proof -
  have e: "lj_lex_error l t e \<noteq> Inr y" for l t e and y :: LexState
    by (auto simp: lj_lex_error_def rbind_eq_Inr)
  have l: "left (l\<lparr>lx_linenumber := n\<rparr>) = left l" for l n by (simp add: left_def)
  show ?thesis
    using assms left_next [of ls] left_next_le [of "lex_next ls"]
    by (auto simp: lex_newline_def Let_def e l split: if_splits)
qed

lemma iseol_not_eof: "lex_iseol ls \<Longrightarrow> lx_c ls \<noteq> LEX_EOF"
  by (auto simp: lex_iseol_def LEX_EOF_def)

lemma isident_not_eof: "lj_char_isident (lx_c ls) \<Longrightarrow> lx_c ls \<noteq> LEX_EOF"
  using class_spec_eq [of "- 1"] by (auto simp: class_spec_def Let_def LEX_EOF_def)

lemma isspace_not_eof: "lj_char_isspace (lx_c ls) \<Longrightarrow> lx_c ls \<noteq> LEX_EOF"
  using class_spec_eq [of "- 1"] by (auto simp: class_spec_def Let_def LEX_EOF_def)

lemma isxdigit_not_eof: "lj_char_isdigit (lx_c ls) \<or> lj_char_isxdigit (lx_c ls) \<Longrightarrow> lx_c ls \<noteq> LEX_EOF"
  using class_spec_eq [of "- 1"] by (auto simp: class_spec_def Let_def LEX_EOF_def)

section \<open>Scanner for terminals\<close>

text \<open>Numbers: digits, letters, points, and a sign behind the exponent character.\<close>

definition in_number :: "LexState \<Rightarrow> int \<Rightarrow> int \<Rightarrow> bool" where
  "in_number ls c xp =
     (lj_char_isident (lx_c ls) \<or> lx_c ls = 0x2e \<or>
      ((lx_c ls = 0x2d \<or> lx_c ls = 0x2b) \<and> c OR 0x20 = xp))"

lemma in_number_not_eof: "in_number ls c xp \<Longrightarrow> lx_c ls \<noteq> LEX_EOF"
  by (auto simp: in_number_def isident_not_eof) (simp_all add: LEX_EOF_def)

function number_loop :: "LexState \<Rightarrow> int \<Rightarrow> int \<Rightarrow> LexState res" where
  "number_loop ls c xp =
     (if in_number ls c xp
      then let c = lx_c ls in rbind (lex_savenext ls) (\<lambda>ls. number_loop ls c xp)
      else Inr ls)"
  by pat_completeness auto
termination
  by (relation "measure (\<lambda>(ls, _, _). left ls)") (auto intro!: left_savenext dest: in_number_not_eof)

text \<open>\<^verbatim>\<open>LJ_HASFFI\<close> is 1 and \<^verbatim>\<open>LJ_DUALNUM\<close> 0.  The buffer is a C string behind the saved NUL.\<close>

definition lex_number :: "LexState \<Rightarrow> (LexState \<times> tokval) res" where
  "lex_number ls =
     (let c = lx_c ls in
      rbind (if c = 0x30
             then rbind (lex_savenext ls) (\<lambda>ls. Inr (ls, if lx_c ls OR 0x20 = 0x78 then 0x70 else 0x65))
             else Inr (ls, 0x65)) (\<lambda>(ls, xp).
      rbind (number_loop ls c xp) (\<lambda>ls.
      rbind (lex_save ls 0) (\<lambda>ls.
      rbind (lj_strscan_scan (butlast (sb_data (lx_sb ls)))
               (STRSCAN_OPT_TONUM OR (STRSCAN_OPT_LL OR STRSCAN_OPT_IMAG))) (\<lambda>(fmt, v).
      if fmt = STRSCAN_NUM then (case v of SNum n \<Rightarrow> Inr (ls, NumVal n) | _ \<Rightarrow> Inl Abort)
      else if fmt \<noteq> STRSCAN_ERROR
      then (case v of SNum n \<Rightarrow> Inr (ls, CdataVal fmt n) | SU64 n \<Rightarrow> Inr (ls, CdataVal fmt n) | _ \<Rightarrow> Inl Abort)
      else lj_lex_error ls TK_number LJ_ERR_XNUMBER)))))"

text \<open>\<^verbatim>\<open>lex_skipeq\<close> on \<^verbatim>\<open>s\<close>, a bracket: the count, or its complement.\<close>

function skipeq_loop :: "LexState \<Rightarrow> int \<Rightarrow> (LexState \<times> int) res" where
  "skipeq_loop ls count =
     rbind (lex_savenext ls) (\<lambda>ls'.
     if lx_c ls' = 0x3d then skipeq_loop ls' (count + 1) else Inr (ls', count))"
  by pat_completeness auto
termination
  by (relation "measure (\<lambda>(ls, _). left ls)") (auto intro!: left_savenext simp: LEX_EOF_def)

definition lex_skipeq :: "LexState \<Rightarrow> (LexState \<times> int) res" where
  "lex_skipeq ls =
     (let s = lx_c ls in
      rbind (skipeq_loop ls 0) (\<lambda>(ls, count). Inr (ls, if lx_c ls = s then count else - count - 1)))"

lemma left_skipeq_loop: "skipeq_loop ls n = Inr (ls', m) \<Longrightarrow> lx_c ls \<noteq> LEX_EOF \<Longrightarrow> left ls' < left ls"
proof (induction ls n arbitrary: ls' m rule: skipeq_loop.induct)
  case (1 ls n)
  obtain l where l: "lex_savenext ls = Inr l" using 1(2) by (auto simp: rbind_eq_Inr skipeq_loop.simps [of ls])
  then have "left l < left ls" using 1(3) by (intro left_savenext) simp_all
  then show ?case
    using 1(1) [OF l] 1(2) l by (fastforce simp: LEX_EOF_def skipeq_loop.simps [of ls] split: if_splits)
qed

lemma left_skipeq: "lex_skipeq ls = Inr (ls', m) \<Longrightarrow> lx_c ls \<noteq> LEX_EOF \<Longrightarrow> left ls' < left ls"
  by (auto simp: lex_skipeq_def Let_def rbind_eq_Inr intro: left_skipeq_loop)

declare number_loop.simps [simp del] skipeq_loop.simps [simp del]

text \<open>
  A long string (\<open>keep\<close>) or a long comment; the error names the kind.  In the loop, a bracket
  that does not close the string leaves its characters in the buffer.
\<close>

function longstring_loop :: "LexState \<Rightarrow> bool \<Rightarrow> int \<Rightarrow> LexState res" where
  "longstring_loop ls keep sep =
     (if lx_c ls = LEX_EOF then lj_lex_error ls TK_eof (if keep then LJ_ERR_XLSTR else LJ_ERR_XLCOM)
      else if lx_c ls = 0x5d
      then rbind (lex_skipeq ls) (\<lambda>(ls, n).
           if n = sep then lex_savenext ls else longstring_loop ls keep sep)
      else if lex_iseol ls
      then rbind (lex_save ls 0x0a) (\<lambda>ls.
           rbind (lex_newline ls) (\<lambda>ls.
           longstring_loop (if keep then ls else lex_reset ls) keep sep))
      else rbind (lex_savenext ls) (\<lambda>ls. longstring_loop ls keep sep))"
  by pat_completeness auto
termination
proof (relation "measure (\<lambda>(ls, _, _). left ls)", goal_cases)
  case (3 ls keep sep l l')
  then have "left l' < left l" by (auto intro!: left_newline dest: lex_save_fields)
  then show ?case using lex_save_fields(4) [OF 3(4)] by simp
qed (auto intro: left_skipeq left_savenext [OF _ disjI1])

declare longstring_loop.simps [simp del]

definition first_newline :: "LexState \<Rightarrow> LexState res" where
  "first_newline ls = (if lex_iseol ls then lex_newline ls else Inr ls)"

definition lex_longstring :: "LexState \<Rightarrow> bool \<Rightarrow> int \<Rightarrow> (LexState \<times> tokval) res" where
  "lex_longstring ls keep sep =
     rbind (lex_savenext ls) (\<lambda>ls.
     rbind (first_newline ls) (\<lambda>ls.
     rbind (longstring_loop ls keep sep) (\<lambda>ls.
     if keep
     then let d = sb_data (lx_sb ls); k = 2 + nat sep in
          Inr (ls, StrVal (the_str (take (length d - 2 * k) (drop k d))))
     else Inr (ls, NoVal))))"

text \<open>Escapes of a string, behind the backslash.\<close>

text \<open>\<^verbatim>\<open>ls->c & 15u\<close>, plus 9 for a letter; \<open>None\<close> is no hexadecimal digit.\<close>

definition xdigit :: "LexState \<Rightarrow> int option" where
  "xdigit ls =
     (if lj_char_isdigit (lx_c ls) then Some (lx_c ls AND 15)
      else if lj_char_isxdigit (lx_c ls) then Some ((lx_c ls AND 15) + 9) else None)"

definition err_xesc :: "LexState \<Rightarrow> 'a res" where
  "err_xesc ls = lj_lex_error ls TK_string LJ_ERR_XESC"

definition esc_hex :: "LexState \<Rightarrow> (LexState \<times> int) res" where
  "esc_hex ls =
     (let ls = lex_next ls in
      case xdigit ls of None \<Rightarrow> err_xesc ls | Some h \<Rightarrow>
      let ls = lex_next ls in
      case xdigit ls of None \<Rightarrow> err_xesc ls | Some l \<Rightarrow> Inr (ls, push_bit 4 h + l))"

function unicode_loop :: "LexState \<Rightarrow> int \<Rightarrow> (LexState \<times> int) res" where
  "unicode_loop ls c =
     (case xdigit ls of
        None \<Rightarrow> err_xesc ls
      | Some d \<Rightarrow>
          let c = push_bit 4 c + d in
          if 0x110000 \<le> c then err_xesc ls
          else let ls' = lex_next ls in
               if lx_c ls' \<noteq> 0x7d then unicode_loop ls' c else Inr (ls', c))"
  by pat_completeness auto
termination
proof (relation "measure (\<lambda>(ls, _). left ls)", goal_cases)
  case (2 ls c d x xa)
  then have "lx_c ls \<noteq> LEX_EOF" using isxdigit_not_eof [of ls] by (auto simp: xdigit_def split: if_splits)
  then show ?case using 2 left_next by auto
qed simp

declare unicode_loop.simps [simp del]

text \<open>The UTF-8 encoding but for its last byte, which the caller saves.\<close>

definition esc_utf8 :: "LexState \<Rightarrow> int \<Rightarrow> (LexState \<times> int) res" where
  "esc_utf8 ls c =
     (if c < 0x80 then Inr (ls, c)
      else
      rbind (if c < 0x800 then lex_save ls (0xc0 OR drop_bit 6 c)
             else
             rbind (if 0x10000 \<le> c
                    then rbind (lex_save ls (0xf0 OR drop_bit 18 c)) (\<lambda>ls.
                         lex_save ls (0x80 OR (drop_bit 12 c AND 0x3f)))
                    else if 0xd800 \<le> c \<and> c < 0xe000 then err_xesc ls
                    else lex_save ls (0xe0 OR drop_bit 12 c)) (\<lambda>ls.
             lex_save ls (0x80 OR (drop_bit 6 c AND 0x3f)))) (\<lambda>ls.
      Inr (ls, 0x80 OR (c AND 0x3f))))"

definition esc_unicode :: "LexState \<Rightarrow> (LexState \<times> int) res" where
  "esc_unicode ls =
     (let ls = lex_next ls in
      if lx_c ls \<noteq> 0x7b then err_xesc ls
      else rbind (unicode_loop (lex_next ls) 0) (\<lambda>(ls, c). esc_utf8 ls c))"

function skip_white :: "LexState \<Rightarrow> LexState res" where
  "skip_white ls =
     (if lj_char_isspace (lx_c ls)
      then if lex_iseol ls then rbind (lex_newline ls) skip_white else skip_white (lex_next ls)
      else Inr ls)"
  by pat_completeness auto
termination
  by (relation "measure left") (auto intro: left_newline left_next [OF disjI1] dest: isspace_not_eof)

declare skip_white.simps [simp del]

definition esc_decimal :: "LexState \<Rightarrow> int \<Rightarrow> LexState res" where
  "esc_decimal ls c =
     (if \<not> lj_char_isdigit c then err_xesc ls
      else
      let c = c - 0x30; ls = lex_next ls in
      rbind (if lj_char_isdigit (lx_c ls)
             then let c = c * 10 + (lx_c ls - 0x30); ls = lex_next ls in
                  if lj_char_isdigit (lx_c ls)
                  then let c = c * 10 + (lx_c ls - 0x30) in
                       if 255 < c then err_xesc ls else Inr (lex_next ls, c)
                  else Inr (ls, c)
             else Inr (ls, c)) (\<lambda>(ls, c).
      lex_save ls c))"

definition simple_escapes :: "(int \<times> int) list" where
  "simple_escapes = [(0x61, 7), (0x62, 8), (0x66, 12), (0x6e, 10), (0x72, 13), (0x74, 9), (0x76, 11)]"

definition lex_escape :: "LexState \<Rightarrow> LexState res" where
  "lex_escape ls =
     (let ls = lex_next ls; c = lx_c ls;
          save = (\<lambda>ls c. rbind (lex_save ls c) (\<lambda>ls. Inr (lex_next ls))) in
      case map_of simple_escapes c of
        Some c \<Rightarrow> save ls c
      | None \<Rightarrow>
      if c = 0x78 then rbind (esc_hex ls) (\<lambda>(ls, c). save ls c)
      else if c = 0x75 then rbind (esc_unicode ls) (\<lambda>(ls, c). save ls c)
      else if c = 0x7a then skip_white (lex_next ls)
      else if c = 0x0a \<or> c = 0x0d then rbind (lex_save ls 0x0a) lex_newline
      else if c = 0x5c \<or> c = 0x22 \<or> c = 0x27 then save ls c
      else if c = LEX_EOF then Inr ls
      else esc_decimal ls c)"

lemma lex_error_not_Inr [simp]: "lj_lex_error ls tok em \<noteq> Inr y" "err_xesc ls \<noteq> Inr y"
  by (auto simp: lj_lex_error_def err_xesc_def rbind_eq_Inr)

lemma left_esc_hex: "esc_hex ls = Inr (ls', c) \<Longrightarrow> left ls' \<le> left ls"
  using left_next_le [of ls] left_next_le [of "lex_next ls"]
  by (auto simp: esc_hex_def Let_def split: option.splits)

lemma left_unicode_loop: "unicode_loop ls c = Inr (ls', d) \<Longrightarrow> left ls' \<le> left ls"
proof (induction ls c arbitrary: ls' d rule: unicode_loop.induct)
  case (1 ls c)
  show ?case
  proof (cases "xdigit ls")
    case None
    then show ?thesis using 1(2) by (simp add: unicode_loop.simps [of ls])
  next
    case (Some x)
    show ?thesis
      using 1(1) [OF Some refl _ refl] 1(2) Some left_next_le [of ls]
      by (fastforce simp: unicode_loop.simps [of ls] Let_def split: if_splits)
  qed
qed

lemma left_esc_utf8: "esc_utf8 ls c = Inr (ls', d) \<Longrightarrow> left ls' = left ls"
  by (auto simp: esc_utf8_def rbind_eq_Inr dest!: lex_save_fields(4) split: if_splits)

lemma left_esc_unicode: "esc_unicode ls = Inr (ls', c) \<Longrightarrow> left ls' \<le> left ls"
  using left_next_le [of ls] left_next_le [of "lex_next ls"]
  by (auto simp: esc_unicode_def Let_def rbind_eq_Inr dest!: left_unicode_loop left_esc_utf8 split: if_splits)

lemma left_skip_white: "skip_white ls = Inr ls' \<Longrightarrow> left ls' \<le> left ls"
proof (induction ls arbitrary: ls' rule: skip_white.induct)
  case (1 ls)
  show ?case
  proof (cases "lj_char_isspace (lx_c ls) \<and> lex_iseol ls")
    case True
    then obtain l where "lex_newline ls = Inr l" "skip_white l = Inr ls'"
      using 1(3) by (auto simp: skip_white.simps [of ls] rbind_eq_Inr)
    then show ?thesis using 1(1) [of l] left_newline [of ls l] True iseol_not_eof by fastforce
  next
    case False
    then show ?thesis using 1(2,3) left_next_le [of ls]
      by (fastforce simp: skip_white.simps [of ls] split: if_splits)
  qed
qed

lemma left_esc_decimal: "esc_decimal ls c = Inr ls' \<Longrightarrow> left ls' \<le> left ls"
  using left_next_le [of ls] left_next_le [of "lex_next ls"] left_next_le [of "lex_next (lex_next ls)"]
  by (auto simp: esc_decimal_def Let_def rbind_eq_Inr dest!: lex_save_fields(4) split: if_splits)

lemma left_escape:
  assumes "lex_escape ls = Inr ls'" "lx_c ls \<noteq> LEX_EOF"
  shows "left ls' < left ls"
proof -
  have n: "left (lex_next ls) < left ls" using assms(2) by (intro left_next) simp
  have sv: "left l' \<le> left l" if "rbind (lex_save l c) (\<lambda>ls. Inr (lex_next ls)) = Inr l'" for l l' c
    using that left_next_le by (auto simp: rbind_eq_Inr dest!: lex_save_fields(4)) (metis)
  have nl: "left l' \<le> left l" if b: "rbind (lex_save l c) lex_newline = Inr l'" and e: "lex_iseol l" for l l' c
  proof -
    obtain l1 where l1: "lex_save l c = Inr l1" "lex_newline l1 = Inr l'" using b by (auto simp: rbind_eq_Inr)
    moreover have "lx_c l1 \<noteq> LEX_EOF" using l1(1) e lex_save_fields(1) iseol_not_eof by metis
    ultimately show ?thesis using left_newline [of l1 l'] lex_save_fields(4) [OF l1(1)] by simp
  qed
  have pr: "left l' \<le> left l"
    if m: "rbind m (\<lambda>(ls, c). rbind (lex_save ls c) (\<lambda>ls. Inr (lex_next ls))) = Inr l'"
      and le: "\<And>x c. m = Inr (x, c) \<Longrightarrow> left x \<le> left l" for m l l'
  proof -
    obtain x c where x: "m = Inr (x, c)" "rbind (lex_save x c) (\<lambda>ls. Inr (lex_next ls)) = Inr l'"
      using m by (auto simp: rbind_eq_Inr [of m])
    show ?thesis using sv [OF x(2)] le [OF x(1)] by simp
  qed
  let ?l = "lex_next ls"
  have "left ls' \<le> left ?l"
    using assms(1) left_next_le [of ?l] unfolding lex_escape_def Let_def
    by (auto split: option.splits if_splits simp: lex_iseol_def
        dest: sv nl pr [OF _ left_esc_hex] pr [OF _ left_esc_unicode] left_skip_white left_esc_decimal)
  then show ?thesis using n by simp
qed

function string_loop :: "LexState \<Rightarrow> int \<Rightarrow> LexState res" where
  "string_loop ls delim =
     (if lx_c ls = delim then Inr ls
      else if lx_c ls = LEX_EOF then lj_lex_error ls TK_eof LJ_ERR_XSTR
      else if lex_iseol ls then lj_lex_error ls TK_string LJ_ERR_XSTR
      else if lx_c ls = 0x5c then rbind (lex_escape ls) (\<lambda>ls. string_loop ls delim)
      else rbind (lex_savenext ls) (\<lambda>ls. string_loop ls delim))"
  by pat_completeness auto
termination
  by (relation "measure (\<lambda>(ls, _). left ls)") (auto intro: left_escape left_savenext)

declare string_loop.simps [simp del]

definition lex_string :: "LexState \<Rightarrow> (LexState \<times> tokval) res" where
  "lex_string ls =
     (let delim = lx_c ls in
      rbind (lex_savenext ls) (\<lambda>ls.
      rbind (string_loop ls delim) (\<lambda>ls.
      rbind (lex_savenext ls) (\<lambda>ls.
      let d = sb_data (lx_sb ls) in
      Inr (ls, StrVal (the_str (take (length d - 2) (drop 1 d))))))))"

section \<open>Main lexical scanner\<close>

function name_loop :: "LexState \<Rightarrow> LexState res" where
  "name_loop ls =
     rbind (lex_savenext ls) (\<lambda>ls. if lj_char_isident (lx_c ls) then name_loop ls else Inr ls)"
  by pat_completeness auto
termination
  by (relation "measure left") (auto intro!: left_savenext dest: isident_not_eof)

function comment_loop :: "LexState \<Rightarrow> LexState" where
  "comment_loop ls = (if \<not> lex_iseol ls \<and> lx_c ls \<noteq> LEX_EOF then comment_loop (lex_next ls) else ls)"
  by pat_completeness auto
termination by (relation "measure left") (auto intro: left_next)

declare name_loop.simps [simp del] comment_loop.simps [simp del]

text \<open>
  One token, or \<open>None\<close> where the code \<^verbatim>\<open>continue\<close>s: white space and comments.  The value
  is left alone (\<open>NoVal\<close>) by the tokens without one.
\<close>

definition tok1 :: "LexState \<Rightarrow> LexToken \<Rightarrow> (LexState \<times> (LexToken \<times> tokval) option) res" where
  "tok1 ls tok = Inr (ls, Some (tok, NoVal))"

text \<open>The tokens of one or two characters: \<^verbatim>\<open>c2\<close> behind \<^verbatim>\<open>c\<close> makes \<^verbatim>\<open>tok2\<close>.\<close>

definition tok2 :: "LexState \<Rightarrow> int \<Rightarrow> LexToken \<Rightarrow> (LexState \<times> (LexToken \<times> tokval) option) res" where
  "tok2 ls c2 tok =
     (let c = lx_c ls; ls = lex_next ls in if lx_c ls \<noteq> c2 then tok1 ls c else tok1 (lex_next ls) tok)"

definition scan_name :: "LexState \<Rightarrow> (LexState \<times> (LexToken \<times> tokval) option) res" where
  "scan_name ls =
     rbind (name_loop ls) (\<lambda>ls.
     let s = sb_data (lx_sb ls); r = lj_lex_init s in
     Inr (ls, Some (if 0 < r then TK_OFS + int r else TK_name, StrVal (the_str s))))"

definition scan_valued ::
  "LexToken \<Rightarrow> (LexState \<times> tokval) res \<Rightarrow> (LexState \<times> (LexToken \<times> tokval) option) res" where
  "scan_valued tok m = rbind m (\<lambda>(ls, v). Inr (ls, Some (tok, v)))"

definition scan_comment :: "LexState \<Rightarrow> (LexState \<times> (LexToken \<times> tokval) option) res" where
  "scan_comment ls =
     (let ls = lex_next ls; short = (\<lambda>ls. Inr (comment_loop ls, None)) in
      if lx_c ls = 0x5b
      then rbind (lex_skipeq ls) (\<lambda>(ls, sep).
           let ls = lex_reset ls in
           if 0 \<le> sep
           then rbind (lex_longstring ls False sep) (\<lambda>(ls, _). Inr (lex_reset ls, None))
           else short ls)
      else short ls)"

definition scan_step :: "LexState \<Rightarrow> (LexState \<times> (LexToken \<times> tokval) option) res" where
  "scan_step ls =
     (let c = lx_c ls in
      if lj_char_isident c
      then if lj_char_isdigit c then scan_valued TK_number (lex_number ls) else scan_name ls
      else if lex_iseol ls then rbind (lex_newline ls) (\<lambda>ls. Inr (ls, None))
      else if c = 0x20 \<or> c = 0x09 \<or> c = 0x0b \<or> c = 0x0c then Inr (lex_next ls, None)
      else if c = 0x2d
      then let ls = lex_next ls in if lx_c ls \<noteq> 0x2d then tok1 ls 0x2d else scan_comment ls
      else if c = 0x5b
      then rbind (lex_skipeq ls) (\<lambda>(ls, sep).
           if 0 \<le> sep then scan_valued TK_string (lex_longstring ls True sep)
           else if sep = - 1 then tok1 ls 0x5b
           else lj_lex_error ls TK_string LJ_ERR_XLDELIM)
      else if c = 0x3d then tok2 ls 0x3d TK_eq
      else if c = 0x3c then tok2 ls 0x3d TK_le
      else if c = 0x3e then tok2 ls 0x3d TK_ge
      else if c = 0x7e then tok2 ls 0x3d TK_ne
      else if c = 0x3a then tok2 ls 0x3a TK_label
      else if c = 0x22 \<or> c = 0x27 then scan_valued TK_string (lex_string ls)
      else if c = 0x2e
      then rbind (lex_savenext ls) (\<lambda>ls.
           if lx_c ls = 0x2e
           then let ls = lex_next ls in
                if lx_c ls = 0x2e then tok1 (lex_next ls) TK_dots else tok1 ls TK_concat
           else if \<not> lj_char_isdigit (lx_c ls) then tok1 ls 0x2e
           else scan_valued TK_number (lex_number ls))
      else if c = LEX_EOF then tok1 ls TK_eof
      else tok1 (lex_next ls) c)"

lemma left_comment_loop: "left (comment_loop ls) \<le> left ls"
proof (induction ls rule: comment_loop.induct)
  case (1 ls)
  then show ?case using left_next_le [of ls] by (fastforce simp: comment_loop.simps [of ls])
qed

lemma left_longstring_loop: "longstring_loop ls keep sep = Inr ls' \<Longrightarrow> left ls' \<le> left ls"
proof (induction ls keep sep arbitrary: ls' rule: longstring_loop.induct)
  case (1 ls keep sep)
  consider "lx_c ls = LEX_EOF" | "lx_c ls = 0x5d" "lx_c ls \<noteq> LEX_EOF"
    | "lex_iseol ls" "lx_c ls \<noteq> LEX_EOF" "lx_c ls \<noteq> 0x5d"
    | "\<not> lex_iseol ls" "lx_c ls \<noteq> LEX_EOF" "lx_c ls \<noteq> 0x5d" by blast
  then show ?case
  proof cases
    case 1
    then show ?thesis using "1.prems" by (simp add: longstring_loop.simps [of ls])
  next
    case 2
    then obtain l n where l: "lex_skipeq ls = Inr (l, n)"
        "(if n = sep then lex_savenext l else longstring_loop l keep sep) = Inr ls'"
      using "1.prems" by (auto simp: longstring_loop.simps [of ls] rbind_eq_Inr)
    have "left l < left ls" by (rule left_skipeq [OF l(1) 2(2)])
    moreover have "left ls' \<le> left l"
      using l(2) "1.IH"(1) [OF 2(2,1) l(1) refl] left_savenext_le by (auto split: if_splits)
    ultimately show ?thesis by simp
  next
    case 3
    then obtain l1 l where l: "lex_save ls 0x0a = Inr l1" "lex_newline l1 = Inr l"
        "longstring_loop (if keep then l else lex_reset l) keep sep = Inr ls'"
      using "1.prems" by (auto simp: longstring_loop.simps [of ls] rbind_eq_Inr)
    have "left l < left ls" using left_newline [OF l(2)] lex_save_fields [OF l(1)] 3 by simp
    then show ?thesis using "1.IH"(2) [OF 3(2,3,1) l(1,2,3)] by (simp split: if_splits)
  next
    case 4
    then obtain l where l: "lex_savenext ls = Inr l" "longstring_loop l keep sep = Inr ls'"
      using "1.prems" by (auto simp: longstring_loop.simps [of ls] rbind_eq_Inr)
    then show ?thesis using "1.IH"(3) [OF 4(2,3,1) l] left_savenext_le [OF l(1)] by simp
  qed
qed

lemma left_longstring: "lex_longstring ls keep sep = Inr (ls', v) \<Longrightarrow> left ls' \<le> left ls"
proof -
  assume "lex_longstring ls keep sep = Inr (ls', v)"
  then obtain l1 l2 where l: "lex_savenext ls = Inr l1" "first_newline l1 = Inr l2"
      "longstring_loop l2 keep sep = Inr ls'"
    by (auto simp: lex_longstring_def rbind_eq_Inr Let_def split: if_splits)
  have "left l2 \<le> left l1" using l(2) left_newline [of l1 l2] iseol_not_eof [of l1] by (auto simp: first_newline_def split: if_splits)
  then show ?thesis using left_savenext_le [OF l(1)] left_longstring_loop [OF l(3)] by simp
qed

lemma left_scan_comment:
  assumes "scan_comment ls = Inr (ls', None)"
  shows "left ls' \<le> left ls"
proof -
  let ?l = "lex_next ls"
  have n: "left ?l \<le> left ls" by (rule left_next_le)
  show ?thesis
  proof (cases "lx_c ?l = 0x5b")
    case True
    then obtain l sep where l: "lex_skipeq ?l = Inr (l, sep)"
      using assms by (auto simp: scan_comment_def Let_def rbind_eq_Inr)
    have "left l < left ?l" using left_skipeq [OF l] True by (simp add: LEX_EOF_def)
    moreover have "left ls' \<le> left l"
      using assms True l left_comment_loop [of "lex_reset l"]
      by (auto simp: scan_comment_def Let_def rbind_eq_Inr split: if_splits dest!: left_longstring)
    ultimately show ?thesis using n by simp
  next
    case False
    then show ?thesis using assms n left_comment_loop [of ?l] by (auto simp: scan_comment_def Let_def)
  qed
qed

lemma eof_class [simp]:
  "\<not> lj_char_isident LEX_EOF" "\<not> lj_char_isdigit LEX_EOF" "\<not> lj_char_isxdigit LEX_EOF"
  "\<not> lj_char_isspace LEX_EOF" "LEX_EOF \<noteq> numeral n"
  using class_spec_eq [of "- 1"] by (simp_all add: LEX_EOF_def class_spec_def Let_def)

lemma scan_step_eof: "lx_c ls = LEX_EOF \<Longrightarrow> scan_step ls = tok1 ls TK_eof"
  by (simp add: scan_step_def Let_def lex_iseol_def)

lemma left_scan_step:
  assumes "scan_step ls = Inr (ls', None)"
  shows "left ls' < left ls"
proof -
  have t: "tok1 l t \<noteq> Inr (l', None)" "tok2 l c t \<noteq> Inr (l', None)" "scan_valued t m \<noteq> Inr (l', None)"
    "scan_name l \<noteq> Inr (l', None)" for l c t m l'
    by (auto simp: tok1_def tok2_def scan_valued_def scan_name_def Let_def rbind_eq_Inr)
  have n: "lx_c ls \<noteq> LEX_EOF" using assms scan_step_eof [of ls] by (auto simp: tok1_def)
  then have nx: "left (lex_next ls) < left ls" by (intro left_next) simp
  show ?thesis
    using assms n nx left_newline [of ls] left_scan_comment [of "lex_next ls"]
    by (fastforce simp: scan_step_def Let_def t rbind_eq_Inr split: if_splits)
qed

function scan_loop :: "LexState \<Rightarrow> (LexState \<times> LexToken \<times> tokval) res" where
  "scan_loop ls =
     rbind (scan_step ls) (\<lambda>(ls, r). case r of None \<Rightarrow> scan_loop ls | Some t \<Rightarrow> Inr (ls, t))"
  by pat_completeness auto
termination by (relation "measure left") (auto intro: left_scan_step)

declare scan_loop.simps [simp del]

definition lex_scan :: "LexState \<Rightarrow> (LexState \<times> LexToken \<times> tokval) res" where
  "lex_scan ls = scan_loop (lex_reset ls)"

section \<open>Lexer interface\<close>

definition put_val :: "tokval \<Rightarrow> tokval \<Rightarrow> tokval" where
  "put_val old v = (if v = NoVal then old else v)"

definition lj_lex_next :: "LexState \<Rightarrow> LexState res" where
  "lj_lex_next ls =
     (let ls = ls\<lparr>lx_lastline := lx_linenumber ls\<rparr> in
      if lx_lookahead ls = TK_eof
      then rbind (lex_scan ls) (\<lambda>(ls, tok, v).
           Inr (ls\<lparr>lx_tok := tok, lx_tokval := put_val (lx_tokval ls) v\<rparr>))
      else Inr (ls\<lparr>lx_tok := lx_lookahead ls, lx_lookahead := TK_eof, lx_tokval := lx_lookaheadval ls\<rparr>))"

text \<open>The assertion that there is no look-ahead token yet is compiled out.\<close>

definition lj_lex_lookahead :: "LexState \<Rightarrow> (LexState \<times> LexToken) res" where
  "lj_lex_lookahead ls =
     rbind (lex_scan ls) (\<lambda>(ls, tok, v).
     Inr (ls\<lparr>lx_lookahead := tok, lx_lookaheadval := put_val (lx_lookaheadval ls) v\<rparr>, tok))"

text \<open>
  Setup: read the first character, skip a byte order mark and a \<^verbatim>\<open>#\<close> line; the result is
  whether bytecode follows.
\<close>

definition lex_init :: "LexState \<Rightarrow> LexState" where
  "lex_init ls =
     ls\<lparr>lx_in := [], lx_tok := 0, lx_lookahead := TK_eof, lx_linenumber := 1, lx_lastline := 1\<rparr>"

function skip_line :: "LexState \<Rightarrow> LexState" where
  "skip_line ls =
     (let ls' = lex_next ls in
      if lx_c ls' = LEX_EOF then ls' else if lex_iseol ls' then ls' else skip_line ls')"
  by pat_completeness auto
termination by (relation "measure left") (auto intro: left_next)

declare skip_line.simps [simp del]

definition BOM_rest :: bytes where "BOM_rest = [0xbb, 0xbf]"

definition lj_lex_setup :: "LexState \<Rightarrow> (LexState \<times> bool) res" where
  "lj_lex_setup ls =
     (let ls = lex_next (lex_init ls);
          bom = (lx_c ls = 0xef \<and> 2 \<le> length (lx_in ls) \<and> take 2 (lx_in ls) = BOM_rest);
          ls = (if bom then lex_next (ls\<lparr>lx_in := drop 2 (lx_in ls)\<rparr>) else ls);
          finish = (\<lambda>ls header.
            if lx_c ls = 27
            then if header then Inl (Throw LJ_ERR_BCBAD) else Inr (ls, True)
            else Inr (ls, False)) in
      if lx_c ls = 0x23
      then let ls = skip_line ls in
           if lx_c ls = LEX_EOF then Inr (ls, False)
           else rbind (lex_newline ls) (\<lambda>ls. finish ls True)
      else finish ls bom)"

text \<open>
  The modified setup also takes the signature \<^verbatim>\<open>XANA\<close> for bytecode; it reads the bytes
  behind the \<^verbatim>\<open>X\<close> without looking at the end of the window.  The bytes of a byte order mark are
  compared as \<^verbatim>\<open>_BYTE\<close>, which is unsigned, with the numbers -69 and -65.
\<close>

definition peek_at :: "LexState \<Rightarrow> nat \<Rightarrow> u8 res" where
  "peek_at ls i = rbind (in_range (i < length (lx_in ls))) (\<lambda>_. Inr (lx_in ls ! i))"

definition is_xana :: "LexState \<Rightarrow> bool res" where
  "is_xana ls =
     rbind (peek_at ls 0) (\<lambda>a. if a \<noteq> 65 then Inr False else
     rbind (peek_at ls 1) (\<lambda>b. if b \<noteq> 78 then Inr False else
     rbind (peek_at ls 2) (\<lambda>c. Inr (c = 65))))"

definition setup_rest :: "LexState \<Rightarrow> bool \<Rightarrow> (LexState \<times> bool) res" where
  "setup_rest ls header =
     (if lx_c ls = 35
      then let ls = skip_line ls in
           if lx_c ls = LEX_EOF then Inr (ls, False)
           else rbind (lex_newline ls) (\<lambda>ls.
                if lx_c ls \<noteq> 27 then Inr (ls, False) else Inl (Throw (Err_offset 2972)))
      else if lx_c ls \<noteq> 27 then Inr (ls, False)
      else if \<not> header then Inr (ls, True) else Inl (Throw (Err_offset 2972)))"

definition lj_lex_setup_mod :: "LexState \<Rightarrow> (LexState \<times> bool) res" where
  "lj_lex_setup_mod ls =
     (let ls = lex_next (lex_init ls) in
      if lx_c ls = 88 then rbind (is_xana ls) (\<lambda>r. Inr (ls, r))
      else if lx_c ls \<noteq> 239 then setup_rest ls False
      else if 2 \<le> length (lx_in ls) \<and> uint (lx_in ls ! 0) = - 69 \<and> uint (lx_in ls ! 1) = - 65
      then setup_rest (lex_next (ls\<lparr>lx_in := drop 2 (lx_in ls)\<rparr>)) True
      else Inr (ls, False))"

text \<open>The lexer of \<^verbatim>\<open>lua_loadx\<close>, before the setup: of its fields only the buffer is set.\<close>

definition lex_source :: "bytes list \<Rightarrow> LexState" where
  "lex_source chunks =
     \<lparr>lx_in = [], lx_chunks = chunks, lx_c = 0, lx_sb = lj_buf_init, lx_linenumber = 0, lx_lastline = 0,
      lx_tok = 0, lx_tokval = NoVal, lx_lookahead = 0, lx_lookaheadval = NoVal\<rparr>"

end
