(* ===== verification/LexQuote.thy ===== *)
theory LexQuote
  imports Lex StrfmtInt StrscanText
begin

text \<open>
  Quoting and reading back: what \<^verbatim>\<open>lj_strfmt_putquoted\<close> (the \<^verbatim>\<open>%q\<close> format) writes for a
  string is a string literal of the lexer with that content.
\<close>

section \<open>The text of a quoted string\<close>

fun quote_body :: "bytes \<Rightarrow> bytes" where
  "quote_body [] = []"
| "quote_body (c # s) = quote_char c (peek s) @ quote_body s"

lemma unat_ucast32 [simp]: "unat (ucast (c :: u8) :: u32) = unat c"
  using u8_less [of c] by (simp add: unsigned_ucast_eq take_bit_nat_eq_self)

lemma quote_char_eq:
  "quote_char c nxt =
     (if c = 0x22 \<or> c = 0x5c \<or> c = 0x0a then [0x5c, c]
      else if lj_char_iscntrl (uint c) then 0x5c # quote_digits (ucast c) nxt else [c])"
proof -
  have e: "(ucast c :: u32) = 0x22 \<longleftrightarrow> c = 0x22" "(ucast c :: u32) = 0x5c \<longleftrightarrow> c = 0x5c"
    "(ucast c :: u32) = 0x0a \<longleftrightarrow> c = 0x0a"
    unfolding word_unat_eq_iff unat_ucast32 by simp_all
  have "uint (ucast c :: u32) = uint c" by (simp only: uint_nat unat_ucast32)
  then show ?thesis unfolding quote_char_def Let_def e by simp
qed

lemma quote_char_length: "length (quote_char c n) \<le> 4"
  by (simp add: quote_char_eq quote_digits_def quote_tens_def Let_def)

lemma putquoted_loop_appends: "appends (4 * length s) (quote_body s) (putquoted_loop s)"
proof (induction s)
  case Nil
  show ?case using appends_Nil by (auto elim: appends_cong)
next
  case (Cons c s)
  have "appends 4 (quote_char c (peek s)) (\<lambda>sb. rbind (lj_buf_more sb 4) (\<lambda>sb. buf_put sb (quote_char c (peek s))))"
    by (rule appends_more_put) (rule quote_char_length)
  from appends_bind [OF this Cons.IH] show ?case by (auto elim!: appends_cong appends_weaken)
qed

lemma putb_appends: "appends 1 [c] (\<lambda>sb. lj_buf_putb sb c)"
  unfolding lj_buf_putb_def by (rule appends_more_put) simp

lemma lj_strfmt_putquoted_appends:
  "appends (4 * length s + 2) (0x22 # quote_body s @ [0x22]) (\<lambda>sb. lj_strfmt_putquoted sb s)"
  using appends_bind [OF putb_appends [of "0x22"] appends_bind [OF putquoted_loop_appends [of s] putb_appends [of "0x22"]]]
  by (auto simp: lj_strfmt_putquoted_def elim!: appends_cong appends_weaken)

interpretation putquoted: buf_appender lj_strfmt_putquoted "\<lambda>s. 0x22 # quote_body s @ [0x22]" "\<lambda>s. 4 * length s + 2"
  by unfold_locales (rule lj_strfmt_putquoted_appends)

section \<open>The lexer on one window\<close>

text \<open>
  \<open>lexing b ls c p d n\<close>: in \<open>ls\<close> the current character is \<open>c\<close>, the window goes on with
  \<open>p\<close>, the token buffer holds \<open>d\<close> and the line is \<open>n\<close>; the rest is as in \<open>b\<close>.
\<close>

definition lexing :: "LexState \<Rightarrow> LexState \<Rightarrow> u8 \<Rightarrow> bytes \<Rightarrow> bytes \<Rightarrow> nat \<Rightarrow> bool" where
  "lexing b ls c p d n \<longleftrightarrow>
     (\<exists>sb. sbuf_ok sb \<and> sb_data sb = d \<and>
       ls = b\<lparr>lx_c := uint c, lx_in := p, lx_sb := sb, lx_linenumber := n\<rparr>)"

lemma lexing_fields:
  assumes "lexing b ls c p d n"
  shows "lx_c ls = uint c" "lx_in ls = p" "sb_data (lx_sb ls) = d" "lx_linenumber ls = n"
    "sbuf_ok (lx_sb ls)"
  using assms by (auto simp: lexing_def)

lemma lexing_next: "lexing b ls c (c' # p) d n \<Longrightarrow> lexing b (lex_next ls) c' p d n"
  by (auto simp: lexing_def lex_next_def)

lemma lexing_save:
  assumes "lexing b ls c p d n" "length d < LJ_MAX_BUF"
  obtains ls' where "lex_save ls x = Inr ls'" "lexing b ls' c p (d @ [word_of_int x]) n"
proof -
  have r: "sbuf_ok (lx_sb ls)" "sbuflen (lx_sb ls) + 1 \<le> LJ_MAX_BUF"
    using assms by (simp_all add: lexing_fields)
  obtain sb where "lj_buf_putb (lx_sb ls) (word_of_int x) = Inr sb" "sbuf_ok sb"
      "sb_data sb = d @ [word_of_int x]"
    using appends_fits [OF putb_appends r, of "word_of_int x"] lexing_fields(3) [OF assms(1)] by auto
  then show ?thesis using assms(1) by (intro that) (auto simp: lex_save_def lexing_def)
qed

lemma lexing_savenext:
  assumes "lexing b ls c (c' # p) d n" "length d < LJ_MAX_BUF"
  obtains ls' where "lex_savenext ls = Inr ls'" "lexing b ls' c' p (d @ [c]) n"
proof -
  obtain l where l: "lex_save ls (uint c) = Inr l" "lexing b l c (c' # p) (d @ [c]) n"
    by (rule lexing_save [OF assms, of "uint c"]) simp
  show ?thesis
    by (rule that [OF _ lexing_next [OF l(2)]]) (simp add: lex_savenext_def lexing_fields(1) [OF assms(1)] l(1))
qed

lemma lexing_newline:
  assumes "lexing b ls 0x0a (c' # p) d n" "c' \<noteq> 0x0a" "c' \<noteq> 0x0d" "Suc n < LJ_MAX_LINE"
  obtains ls' where "lex_newline ls = Inr ls'" "lexing b ls' c' p d (Suc n)"
proof -
  have n: "lexing b (lex_next ls) c' p d n" by (rule lexing_next [OF assms(1)])
  have "uint c' \<noteq> 10" "uint c' \<noteq> 13" using assms(2,3) by (simp_all add: word_uint_eq_iff)
  then have "\<not> lex_iseol (lex_next ls)" using lexing_fields(1) [OF n] by (simp add: lex_iseol_def)
  then have "lex_newline ls = Inr ((lex_next ls)\<lparr>lx_linenumber := Suc n\<rparr>)"
    using assms(4) lexing_fields(4) [OF n] by (simp add: lex_newline_def Let_def)
  moreover have "lexing b ((lex_next ls)\<lparr>lx_linenumber := Suc n\<rparr>) c' p d (Suc n)"
    using n by (auto simp: lexing_def)
  ultimately show ?thesis by (rule that)
qed

section \<open>Decimal escapes\<close>

lemma digit_chr: "k < 10 \<Longrightarrow> uint (hexdigits ! k) = 48 + int k"
  by (simp add: hexdigits_nth uint_word_ariths unsigned_of_nat mod_pos_pos_trivial take_bit_nat_eq_self)

lemma digit_isdigit: "k < 10 \<Longrightarrow> lj_char_isdigit (48 + int k)" "k < 10 \<Longrightarrow> lj_char_isdigit (int k + 48)"
  using isdigit_u8 [of "hexdigits ! k"] hexdigits_digit [of k] by (simp_all add: digit_chr is_digit_def add.commute)

definition esc_digits :: "nat \<Rightarrow> u8 \<Rightarrow> bytes \<Rightarrow> bool" where
  "esc_digits v t0 ds \<longleftrightarrow>
     (\<exists>h t o'. h < 10 \<and> t < 10 \<and> o' < 10 \<and> ds = [hexdigits ! h, hexdigits ! t, hexdigits ! o'] \<and>
        v = h * 100 + t * 10 + o' \<and> v \<le> 255) \<or>
     (\<not> lj_char_isdigit (uint t0) \<and>
       ((\<exists>t o'. t < 10 \<and> o' < 10 \<and> ds = [hexdigits ! t, hexdigits ! o'] \<and> v = t * 10 + o') \<or>
        (\<exists>o'. o' < 10 \<and> ds = [hexdigits ! o'] \<and> v = o')))"

lemma esc_decimal_digits:
  assumes "esc_digits v t0 (c # ds)" and lx: "lexing b ls c (ds @ t0 # p) d n" and room: "length d < LJ_MAX_BUF"
  obtains ls' where "esc_decimal ls (uint c) = Inr ls'" "lexing b ls' t0 p (d @ [word_of_nat v]) n"
proof -
  from assms(1) consider
    (three) h t o' where "h < 10" "t < 10" "o' < 10" "c = hexdigits ! h" "ds = [hexdigits ! t, hexdigits ! o']"
      "v = h * 100 + t * 10 + o'" "v \<le> 255"
  | (two) t o' where "\<not> lj_char_isdigit (uint t0)" "t < 10" "o' < 10" "c = hexdigits ! t" "ds = [hexdigits ! o']" "v = t * 10 + o'"
  | (one) o' where "\<not> lj_char_isdigit (uint t0)" "o' < 10" "c = hexdigits ! o'" "ds = []" "v = o'"
    unfolding esc_digits_def by auto
  then show ?thesis
  proof cases
    case three
    have l1: "lexing b (lex_next ls) (hexdigits ! t) (hexdigits ! o' # t0 # p) d n"
      by (rule lexing_next) (use lx three in simp)
    note l2 = lexing_next [OF l1] and l3 = lexing_next [OF lexing_next [OF l1]]
    obtain l where l: "lex_save (lex_next (lex_next (lex_next ls))) (int v) = Inr l" "lexing b l t0 p (d @ [word_of_nat v]) n"
      by (rule lexing_save [OF l3 room, of "int v"]) simp
    have "int v = (int h * 10 + int t) * 10 + int o'" using three by simp
    then show ?thesis
      using three l by (intro that [OF _ l(2)])
        (simp add: esc_decimal_def Let_def lexing_fields(1) [OF l1] lexing_fields(1) [OF l2] digit_chr digit_isdigit algebra_simps)
  next
    case two
    have l1: "lexing b (lex_next ls) (hexdigits ! o') (t0 # p) d n" by (rule lexing_next) (use lx two in simp)
    note l2 = lexing_next [OF l1]
    obtain l where l: "lex_save (lex_next (lex_next ls)) (int v) = Inr l" "lexing b l t0 p (d @ [word_of_nat v]) n"
      by (rule lexing_save [OF l2 room, of "int v"]) simp
    show ?thesis
      using two l by (intro that [OF _ l(2)])
        (simp add: esc_decimal_def Let_def lexing_fields(1) [OF l1] lexing_fields(1) [OF l2] digit_chr digit_isdigit algebra_simps)
  next
    case one
    have l1: "lexing b (lex_next ls) t0 p d n" by (rule lexing_next) (use lx one in simp)
    obtain l where l: "lex_save (lex_next ls) (int v) = Inr l" "lexing b l t0 p (d @ [word_of_nat v]) n"
      by (rule lexing_save [OF l1 room, of "int v"]) simp
    show ?thesis
      using one l by (intro that [OF _ l(2)])
        (simp add: esc_decimal_def Let_def lexing_fields(1) [OF l1] digit_chr digit_isdigit)
  qed
qed

lemma lex_escape_decimal:
  assumes "esc_digits v t0 ds" "lexing b ls 0x5c (ds @ t0 # p) d n" "length d < LJ_MAX_BUF"
  obtains ls' where "lex_escape ls = Inr ls'" "lexing b ls' t0 p (d @ [word_of_nat v]) n"
proof -
  obtain c ds' where ds: "ds = c # ds'" using assms(1) by (cases ds) (auto simp: esc_digits_def)
  obtain k where k: "k < 10" "c = hexdigits ! k" using assms(1) unfolding ds esc_digits_def by auto
  have l1: "lexing b (lex_next ls) c (ds' @ t0 # p) d n" by (rule lexing_next) (use assms(2) ds in simp)
  obtain l where l: "esc_decimal (lex_next ls) (uint c) = Inr l" "lexing b l t0 p (d @ [word_of_nat v]) n"
    using esc_decimal_digits [OF _ l1 assms(3)] assms(1) unfolding ds by blast
  have c: "lx_c (lex_next ls) = 48 + int k" using lexing_fields(1) [OF l1] k by (simp add: digit_chr)
  have "lex_escape ls = esc_decimal (lex_next ls) (uint c)"
    using k by (simp add: lex_escape_def Let_def c simple_escapes_def digit_chr LEX_EOF_def)
  then show ?thesis using l that by simp
qed

section \<open>Reading a quoted body\<close>

lemma quote_tens_eq:
  assumes "unat c < 100"
  shows "quote_tens c = [hexdigits ! (unat c div 10), hexdigits ! (unat c mod 10)]"
proof -
  have r: "WINT_R c 11 10 = (hexdigits ! (unat c div 10), c mod 10)"
    by (rule WINT_R_eq [where m = 205 and e = 2]) (use assms in simp_all)
  have m: "(2 ^ 11 + 10 - 1) div 10 = (205 :: u32)" by simp
  have "quote_tens c = (case WINT_R c 11 10 of (d, c) \<Rightarrow> [d, dchr c])"
    unfolding quote_tens_def WINT_R_def m Let_def dchr_def by (simp add: add.commute)
  then show ?thesis using dchr_eq [of "c mod 10"] by (simp add: r unat_mod)
qed

lemma dchr_01: "dchr 0 = hexdigits ! 0" "dchr 1 = hexdigits ! 1"
  using dchr_eq [of 0] dchr_eq [of 1] by simp_all

lemma quote_char_cntrl:
  assumes "lj_char_iscntrl (uint c)" "c \<noteq> 0x0a" and t0: "lj_char_isdigit (uint t0) \<Longrightarrow> lj_char_isdigit (uint nxt)"
  obtains ds where "quote_char c nxt = 0x5c # ds" "esc_digits (unat c) t0 ds"
proof -
  let ?w = "ucast c :: u32"
  have "uint c < 32 \<or> uint c = 127"
    using assms(1) class_u8 [of c] by (auto simp: class_spec_def Let_def)
  then have "int (unat c) < 32 \<or> int (unat c) = 127" by (simp only: uint_nat)
  then have cl: "unat c < 32 \<or> unat c = 127" by linarith
  have "c \<noteq> 0x22" "c \<noteq> 0x5c" using cl by (intro notI; simp)+
  with assms(2) have sp: "\<not> (c = 0x22 \<or> c = 0x5c \<or> c = 0x0a)" by simp
  have le: "100 \<le> ?w \<longleftrightarrow> unat c = 127" "10 \<le> ?w \<longleftrightarrow> 10 \<le> unat c"
    using cl by (auto simp: word_le_nat_alt)
  have q: "quote_char c nxt = 0x5c # quote_digits ?w nxt"
    unfolding quote_char_eq using sp assms(1) by simp
  consider (big) "unat c = 127" | (three) "unat c < 32" "lj_char_isdigit (uint nxt)"
    | (two) "10 \<le> unat c" "unat c < 32" "\<not> lj_char_isdigit (uint nxt)"
    | (one) "unat c < 10" "\<not> lj_char_isdigit (uint nxt)" using cl by linarith
  then show ?thesis
  proof cases
    case big
    have "unat (?w - 100) = 27" using le(1) big by (subst unat_sub) simp_all
    then have "quote_char c nxt = 0x5c # [hexdigits ! 1, hexdigits ! 2, hexdigits ! 7]"
      using big le by (simp add: q quote_digits_def dchr_01 quote_tens_eq)
    moreover have "esc_digits (unat c) t0 [hexdigits ! 1, hexdigits ! 2, hexdigits ! 7]"
      unfolding esc_digits_def using big by (intro disjI1 exI [of _ 1] exI [of _ 2] exI [of _ 7]) simp
    ultimately show ?thesis by (rule that)
  next
    case three
    have "quote_char c nxt = 0x5c # [hexdigits ! 0, hexdigits ! (unat c div 10), hexdigits ! (unat c mod 10)]"
      using three le by (simp add: q quote_digits_def dchr_01 quote_tens_eq)
    moreover have "esc_digits (unat c) t0 [hexdigits ! 0, hexdigits ! (unat c div 10), hexdigits ! (unat c mod 10)]"
      unfolding esc_digits_def using three
      by (intro disjI1 exI [of _ 0] exI [of _ "unat c div 10"] exI [of _ "unat c mod 10"]) simp
    ultimately show ?thesis by (rule that)
  next
    case two
    have "quote_char c nxt = 0x5c # [hexdigits ! (unat c div 10), hexdigits ! (unat c mod 10)]"
      using two le by (simp add: q quote_digits_def quote_tens_eq)
    moreover have "esc_digits (unat c) t0 [hexdigits ! (unat c div 10), hexdigits ! (unat c mod 10)]"
      unfolding esc_digits_def using two t0
      by (intro disjI2 conjI disjI1 exI [of _ "unat c div 10"] exI [of _ "unat c mod 10"]) auto
    ultimately show ?thesis by (rule that)
  next
    case one
    have "ucast (?w + 0x30) = hexdigits ! unat c" using dchr_eq [of ?w] one by (simp add: dchr_def add.commute)
    then have "quote_char c nxt = 0x5c # [hexdigits ! unat c]" using one le by (simp add: q quote_digits_def)
    moreover have "esc_digits (unat c) t0 [hexdigits ! unat c]"
      unfolding esc_digits_def using one t0 by auto
    ultimately show ?thesis by (rule that)
  qed
qed

text \<open>One character of the string, behind which the lexer sees \<open>t0\<close>.\<close>

lemma string_loop_char:
  assumes lx: "lexing b ls q (ps @ t0 # p) d n" and q: "quote_char c nxt = q # ps"
    and t0: "lj_char_isdigit (uint t0) \<Longrightarrow> lj_char_isdigit (uint nxt)" "t0 \<noteq> 0x0a" "t0 \<noteq> 0x0d"
    and room: "length d < LJ_MAX_BUF" "Suc n < LJ_MAX_LINE"
  shows "\<exists>ls'. string_loop ls 0x22 = string_loop ls' 0x22 \<and>
    lexing b ls' t0 p (d @ [c]) (n + (if c = 0x0a then 1 else 0))"
proof -
  have esc: "string_loop ls 0x22 = rbind (lex_escape ls) (\<lambda>ls. string_loop ls 0x22)" if "q = 0x5c"
    using that lexing_fields(1) [OF lx] by (subst string_loop.simps) (simp add: lex_iseol_def LEX_EOF_def)
  consider (quote) "c = 0x22 \<or> c = 0x5c" | (newline) "c = 0x0a"
    | (cntrl) "lj_char_iscntrl (uint c)" "c \<noteq> 0x0a" "c \<noteq> 0x22" "c \<noteq> 0x5c"
    | (plain) "\<not> lj_char_iscntrl (uint c)" "c \<noteq> 0x22" "c \<noteq> 0x5c" "c \<noteq> 0x0a" by blast
  then show ?thesis
  proof cases
    case quote
    then have e: "q = 0x5c" "ps = [c]" using q by (auto simp: quote_char_eq)
    have l1: "lexing b (lex_next ls) c (t0 # p) d n" by (rule lexing_next) (use lx e in simp)
    obtain l where l: "lex_save (lex_next ls) (uint c) = Inr l" "lexing b l c (t0 # p) (d @ [c]) n"
      by (rule lexing_save [OF l1 room(1), of "uint c"]) simp
    have "lex_escape ls = Inr (lex_next l)"
      using quote lexing_fields(1) [OF l1] l(1) by (auto simp: lex_escape_def Let_def simple_escapes_def)
    then show ?thesis using esc [OF e(1)] lexing_next [OF l(2)] quote by auto
  next
    case newline
    then have e: "q = 0x5c" "ps = [0x0a]" using q by (auto simp: quote_char_eq)
    have l1: "lexing b (lex_next ls) 0x0a (t0 # p) d n" by (rule lexing_next) (use lx e in simp)
    obtain l where l: "lex_save (lex_next ls) 0x0a = Inr l" "lexing b l 0x0a (t0 # p) (d @ [0x0a]) n"
      by (rule lexing_save [OF l1 room(1), of "0x0a"]) simp
    obtain l' where l': "lex_newline l = Inr l'" "lexing b l' t0 p (d @ [0x0a]) (Suc n)"
      by (rule lexing_newline [OF l(2) t0(2,3) room(2)])
    have "lex_escape ls = Inr l'"
      using lexing_fields(1) [OF l1] l(1) l'(1) by (simp add: lex_escape_def Let_def simple_escapes_def)
    then show ?thesis using esc [OF e(1)] l'(2) newline by auto
  next
    case cntrl
    obtain ds where ds: "quote_char c nxt = 0x5c # ds" "esc_digits (unat c) t0 ds"
      by (rule quote_char_cntrl [OF cntrl(1,2) t0(1)])
    then have e: "q = 0x5c" "ps = ds" using q by simp_all
    obtain l where l: "lex_escape ls = Inr l" "lexing b l t0 p (d @ [word_of_nat (unat c)]) n"
      by (rule lex_escape_decimal [OF ds(2) _ room(1)]) (use lx e in simp_all)
    then show ?thesis using esc [OF e(1)] cntrl(2) by auto
  next
    case plain
    then have e: "q = c" "ps = []" using q by (auto simp: quote_char_eq)
    obtain l where l: "lex_savenext ls = Inr l" "lexing b l t0 p (d @ [c]) n"
      by (rule lexing_savenext [OF _ room(1)]) (use lx e in simp)
    have ne: "uint c \<noteq> 0x22" "uint c \<noteq> 0x5c" "uint c \<noteq> 0x0a" using plain by (simp_all add: word_uint_eq_iff)
    have "uint c \<noteq> 0x0d" using plain(1) class_u8 [of c] by (auto simp: class_spec_def Let_def)
    then have "string_loop ls 0x22 = rbind (lex_savenext ls) (\<lambda>ls. string_loop ls 0x22)"
      using lexing_fields(1) [OF lx] e ne by (subst string_loop.simps) (simp add: lex_iseol_def uint_not_eof)
    then show ?thesis using l plain(4) by auto
  qed
qed

text \<open>The first character behind a character of the body.\<close>

lemma quote_body_head:
  obtains t0 p where "quote_body s @ 0x22 # rest = t0 # p" "t0 \<noteq> 0x0a" "t0 \<noteq> 0x0d"
    "lj_char_isdigit (uint t0) \<longrightarrow> lj_char_isdigit (uint (peek s))"
proof (cases s)
  case Nil
  then show ?thesis using isdigit_u8 [of "0x22"] by (intro that [of "0x22" rest]) simp_all
next
  case (Cons c s')
  have b: "\<not> lj_char_isdigit 0x5c" using isdigit_u8 [of "0x5c"] by simp
  show ?thesis
  proof (cases "c = 0x22 \<or> c = 0x5c \<or> c = 0x0a \<or> lj_char_iscntrl (uint c)")
    case True
    then have "\<exists>ps. quote_char c (peek s') = 0x5c # ps" by (auto simp: quote_char_eq)
    then obtain ps where "quote_char c (peek s') = 0x5c # ps" by blast
    then show ?thesis using Cons b by (intro that [of "0x5c"]) simp_all
  next
    case False
    then have "quote_char c (peek s') = [c]"
      by (simp add: quote_char_eq)
    moreover have "lj_char_iscntrl 0x0d" using class_spec_eq [of "0x0d"] by (simp add: class_spec_def Let_def)
    then have "c \<noteq> 0x0d" using False by (intro notI) simp
    ultimately show ?thesis using Cons False by (intro that [of c]) simp_all
  qed
qed

lemma string_loop_body:
  assumes "lexing b ls c0 p0 d n" "c0 # p0 = quote_body s @ 0x22 # rest"
    "length d + length s \<le> LJ_MAX_BUF" "n + length s < LJ_MAX_LINE"
  shows "\<exists>ls'. string_loop ls 0x22 = Inr ls' \<and>
    lexing b ls' 0x22 rest (d @ s) (n + length (filter (\<lambda>c. c = 0x0a) s))"
  using assms
proof (induction s arbitrary: ls c0 p0 d n)
  case Nil
  then have "lexing b ls 0x22 rest d n" by simp
  moreover from this have "string_loop ls 0x22 = Inr ls"
    by (subst string_loop.simps) (simp add: lexing_fields(1))
  ultimately show ?case by auto
next
  case (Cons c s)
  obtain t0 p where t: "quote_body s @ 0x22 # rest = t0 # p" "t0 \<noteq> 0x0a" "t0 \<noteq> 0x0d"
    "lj_char_isdigit (uint t0) \<longrightarrow> lj_char_isdigit (uint (peek s))"
    by (rule quote_body_head)
  have "\<exists>q ps. quote_char c (peek s) = q # ps" by (simp add: quote_char_eq)
  then obtain q ps where q: "quote_char c (peek s) = q # ps" by blast
  have p0: "c0 = q" "p0 = ps @ t0 # p" using Cons.prems(2) t(1) q by simp_all
  obtain ls1 where l1: "string_loop ls 0x22 = string_loop ls1 0x22"
      "lexing b ls1 t0 p (d @ [c]) (n + (if c = 0x0a then 1 else 0))"
    using string_loop_char [of b ls q ps t0 p d n c "peek s"] Cons.prems t q p0 by auto
  show ?case using Cons.IH [OF l1(2)] l1(1) t(1) Cons.prems(3,4) by auto
qed

section \<open>A quoted string as a token\<close>

lemma lex_string_quoted:
  assumes "lexing b ls 0x22 (quote_body s @ 0x22 # rest) [] n"
    "length s + 2 \<le> LJ_MAX_BUF" "n + length s < LJ_MAX_LINE"
  obtains l where "lex_string ls = Inr (lex_next l, StrVal (the_str s))"
    "lexing b l 0x22 rest (0x22 # s @ [0x22]) (n + length (filter (\<lambda>c. c = 0x0a) s))"
proof -
  obtain c1 p1 where q: "quote_body s @ 0x22 # rest = c1 # p1" by (rule quote_body_head)
  obtain l1 where l1: "lex_savenext ls = Inr l1" "lexing b l1 c1 p1 [0x22] n"
    by (rule lexing_savenext [of b ls "0x22" c1 p1 "[]" n]) (use assms q in simp_all)
  obtain l2 where l2: "string_loop l1 0x22 = Inr l2"
      "lexing b l2 0x22 rest ([0x22] @ s) (n + length (filter (\<lambda>c. c = 0x0a) s))"
    using string_loop_body [OF l1(2), of s rest] q assms(2,3) by auto
  obtain l3 where l3: "lex_save l2 0x22 = Inr l3"
      "lexing b l3 0x22 rest (0x22 # s @ [0x22]) (n + length (filter (\<lambda>c. c = 0x0a) s))"
    by (rule lexing_save [OF l2(2), of "0x22"]) (use assms(2) in simp_all)
  have sb: "lx_sb (lex_next l) = lx_sb l" for l by (simp add: lex_next_def lex_more_def split: list.split)
  have "lex_string ls = Inr (lex_next l3, StrVal (the_str s))"
    using lexing_fields(3) [OF l3(2)] lexing_fields(1) [OF assms(1)] lexing_fields(1) [OF l2(2)] l1(1) l2(1) l3(1)
    by (simp add: lex_string_def Let_def lex_savenext_def sb)
  then show ?thesis using l3(2) by (rule that)
qed

lemma scan_step_quote:
  assumes "lx_c ls = 0x22"
  shows "scan_step ls = scan_valued TK_string (lex_string ls)"
proof -
  have "\<not> lj_char_isident 0x22" using class_spec_eq [of "0x22"] by (simp add: class_spec_def Let_def)
  then show ?thesis using assms by (simp add: scan_step_def lex_iseol_def)
qed

lemma quoted_token:
  assumes len: "4 * length s + 2 \<le> LJ_MAX_BUF"
  shows "\<exists>sb ls ls'. lj_strfmt_putquoted lj_buf_init s = Inr sb \<and>
    lj_lex_setup (lex_source [sb_data sb]) = Inr (ls, False) \<and> lj_lex_next ls = Inr ls' \<and>
    lx_tok ls' = TK_string \<and> lx_tokval ls' = StrVal (the_str s) \<and> lx_c ls' = LEX_EOF"
proof -
  let ?text = "quote_body s @ [0x22]"
  have b0: "sbuf_ok lj_buf_init" "sb_data lj_buf_init = []" by (simp_all add: lj_buf_init_def sbuf_ok_def)
  obtain sb where sb: "lj_strfmt_putquoted lj_buf_init s = Inr sb" "sb_data sb = 0x22 # ?text"
    using appends_fits [OF lj_strfmt_putquoted_appends [of s] b0(1)] b0(2) len by auto
  let ?ls = "(lex_init (lex_source [sb_data sb]))\<lparr>lx_c := 0x22, lx_in := ?text, lx_chunks := []\<rparr>"
  have stp: "lj_lex_setup (lex_source [sb_data sb]) = Inr (?ls, False)"
    by (simp add: lj_lex_setup_def Let_def lex_next_def lex_more_def lex_init_def lex_source_def sb(2))
  let ?b = "?ls\<lparr>lx_lastline := 1\<rparr>"
  have lx: "lexing ?b (lex_reset ?b) 0x22 ?text [] 1"
    by (simp add: lexing_def lex_reset_def lj_buf_reset_def lex_init_def lex_source_def) (simp add: lj_buf_init_def sbuf_ok_def)
  obtain l where l: "lex_string (lex_reset ?b) = Inr (lex_next l, StrVal (the_str s))"
      "lexing ?b l 0x22 [] (0x22 # s @ [0x22]) (1 + length (filter (\<lambda>c. c = 0x0a) s))"
    by (rule lex_string_quoted [of ?b "lex_reset ?b" s "[]" 1])
      (use lx len in \<open>simp_all add: LJ_MAX_BUF_def LJ_MAX_LINE_def\<close>)
  have c: "lx_c (lex_reset ?b) = 0x22" by (simp add: lex_reset_def)
  have "scan_step (lex_reset ?b) = Inr (lex_next l, Some (TK_string, StrVal (the_str s)))"
    unfolding scan_step_quote [OF c] l(1) by (simp add: scan_valued_def)
  then have "lex_scan ?b = Inr (lex_next l, TK_string, StrVal (the_str s))"
    unfolding lex_scan_def by (subst scan_loop.simps) (simp del: One_nat_def)
  then have nxt: "lj_lex_next ?ls = Inr ((lex_next l)\<lparr>lx_tok := TK_string, lx_tokval := StrVal (the_str s)\<rparr>)"
    by (simp add: lj_lex_next_def Let_def lex_init_def put_val_def)
  have "lx_c (lex_next l) = LEX_EOF" using l(2) by (auto simp: lexing_def lex_next_def lex_more_def)
  then show ?thesis using sb(1) stp nxt by (intro exI conjI) (assumption | simp)+
qed

end
