(* ===== verification/StrProps.thy ===== *)
theory StrProps
  imports StrfmtXint StrscanText StrscanHex LexQuote
begin

text \<open>
  The properties of formatting, of number scanning and of the two with the lexer: each is the
  main lemma of its component, over the code's own operations.
\<close>

section \<open>Formatting\<close>

text \<open>
  C33: integer conversions.  For every signed or unsigned conversion specifier and every 64-bit
  argument, \<^verbatim>\<open>lj_strfmt_putfxint\<close> appends exactly the text C's \<^verbatim>\<open>printf\<close> prescribes (flags,
  width, precision, prefix and digits), computed backwards in a fixed scratch buffer by the code.
\<close>

theorem putfxint_is_printf:
  assumes "xint_conv sf" "sbuf_ok sb" "sbuflen sb + length (printf_int sf k) \<le> LJ_MAX_BUF"
  shows "\<exists>sb'. lj_strfmt_putfxint sb sf k = Inr sb' \<and> sbuf_ok sb' \<and> sb_data sb' = sb_data sb @ printf_int sf k"
  by (rule appends_fits [OF lj_strfmt_putfxint_appends [OF assms(1)] assms(2,3)])

lemma plus06d_text: "printf_int 0x00060603 (- 42) = ascii ''-00042''"
  by code_simp

theorem putfxint_is_printf_witness:
  "\<exists>sb'. lj_strfmt_putfxint lj_buf_init 0x00060603 (- 42) = Inr sb' \<and> sb_data sb' = ascii ''-00042''"
proof -
  have "xint_conv 0x00060603" by code_simp
  moreover have "sbuflen lj_buf_init = 0" "sb_data lj_buf_init = []" by (simp_all add: lj_buf_init_def)
  ultimately show ?thesis
    using putfxint_is_printf [of "0x00060603" lj_buf_init "- 42"]
    unfolding plus06d_text by (auto simp: LJ_MAX_BUF_def ascii_def)
qed

section \<open>Scanning\<close>

text \<open>
  C34: the conversion of a scanned significand and binary exponent rounds once: with a
  significand below \<open>2 ^ 62\<close> the result is the double nearest to the real number, ties to even,
  the subnormal range and overflow to infinity included, although the code rounds when it
  converts the integer and again in \<^verbatim>\<open>ldexp\<close>.
\<close>

theorem strscan_double_single_rounding:
  assumes "unat x < 2 ^ 62"
  shows "strscan_double x ex2 neg = round_num neg (unat x) ex2"
  using assms by (rule strscan_double_rounds)

theorem strscan_double_single_rounding_witness:
  "strscan_double 0x3fffffffffffff (- 1127) False = 2"
proof -
  have "unat (0x3fffffffffffff :: u64) < 2 ^ 62" by simp
  moreover have "fls 0x3fffffffffffff = 53" by (rule fls_unique) simp_all
  then have "round_num False 0x3fffffffffffff (- 1127) = 2"
    by (simp add: round_num_def magnitude_def last_place_def scaled_def rne_def Let_def)
  ultimately show ?thesis
    using strscan_double_single_rounding [of "0x3fffffffffffff" "- 1127" False] by simp
qed

text \<open>
  C35: hexadecimal numbers of any length.  Whatever the number of digits, with or without a point
  among them, the number scanned is the exact value of the digits scaled by the exponent, rounded
  once: the sticky bit of the digits behind the sixteenth is enough.
\<close>

theorem strscan_hex_correct:
  assumes "digits_at ds p r" "list_all is_xdigit ds" "16 < length ds \<longrightarrow> hd ds \<noteq> 0x30"
  shows "strscan_hex p STRSCAN_NUM opt ex2 neg (length ds) = Inr (STRSCAN_NUM, SNum (round_num neg (hex_val ds) ex2))"
  using strscan_hex_rounds [OF assms(1,2)] assms(3) by blast

theorem strscan_hex_correct_witness:
  "strscan_hex (ascii ''1.000000000000080001'') STRSCAN_NUM 0 (- 72) False 19 = Inr (STRSCAN_NUM, SNum 0x3ff0000000000001)"
proof -
  let ?ds = "ascii ''1000000000000080001''"
  have "digits_at ?ds (ascii ''1.000000000000080001'') []"
    unfolding digits_at_def by (intro conjI disjI2 exI [of _ "ascii ''1''"] exI [of _ "ascii ''000000000000080001''"])
      (simp_all add: ascii_def)
  moreover have "list_all is_xdigit ?ds" "16 < length ?ds \<longrightarrow> hd ?ds \<noteq> 0x30" by code_simp+
  ultimately have "strscan_hex (ascii ''1.000000000000080001'') STRSCAN_NUM 0 (- 72) False (length ?ds) =
      Inr (STRSCAN_NUM, SNum (round_num False (hex_val ?ds) (- 72)))"
    by (rule strscan_hex_correct)
  moreover have "length ?ds = 19" by (simp add: ascii_def)
  moreover have "hex_val ?ds = 0x1000000000000080001" by (simp add: ascii_def hex_digit_def)
  moreover have "fls 0x1000000000000080001 = 72" by (rule fls_unique) simp_all
  then have "round_num False 0x1000000000000080001 (- 72) = 0x3ff0000000000001"
    by (simp add: round_num_def magnitude_def last_place_def scaled_def rne_def Let_def)
  ultimately show ?thesis by simp
qed

section \<open>Round trips\<close>

text \<open>
  C36: an integer written by \<^verbatim>\<open>lj_strfmt_wint\<close> is scanned back by \<^verbatim>\<open>lj_strscan_num\<close> as the same
  number, for all \<open>2 ^ 32\<close> integers.
\<close>

theorem wint_scans_back: "lj_strscan_num (lj_strfmt_wint k) = Inr (Some (int2num k))"
  unfolding lj_strscan_num_def
  by (subst scan_wint) (simp_all add: opt_set_def STRSCAN_OPT_TONUM_def STRSCAN_OPT_C_def strscan_fmts)

text \<open>
  C37: the \<^verbatim>\<open>%q\<close> format is read back by the lexer.  For every byte string, control characters, NUL,
  quotes and newlines included, the text \<^verbatim>\<open>lj_strfmt_putquoted\<close> produces is one string token
  with that value, and nothing is left behind it.
\<close>

theorem quoted_roundtrip:
  assumes "4 * length s + 2 \<le> LJ_MAX_BUF"
  shows "\<exists>sb ls ls'. lj_strfmt_putquoted lj_buf_init s = Inr sb \<and>
    lj_lex_setup (lex_source [sb_data sb]) = Inr (ls, False) \<and> lj_lex_next ls = Inr ls' \<and>
    lx_tok ls' = TK_string \<and> lx_tokval ls' = StrVal (the_str s) \<and> lx_c ls' = LEX_EOF"
  using assms by (rule quoted_token)

theorem quoted_roundtrip_witness:
  "\<exists>sb ls ls'. lj_strfmt_putquoted lj_buf_init [0, 0x31, 0x22, 0x0a] = Inr sb \<and>
    lj_lex_setup (lex_source [sb_data sb]) = Inr (ls, False) \<and> lj_lex_next ls = Inr ls' \<and>
    lx_tok ls' = TK_string \<and> lx_tokval ls' = StrVal (the_str [0, 0x31, 0x22, 0x0a]) \<and> lx_c ls' = LEX_EOF"
  by (rule quoted_roundtrip) (simp add: LJ_MAX_BUF_def)

end
