(* ===== verification/ObfRead.thy ===== *)
theory ObfRead
  imports DumpTrip TwinProps
begin

text \<open>
  Obfuscated dumps: the format the decompiled reader expects, as an encoder, and the proof
  that the reader makes the prototype of it that was encoded.  Strings and instructions are
  scrambled, the fields of a prototype stand in another order, and its sizes are offset by
  the frame size.
\<close>

section \<open>The format\<close>

definition encode_ins :: "u8 \<Rightarrow> u32 \<Rightarrow> u32" where
  "encode_ins v w =
     (let op = encode_op (byte_n 0 w) in
      le32 op (byte_n 1 w XOR (v XOR op)) (byte_n 2 w XOR v) (NOT (byte_n 3 w)))"

fun encode_bc :: "u8 \<Rightarrow> u32 list \<Rightarrow> u32 list" where
  "encode_bc v [] = []"
| "encode_bc v (w # ws) = encode_ins v w # encode_bc (v + 1) ws"

definition ins_ok :: "u32 \<Rightarrow> bool" where "ins_ok w \<longleftrightarrow> byte_n 0 w < 253"

text \<open>Scrambling a string is its own inverse.\<close>

fun scrambled :: "kgc \<Rightarrow> kgc" where
  "scrambled (KStr s) = KStr (s\<lparr>s_data := decode_str (s_data s)\<rparr>)"
| "scrambled k = k"

definition obf_header :: "bool \<Rightarrow> pinfo \<Rightarrow> kgc list \<Rightarrow> bytes" where
  "obf_header strip i ks =
     (let fs = p_framesize i; f = ucast fs :: u32; dbg = (if strip then [] else p_dbg i) in
      [fs XOR 0xE9, reread_flags i XOR fs, p_numparams i XOR fs] @
      lj_strfmt_wuleb128 (word_of_nat (length (p_bc i) - 1) + f) @
      lj_strfmt_wuleb128 (word_of_nat (length (p_kn i)) + f) @
      [word_of_nat (length (p_uv i)) XOR fs] @
      lj_strfmt_wuleb128 (word_of_nat (length ks) + f) @
      (if strip then []
       else lj_strfmt_wuleb128 (word_of_nat (length dbg)) @
            (if dbg \<noteq> [] then lj_strfmt_wuleb128 (p_firstline i) @ lj_strfmt_wuleb128 (p_numline i) else [])))"

definition obf_body :: "bool \<Rightarrow> (nat \<Rightarrow> u32) \<Rightarrow> pinfo \<Rightarrow> kgc list \<Rightarrow> bytes" where
  "obf_body strip startins i ks =
     obf_header strip i ks @ concat (map bytes16 (p_uv i)) @
     concat (map bytes32 (encode_bc 0 (reread_bc startins i))) @ concat (map knum_bytes (p_kn i)) @
     concat (map (\<lambda>k. kgc_bytes (scrambled k)) ks) @ (if strip then [] else p_dbg i)"

definition obf_start :: "bool \<Rightarrow> pinfo \<Rightarrow> bytes" where
  "obf_start strip i =
     [0x41, 0x4e, 0x41,
      ucast ((if strip then BCDUMP_F_STRIP else 0) + (if p_flags i AND PROTO_FFI \<noteq> 0 then BCDUMP_F_FFI else 0))] @
     (if strip then []
      else lj_strfmt_wuleb128 (word_of_nat (length (s_data (p_chunkname i)))) @ s_data (p_chunkname i))"

definition obf_dump :: "bool \<Rightarrow> (nat \<Rightarrow> u32) \<Rightarrow> proto \<Rightarrow> bytes" where
  "obf_dump strip startins pt = obf_start strip (p_info pt) @ concat (parts (\<lambda>i ks. sized (obf_body strip startins i ks)) pt) @ [0]"

section \<open>The prototype decoded\<close>

text \<open>Strings are the objects of \<^verbatim>\<open>lj_str_new_mod\<close>, with its hash; otherwise as after \<^verbatim>\<open>lj_bcread\<close>.\<close>

inductive kgc_decoded :: "bool \<Rightarrow> (nat \<Rightarrow> u32) \<Rightarrow> gcstr \<Rightarrow> kgc \<Rightarrow> kgc \<Rightarrow> bool"
  and proto_decoded :: "bool \<Rightarrow> (nat \<Rightarrow> u32) \<Rightarrow> gcstr \<Rightarrow> proto \<Rightarrow> proto \<Rightarrow> bool"
  for strip startins nm where
  str: "kgc_decoded strip startins nm (KStr s) (KStr (the_str_mod (s_data s)))"
| tab: "same_table t t' \<Longrightarrow> kgc_decoded strip startins nm (KTab t) (KTab t')"
| child: "proto_decoded strip startins nm pt pt' \<Longrightarrow> kgc_decoded strip startins nm (KChild pt) (KChild pt')"
| proto: "list_all2 (kgc_decoded strip startins nm) ks ks' \<Longrightarrow>
    proto_decoded strip startins nm (Proto i ks) (Proto (reread_info strip startins nm i) ks')"

text \<open>What has an obfuscated form: opcodes below 253 and no constants of C types.\<close>

fun kgc_obf_ok :: "kgc \<Rightarrow> bool" where
  "kgc_obf_ok (KStr s) = (length (s_data s) < LJ_MAX_STR)"
| "kgc_obf_ok (KTab t) = ktab_ok t"
| "kgc_obf_ok (KCdata cid q) = False"
| "kgc_obf_ok (KChild pt) = True"

definition part_obf_ok :: "bool \<Rightarrow> (nat \<Rightarrow> u32) \<Rightarrow> pinfo \<Rightarrow> kgc list \<Rightarrow> bool" where
  "part_obf_ok strip startins i ks \<longleftrightarrow>
     info_dumpable strip i ks \<and> list_all kgc_obf_ok ks \<and> list_all ins_ok (reread_bc startins i)"

section \<open>Instructions\<close>

lemma xor_twice [simp]: "(x XOR y) XOR y = (x :: 'a::len word)"
  by (simp add: xor.assoc)

lemma xor_right_0 [simp]: "x XOR y = y \<longleftrightarrow> x = (0 :: 'a::len word)"
  by (metis xor_twice xor_self_eq xor.left_neutral)

lemma decode_encode_ins: "ins_ok w \<Longrightarrow> decode_ins v (encode_ins v w) = w"
  by (simp add: decode_ins_def encode_ins_def Let_def decode_encode_op ins_ok_def)

lemma decode_encode_bc: "list_all ins_ok ws \<Longrightarrow> decode_bc v (encode_bc v ws) = ws"
  by (induction ws arbitrary: v) (simp_all add: decode_encode_ins)

lemma length_encode_bc [simp]: "length (encode_bc v ws) = length ws"
  by (induction ws arbitrary: v) simp_all

section \<open>Constants\<close>

lemma kgc_mod_read:
  assumes "kgc_obf_ok k" "\<forall>pt. k \<noteq> KChild pt" "ls_buf ls = kgc_bytes (scrambled k) @ w"
  shows "\<exists>k'. kgc_mod_one ls = Inr (k', adv ls w) \<and> kgc_decoded strip startins nm k k'"
proof -
  have start: "kgc_mod_one ls = kgc_mod_one (adv ls (kgc_bytes (scrambled k) @ w))"
    using adv_same [of ls] assms(3) by simp
  show ?thesis
  proof (cases k)
    case (KStr s)
    define d where "d = decode_str (s_data s)"
    have s: "length d < LJ_MAX_STR" using assms(1) KStr by (simp add: d_def)
    define tp where "tp = (5 :: u32) + word_of_nat (length d)"
    have tp: "4 < tp" "unat (tp - 5) = length d"
      using str_type [OF s] by (auto simp: tp_def intro: less_le_trans [of _ 5])
    have r: "getn (length d) (d @ w) = Inr (d, w)" by (simp add: getn_def)
    have m: "str_mod (decode_str d) = Inr (the_str_mod (s_data s))"
      using s by (simp add: str_mod_def d_def decode_str_decode_str LJ_MAX_STR_def)
    have "kgc_bytes (scrambled k) = lj_strfmt_wuleb128 tp @ d" by (simp add: KStr kgc_bytes_def tp_def d_def BCDUMP_KGC_STR_def)
    then have "kgc_mod_one ls = Inr (KStr (the_str_mod (s_data s)), adv ls w)"
      using assms(3) tp unfolding start
      by (simp add: kgc_mod_one_def sbind_adv_uleb [unfolded bcread_uleb128_def] sbind_adv [where r = "getn n" for n, OF r])
        (simp add: sbind_def m)
    then show ?thesis using KStr by (auto intro: kgc_decoded_proto_decoded.str)
  next
    case (KTab t)
    obtain t' where t': "bcread_ktab (ktab_bytes t @ w) = Inr (t', w)" "same_table t t'"
      using ktab_reread assms(1) KTab by fastforce
    then have "ktab_mod (ktab_bytes t @ w) = Inr (t', w)" by (intro ktab_mod_eq)
    then have "kgc_mod_one ls = Inr (KTab t', adv ls w)"
      using assms(3) unfolding start KTab scrambled.simps kgc_bytes_def
      by (simp add: kgc_mod_one_def sbind_adv_uleb [unfolded bcread_uleb128_def] sbind_adv [where r = ktab_mod] dump_codes word_less_nat_alt)
    then show ?thesis using KTab t' by (auto intro: kgc_decoded_proto_decoded.tab)
  qed (use assms in auto)
qed

lemma kgc_mod_child:
  assumes "ls_buf ls = kgc_bytes (scrambled (KChild pt)) @ w" "ls_protos ls = pt' # S" "ls_lastline ls < L_top (ls_L ls)"
  shows "kgc_mod_one ls = Inr (KChild pt', popped (adv ls w) S 1)"
proof -
  have "kgc_mod_one (adv ls (kgc_bytes (KChild pt) @ w)) = pop_child_mod (adv ls w)"
    using assms(1) by (simp add: kgc_bytes_def kgc_mod_one_def sbind_adv_uleb [unfolded bcread_uleb128_def] dump_codes word_less_nat_alt)
  then show ?thesis using adv_same [of ls] assms by (simp add: pop_child_mod_def popped_def)
qed

interpretation mod_consts:
  kgc_reader kgc_mod_one "\<lambda>k. kgc_bytes (scrambled k)" kgc_obf_ok "kgc_decoded strip startins nm" "proto_decoded strip startins nm"
  for strip startins nm
  using kgc_mod_read kgc_mod_child kgc_decoded_proto_decoded.child by unfold_locales blast+

section \<open>Prototypes\<close>

lemma uv_align: "unat ((2 * ucast s + 2) AND 0x3FC :: u32) = (unat (s :: u8) + 1) div 2 * 4"
proof -
  let ?x = "2 * ucast s + 2 :: u32"
  have x: "unat ?x = 2 * unat s + 2" using u8_less [of s] by (simp add: unat_word_ariths unsigned_ucast_eq take_bit_nat_eq_self)
  have m: "(0x3FC :: u32) = mask 10 AND NOT (mask 2)" by (simp add: mask_eq_exp_minus_1)
  have "unat ?x < 2 ^ 10" unfolding x using u8_less [of s] by simp
  then have "?x AND mask 10 = ?x" unfolding take_bit_eq_mask [symmetric] by (rule take_bit_self)
  then have "?x AND 0x3FC = ?x AND NOT (mask 2)" unfolding m by (simp only: and.assoc [symmetric])
  also have "\<dots> = push_bit 2 (drop_bit 2 ?x)"
  proof -
    have "y AND NOT (mask n) = push_bit n (drop_bit n y)" for y :: u32 and n
      by (rule bit_word_eqI) (auto simp: bit_simps)
    then show ?thesis .
  qed
  finally have e: "?x AND 0x3FC = push_bit 2 (drop_bit 2 ?x)" .
  have d: "unat (drop_bit 2 ?x) = (2 * unat s + 2) div 4" by (simp only: unat_drop_bit x) simp
  have "unat (push_bit 2 (drop_bit 2 ?x)) = (2 * unat s + 2) div 4 * 4"
    using u8_less [of s] by (simp only: push_bit_eq_mult unat_word_ariths d) simp
  moreover have "(2 * unat s + 2) div 4 = (unat s + 1) div 2" by presburger
  ultimately show ?thesis unfolding e by simp
qed

lemma proto_size_mod_eq:
  "proto_size_mod sizebc sizekgc sizekn sizeuv sizedbg = proto_size sizebc sizekgc sizekn (unat sizeuv) sizedbg"
proof -
  have "(n + 1) div 2 * 2 * 2 = (n + 1) div 2 * (4 :: nat)" for n by simp
  then show ?thesis unfolding proto_size_mod_def proto_size_def Let_def uv_align sizeof_GCproto_def
    by (simp add: algebra_simps)
qed

lemma bytecode_mod_read:
  assumes "length (p_bc i) = Suc nb" "list_all ins_ok (reread_bc startins i)"
  shows "bytecode_mod dst False (reread_flags i) (p_framesize i) nb
      (concat (map bytes32 (encode_bc 0 (reread_bc startins i))) @ u) =
    Inr (p_bc (reread_info strip startins nm i), u)"
proof -
  let ?m = "concat (map bytes32 (encode_bc 0 (reread_bc startins i)))"
  have "length ?m = 4 * nb"
    by (subst length_concat_const [where n = 4]) (auto simp: bytes32_def reread_bc_def assms(1))
  then have g: "getn (4 * nb) (?m @ u) = Inr (?m, u)" by (simp add: getn_def)
  have v: "x < 1 \<longleftrightarrow> x = (0 :: u8)" for x by (simp add: word_less_nat_alt unat_eq_zero)
  show ?thesis using assms(2)
    by (simp add: bytecode_mod_def sbind_def g Let_def v reread_info_def decode_encode_bc BCINS_AD_def BC_FUNCV_def BC_FUNCF_def PROTO_VARARG_def)
qed

lemma bytes_mod_fields:
  "sbind (on_buf get1) f (adv ls (b # bs)) = f b (adv ls bs)" if "length (b # bs) \<le> length (ls_buf ls)"
    for f :: "u8 \<Rightarrow> 'a lreader"
  using sbind_adv_byte [OF that] by (simp add: bcread_byte_def)

lemma proto_mod_read:
  assumes ok: "part_obf_ok strip startins i ks"
    and cs: "list_all2 (proto_decoded strip startins nm) (kgc_children ks) cs"
    and buf: "ls_buf ls = obf_body strip startins i ks @ w"
    and stack: "ls_protos ls = cs @ S" "ls_lastline ls + length cs \<le> L_top (ls_L ls)"
    and level: "ls_level ls AND BCDUMP_F_BE = 0" "ls_level ls AND BCDUMP_F_STRIP = 0 \<longleftrightarrow> \<not> strip" "ls_chunkname ls = nm"
  shows "\<exists>pt. proto_mod b ls = Inr (pt, popped (adv ls w) S (length cs)) \<and> proto_decoded strip startins nm (Proto i ks) pt"
proof -
  define dbg where "dbg = (if strip then [] else p_dbg i)"
  define fs where "fs = p_framesize i"
  define f where "f = (ucast fs :: u32)"
  define u4 where "u4 = dbg @ w"
  define u3 where "u3 = concat (map (\<lambda>k. kgc_bytes (scrambled k)) ks) @ u4"
  define u2 where "u2 = concat (map knum_bytes (p_kn i)) @ u3"
  define u1 where "u1 = concat (map bytes32 (encode_bc 0 (reread_bc startins i))) @ u2"
  define u0 where "u0 = concat (map bytes16 (p_uv i)) @ u1"
  have whole: "ls_buf ls = obf_header strip i ks @ u0"
    by (simp add: buf obf_body_def u0_def u1_def u2_def u3_def u4_def dbg_def)
  then have len: "length u0 \<le> length (ls_buf ls)" "length u1 \<le> length u0" "length u2 \<le> length u1"
    "length u3 \<le> length u2" "length u4 \<le> length u3" "length w \<le> length u4"
    by (simp_all add: u0_def u1_def u2_def u3_def u4_def)
  have i: "info_dumpable strip i ks" and ks: "list_all kgc_obf_ok ks" and ins: "list_all ins_ok (reread_bc startins i)"
    using ok by (simp_all add: part_obf_ok_def)
  have bc: "p_bc i \<noteq> []" and uv: "length (p_uv i) < 256" and kn: "list_all (\<lambda>x. x \<noteq> mzero) (p_kn i)"
    and size: "proto_size (length (p_bc i)) (length ks) (length (p_kn i)) (length (p_uv i)) (length dbg) < 2 ^ 32"
    and vi: "dbg \<noteq> [] \<Longrightarrow>
      bcread_varinfo (length (p_uv i)) dbg (sizeli (sint (p_numline i)) (length (p_bc i) - 1)) = Inr (p_varinfo i)"
    using i by (auto simp: info_dumpable_def dbg_def split: if_splits)
  have sz: "length (p_bc i) < 2 ^ 32" "length ks < 2 ^ 32" "length (p_kn i) < 2 ^ 32" "length dbg < 2 ^ 32"
    using size by (auto simp: proto_size_def Let_def)
  obtain nb where nb: "length (p_bc i) = Suc nb" using bc by (cases "p_bc i") auto
  with sz have un: "unat (word_of_nat (length ks) :: u32) = length ks" "unat (word_of_nat (length (p_kn i)) :: u32) = length (p_kn i)"
    "unat (word_of_nat nb :: u32) = nb"
    "unat (word_of_nat (length dbg) :: u32) = length dbg" "unat (word_of_nat (length (p_uv i)) :: u8) = length (p_uv i)"
    using uv by (auto simp: unat_32 intro: unat_of_nat_eq)
  then have z: "word_of_nat (length dbg) = (0 :: u32) \<longleftrightarrow> dbg = []" "word_of_nat (length (p_uv i)) = (0 :: u8) \<longleftrightarrow> p_uv i = []"
    using unat_eq_zero [of "word_of_nat (length dbg) :: u32"] unat_eq_zero [of "word_of_nat (length (p_uv i)) :: u8"] by simp_all
  define dh where "dh = (if strip then [] else lj_strfmt_wuleb128 (word_of_nat (length dbg)) @
      (if dbg \<noteq> [] then lj_strfmt_wuleb128 (p_firstline i) @ lj_strfmt_wuleb128 (p_numline i) else []))"
  define fl nl where "fl = (if dbg = [] then 0 else p_firstline i)" and "nl = (if dbg = [] then 0 else p_numline i)"
  have hd: "obf_header strip i ks @ u0 = (fs XOR 0xE9) # (reread_flags i XOR fs) # (p_numparams i XOR fs) #
      lj_strfmt_wuleb128 (word_of_nat nb + f) @ lj_strfmt_wuleb128 (word_of_nat (length (p_kn i)) + f) @
      (word_of_nat (length (p_uv i)) XOR fs) # lj_strfmt_wuleb128 (word_of_nat (length ks) + f) @ dh @ u0"
    by (simp add: obf_header_def Let_def dh_def dbg_def nb fs_def f_def)
  have hlen: "length ((fs XOR 0xE9) # (reread_flags i XOR fs) # (p_numparams i XOR fs) #
      lj_strfmt_wuleb128 (word_of_nat nb + f) @ lj_strfmt_wuleb128 (word_of_nat (length (p_kn i)) + f) @
      (word_of_nat (length (p_uv i)) XOR fs) # lj_strfmt_wuleb128 (word_of_nat (length ks) + f) @ dh @ u0) \<le> length (ls_buf ls)"
    unfolding whole hd ..
  then have dlen: "length (dh @ u0) \<le> length (ls_buf ls)" by simp
  have strip: "ls_level ls AND 2 = 0 \<longleftrightarrow> \<not> strip" and swap: "ls_level ls AND 1 = 0"
    using level by (simp_all add: BCDUMP_F_STRIP_def BCDUMP_F_BE_def)
  note uleb = sbind_adv_uleb [unfolded bcread_uleb128_def]
  have dh_read: "sbind (if ls_level ls AND 2 \<noteq> 0 then sret (0, 0, 0)
      else sbind (on_buf lj_buf_ruleb128) (\<lambda>sizedbg.
           if sizedbg \<noteq> 0
           then sbind (on_buf lj_buf_ruleb128) (\<lambda>v78.
                sbind (on_buf lj_buf_ruleb128) (\<lambda>v73. sret (sizedbg, v78, v73)))
           else sret (sizedbg, 0, 0))) F (adv ls (dh @ u0)) = F (word_of_nat (length dbg), fl, nl) (adv ls u0)"
    for F :: "u32 \<times> u32 \<times> u32 \<Rightarrow> proto lreader"
    using dlen by (cases strip; cases "dbg = []")
      (simp_all add: strip dh_def fl_def nl_def sbind_def [of _ F] uleb z, simp_all add: dbg_def)
  have uv_read': "sbind (if word_of_nat (length (p_uv i)) \<noteq> (0 :: u8)
      then on_buf (bcread_uv_mod d False (length (p_uv i))) else sret []) F (adv ls u0) = F (p_uv i) (adv ls u1)"
    for F :: "u16 list \<Rightarrow> proto lreader" and d
  proof (cases "p_uv i = []")
    case False
    then show ?thesis unfolding u0_def
      by (simp add: z) (rule sbind_adv, simp add: bcread_uv_mod_eq uv_read, use len in \<open>simp_all add: u0_def\<close>)
  qed (simp add: sbind_def u0_def)
  have bc_read: "sbind (on_buf (bytecode_mod d False (reread_flags i) fs nb)) F (adv ls u1) =
      F (p_bc (reread_info strip startins nm i)) (adv ls u2)" for F :: "u32 list \<Rightarrow> proto lreader" and d
    unfolding u1_def fs_def by (rule sbind_adv, rule bytecode_mod_read [OF nb ins]) (use len in \<open>simp_all add: u1_def\<close>)
  have kn_read: "sbind (on_buf (bcread_knum_mod (length (p_kn i)))) F (adv ls u2) = F (p_kn i) (adv ls u3)"
    for F :: "u64 list \<Rightarrow> proto lreader"
    unfolding u2_def using len knum.dec_list [of "p_kn i"] kn
    by (intro sbind_adv) (simp_all add: bcread_knum_mod_eq bcread_knum_def u2_def)
  have "ls_lastline (adv ls u3) + length cs \<le> L_top (ls_L (adv ls u3))" "ls_protos (adv ls u3) = cs @ S" using stack by simp_all
  then obtain ks' where ks': "stimes (length ks) kgc_mod_one (adv ls u3) = Inr (ks', popped (adv ls u4) S (length cs))"
    "list_all2 (kgc_decoded strip startins nm) ks ks'"
    using mod_consts.kgc_read [OF ks cs, of "adv ls u3" u4 S] len by (auto simp: u3_def adv_adv)
  have kgc_read: "sbind (bcread_kgc_mod (length ks)) F (adv ls u3) = F ks' (popped (adv ls u4) S (length cs))"
    for F :: "kgc list \<Rightarrow> proto lreader"
    unfolding bcread_kgc_mod_def by (rule sbind_Inr, rule ks'(1))
  have dbg_read: "sbind (if word_of_nat (length dbg) \<noteq> (0 :: u32)
      then sbind (on_buf (bcread_dbg_mod d False nl nb (length dbg))) (\<lambda>d.
           sbind (slift (skip_names (length (p_uv i))
               (drop (nb * 2 ^ (if 255 < sint nl then Suc (if 0x10000 \<le> sint nl then Suc 0 else 0) else 0)) d)
               (nb * 2 ^ (if 255 < sint nl then Suc (if 0x10000 \<le> sint nl then Suc 0 else 0) else 0)))) (\<lambda>vi. sret (d, vi)))
      else sret ([], 0)) F (popped (adv ls u4) S m) = F (dbg, if dbg = [] then 0 else p_varinfo i) (popped (adv ls w) S m)"
    for F :: "bytes \<times> nat \<Rightarrow> proto lreader" and m d
  proof (cases "dbg = []")
    case False
    have "bcread_dbg_mod d False nl nb (length dbg) u4 = Inr (dbg, w)"
      by (simp add: bcread_dbg_mod_def u4_def sbind_def getn_def)
    moreover have "nb * 2 ^ (if 255 < sint nl then Suc (if 0x10000 \<le> sint nl then Suc 0 else 0) else 0) = sizeli (sint nl) nb"
      by (simp add: sizeli_def)
    ultimately show ?thesis using False vi [unfolded nb] len
      by (simp add: z sbind_def [of _ F] sbind_popped [where r = "bcread_dbg_mod a b c e g" for a b c e g] nl_def bcread_varinfo_def)
  qed (simp add: z u4_def sbind_def)
  have info: "\<lparr>p_flags = reread_flags i, p_numparams = p_numparams i, p_framesize = fs,
      p_bc = p_bc (reread_info strip startins nm i), p_uv = p_uv i, p_kn = p_kn i, p_trace = 0, p_firstline = fl,
      p_numline = nl, p_dbg = dbg, p_varinfo = (if dbg = [] then 0 else p_varinfo i), p_chunkname = nm\<rparr> =
      reread_info strip startins nm i"
    by (simp add: reread_info_def Let_def fl_def nl_def dbg_def fs_def)
  have get: "sbind (on_buf get1) F (adv ls (c # bs)) = F c (adv ls bs)" if "length (c # bs) \<le> length (ls_buf ls)"
    for F :: "u8 \<Rightarrow> proto lreader" and c bs
    by (rule bytes_mod_fields [OF that])
  have head: "adv ls (obf_header strip i ks @ u0) = ls" using adv_same [of ls] whole by simp
  have "proto_mod b (adv ls (obf_header strip i ks @ u0)) =
      Inr (Proto (reread_info strip startins nm i) ks', popped (adv ls w) S (length cs))"
    unfolding hd proto_mod_def Let_def adv_fields swap
    using hlen size [unfolded nb]
    by (simp split del: if_split cong: if_cong add: info get uleb f_def [symmetric] proto_size_mod_eq un dh_read
        uv_read' bc_read kn_read kgc_read dbg_read level(3))
  then show ?thesis unfolding head using kgc_decoded_proto_decoded.proto [OF ks'(2)] by blast
qed

end
