(* ===== verification/ObfTrip.thy ===== *)
theory ObfTrip
  imports ObfRead DumpProps
begin

text \<open>
  Reading a whole obfuscated dump, in whatever chunks it arrives.
\<close>

section \<open>The loop\<close>

lemma fill_if_short_Inr:
  "bcread_want len ls = Inr r \<Longrightarrow> fill_if_short b len False ls = Inr r"
  "bcread_need len ls = Inr r \<Longrightarrow> fill_if_short b len True ls = Inr r"
  by (auto simp: bcread_want_def bcread_need_def fill_if_short_def rbind_eq_Inr dest: bcread_fill_mod_Inr split: if_splits)

interpretation mod_window: window "\<lambda>n. fill_if_short b n False" "\<lambda>n. fill_if_short b n True" for b
  using bcread_window.want bcread_window.need fill_if_short_Inr by unfold_locales meson+

lemma length_obf_body: "7 \<le> length (obf_body strip startins i ks)"
proof -
  have "1 \<le> length (lj_strfmt_wuleb128 v)" for v using wuleb128_not_Nil [of v] by (cases "lj_strfmt_wuleb128 v") simp_all
  from this [of "word_of_nat (length ks) + ucast (p_framesize i)"] this [of "word_of_nat (length (p_kn i)) + ucast (p_framesize i)"]
    this [of "word_of_nat (length (p_bc i) - 1) + ucast (p_framesize i)"]
  show ?thesis by (simp add: obf_body_def obf_header_def Let_def)
qed

interpretation mod_parts: part_reader "\<lambda>n. fill_if_short b n False" "\<lambda>n. fill_if_short b n True" "proto_mod b"
    "obf_body strip startins" "part_obf_ok strip startins" "proto_decoded strip startins nm" strip nm "Throw (Err_offset 2972)"
    "\<lambda>w. (2 * word_of_nat (length w) :: u32) \<le> 0"
  for b strip startins nm
  using length_obf_body proto_mod_read by unfold_locales (simp, blast+)

definition obf_round :: "blocks \<Rightarrow> bool lreader" where
  "obf_round b = round_with (\<lambda>n. fill_if_short b n False) (\<lambda>n. fill_if_short b n True) (proto_mod b) (Throw (Err_offset 2972))
    (\<lambda>w. (2 * word_of_nat (length w) :: u32) \<le> 0)"

lemma round_mod_with: "round_mod b = obf_round b"
  unfolding fun_eq_iff obf_round_def round_mod_def round_with_def bcread_error_mod_def by simp

lemma loop_mod_rounds: "loop_mod b f ls = rounds (obf_round b) f ls"
  unfolding round_mod_with [symmetric]
proof (induction f arbitrary: ls)
  case (Suc f)
  then show ?case by simp (rule rbind_cong, auto)
qed simp

section \<open>The header\<close>

definition mod_name :: "bool \<Rightarrow> pinfo \<Rightarrow> lexstate \<Rightarrow> gcstr" where
  "mod_name strip i ls = the_str_mod (if strip then ls_chunkarg ls else s_data (p_chunkname i))"

definition name_ok :: "bool \<Rightarrow> pinfo \<Rightarrow> lexstate \<Rightarrow> bool" where
  "name_ok strip i ls \<longleftrightarrow> length (if strip then ls_chunkarg ls else s_data (p_chunkname i)) < LJ_MAX_STR"

lemma str_mod_Inr: "length s < LJ_MAX_STR \<Longrightarrow> str_mod s = Inr (the_str_mod s)"
  by (simp add: str_mod_def LJ_MAX_STR_def)

lemma header_mod_read:
  assumes feed: "feed K (obf_start strip i @ bs) ls" and c: "0 \<le> ls_c ls" and name: "name_ok strip i ls"
  shows "\<exists>ls'. header_mod b ls = Inr ((), ls') \<and> feed K bs ls' \<and> ls_protos ls' = ls_protos ls \<and> ls_L ls' = ls_L ls \<and>
    ls_lastline ls' = ls_lastline ls \<and> ls_level ls' AND BCDUMP_F_BE = 0 \<and>
    (ls_level ls' AND BCDUMP_F_STRIP = 0 \<longleftrightarrow> \<not> strip) \<and> ls_chunkname ls' = mod_name strip i ls"
proof -
  define fl where "fl = (if strip then BCDUMP_F_STRIP else 0) + (if p_flags i AND PROTO_FFI \<noteq> 0 then BCDUMP_F_FFI else 0)"
  note fl = dump_flags [where strip = strip and ffi = "p_flags i AND PROTO_FFI \<noteq> 0", folded fl_def]
  have fl8: "fl AND 0xFFFFFFF8 = 0" "fl AND 2 = 0 \<longleftrightarrow> \<not> strip"
    by (cases strip; simp add: fl_def BCDUMP_F_STRIP_def BCDUMP_F_FFI_def)+
  let ?n = "word_of_nat (length (s_data (p_chunkname i))) :: u32" and ?s = "s_data (p_chunkname i)"
  define nb where "nb = (if strip then [] else lj_strfmt_wuleb128 ?n @ ?s)"
  have hd: "obf_start strip i @ bs = [0x41, 0x4e, 0x41, ucast fl] @ (nb @ bs)"
    by (simp add: obf_start_def fl_def nb_def)
  have K: "13 \<le> K" "length (obf_start strip i @ bs) \<le> K" "K \<le> LJ_MAX_BUF" using feed by (simp_all add: feed_def feeds_def)
  obtain ls1 where ls1: "fill_if_short b 13 False ls = Inr ((), ls1)" "feed K (obf_start strip i @ bs) ls1" "same ls ls1"
    "min 13 (length (obf_start strip i @ bs)) \<le> length (ls_buf ls1)"
    using mod_window.want [OF feed K(1)] c by auto
  have "length [0x41, 0x4e, 0x41, ucast fl :: u8] \<le> length (ls_buf ls1)" using ls1(4) hd by simp
  then obtain w1 where w1: "ls_buf ls1 = [0x41, 0x4e, 0x41, ucast fl] @ w1" "feed K (nb @ bs) (adv ls1 w1)"
    using feed_split [OF ls1(2) [unfolded hd]] by blast
  have fr: "lj_buf_ruleb128 (ucast fl # w1) = Inr (fl, w1)" using small_uleb [OF fl(1), of w1] by (simp only: fl(2))
  let ?ls2 = "(adv ls1 w1)\<lparr>ls_level := fl\<rparr>"
  have f2: "feed K (nb @ bs) ?ls2" using w1(2) by (simp add: feed_def feeds_def)
  have start: "header_mod b ls = sbind (if strip then (\<lambda>ls. rbind (str_mod (ls_chunkarg ls)) (\<lambda>s. Inr (s, ls)))
      else sbind (on_buf lj_buf_ruleb128) (\<lambda>v8.
           sbind (fill_if_short b (unat v8) True) (\<lambda>_.
           if 0x7FFFFEFF < v8 then slift (Inl (Throw LJ_ERR_STROV))
           else sbind (on_buf (getn (unat v8))) (\<lambda>v9. slift (str_mod v9)))))
      (\<lambda>v11 ls. Inr ((), ls\<lparr>ls_chunkname := v11\<rparr>)) ?ls2"
  proof -
    have l: "length (ls_buf ls1) = 4 + length w1" using w1(1) by simp
    have h: "ls1 = adv ls1 (0x41 # 0x4e # 0x41 # ucast fl # w1)" using adv_same [of ls1] w1(1) by simp
    have ful: "sbind (on_buf lj_buf_ruleb128) f (adv ls1 (ucast fl # w1)) = f fl (adv ls1 w1)" for f :: "u32 \<Rightarrow> unit lreader"
      by (rule sbind_adv) (simp_all add: l fr del: lj_buf_ruleb128.simps)
    have get: "sbind (on_buf get1) f (adv ls1 (c # bs)) = f c (adv ls1 bs)" if "length (c # bs) \<le> length (ls_buf ls1)"
      for f :: "u8 \<Rightarrow> unit lreader" and c bs
      by (rule bytes_mod_fields [OF that])
    have "header_mod b ls = sbind (on_buf get1) (\<lambda>v3. if v3 \<noteq> 65 then slift (bcread_error_mod 2938) else
        sbind (on_buf get1) (\<lambda>v3. if v3 \<noteq> 78 then slift (bcread_error_mod 2938) else
        sbind (on_buf get1) (\<lambda>v3. if v3 \<noteq> 65 then slift (bcread_error_mod 2938) else
        sbind (on_buf lj_buf_ruleb128) (\<lambda>h_flags.
        sbind (\<lambda>ls. Inr ((), ls\<lparr>ls_level := h_flags\<rparr>)) (\<lambda>_.
        if h_flags AND 0xFFFFFFF8 \<noteq> 0 then slift (bcread_error_mod 2938)
        else sbind (if h_flags AND 2 \<noteq> 0
                    then (\<lambda>ls. rbind (str_mod (ls_chunkarg ls)) (\<lambda>s. Inr (s, ls)))
                    else sbind (on_buf lj_buf_ruleb128) (\<lambda>v8.
                         sbind (fill_if_short b (unat v8) True) (\<lambda>_.
                         if 0x7FFFFEFF < v8 then slift (Inl (Throw LJ_ERR_STROV))
                         else sbind (on_buf (getn (unat v8))) (\<lambda>v9. slift (str_mod v9)))))
             (\<lambda>v11 ls. Inr ((), ls\<lparr>ls_chunkname := v11\<rparr>)))))))
        (adv ls1 (0x41 # 0x4e # 0x41 # ucast fl # w1))"
      using ls1(1) h by (simp add: header_mod_def sbind_def)
    then show ?thesis
      using fl8 by (simp add: get l ful sbind_def [of "\<lambda>ls. Inr ((), ls\<lparr>ls_level := _\<rparr>)"])
  qed
  show ?thesis
  proof (cases strip)
    case True
    have "ls_chunkarg ?ls2 = ls_chunkarg ls" using ls1(3) by (simp add: same_def adv_def)
    then have "header_mod b ls = Inr ((), ?ls2\<lparr>ls_chunkname := mod_name strip i ls\<rparr>)"
      using True name unfolding start by (simp add: sbind_def name_ok_def str_mod_Inr mod_name_def)
    moreover have "feed K bs (?ls2\<lparr>ls_chunkname := mod_name strip i ls\<rparr>)" using f2 True by (simp add: nb_def feed_def feeds_def)
    ultimately show ?thesis using ls1(3) fl(5,6) by (auto simp: same_def)
  next
    case False
    have nm: "length ?s < LJ_MAX_STR" using name False by (simp add: name_ok_def)
    then have un: "unat ?n = length ?s" by (intro unat_32) (simp add: LJ_MAX_STR_def)
    have f2': "feed K (lj_strfmt_wuleb128 ?n @ ?s @ bs) ?ls2" using f2 False by (simp add: nb_def)
    have "min 9 (length (lj_strfmt_wuleb128 ?n @ ?s @ bs)) \<le> length (ls_buf ?ls2)"
      using ls1(4) w1(1) unfolding hd using False by (simp add: nb_def)
    then have "length (lj_strfmt_wuleb128 ?n) \<le> length (ls_buf ?ls2)" using length_wuleb128 [of ?n] by simp
    then obtain w2 where w2: "ls_buf ?ls2 = lj_strfmt_wuleb128 ?n @ w2" "feed K (?s @ bs) (adv ?ls2 w2)"
      using feed_split [OF f2'] by blast
    have lk: "length ?s \<le> K" "length ?s \<le> length (?s @ bs)" using w2(2) by (simp_all add: feed_def feeds_def)
    from mod_window.need [OF w2(2) lk] obtain ls3 where ls3: "fill_if_short b (length ?s) True (adv ?ls2 w2) = Inr ((), ls3)"
      "feed K (?s @ bs) ls3" "same (adv ?ls2 w2) ls3" "length ?s \<le> length (ls_buf ls3)" by blast
    obtain w3 where w3: "ls_buf ls3 = ?s @ w3" "feed K bs (adv ls3 w3)" using feed_split [OF ls3(2,4)] by blast
    have "\<not> 0x7FFFFEFF < ?n" using nm un by (simp add: word_less_nat_alt LJ_MAX_STR_def)
    moreover have "on_buf lj_buf_ruleb128 ?ls2 = Inr (?n, adv ?ls2 w2)" using w2(1) by (simp add: on_buf_def adv_def uleb.dec_enc)
    moreover have "on_buf (getn (length ?s)) ls3 = Inr (?s, adv ls3 w3)" using w3(1) by (simp add: on_buf_def adv_def getn_def)
    ultimately have "header_mod b ls = Inr ((), (adv ls3 w3)\<lparr>ls_chunkname := mod_name strip i ls\<rparr>)"
      using start False ls3(1) nm by (simp add: sbind_def un str_mod_Inr mod_name_def slift_def)
    moreover have "feed K bs ((adv ls3 w3)\<lparr>ls_chunkname := mod_name strip i ls\<rparr>)" using w3(2) by (simp add: feed_def feeds_def)
    ultimately show ?thesis using False fl(5,6) ls1(3) ls3(3) by (auto simp: same_def)
  qed
qed

section \<open>The whole dump\<close>

lemma lj_bcread_mod_dump:
  assumes pt: "all_protos (part_obf_ok strip startins) pt" and name: "name_ok strip (p_info pt) ls"
    and ls: "fresh_reader (proto_count pt) ls" and bs: "delivers (obf_dump strip startins pt) ls"
  shows "\<exists>pt' ls'. lj_bcread_mod b ls = Inr (pt', ls') \<and> proto_decoded strip startins (mod_name strip (p_info pt) ls) pt pt'"
proof -
  let ?i = "p_info pt" and ?bs = "obf_dump strip startins pt"
  let ?nm = "mod_name strip ?i ls" and ?l0 = "L_top (ls_L ls)"
  let ?ps = "concat (parts (\<lambda>i ks. sized (obf_body strip startins i ks)) pt)"
  define K where "K = length ?bs + 13"
  let ?ls0 = "ls\<lparr>ls_lastline := ?l0, ls_sb := lj_buf_reset (ls_sb ls)\<rparr>"
  have split: "?bs = obf_start strip ?i @ ?ps @ [0]" by (simp add: obf_dump_def)
  have "feed K ?bs ?ls0" using bs by (auto simp: K_def delivers_def feed_def feeds_def lj_buf_reset_def)
  then have f0: "feed K (obf_start strip ?i @ ?ps @ [0]) ?ls0" by (simp only: split)
  have c: "0 \<le> ls_c ?ls0" using bs by (simp add: delivers_def)
  have "name_ok strip ?i ?ls0" "mod_name strip ?i ?ls0 = ?nm" using name by (simp_all add: name_ok_def mod_name_def split: if_splits)
  with header_mod_read [OF f0 c, of b] obtain ls1 where ls1: "header_mod b ?ls0 = Inr ((), ls1)" "feed K (?ps @ [0]) ls1"
    "ls_protos ls1 = ls_protos ls" "ls_L ls1 = ls_L ls" "ls_lastline ls1 = ?l0" "ls_level ls1 AND BCDUMP_F_BE = 0"
    "ls_level ls1 AND BCDUMP_F_STRIP = 0 \<longleftrightarrow> \<not> strip" "ls_chunkname ls1 = ?nm"
    by auto
  have r1: "ready strip ?nm ?l0 K (?ps @ [0]) [] ls1" using ls1 ls by (simp add: ready_def fresh_reader_def)
  have fuel: "rounds (obf_round b) (Suc (avail ls1)) ls1 = rounds (obf_round b) (n + Suc (avail ls1)) ls1" for n
    unfolding loop_mod_rounds [symmetric] by (rule loop_mod_fuel) simp_all
  have room: "?l0 + proto_count pt + LJ_STACK_EXTRA + 1 < LJ_STACK_MAX" using ls by (simp add: fresh_reader_def)
  obtain pt' ls3 where loop: "loop_mod b (Suc (avail ls1)) ls1 = Inr ls3" and ls3: "ready strip ?nm ?l0 K [] [pt'] ls3"
    and rel: "proto_decoded strip startins ?nm pt pt'"
    using mod_parts.loop_read [OF r1 pt room fuel [unfolded obf_round_def]] unfolding loop_mod_rounds obf_round_def by blast
  have "ls_buf ls3 = []" "L_top (ls_L ls3) = ?l0 + 1" "ls_lastline ls3 = ?l0" "ls_protos ls3 = [pt']"
    using ls3 by (auto simp: ready_def feed_def feeds_def)
  then show ?thesis using ls1(1) loop rel by (auto simp: lj_bcread_mod_def pop_child_mod_def simp del: loop_mod.simps)
qed

end
