(* ===== verification/Decoded.thy ===== *)
theory Decoded
  imports ObfTrip
begin

text \<open>
  The prototype of an obfuscated dump can be dumped again, in no more room than the original
  takes, and reading that dump gives what reading a dump of the original gives.
\<close>

inductive_cases kgc_reread_strE: "kgc_reread strip startins nm (KStr s) k"
inductive_cases kgc_reread_tabE: "kgc_reread strip startins nm (KTab t) k"
inductive_cases kgc_reread_childE: "kgc_reread strip startins nm (KChild pt) k"
inductive_cases proto_rereadE: "proto_reread strip startins nm (Proto i ks) pt"

text \<open>The room a dump takes, beside its header.\<close>

fun total_room :: "proto \<Rightarrow> nat" and children_room :: "kgc list \<Rightarrow> nat" where
  "total_room (Proto i ks) = body_room i ks + children_room ks"
| "children_room [] = 0"
| "children_room (k # ks) = (case k of KChild pt \<Rightarrow> total_room pt | _ \<Rightarrow> 0) + children_room ks"

abbreviation obf_ok :: "bool \<Rightarrow> (nat \<Rightarrow> u32) \<Rightarrow> proto \<Rightarrow> bool" where
  "obf_ok strip startins \<equiv> all_protos (part_obf_ok strip startins)"

lemma proto_writable_room:
  "total_room pt \<le> LJ_MAX_BUF \<Longrightarrow> all_protos (\<lambda>i ks. list_all kgc_writable ks) pt \<Longrightarrow> proto_writable pt"
  "children_room ks \<le> LJ_MAX_BUF \<Longrightarrow> all_children (\<lambda>i ks. list_all kgc_writable ks) ks \<Longrightarrow> children_writable ks"
proof (induction pt and ks rule: proto_count_children_count.induct)
  case (3 k ks)
  then show ?case by (cases k) auto
qed auto

lemma length_proto_chunks:
  "all_protos (\<lambda>i ks. list_all kgc_writable ks) pt \<Longrightarrow> length (concat (proto_chunks strip startins pt)) \<le> total_room pt"
  "all_children (\<lambda>i ks. list_all kgc_writable ks) ks \<Longrightarrow> length (concat (child_chunks strip startins ks)) \<le> children_room ks"
proof (induction pt and ks rule: proto_count_children_count.induct)
  case (1 i ks)
  then show ?case using length_sized_body [of ks strip startins i] by simp
next
  case (3 k ks)
  then show ?case by (cases k) auto
qed auto

section \<open>The parts of a prototype decoded\<close>

lemma s_data_the_str_mod [simp]: "s_data (the_str_mod s) = s"
  by (simp add: the_str_mod_def strempty_def)

lemma reread_flags_masks:
  "reread_flags (reread_info strip startins nm i) = reread_flags i" "reread_flags i AND PROTO_ILOOP = 0"
  "p_flags i AND PROTO_CHILD \<noteq> 0 \<Longrightarrow> reread_flags i AND PROTO_CHILD \<noteq> 0"
proof -
  show "reread_flags (reread_info strip startins nm i) = reread_flags i"
    by (simp add: reread_info_def Let_def reread_flags_def and.assoc)
  show "reread_flags i AND PROTO_ILOOP = 0"
    by (simp add: reread_flags_def and.assoc PROTO_CHILD_def PROTO_VARARG_def PROTO_FFI_def PROTO_ILOOP_def)
  show "p_flags i AND PROTO_CHILD \<noteq> 0 \<Longrightarrow> reread_flags i AND PROTO_CHILD \<noteq> 0"
    by (simp add: reread_flags_def and.assoc PROTO_CHILD_def PROTO_VARARG_def PROTO_FFI_def)
qed

lemma reread_info_fields:
  "p_flags (reread_info strip startins nm i) = reread_flags i" "tl (p_bc (reread_info strip startins nm i)) = reread_bc startins i"
  "length (p_bc (reread_info strip startins nm i)) = Suc (length (p_bc i) - 1)" "p_trace (reread_info strip startins nm i) = 0"
  "p_uv (reread_info strip startins nm i) = p_uv i" "p_kn (reread_info strip startins nm i) = p_kn i"
  "p_framesize (reread_info strip startins nm i) = p_framesize i" "p_numparams (reread_info strip startins nm i) = p_numparams i"
  "length (p_dbg (reread_info strip startins nm i)) \<le> length (p_dbg i)" "p_bc (reread_info strip startins nm i) \<noteq> []"
  by (simp_all add: reread_info_def Let_def reread_bc_def)

lemma reread_info_twice: "reread_info True startins' nm' (reread_info strip startins nm i) = reread_info True startins nm' i"
proof -
  have "reread_bc startins' (reread_info strip startins nm i) = reread_bc startins i"
    using reread_info_fields [of strip startins nm i] reread_flags_masks(2) [of i] by (simp add: reread_bc_def [of startins'])
  then show ?thesis
    by (simp only: reread_info_def [of True] Let_def reread_info_fields reread_flags_masks simp_thms if_True)
qed

lemma info_decoded:
  assumes "info_dumpable strip i ks" "length ks' = length ks"
  shows "info_dumpable True (reread_info strip startins nm i) ks'"
proof -
  obtain nb where "length (p_bc i) = Suc nb" using assms(1) by (cases "p_bc i") (auto simp: info_dumpable_def)
  then show ?thesis using assms
    by (auto simp: info_dumpable_def reread_info_fields proto_size_def Let_def split: if_splits)
qed

lemma body_room_decoded:
  assumes "p_bc i \<noteq> []" "sum_list (map kgc_room ks') = sum_list (map kgc_room ks)"
  shows "body_room (reread_info strip startins nm i) ks' \<le> body_room i ks"
  using assms reread_info_fields(9) [of strip startins nm i]
  by (simp add: body_room_def fixed_room_def reread_info_fields)

section \<open>Dumping again\<close>

text \<open>What holds of a prototype decoded and of its constants, given that the original has an obfuscated form.\<close>

definition again :: "bool \<Rightarrow> (nat \<Rightarrow> u32) \<Rightarrow> proto \<Rightarrow> proto \<Rightarrow> bool" where
  "again strip startins pt pt' \<longleftrightarrow> (obf_ok strip startins pt \<longrightarrow>
     all_protos (part_dumpable True) pt' \<and> all_protos (\<lambda>i ks. list_all kgc_writable ks) pt' \<and>
     total_room pt' \<le> total_room pt \<and> proto_count pt' = proto_count pt)"

definition kgc_again :: "bool \<Rightarrow> (nat \<Rightarrow> u32) \<Rightarrow> kgc \<Rightarrow> kgc \<Rightarrow> bool" where
  "kgc_again strip startins k k' \<longleftrightarrow> (kgc_obf_ok k \<longrightarrow>
     kgc_dumpable k' \<and> kgc_writable k' \<and> kgc_room k' = kgc_room k \<and>
     (case k of KChild pt \<Rightarrow> \<exists>pt'. k' = KChild pt' \<and> again strip startins pt pt' | _ \<Rightarrow> \<forall>pt'. k' \<noteq> KChild pt'))"

lemma children_again:
  assumes "list_all2 (kgc_again strip startins) ks ks'" "list_all kgc_obf_ok ks" "all_children (part_obf_ok strip startins) ks"
  shows "list_all kgc_dumpable ks'" "list_all kgc_writable ks'" "sum_list (map kgc_room ks') = sum_list (map kgc_room ks)"
    "kgc_children ks = [] \<Longrightarrow> kgc_children ks' = []" "all_children (part_dumpable True) ks'"
    "all_children (\<lambda>i ks. list_all kgc_writable ks) ks'" "children_room ks' \<le> children_room ks"
    "children_count ks' = children_count ks"
proof -
  have "list_all kgc_dumpable ks' \<and> list_all kgc_writable ks' \<and> sum_list (map kgc_room ks') = sum_list (map kgc_room ks) \<and>
    (kgc_children ks = [] \<longrightarrow> kgc_children ks' = []) \<and> all_children (part_dumpable True) ks' \<and>
    all_children (\<lambda>i ks. list_all kgc_writable ks) ks' \<and> children_room ks' \<le> children_room ks \<and>
    children_count ks' = children_count ks"
    using assms
  proof (induction ks ks' rule: list_all2_induct)
    case (Cons k ks k' ks')
    then show ?case
      by (cases k; cases k') (auto simp: kgc_again_def again_def)
  qed simp
  then show "list_all kgc_dumpable ks'" "list_all kgc_writable ks'" "sum_list (map kgc_room ks') = sum_list (map kgc_room ks)"
    "kgc_children ks = [] \<Longrightarrow> kgc_children ks' = []" "all_children (part_dumpable True) ks'"
    "all_children (\<lambda>i ks. list_all kgc_writable ks) ks'" "children_room ks' \<le> children_room ks"
    "children_count ks' = children_count ks" by blast+
qed

lemma proto_decoded_again:
  "kgc_decoded strip startins nm k k' \<Longrightarrow> kgc_again strip startins k k'"
  "proto_decoded strip startins nm pt pt' \<Longrightarrow> again strip startins pt pt'"
proof (induction rule: kgc_decoded_proto_decoded.inducts)
  case (tab t t')
  then show ?case using same_table_dump [of t t'] by (auto simp: kgc_again_def same_table_def)
next
  case (proto ks ks' i)
  have ks: "list_all2 (kgc_again strip startins) ks ks'" by (rule list_all2_mono [OF proto]) blast
  then have l: "length ks' = length ks" by (simp add: list_all2_lengthD)
  show ?case unfolding again_def
  proof (intro impI)
    assume ok: "obf_ok strip startins (Proto i ks)"
    then have i: "info_dumpable strip i ks" "list_all kgc_obf_ok ks" "all_children (part_obf_ok strip startins) ks"
      by (simp_all add: part_obf_ok_def)
    note c = children_again [OF ks i(2,3)]
    have bc: "p_bc i \<noteq> []" using i(1) by (simp add: info_dumpable_def)
    have "kgc_children ks' \<noteq> [] \<Longrightarrow> p_flags i AND PROTO_CHILD \<noteq> 0" using c(4) ok by auto
    then show "all_protos (part_dumpable True) (Proto (reread_info strip startins nm i) ks') \<and>
      all_protos (\<lambda>i ks. list_all kgc_writable ks) (Proto (reread_info strip startins nm i) ks') \<and>
      total_room (Proto (reread_info strip startins nm i) ks') \<le> total_room (Proto i ks) \<and>
      proto_count (Proto (reread_info strip startins nm i) ks') = proto_count (Proto i ks)"
      using c info_decoded [OF i(1) l, of startins nm] body_room_decoded [OF bc c(3), of strip startins nm]
      by (auto simp: part_dumpable_def reread_info_fields dest: reread_flags_masks(3))
  qed
qed (auto simp: kgc_again_def)

section \<open>Reading again\<close>

lemma same_table_trans: "tab_ok t \<Longrightarrow> same_table t t' \<Longrightarrow> same_table t' t'' \<Longrightarrow> same_table t t''"
  using last_used_last [of "asize t" "t_array t"] same_table_array [of t t'] by (auto simp: same_table_def)

lemma proto_decoded_reread:
  "kgc_decoded strip startins nm k k' \<Longrightarrow> kgc_obf_ok k \<Longrightarrow> (case k of KChild pt \<Rightarrow> obf_ok strip startins pt | _ \<Rightarrow> True) \<Longrightarrow>
    kgc_reread True startins' nm' k' k'' \<Longrightarrow> kgc_reread True startins nm' k k''"
  "proto_decoded strip startins nm pt pt' \<Longrightarrow> obf_ok strip startins pt \<Longrightarrow>
    proto_reread True startins' nm' pt' pt'' \<Longrightarrow> proto_reread True startins nm' pt pt''"
proof (induction arbitrary: k'' and pt'' rule: kgc_decoded_proto_decoded.inducts)
  case (str s)
  then have "k'' = KStr (the_str (s_data s))" by (auto elim!: kgc_reread_strE simp: s_data_the_str_mod)
  then show ?case using kgc_reread_proto_reread.str by simp
next
  case (tab t t')
  then show ?case by (auto elim!: kgc_reread_tabE intro!: kgc_reread_proto_reread.tab dest: same_table_trans simp: ktab_ok_def)
next
  case (child pt pt')
  then show ?case by (auto elim!: kgc_reread_childE intro: kgc_reread_proto_reread.child)
next
  case (proto ks ks' i)
  obtain ks'' where pt'': "pt'' = Proto (reread_info True startins nm' i) ks''"
    and ks'': "list_all2 (kgc_reread True startins' nm') ks' ks''"
    using proto.prems(2) by (auto elim!: proto_rereadE simp: reread_info_twice)
  have ok: "list_all kgc_obf_ok ks" using proto.prems(1) by (simp add: part_obf_ok_def)
  have oks: "all_children (part_obf_ok strip startins) ks" using proto.prems(1) by simp
  from proto.IH ks'' ok oks have "list_all2 (kgc_reread True startins nm') ks ks''"
  proof (induction ks ks' arbitrary: ks'' rule: list_all2_induct)
    case (Cons k ks k' ks')
    obtain x xs where x: "ks'' = x # xs" "kgc_reread True startins' nm' k' x" "list_all2 (kgc_reread True startins' nm') ks' xs"
      using Cons.prems(1) by (auto simp: list_all2_Cons1)
    have "kgc_reread True startins nm' k x" using Cons.hyps(1) Cons.prems(2,3) x(2) by (cases k) auto
    then show ?case using Cons.IH x(1,3) Cons.prems(2,3) by auto
  qed simp
  then show ?case unfolding pt'' by (rule kgc_reread_proto_reread.proto)
qed

end
