(* ===== verification/Load.thy ===== *)
theory Load
  imports BcreadMod Bcwrite Lex
begin

text \<open>
  Loading and dumping: \<^verbatim>\<open>src/src/lj_load.c\<close>, and the decoder \<^verbatim>\<open>bcdec\<close> built on it, that is,
  \<^verbatim>\<open>src/ByteCodeDec.cpp\<close> with the functions it calls.

  A function is its prototype.  What the model takes from outside is an environment: the
  addresses of blocks, the distances of the reader's and the lexer's buffer from the end of
  the address space, \<^verbatim>\<open>BUFSIZ\<close>, the stack at the call of \<^verbatim>\<open>cpparser\<close>, and the parser of source
  text (\<^verbatim>\<open>src/src/lj_parse.c\<close>), which decoding never calls.  A file is the bytes in it, or
  \<open>None\<close> when it cannot be opened; reading an open file does not fail.
\<close>

record loadenv =
  e_blocks :: blocks
  e_room :: nat
  e_sbroom :: nat
  e_bufsiz :: nat
  e_L :: lstack
  e_parse :: "LexState \<Rightarrow> proto res"

section \<open>Readers\<close>

definition LUAL_BUFFERSIZE :: "nat \<Rightarrow> nat" where
  "LUAL_BUFFERSIZE bufsiz = (if 16384 < bufsiz then 8192 else bufsiz)"

record FileReaderCtx =
  fp_rest :: bytes
  fp_eof :: bool

text \<open>\<^verbatim>\<open>fread\<close> sets the end-of-file mark when there is less than it was asked for.\<close>

definition reader_file :: "nat \<Rightarrow> FileReaderCtx \<Rightarrow> bytes option \<times> FileReaderCtx" where
  "reader_file bufsiz ctx =
     (if fp_eof ctx then (None, ctx)
      else let n = LUAL_BUFFERSIZE bufsiz; buf = take n (fp_rest ctx);
               ctx = \<lparr>fp_rest = drop n (fp_rest ctx), fp_eof = length (fp_rest ctx) < n\<rparr>
           in (if 0 < length buf then Some buf else None, ctx))"

text \<open>The answers of the callback, up to the first \<^verbatim>\<open>NULL\<close>.\<close>

function file_chunks :: "nat \<Rightarrow> FileReaderCtx \<Rightarrow> bytes list" where
  "file_chunks bufsiz ctx =
     (case reader_file bufsiz ctx of (None, ctx) \<Rightarrow> [] | (Some buf, ctx) \<Rightarrow> buf # file_chunks bufsiz ctx)"
  by pat_completeness auto
termination
  by (relation "measure (\<lambda>(_, ctx). length (fp_rest ctx))") (auto simp: reader_file_def Let_def split: if_splits)

declare file_chunks.simps [simp del]

text \<open>\<^verbatim>\<open>reader_string\<close> returns the string once.\<close>

definition string_chunks :: "bytes \<Rightarrow> bytes list" where
  "string_chunks s = (if length s = 0 then [] else [s])"

section \<open>Loading\<close>

text \<open>
  The fields of the lexer the bytecode readers go on with.  \<open>chunk_used\<close> is the distance of \<^verbatim>\<open>p\<close> from
  the start of the reader's buffer.
\<close>

definition chunk_used :: "bytes list \<Rightarrow> LexState \<Rightarrow> nat" where
  "chunk_used chunks ls =
     (let n = length chunks - length (lx_chunks ls) in
      if n = 0 then 0 else length (chunks ! (n - 1)) - length (lx_in ls))"

definition reader_state :: "loadenv \<Rightarrow> bytes list \<Rightarrow> bytes \<Rightarrow> LexState \<Rightarrow> lexstate" where
  "reader_state env chunks chunkarg ls =
     \<lparr>ls_buf = lx_in ls, ls_room = e_room env - chunk_used chunks ls, ls_sb = lx_sb ls, ls_sbroom = e_sbroom env,
      ls_c = lx_c ls, ls_chunks = map (\<lambda>c. (c, e_room env)) (lx_chunks ls), ls_level = 0,
      ls_chunkname = strempty, ls_chunkarg = chunkarg, ls_lastline = lx_lastline ls, ls_protos = [], ls_L = e_L env\<rparr>"

definition mode_forbids :: "bytes option \<Rightarrow> bool \<Rightarrow> bool" where
  "mode_forbids mode bc =
     (case mode of None \<Rightarrow> False | Some m \<Rightarrow> (if bc then 0x62 else 0x74) \<notin> set (takeWhile (\<lambda>c. c \<noteq> 0) m))"

definition cpparser :: "loadenv \<Rightarrow> bytes list \<Rightarrow> bytes \<Rightarrow> bytes option \<Rightarrow> proto res" where
  "cpparser env chunks chunkarg mode =
     rbind (lj_lex_setup_mod (lex_source chunks)) (\<lambda>(ls, bc).
     if mode_forbids mode bc then Inl (Throw LJ_ERR_XMODE)
     else if bc
     then rbind (lj_bcread_mod (e_blocks env) (reader_state env chunks chunkarg ls)) (\<lambda>(pt, ls). Inr pt)
     else e_parse env ls)"

text \<open>What a load leaves on the stack; \<^verbatim>\<open>lj_vm_cpcall\<close> catches the errors of \<^verbatim>\<open>cpparser\<close>.\<close>

datatype loaded = LFun proto | LErr lj_error

definition lua_loadx :: "loadenv \<Rightarrow> bytes list \<Rightarrow> bytes option \<Rightarrow> bytes option \<Rightarrow> loaded res" where
  "lua_loadx env chunks chunkname mode =
     (case cpparser env chunks (case chunkname of Some s \<Rightarrow> s | None \<Rightarrow> [0x3f]) mode of
        Inr pt \<Rightarrow> Inr (LFun pt)
      | Inl (Throw e) \<Rightarrow> Inr (LErr e)
      | Inl f \<Rightarrow> Inl f)"

definition lua_load :: "loadenv \<Rightarrow> bytes list \<Rightarrow> bytes option \<Rightarrow> loaded res" where
  "lua_load env chunks chunkname = lua_loadx env chunks chunkname None"

definition luaL_loadfilex :: "loadenv \<Rightarrow> bytes option \<Rightarrow> bytes \<Rightarrow> bytes option \<Rightarrow> loaded res" where
  "luaL_loadfilex env file filename mode =
     (case file of
        None \<Rightarrow> Inr (LErr LUA_ERRFILE)
      | Some content \<Rightarrow>
          lua_loadx env (file_chunks (e_bufsiz env) \<lparr>fp_rest = content, fp_eof = False\<rparr>) (Some (0x40 # filename)) mode)"

definition luaL_loadfile :: "loadenv \<Rightarrow> bytes option \<Rightarrow> bytes \<Rightarrow> loaded res" where
  "luaL_loadfile env file filename = luaL_loadfilex env file filename None"

definition luaL_loadbufferx :: "loadenv \<Rightarrow> bytes \<Rightarrow> bytes option \<Rightarrow> bytes option \<Rightarrow> loaded res" where
  "luaL_loadbufferx env buf name mode = lua_loadx env (string_chunks buf) name mode"

definition luaL_loadbuffer :: "loadenv \<Rightarrow> bytes \<Rightarrow> bytes option \<Rightarrow> loaded res" where
  "luaL_loadbuffer env buf name = luaL_loadbufferx env buf name None"

text \<open>The string ends at its first NUL.\<close>

definition luaL_loadstring :: "loadenv \<Rightarrow> bytes \<Rightarrow> loaded res" where
  "luaL_loadstring env s = (let s = takeWhile (\<lambda>c. c \<noteq> 0) s in luaL_loadbuffer env s (Some s))"

section \<open>Dumping\<close>

text \<open>The function on top of the stack, or \<open>None\<close> for another value.\<close>

definition lua_dump :: "(nat \<Rightarrow> u32) \<Rightarrow> 'd bcwriter \<Rightarrow> proto option \<Rightarrow> 'd \<Rightarrow> (int \<times> 'd) res" where
  "lua_dump startins writer fn d = (case fn of Some pt \<Rightarrow> lj_bcwrite startins writer pt d False | None \<Rightarrow> Inr (1, d))"

section \<open>The decoder\<close>

text \<open>A buffer operation that throws inside the callback leaves its error in the data.\<close>

definition writer_buf :: "SBuf res bcwriter" where
  "writer_buf p sb = (0, rbind sb (\<lambda>sb. lj_buf_putmem sb p))"

text \<open>
  \<^verbatim>\<open>lj_bcwrite\<close> to the temporary buffer, as \<^verbatim>\<open>DecodeByteCode\<close> and \<^verbatim>\<open>string.dump\<close> call it: any error
  in it becomes \<^verbatim>\<open>LJ_ERR_STRDUMP\<close>, and the result is made a string.
\<close>

definition dump_string :: "(nat \<Rightarrow> u32) \<Rightarrow> SBuf \<Rightarrow> proto \<Rightarrow> bool \<Rightarrow> bytes res" where
  "dump_string startins tmpbuf pt strip =
     (case rbind (lj_bcwrite startins writer_buf pt (Inr (lj_buf_reset tmpbuf)) strip)
             (\<lambda>(status, sb). rbind sb (\<lambda>sb. Inr (status, sb))) of
        Inl (Throw e) \<Rightarrow> Inl (Throw LJ_ERR_STRDUMP)
      | Inl f \<Rightarrow> Inl f
      | Inr (status, sb) \<Rightarrow>
          if status \<noteq> 0 then Inl (Throw LJ_ERR_STRDUMP)
          else if LJ_MAX_STR \<le> sbuflen sb then Inl (Throw LJ_ERR_STROV)
          else Inr (sb_data sb))"

text \<open>
  \<^verbatim>\<open>DecodeByteCode\<close> ignores the status of the load; \<^verbatim>\<open>lj_lib_checkfunc\<close> throws when the load has
  left a message instead of a function.  The result is the content of the output file.
\<close>

definition DecodeByteCode :: "loadenv \<Rightarrow> (nat \<Rightarrow> u32) \<Rightarrow> SBuf \<Rightarrow> bytes option \<Rightarrow> bytes \<Rightarrow> bytes res" where
  "DecodeByteCode env startins tmpbuf file path =
     rbind (luaL_loadfile env file path) (\<lambda>r.
     case r of
       LErr e \<Rightarrow> Inl (Throw LJ_ERR_BADTYPE)
     | LFun pt \<Rightarrow> dump_string startins tmpbuf pt True)"

text \<open>
  A directory: its entries with the kind and content of each.  An error is not caught by
  anybody and ends the process; what has been written before stays.
\<close>

record direntry =
  de_path :: bytes
  de_regular :: bool
  de_file :: "bytes option"

fun DecDirectory :: "(direntry \<Rightarrow> bytes res) \<Rightarrow> direntry list \<Rightarrow> (bytes \<times> bytes) list \<times> fault option" where
  "DecDirectory decode [] = ([], None)"
| "DecDirectory decode (e # es) =
     (if de_regular e
      then case decode e of
             Inl f \<Rightarrow> ([], Some f)
           | Inr out \<Rightarrow> (case DecDirectory decode es of (outs, r) \<Rightarrow> ((de_path e, out) # outs, r))
      else DecDirectory decode es)"

end
