(* ===== verification/Bcdec.thy ===== *)
theory Bcdec
  imports Decoded Load
begin

text \<open>
  The decoder as a whole: loading a file in the chunks of \<^verbatim>\<open>fread\<close>, reading the obfuscated dump
  and writing the standard one.
\<close>

section \<open>The chunks of a file\<close>

lemma file_chunks_eof [simp]: "file_chunks b \<lparr>fp_rest = r, fp_eof = True\<rparr> = []"
  by (subst file_chunks.simps) (simp add: reader_file_def)

lemma file_chunks_step:
  "file_chunks b \<lparr>fp_rest = r, fp_eof = False\<rparr> =
     (if take (LUAL_BUFFERSIZE b) r = [] then []
      else take (LUAL_BUFFERSIZE b) r # file_chunks b \<lparr>fp_rest = drop (LUAL_BUFFERSIZE b) r, fp_eof = length r < LUAL_BUFFERSIZE b\<rparr>)"
  by (subst file_chunks.simps) (auto simp: reader_file_def Let_def)

lemma file_chunks_content:
  assumes "0 < LUAL_BUFFERSIZE b"
  shows "concat (file_chunks b \<lparr>fp_rest = r, fp_eof = False\<rparr>) = r \<and>
    (\<forall>c \<in> set (file_chunks b \<lparr>fp_rest = r, fp_eof = False\<rparr>). c \<noteq> [] \<and> length c \<le> length r)"
proof (induction r rule: length_induct)
  case (1 r)
  let ?n = "LUAL_BUFFERSIZE b"
  show ?case
  proof (cases "length r < ?n \<or> r = []")
    case True
    then show ?thesis using assms by (auto simp: file_chunks_step)
  next
    case False
    then have "length (drop ?n r) < length r" using assms by simp
    with 1 have "concat (file_chunks b \<lparr>fp_rest = drop ?n r, fp_eof = False\<rparr>) = drop ?n r \<and>
      (\<forall>c \<in> set (file_chunks b \<lparr>fp_rest = drop ?n r, fp_eof = False\<rparr>). c \<noteq> [] \<and> length c \<le> length (drop ?n r))" by blast
    then show ?thesis using False assms by (subst (1 2) file_chunks_step) fastforce
  qed
qed

section \<open>What a load needs\<close>

text \<open>
  An environment in which a file of \<open>n\<close> bytes with \<open>m\<close> prototypes can be loaded: \<^verbatim>\<open>BUFSIZ\<close> is as
  the C standard promises, the buffers are far enough from the end of the address space, and
  there is room on the stack.
\<close>

definition env_fits :: "loadenv \<Rightarrow> nat \<Rightarrow> nat \<Rightarrow> bool" where
  "env_fits env n m \<longleftrightarrow> 256 \<le> e_bufsiz env \<and> 2 * n + 24 < e_room env \<and> 2 * n + 24 < e_sbroom env \<and> n + 12 \<le> LJ_MAX_BUF \<and>
     stack_ok (e_L env) \<and> L_stacksize (e_L env) \<le> LJ_STACK_MAXEX \<and> L_top (e_L env) + m + LJ_STACK_EXTRA + 1 < LJ_STACK_MAX"

lemma buffersize_256: "256 \<le> b \<Longrightarrow> 256 \<le> LUAL_BUFFERSIZE b"
  by (simp add: LUAL_BUFFERSIZE_def)

lemma setup_xana:
  "lj_lex_setup_mod (lex_source ((0x58 # 0x41 # 0x4e # 0x41 # c) # cs)) =
     Inr ((lex_source cs)\<lparr>lx_in := 0x41 # 0x4e # 0x41 # c, lx_c := 88, lx_tok := 0, lx_lookahead := TK_eof,
       lx_linenumber := 1, lx_lastline := 1\<rparr>, True)"
  by (simp add: lj_lex_setup_mod_def lex_source_def lex_init_def lex_next_def lex_more_def is_xana_def peek_at_def in_range_def Let_def)

lemma reader_of_file:
  assumes env: "env_fits env (length bs + 1) m"
  obtains c cs where "file_chunks (e_bufsiz env) \<lparr>fp_rest = h # bs, fp_eof = False\<rparr> = (h # c) # cs"
    "c = take (LUAL_BUFFERSIZE (e_bufsiz env) - 1) bs"
    "\<forall>ls. lx_in ls = c \<and> lx_chunks ls = cs \<and> lx_sb ls = lj_buf_init \<and> 0 \<le> lx_c ls \<longrightarrow>
       delivers bs (reader_state env ((h # c) # cs) arg ls) \<and> fresh_reader m (reader_state env ((h # c) # cs) arg ls)"
proof -
  define xs where "xs = file_chunks (e_bufsiz env) \<lparr>fp_rest = h # bs, fp_eof = False\<rparr>"
  have n: "256 \<le> LUAL_BUFFERSIZE (e_bufsiz env)" using env by (simp add: env_fits_def buffersize_256)
  then have content: "concat xs = h # bs" "\<And>c. c \<in> set xs \<Longrightarrow> c \<noteq> [] \<and> length c \<le> length bs + 1"
    using file_chunks_content [of "e_bufsiz env" "h # bs"] unfolding xs_def by auto
  define k where "k = LUAL_BUFFERSIZE (e_bufsiz env) - 1"
  have k: "LUAL_BUFFERSIZE (e_bufsiz env) = Suc k" using n by (simp add: k_def)
  define c cs where "c = take k bs" and "cs = tl xs"
  have xs: "xs = (h # c) # cs"
    unfolding c_def cs_def xs_def by (subst (1 2) file_chunks_step) (simp add: k)
  have c: "c @ concat cs = bs" "length c \<le> length bs" using content(1) xs by auto
  have cs: "x \<noteq> [] \<and> length x \<le> length bs + 1" if "x \<in> set cs" for x using content(2) [of x] xs that by simp
  have "delivers bs (reader_state env xs arg ls) \<and> fresh_reader m (reader_state env xs arg ls)"
    if "lx_in ls = c \<and> lx_chunks ls = cs \<and> lx_sb ls = lj_buf_init \<and> 0 \<le> lx_c ls" for ls
    using env c cs that unfolding delivers_def env_fits_def fresh_reader_def
    by (intro conjI ballI) (fastforce simp: reader_state_def chunk_used_def xs lj_buf_init_def comp_def)+
  then show ?thesis using that [of c cs] xs by (simp add: xs_def c_def k_def)
qed

lemma load_obf_dump:
  assumes pt: "obf_ok strip startins pt" and name: "length (s_data (p_chunkname (p_info pt))) < LJ_MAX_STR" "length path + 1 < LJ_MAX_STR"
    and env: "env_fits env (length (obf_dump strip startins pt) + 1) (proto_count pt)"
  shows "\<exists>pt'. luaL_loadfile env (Some (0x58 # obf_dump strip startins pt)) path = Inr (LFun pt') \<and>
    proto_decoded strip startins (the_str_mod (if strip then 0x40 # path else s_data (p_chunkname (p_info pt)))) pt pt'"
proof -
  obtain c cs where chunks: "file_chunks (e_bufsiz env) \<lparr>fp_rest = 0x58 # obf_dump strip startins pt, fp_eof = False\<rparr> = (0x58 # c) # cs"
    and c: "c = take (LUAL_BUFFERSIZE (e_bufsiz env) - 1) (obf_dump strip startins pt)"
    and ls: "\<forall>ls. lx_in ls = c \<and> lx_chunks ls = cs \<and> lx_sb ls = lj_buf_init \<and> 0 \<le> lx_c ls \<longrightarrow>
       delivers (obf_dump strip startins pt) (reader_state env ((0x58 # c) # cs) (0x40 # path) ls) \<and>
       fresh_reader (proto_count pt) (reader_state env ((0x58 # c) # cs) (0x40 # path) ls)"
    using reader_of_file [OF env] by blast
  have "256 \<le> LUAL_BUFFERSIZE (e_bufsiz env)" using env by (simp add: env_fits_def buffersize_256)
  then have "LUAL_BUFFERSIZE (e_bufsiz env) - 1 = Suc (Suc (Suc (LUAL_BUFFERSIZE (e_bufsiz env) - 4)))" by simp
  then obtain d where d: "c = 0x41 # 0x4e # 0x41 # d" unfolding c by (simp add: obf_dump_def obf_start_def)
  let ?lx = "(lex_source cs)\<lparr>lx_in := c, lx_c := 88, lx_tok := 0, lx_lookahead := TK_eof, lx_linenumber := 1, lx_lastline := 1\<rparr>"
  let ?ls = "reader_state env ((0x58 # c) # cs) (0x40 # path) ?lx"
  have "delivers (obf_dump strip startins pt) ?ls" "fresh_reader (proto_count pt) ?ls"
    using ls by (simp_all add: lex_source_def)
  moreover have "name_ok strip (p_info pt) ?ls" using name by (simp add: name_ok_def reader_state_def)
  ultimately obtain pt' ls' where "lj_bcread_mod (e_blocks env) ?ls = Inr (pt', ls')"
    "proto_decoded strip startins (mod_name strip (p_info pt) ?ls) pt pt'" using lj_bcread_mod_dump [OF pt] by blast
  then show ?thesis using setup_xana [of d cs, folded d]
    by (auto simp: luaL_loadfile_def luaL_loadfilex_def lua_loadx_def cpparser_def chunks mode_forbids_def mod_name_def reader_state_def)
qed

section \<open>Writing to a buffer\<close>

interpretation mems: buf_appender lj_buf_putmem "\<lambda>q. q" length
  by unfold_locales (rule appends_cong, rule appends_more_put, auto simp: lj_buf_putmem_def)

lemma pass_writer_failed: "pass_all writer_buf cs (0, Inl e) = (0, Inl e)"
  by (induction cs) (simp_all add: pass_def writer_buf_def)

lemma pass_writer_buf: "pass_all writer_buf cs (0, Inr sb) = (0, put_all lj_buf_putmem cs sb)"
proof (induction cs arbitrary: sb)
  case (Cons c cs)
  have "pass writer_buf c (0, Inr sb) = (0, lj_buf_putmem sb c)" by (simp add: pass_def writer_buf_def)
  then show ?case using Cons pass_writer_failed by (cases "lj_buf_putmem sb c") simp_all
qed simp

lemma dump_string_chunks:
  assumes "proto_writable pt" "10 + length (s_data (p_chunkname (p_info pt))) \<le> LJ_MAX_BUF"
    and "sbuf_ok tmpbuf" "length (concat (dump_chunks strip startins pt)) < LJ_MAX_STR"
  shows "dump_string startins tmpbuf pt strip = Inr (concat (dump_chunks strip startins pt))"
proof -
  let ?cs = "dump_chunks strip startins pt"
  have len: "sum_list (map length ?cs) = length (concat ?cs)" by (simp add: length_concat)
  have "sbuflen (lj_buf_reset tmpbuf) + sum_list (map length ?cs) \<le> LJ_MAX_BUF"
    using assms(4) by (simp add: len lj_buf_reset_def LJ_MAX_BUF_def LJ_MAX_STR_def)
  then obtain sb where "put_all lj_buf_putmem ?cs (lj_buf_reset tmpbuf) = Inr sb" "sb_data sb = concat ?cs"
    using appends_fits [OF mems.put_list sbuf_ok_reset [OF assms(3)], of ?cs] by (auto simp: lj_buf_reset_def)
  then show ?thesis using assms(4) lj_bcwrite_eq [of pt startins writer_buf "Inr (lj_buf_reset tmpbuf)" strip] assms(1,2)
    by (simp add: dump_string_def pass_writer_buf)
qed

section \<open>Deobfuscation\<close>

lemma length_stripped_header: "length (dump_header True i) = 5"
  by (simp add: dump_header_def)

text \<open>
  C1: the decoder \<^verbatim>\<open>bcdec\<close> removes the obfuscation. Whatever function was dumped in the obfuscated
  format, its file is loaded in the chunks of \<^verbatim>\<open>fread\<close> and written back as a standard dump, and
  the standard reader makes of that dump, in whatever chunks it gets it, what it makes of a
  stripped dump of the function itself.
\<close>

theorem bcdec_deobfuscates:
  assumes "all_protos (part_obf_ok strip startins) pt"
    and "length path + 11 \<le> LJ_MAX_BUF" "length (s_data (p_chunkname (p_info pt))) + 10 \<le> LJ_MAX_BUF"
    and "env_fits env (length (obf_dump strip startins pt) + 1) (proto_count pt)"
    and "sbuf_ok tmpbuf" "total_room pt + 6 < LJ_MAX_BUF"
  shows "\<exists>out. DecodeByteCode env startins' tmpbuf (Some (0x58 # obf_dump strip startins pt)) path = Inr (BCDUMP_HEAD1 # out) \<and>
    (\<forall>ls. fresh_reader (proto_count pt) ls \<longrightarrow> delivers out ls \<longrightarrow>
       (\<exists>pt' ls'. lj_bcread ls = Inr (pt', ls') \<and> proto_reread True startins (the_str (ls_chunkarg ls)) pt pt'))"
proof -
  let ?nm = "the_str_mod (if strip then 0x40 # path else s_data (p_chunkname (p_info pt)))"
  have "length (s_data (p_chunkname (p_info pt))) < LJ_MAX_STR" "length path + 1 < LJ_MAX_STR"
    using assms(2,3) by (simp_all add: LJ_MAX_BUF_def LJ_MAX_STR_def)
  from load_obf_dump [OF assms(1) this assms(4)] obtain pt' where
    load: "luaL_loadfile env (Some (0x58 # obf_dump strip startins pt)) path = Inr (LFun pt')"
    and dec: "proto_decoded strip startins ?nm pt pt'" by blast
  have pt': "all_protos (part_dumpable True) pt'" "all_protos (\<lambda>i ks. list_all kgc_writable ks) pt'"
    "total_room pt' \<le> total_room pt" "proto_count pt' = proto_count pt"
    using proto_decoded_again(2) [OF dec] assms(1) by (auto simp: again_def)
  have name: "p_chunkname (p_info pt') = ?nm" using dec by (cases rule: proto_decoded.cases) (simp add: reread_info_def Let_def)
  have w: "proto_writable pt'" using pt' assms(6) by (intro proto_writable_room(1)) simp_all
  have n10: "10 + length (s_data (p_chunkname (p_info pt'))) \<le> LJ_MAX_BUF" using assms(2,3) by (simp add: name)
  let ?cs = "dump_chunks True startins' pt'"
  have "length (concat ?cs) \<le> 6 + total_room pt'"
    using length_proto_chunks(1) [OF pt'(2), of True startins'] by (simp add: dump_chunks_def length_stripped_header)
  then have "length (concat ?cs) < LJ_MAX_STR" using pt'(3) assms(6) by (simp add: LJ_MAX_BUF_def LJ_MAX_STR_def)
  from dump_string_chunks [OF w n10 assms(5) this]
  have out: "DecodeByteCode env startins' tmpbuf (Some (0x58 # obf_dump strip startins pt)) path = Inr (BCDUMP_HEAD1 # tl (concat ?cs))"
    using load by (simp add: DecodeByteCode_def) (simp add: dump_chunks_def dump_header_def)
  have "\<exists>pt'' ls'. lj_bcread ls = Inr (pt'', ls') \<and> proto_reread True startins (the_str (ls_chunkarg ls)) pt pt''"
    if "fresh_reader (proto_count pt) ls" "delivers (tl (concat ?cs)) ls" for ls
  proof -
    have "name_dumpable True (p_info pt')" by (simp add: name_dumpable_def)
    from lj_bcread_dump [OF pt'(1) this that(1) [folded pt'(4)] that(2)] obtain pt'' ls' where
      "lj_bcread ls = Inr (pt'', ls')" "proto_reread True startins' (the_str (ls_chunkarg ls)) pt' pt''"
      by (auto simp: chunk_name_def)
    with proto_decoded_reread(2) [OF dec assms(1)] show ?thesis by blast
  qed
  with out show ?thesis by blast
qed

text \<open>An example: a function with a child and a string, in a file called \<^verbatim>\<open>a\<close>.\<close>

definition obf_example :: proto where
  "obf_example = Proto example_info [KChild (Proto example_info []), KStr (the_str [0x68, 0x69])]"

definition example_env :: "loadenv" where
  "example_env = \<lparr>e_blocks = \<lparr>blk_buf = (\<lambda>_. 0), blk_pt = (\<lambda>_. 0)\<rparr>, e_room = 2 ^ 31, e_sbroom = 2 ^ 31, e_bufsiz = 8192, e_L = stack_init, e_parse = (\<lambda>_. Inl Undef)\<rparr>"

lemma obf_example_ok: "all_protos (part_obf_ok False (\<lambda>_. 0)) obf_example"
proof -
  have f: "(PROTO_CHILD OR PROTO_VARARG) AND PROTO_CHILD \<noteq> 0" by (simp add: PROTO_CHILD_def PROTO_VARARG_def)
  have s: "sint (3 :: u32) = 3" by simp
  have m: "(0x3ff8000000000000 :: u64) \<noteq> mzero" by (simp add: mzero_def)
  have vi: "bcread_varinfo 1 [1, 0x61, 0] 1 = Inr 3" by (simp add: bcread_varinfo_def)
  have ins: "list_all ins_ok (reread_bc (\<lambda>_. 0) example_info)"
    by (simp add: reread_bc_def example_info_def ins_ok_def byte_n_def PROTO_CHILD_def PROTO_VARARG_def PROTO_ILOOP_def)
  have info: "info_dumpable False example_info ks" if "length ks \<le> 3" for ks
    using that m by (simp add: info_dumpable_def example_info_def proto_size_def sizeof_GCproto_def Let_def sizeli_def s vi [simplified])
  show ?thesis using f info ins by (simp add: obf_example_def part_obf_ok_def the_str_def LJ_MAX_STR_def) (simp add: example_info_def)
qed

text \<open>How long an obfuscated prototype can be.\<close>

lemma length_obf_header: "length (obf_header strip i ks) \<le> 34"
proof -
  have "length (lj_strfmt_wuleb128 v) \<le> 5" for v by (rule length_wuleb128)
  from this [of "word_of_nat (length (p_bc i) - 1) + ucast (p_framesize i)"] this [of "word_of_nat (length (p_kn i)) + ucast (p_framesize i)"]
    this [of "word_of_nat (length ks) + ucast (p_framesize i)"] this [of "word_of_nat (length (p_dbg i))"]
    this [of "p_firstline i"] this [of "p_numline i"] this [of 0]
  show ?thesis by (simp add: obf_header_def Let_def)
qed

lemma length_obf_body_le:
  "length (obf_body strip startins i ks) \<le> 34 + 2 * length (p_uv i) + 4 * (length (p_bc i) - 1) +
     length (concat (map knum_bytes (p_kn i))) + length (concat (map (\<lambda>k. kgc_bytes (scrambled k)) ks)) + length (p_dbg i)"
proof -
  have "length (concat (map bytes32 (encode_bc 0 (reread_bc startins i)))) = 4 * (length (p_bc i) - 1)"
    by (subst length_concat_const [where n = 4]) (auto simp: bytes32_def reread_bc_def)
  moreover have "length (concat (map bytes16 (p_uv i))) = 2 * length (p_uv i)"
    by (subst length_concat_const [where n = 2]) (auto simp: bytes16_def)
  ultimately show ?thesis using length_obf_header [of strip i ks] by (cases strip) (simp_all add: obf_body_def)
qed

lemma length_sized: "length (sized b) \<le> 5 + length b"
  using length_wuleb128 by (simp add: sized_def)

lemma obf_example_length: "length (obf_dump False (\<lambda>_. 0) obf_example) \<le> 300"
proof -
  let ?ks = "[KChild (Proto example_info []), KStr (the_str [0x68, 0x69])]"
  let ?b = "obf_body False (\<lambda>_. 0) example_info"
  have k: "length (knum_bytes x) \<le> 10" for x by (rule length_knum_bytes)
  have "length (concat (map (\<lambda>k. kgc_bytes (scrambled k)) ?ks)) \<le> 20"
    using length_wuleb128 [of 0] length_wuleb128 [of 7] by (simp add: kgc_bytes_def the_str_def BCDUMP_KGC_CHILD_def BCDUMP_KGC_STR_def)
  then have "length (sized (?b ?ks)) \<le> 80" "length (sized (?b [])) \<le> 60"
    using length_sized [of "?b ?ks"] length_sized [of "?b []"] k [of "0x3ff8000000000000"]
      length_obf_body_le [of False "\<lambda>_. 0" example_info ?ks] length_obf_body_le [of False "\<lambda>_. 0" example_info "[]"]
    by (simp_all add: example_info_def)
  moreover have "length (obf_start False example_info) \<le> 20"
    using length_wuleb128 [of 2] by (simp add: obf_start_def example_info_def the_str_def)
  ultimately show ?thesis by (simp add: obf_dump_def obf_example_def)
qed

theorem bcdec_deobfuscates_witness:
  "\<exists>out. DecodeByteCode example_env (\<lambda>_. 0) lj_buf_init (Some (0x58 # obf_dump False (\<lambda>_. 0) obf_example)) [0x61] = Inr (BCDUMP_HEAD1 # out) \<and>
     (\<forall>ls. fresh_reader 2 ls \<longrightarrow> delivers out ls \<longrightarrow>
        (\<exists>pt' ls'. lj_bcread ls = Inr (pt', ls') \<and> proto_reread True (\<lambda>_. 0) (the_str (ls_chunkarg ls)) obf_example pt'))"
proof -
  have "env_fits example_env (length (obf_dump False (\<lambda>_. 0) obf_example) + 1) (proto_count obf_example)"
    using obf_example_length unfolding env_fits_def
    by (simp add: example_env_def obf_example_def stack_init_ok LJ_MAX_BUF_def) (simp add: stack_init_def stack_defs Let_def)
  moreover have "total_room obf_example + 6 < LJ_MAX_BUF"
    by (simp add: obf_example_def example_info_def body_room_def fixed_room_def LJ_MAX_BUF_def the_str_def)
  moreover have "length (s_data (p_chunkname (p_info obf_example))) + 10 \<le> LJ_MAX_BUF" "length [0x61 :: u8] + 11 \<le> LJ_MAX_BUF"
    by (simp_all add: obf_example_def example_info_def the_str_def LJ_MAX_BUF_def)
  moreover have "proto_count obf_example = 2" by (simp add: obf_example_def)
  ultimately show ?thesis using bcdec_deobfuscates [OF obf_example_ok, of "[0x61]" example_env lj_buf_init "\<lambda>_. 0"] sbuf_ok_init by metis
qed

end
