(* ===== verification/BcdecErr.thy ===== *)
theory BcdecErr
  imports Bcdec
begin

text \<open>
  Errors of the decoder: what is not an obfuscated dump, and what that does to a run over a
  directory.
\<close>

section \<open>Standard dumps\<close>

lemma setup_esc:
  "lj_lex_setup_mod (lex_source ((0x1b # c) # cs)) =
     Inr ((lex_source cs)\<lparr>lx_in := c, lx_c := 27, lx_tok := 0, lx_lookahead := TK_eof, lx_linenumber := 1, lx_lastline := 1\<rparr>, True)"
  by (simp add: lj_lex_setup_mod_def lex_source_def lex_init_def lex_next_def lex_more_def setup_rest_def Let_def)

lemma header_mod_rejects:
  assumes "feed K (c # bs) ls" "0 \<le> ls_c ls" "c \<noteq> 0x41"
  shows "header_mod b ls = Inl (Throw (Err_offset 2938))"
proof -
  have K: "13 \<le> K" using assms(1) by (simp add: feed_def feeds_def)
  then obtain ls1 where ls1: "fill_if_short b 13 False ls = Inr ((), ls1)" "feed K (c # bs) ls1"
    "min 13 (length (c # bs)) \<le> length (ls_buf ls1)"
    using mod_window.want [OF assms(1) K] assms(2) by auto
  then obtain w where w: "ls_buf ls1 = c # w" by (cases "ls_buf ls1") (auto simp: feed_def feeds_def)
  show ?thesis unfolding header_mod_def
    using ls1(1) assms(3) by (simp add: sbind_def on_buf_def w slift_def bcread_error_mod_def)
qed

text \<open>What the load of a file leaves when the byte after the signature is not the one of the modified format.\<close>

lemma load_standard_dump:
  assumes env: "env_fits env (length bs + 2) 0" and c: "c \<noteq> 0x41"
  shows "luaL_loadfile env (Some (0x1b # c # bs)) path = Inr (LErr (Err_offset 2938))"
proof -
  have env': "env_fits env (length (c # bs) + 1) 0" using env by simp
  obtain w cs where chunks: "file_chunks (e_bufsiz env) \<lparr>fp_rest = 0x1b # c # bs, fp_eof = False\<rparr> = (0x1b # w) # cs"
    and ls: "\<forall>ls. lx_in ls = w \<and> lx_chunks ls = cs \<and> lx_sb ls = lj_buf_init \<and> 0 \<le> lx_c ls \<longrightarrow>
       delivers (c # bs) (reader_state env ((0x1b # w) # cs) (0x40 # path) ls) \<and>
       fresh_reader 0 (reader_state env ((0x1b # w) # cs) (0x40 # path) ls)"
    using reader_of_file [OF env'] by blast
  let ?ls = "reader_state env ((0x1b # w) # cs) (0x40 # path)
    ((lex_source cs)\<lparr>lx_in := w, lx_c := 27, lx_tok := 0, lx_lookahead := TK_eof, lx_linenumber := 1, lx_lastline := 1\<rparr>)"
  let ?r = "?ls\<lparr>ls_lastline := L_top (ls_L ?ls), ls_sb := lj_buf_reset (ls_sb ?ls)\<rparr>"
  have d: "delivers (c # bs) ?ls" using ls by (simp add: lex_source_def)
  then have "feed (length (c # bs) + 13) (c # bs) ?r" by (auto simp: delivers_def feed_def feeds_def lj_buf_reset_def)
  then have "header_mod b ?r = Inl (Throw (Err_offset 2938))" for b
    by (rule header_mod_rejects) (use c in \<open>simp_all add: reader_state_def\<close>)
  then have "lj_bcread_mod b ?ls = Inl (Throw (Err_offset 2938))" for b by (simp add: lj_bcread_mod_def)
  then show ?thesis
    by (simp add: luaL_loadfile_def luaL_loadfilex_def lua_loadx_def cpparser_def chunks setup_esc mode_forbids_def)
qed

section \<open>The run over a directory\<close>

lemma DecDirectory_append:
  assumes "\<forall>e \<in> set es. de_regular e \<longrightarrow> decode e = Inr (f e)"
  shows "DecDirectory decode (es @ rest) =
    (case DecDirectory decode rest of (outs, r) \<Rightarrow> (map (\<lambda>e. (de_path e, f e)) (filter de_regular es) @ outs, r))"
  using assms by (induction es) (auto split: prod.splits)

text \<open>
  C38: the decoder handles obfuscated dumps only. A file that cannot be opened and a file that is
  a standard dump end in the type error of \<^verbatim>\<open>lj_lib_checkfunc\<close>, because the status of the load
  is ignored, and nothing catches that error: of a directory only the files before it are decoded.
\<close>

theorem bcdec_stops:
  assumes "file = None \<or> (\<exists>c bs. file = Some (0x1b # c # bs) \<and> c \<noteq> 0x41 \<and> env_fits env (length bs + 2) 0)"
    and "\<forall>e \<in> set es. de_regular e \<longrightarrow> DecodeByteCode env startins tmpbuf (de_file e) (de_path e) = Inr (out e)"
  shows "DecDirectory (\<lambda>e. DecodeByteCode env startins tmpbuf (de_file e) (de_path e))
      (es @ \<lparr>de_path = path, de_regular = True, de_file = file\<rparr> # rest) =
    (map (\<lambda>e. (de_path e, out e)) (filter de_regular es), Some (Throw LJ_ERR_BADTYPE))"
proof -
  have "\<exists>e. luaL_loadfile env file path = Inr (LErr e)"
    using assms(1) load_standard_dump by (auto simp: luaL_loadfile_def luaL_loadfilex_def)
  then have "DecodeByteCode env startins tmpbuf file path = Inl (Throw LJ_ERR_BADTYPE)" by (auto simp: DecodeByteCode_def)
  then show ?thesis by (subst DecDirectory_append [OF assms(2)]) simp
qed

theorem bcdec_stops_witness:
  "DecDirectory (\<lambda>e. DecodeByteCode example_env (\<lambda>_. 0) lj_buf_init (de_file e) (de_path e))
     [\<lparr>de_path = [0x64], de_regular = False, de_file = None\<rparr>,
      \<lparr>de_path = [0x61], de_regular = True, de_file = Some [0x1b, 0x4c, 0x4a, 2]\<rparr>,
      \<lparr>de_path = [0x62], de_regular = True, de_file = Some (0x58 # obf_dump False (\<lambda>_. 0) obf_example)\<rparr>] =
   ([], Some (Throw LJ_ERR_BADTYPE))"
proof -
  have env: "env_fits example_env (length [0x4a, 2 :: u8] + 2) 0"
    unfolding env_fits_def
    by (simp add: example_env_def stack_init_ok LJ_MAX_BUF_def) (simp add: stack_init_def stack_defs Let_def)
  have "\<exists>c bs. Some [0x1b, 0x4c, 0x4a, 2 :: u8] = Some (0x1b # c # bs) \<and> c \<noteq> 0x41 \<and> env_fits example_env (length bs + 2) 0"
    using env by (intro exI [of _ "0x4c"] exI [of _ "[0x4a, 2]"]) simp
  then show ?thesis
    using bcdec_stops [of "Some [0x1b, 0x4c, 0x4a, 2]" example_env "[\<lparr>de_path = [0x64], de_regular = False, de_file = None\<rparr>]"
        "\<lambda>_. 0" lj_buf_init "\<lambda>_. []" "[0x61]"] by simp
qed

end
