(* ===== verification/ObfPlain.thy ===== *)
theory ObfPlain
  imports Bcdec
begin

text \<open>
  Constants of C types in obfuscated dumps: the modified reader allocates them through an address
  in the lexer state, at which nothing was written, so that nothing it ever returns has one.
\<close>

section \<open>Prototypes without constants of C types\<close>

fun no_cdata :: "proto \<Rightarrow> bool" and plain_kgc :: "kgc list \<Rightarrow> bool" where
  "no_cdata (Proto i ks) = plain_kgc ks"
| "plain_kgc [] = True"
| "plain_kgc (k # ks) = ((case k of KCdata _ _ \<Rightarrow> False | KChild pt \<Rightarrow> no_cdata pt | _ \<Rightarrow> True) \<and> plain_kgc ks)"

definition stack_plain :: "lexstate \<Rightarrow> bool" where
  "stack_plain ls \<longleftrightarrow> list_all no_cdata (ls_protos ls)"

text \<open>
  \<open>yields P m\<close>: with no such constant in the prototypes on the stack, \<open>m\<close> returns a result with \<open>P\<close>
  and puts none there.
\<close>

definition yields :: "('a \<Rightarrow> bool) \<Rightarrow> 'a lreader \<Rightarrow> bool" where
  "yields P m \<longleftrightarrow> (\<forall>ls x ls'. m ls = Inr (x, ls') \<longrightarrow> stack_plain ls \<longrightarrow> P x \<and> stack_plain ls')"

named_theorems yielding "readers that keep the stack free of constants of C types"

lemma yieldsI: "(\<And>ls x ls'. m ls = Inr (x, ls') \<Longrightarrow> stack_plain ls \<Longrightarrow> P x \<and> stack_plain ls') \<Longrightarrow> yields P m"
  by (simp add: yields_def)

lemma yieldsD: "yields P m \<Longrightarrow> m ls = Inr (x, ls') \<Longrightarrow> stack_plain ls \<Longrightarrow> P x \<and> stack_plain ls'"
  by (simp add: yields_def)

lemma yields_bind: "yields P m \<Longrightarrow> (\<And>x. P x \<Longrightarrow> yields Q (f x)) \<Longrightarrow> yields Q (sbind m f)"
  unfolding yields_def sbind_def by (auto simp: rbind_eq_Inr split: prod.splits) blast+

lemma yields_any [yielding]: "yields (\<lambda>_. True) m \<Longrightarrow> (\<And>x. yields Q (f x)) \<Longrightarrow> yields Q (sbind m f)"
  by (rule yields_bind)

lemma yields_ret [yielding]: "P x \<Longrightarrow> yields P (sret x)"
  by (simp add: yields_def)

lemma yields_lift [yielding]: "yields (\<lambda>_. True) (slift r)" "yields P (slift (Inl e))" "yields P (slift (bcread_error_mod n))"
  by (auto simp: yields_def slift_def rbind_eq_Inr bcread_error_mod_def)

lemma yields_if [yielding]: "yields P a \<Longrightarrow> yields P b \<Longrightarrow> yields P (if c then a else b)"
  by simp

lemma yields_Let [yielding]: "(\<And>x. yields P (f x)) \<Longrightarrow> yields P (Let v f)"
  by (simp add: Let_def)

lemma yields_case_prod [yielding]: "(\<And>x y. yields P (f x y)) \<Longrightarrow> yields P (case p of (x, y) \<Rightarrow> f x y)"
  by (cases p) simp

lemma yields_on_buf [yielding]: "yields (\<lambda>_. True) (on_buf r)"
  by (auto simp: yields_def on_buf_def rbind_eq_Inr stack_plain_def)

section \<open>The functions of the reader\<close>

lemma no_newgco: "newgco_in_lexer 4 ls = Inl Undef"
  by (simp add: newgco_in_lexer_def slift_def lex_words_def in_range_def)

lemma kcdata_mod_undef: "kcdata_mod tp ls = Inl Undef"
  by (simp add: kcdata_mod_def sbind_def no_newgco)

lemma yields_pop: "yields (\<lambda>k. plain_kgc [k]) pop_child_mod"
  by (auto simp: yields_def pop_child_mod_def bcread_error_mod_def stack_plain_def split: if_splits list.splits)

lemma yields_kgc_one: "yields (\<lambda>k. plain_kgc [k]) kgc_mod_one"
proof -
  have "yields (\<lambda>k. plain_kgc [k]) (kcdata_mod tp)" for tp by (simp add: yields_def kcdata_mod_undef)
  then show ?thesis unfolding kgc_mod_one_def by (intro yielding yields_pop) simp_all
qed

lemma yields_kgc: "yields plain_kgc (bcread_kgc_mod n)"
proof -
  have "yields plain_kgc (stimes n kgc_mod_one)"
  proof (induction n)
    case (Suc n)
    have "yields plain_kgc (sbind kgc_mod_one (\<lambda>x. sbind (stimes n kgc_mod_one) (\<lambda>xs. sret (x # xs))))"
      by (rule yields_bind [OF yields_kgc_one], rule yields_bind [OF Suc]) (simp add: yields_def)
    moreover have "stimes (Suc n) kgc_mod_one = sbind kgc_mod_one (\<lambda>x. sbind (stimes n kgc_mod_one) (\<lambda>xs. sret (x # xs)))"
      by (rule ext) simp
    ultimately show ?case by simp
  qed (simp add: yields_def)
  then show ?thesis by (simp add: bcread_kgc_mod_def)
qed

lemma yields_proto: "yields no_cdata (proto_mod b)"
proof (rule yieldsI)
  have kgc: "(\<And>ks. plain_kgc ks \<Longrightarrow> yields no_cdata (f ks)) \<Longrightarrow> yields no_cdata (sbind (bcread_kgc_mod n) f)" for f n
    by (rule yields_bind [OF yields_kgc])
  fix ls x ls' assume "proto_mod b ls = Inr (x, ls')" "stack_plain ls"
  then show "no_cdata x \<and> stack_plain ls'"
    unfolding proto_mod_def Let_def
    by (rule yieldsD [of _ "sbind m f" for m f, rotated]) (rule kgc | rule yielding | simp)+
qed

lemma fill_keep_protos: "fill_keep len ls = Inr ls' \<Longrightarrow> ls_protos ls' = ls_protos ls"
  by (auto simp: fill_keep_def Let_def rbind_eq_Inr split: if_splits)

lemma fill_append_protos: "fill_append len c ls = Inr ls' \<Longrightarrow> ls_protos ls' = ls_protos ls"
  by (auto simp: fill_append_def Let_def rbind_eq_Inr split: if_splits)

lemma fill_loop_protos: "fill_loop len need cs ls = Inr ls' \<Longrightarrow> ls_protos ls' = ls_protos ls"
proof (induction cs arbitrary: ls)
  case Nil
  then show ?case by (auto simp: rbind_eq_Inr bcread_error_def dest!: fill_keep_protos split: if_splits)
next
  case (Cons c cs)
  obtain ls1 where k: "fill_keep len ls = Inr ls1" using Cons.prems by (auto simp: rbind_eq_Inr)
  show ?case
  proof (cases "fst c = []")
    case True
    then show ?thesis using Cons.prems k fill_keep_protos [OF k] by (auto simp: bcread_error_def split: if_splits)
  next
    case False
    then obtain ls2 where a: "fill_append len c ls1 = Inr ls2"
      "(if needs len ls2 then fill_loop len need cs ls2 else Inr (ls2\<lparr>ls_chunks := cs\<rparr>)) = Inr ls'"
      using Cons.prems k by (auto simp: rbind_eq_Inr)
    then show ?thesis using Cons.IH [of ls2] fill_keep_protos [OF k] fill_append_protos [OF a(1)] by (auto split: if_splits)
  qed
qed

lemma yields_fill [yielding]: "yields (\<lambda>_. True) (fill_if_short b len a4)"
  by (auto simp: yields_def fill_if_short_def bcread_fill_mod_eq rbind_eq_Inr bcread_error_def map_sum_def stack_plain_def
      dest!: fill_loop_protos split: if_splits sum.splits)

lemma yields_header: "yields (\<lambda>_. True) (header_mod b)"
proof -
  have "yields (\<lambda>_. True) (\<lambda>ls. Inr ((), ls\<lparr>ls_level := x\<rparr>))" "yields (\<lambda>_. True) (\<lambda>ls. Inr ((), ls\<lparr>ls_chunkname := v\<rparr>))"
    "yields (\<lambda>_. True) (\<lambda>ls. rbind (str_mod (ls_chunkarg ls)) (\<lambda>s. Inr (s, ls)))" for x v
    by (auto simp: yields_def stack_plain_def rbind_eq_Inr)
  then show ?thesis unfolding header_mod_def by (intro yielding)
qed

lemma yields_push: "no_cdata pt \<Longrightarrow> yields (\<lambda>_. True) (push_proto pt)"
  by (auto simp: yields_def push_proto_def stack_plain_def split: prod.splits option.splits)

lemma round_mod_plain:
  assumes "round_mod b ls = Inr (go, ls')" "stack_plain ls"
  shows "stack_plain ls'"
proof (cases "ls_buf ls \<noteq> [] \<and> ls_buf ls ! 0 = 0")
  case True
  then have r: "sbind (on_buf get1) (\<lambda>_. sret False) ls = Inr (go, ls')" using assms(1) by (simp add: round_mod_def)
  have y: "yields (\<lambda>_. True) (sbind (on_buf get1) (\<lambda>_. sret False))" by (intro yielding) simp
  show ?thesis using yieldsD [OF y r assms(2)] by simp
next
  case False
  have push: "yields (\<lambda>_. True) (\<lambda>ls1. sbind (proto_mod b) (\<lambda>pt ls2.
      if length (ls_buf ls2) + n \<noteq> length (ls_buf ls1) then bcread_error_mod 2972
      else sbind (push_proto pt) (\<lambda>_. sret True) ls2) ls1)" for n
  proof (rule yieldsI)
    fix ls x ls'
    assume r: "sbind (proto_mod b) (\<lambda>pt ls2. if length (ls_buf ls2) + n \<noteq> length (ls_buf ls) then bcread_error_mod 2972
      else sbind (push_proto pt) (\<lambda>_. sret True) ls2) ls = Inr (x, ls')" and p: "stack_plain ls"
    then obtain pt ls2 ls3 where "proto_mod b ls = Inr (pt, ls2)" "push_proto pt ls2 = Inr ((), ls3)" "ls' = ls3"
      by (auto simp: sbind_def rbind_eq_Inr bcread_error_mod_def split: prod.splits if_splits)
    note pt = yieldsD [OF yields_proto this(1) p]
    then show "True \<and> stack_plain ls'" using yieldsD [OF yields_push \<open>push_proto pt ls2 = Inr ((), ls3)\<close>] \<open>ls' = ls3\<close> by simp
  qed
  have stop: "yields (\<lambda>_. True) (\<lambda>ls. if (2 * word_of_nat (length (ls_buf ls)) :: u32) \<le> 0 then Inr (False, ls) else bcread_error_mod 2972)"
    by (auto simp: yields_def bcread_error_mod_def)
  have y: "yields (\<lambda>_. True) (sbind (fill_if_short b 5 False) (\<lambda>_.
           sbind (on_buf lj_buf_ruleb128) (\<lambda>v15.
           if v15 = 0
           then (\<lambda>ls. if (2 * word_of_nat (length (ls_buf ls)) :: u32) \<le> 0 then Inr (False, ls) else bcread_error_mod 2972)
           else sbind (fill_if_short b (unat v15) True) (\<lambda>_ ls1.
                sbind (proto_mod b) (\<lambda>pt ls2.
                if length (ls_buf ls2) + unat v15 \<noteq> length (ls_buf ls1) then bcread_error_mod 2972
                else sbind (push_proto pt) (\<lambda>_. sret True) ls2) ls1))))"
    by (intro yielding push stop)
  show ?thesis using yieldsD [OF y assms(1) [unfolded round_mod_def if_not_P [OF False]] assms(2)] by simp
qed

lemma loop_mod_plain: "loop_mod b f ls = Inr ls' \<Longrightarrow> stack_plain ls \<Longrightarrow> stack_plain ls'"
proof (induction f arbitrary: ls)
  case (Suc f)
  then obtain go ls1 where "round_mod b ls = Inr (go, ls1)" "(if go then loop_mod b f ls1 else Inr ls1) = Inr ls'"
    by (auto simp: rbind_eq_Inr)
  then show ?case using Suc.IH round_mod_plain Suc.prems(2) by (auto split: if_splits)
qed simp

lemma bcread_mod_steps:
  assumes "lj_bcread_mod b ls = Inr (pt, ls')"
  shows "\<exists>ls1 ls2 k. header_mod b (ls\<lparr>ls_lastline := L_top (ls_L ls), ls_sb := lj_buf_reset (ls_sb ls)\<rparr>) = Inr ((), ls1) \<and>
    loop_mod b (Suc (avail ls1)) ls1 = Inr ls2 \<and> pop_child_mod ls2 = Inr (k, ls') \<and> k = KChild pt"
proof -
  obtain ls1 ls2 k ls3 where s: "header_mod b (ls\<lparr>ls_lastline := L_top (ls_L ls), ls_sb := lj_buf_reset (ls_sb ls)\<rparr>) = Inr ((), ls1)"
    "loop_mod b (Suc (avail ls1)) ls1 = Inr ls2" "pop_child_mod ls2 = Inr (k, ls3)"
    "(case k of KChild pt \<Rightarrow> Inr (pt, ls3) | _ \<Rightarrow> Inl Undef) = Inr (pt, ls')"
    using assms by (auto simp: lj_bcread_mod_def Let_def rbind_eq_Inr bcread_error_mod_def simp del: loop_mod.simps split: if_splits)
  then show ?thesis by (cases k) auto
qed

text \<open>
  C29: constants of C types. Each is allocated with the address \<^verbatim>\<open>ls + 4\<close> in place of the Lua state,
  so that the first thing the allocator reads is a word of the lexer state nobody has written.
  Whatever the input, a dump the modified reader reads to its end has no such constant, in none of
  its functions; where it meets one, its behaviour is undefined.
\<close>

theorem cdata_constants_crash:
  assumes "stack_plain ls"
  shows "(\<forall>pt ls'. lj_bcread_mod b ls = Inr (pt, ls') \<longrightarrow> no_cdata pt) \<and>
    (\<forall>tp bs. lj_buf_ruleb128 (ls_buf ls) = Inr (tp, bs) \<and> tp \<in> {2, 3, 4} \<longrightarrow> kgc_mod_one ls = Inl Undef)"
proof (intro conjI allI impI)
  fix pt ls' assume "lj_bcread_mod b ls = Inr (pt, ls')"
  then obtain ls1 ls2 k where h: "header_mod b (ls\<lparr>ls_lastline := L_top (ls_L ls), ls_sb := lj_buf_reset (ls_sb ls)\<rparr>) = Inr ((), ls1)"
    and l: "loop_mod b (Suc (avail ls1)) ls1 = Inr ls2" and p: "pop_child_mod ls2 = Inr (k, ls')" "k = KChild pt"
    using bcread_mod_steps by blast
  have "stack_plain (ls\<lparr>ls_lastline := L_top (ls_L ls), ls_sb := lj_buf_reset (ls_sb ls)\<rparr>)" using assms by (simp add: stack_plain_def)
  then have "stack_plain ls1" using yieldsD [OF yields_header h] by blast
  then have "stack_plain ls2" by (rule loop_mod_plain [OF l])
  then have "plain_kgc [k]" using yieldsD [OF yields_pop p(1)] by blast
  then show "no_cdata pt" using p(2) by simp
next
  fix tp bs assume a: "lj_buf_ruleb128 (ls_buf ls) = Inr (tp, bs) \<and> tp \<in> {2, 3, 4}"
  then have "\<not> 4 < tp" "tp \<noteq> 1" "tp \<noteq> 0" by auto
  then show "kgc_mod_one ls = Inl Undef" using a by (simp add: kgc_mod_one_def sbind_def on_buf_def kcdata_mod_undef)
qed

text \<open>On the example of a dump that is read to its end, and on a 64-bit integer.\<close>

theorem cdata_constants_crash_witness:
  "(\<forall>b. \<exists>pt ls'. lj_bcread_mod b (lex_start (obf_dump False (\<lambda>_. 0) obf_example) []) = Inr (pt, ls') \<and> no_cdata pt) \<and>
   kgc_mod_one (lex_start [3, 1, 1] []) = Inl Undef"
proof -
  let ?d = "obf_dump False (\<lambda>_. 0) obf_example"
  have plain: "stack_plain (lex_start bs [])" for bs by (simp add: stack_plain_def lex_start_def)
  have "name_ok False (p_info obf_example) (lex_start ?d [])"
    by (simp add: name_ok_def obf_example_def example_info_def the_str_def LJ_MAX_STR_def)
  moreover have "fresh_reader (proto_count obf_example) (lex_start ?d [])"
    by (simp add: fresh_reader_def lex_start_def stack_init_ok obf_example_def) (simp add: stack_init_def stack_defs Let_def)
  moreover have "delivers ?d (lex_start ?d [])"
    using obf_example_length by (simp add: delivers_def lex_start_def LJ_MAX_BUF_def)
  ultimately have "\<exists>pt ls'. lj_bcread_mod b (lex_start ?d []) = Inr (pt, ls')" for b
    using lj_bcread_mod_dump [OF obf_example_ok] by blast
  then have "\<exists>pt ls'. lj_bcread_mod b (lex_start ?d []) = Inr (pt, ls') \<and> no_cdata pt" for b
    using cdata_constants_crash [OF plain] by blast
  moreover have "kgc_mod_one (lex_start [3, 1, 1] []) = Inl Undef"
    using cdata_constants_crash [OF plain [of "[3, 1, 1]"], THEN conjunct2, rule_format, of 3 "[1, 1]"] by (simp add: lex_start_def)
  ultimately show ?thesis by blast
qed

end
