(* ===== verification/LexMoves.thy ===== *)
theory LexMoves
  imports Lex BufCorrect
begin

text \<open>
  What a scanner function does to the lexer state, as a sequence of moves: reading a
  character, saving one to the buffer, emptying the buffer, counting a line.  Every function
  of the scanner is shown to make moves only; what every move keeps or never increases then
  holds of all of them.
\<close>

section \<open>Moves\<close>

inductive lex_move :: "LexState \<Rightarrow> LexState \<Rightarrow> bool" where
  read: "lex_move ls (lex_next ls)"
| save: "lex_save ls c = Inr ls' \<Longrightarrow> lex_move ls ls'"
| reset: "lex_move ls (lex_reset ls)"
| line: "lex_move ls (ls\<lparr>lx_linenumber := lx_linenumber ls + 1\<rparr>)"

abbreviation lex_moves :: "LexState \<Rightarrow> LexState \<Rightarrow> bool" where
  "lex_moves \<equiv> lex_move\<^sup>*\<^sup>*"

named_theorems moves "the moves of the scanner functions"

lemma moves_read [moves]: "lex_moves ls (lex_next ls)"
  by (rule r_into_rtranclp) (rule lex_move.read)

lemma moves_save [moves]: "lex_save ls c = Inr ls' \<Longrightarrow> lex_moves ls ls'"
  by (rule r_into_rtranclp) (rule lex_move.save)

lemma moves_reset [moves]: "lex_moves ls (lex_reset ls)"
  by (rule r_into_rtranclp) (rule lex_move.reset)

lemma moves_line [moves]: "lex_moves ls (ls\<lparr>lx_linenumber := lx_linenumber ls + 1\<rparr>)"
  by (rule r_into_rtranclp) (rule lex_move.line)

lemma moves_trans [trans]: "lex_moves a b \<Longrightarrow> lex_moves b c \<Longrightarrow> lex_moves a c"
  by (rule rtranclp_trans)

lemma moves_read_then: "lex_moves (lex_next ls) ls' \<Longrightarrow> lex_moves ls ls'"
  by (rule moves_trans [OF moves_read])

lemma moves_reset_then: "lex_moves (lex_reset ls) ls' \<Longrightarrow> lex_moves ls ls'"
  by (rule moves_trans [OF moves_reset])

lemma moves_savenext [moves]: "lex_savenext ls = Inr ls' \<Longrightarrow> lex_moves ls ls'"
  by (auto simp: lex_savenext_def rbind_eq_Inr intro: moves_trans [OF moves_save moves_read])

lemma moves_newline [moves]:
  assumes "lex_newline ls = Inr ls'"
  shows "lex_moves ls ls'"
proof -
  obtain l where l: "l = lex_next ls \<or> l = lex_next (lex_next ls)" "ls' = l\<lparr>lx_linenumber := lx_linenumber l + 1\<rparr>"
    using assms by (auto simp: lex_newline_def Let_def split: if_splits)
  have "lex_moves ls l" using l(1) moves_read by (auto intro: moves_read_then)
  also have "lex_moves l ls'" unfolding l(2) by (rule moves_line)
  finally show ?thesis .
qed

lemma moves_first_newline [moves]: "first_newline ls = Inr ls' \<Longrightarrow> lex_moves ls ls'"
  by (auto simp: first_newline_def moves_newline split: if_splits)

section \<open>The loops\<close>

lemma moves_number_loop [moves]: "number_loop ls c xp = Inr ls' \<Longrightarrow> lex_moves ls ls'"
proof (induction ls c xp arbitrary: ls' rule: number_loop.induct)
  case (1 ls c xp)
  show ?case
  proof (cases "in_number ls c xp")
    case True
    then obtain l where l: "lex_savenext ls = Inr l" "number_loop l (lx_c ls) xp = Inr ls'"
      using 1(2) by (auto simp: number_loop.simps [of ls] rbind_eq_Inr Let_def)
    show ?thesis using 1(1) [OF True refl l] moves_savenext [OF l(1)] by simp
  qed (use 1(2) in \<open>simp add: number_loop.simps [of ls]\<close>)
qed

lemma moves_skipeq_loop: "skipeq_loop ls n = Inr (ls', m) \<Longrightarrow> lex_moves ls ls' \<and> n \<le> m"
proof (induction ls n arbitrary: ls' m rule: skipeq_loop.induct)
  case (1 ls n)
  obtain l where l: "lex_savenext ls = Inr l" using 1(2) by (auto simp: rbind_eq_Inr skipeq_loop.simps [of ls])
  then show ?case
    using 1(1) [OF l] 1(2) moves_savenext [OF l] by (fastforce simp: skipeq_loop.simps [of ls] split: if_splits)
qed

lemma moves_skipeq [moves]: "lex_skipeq ls = Inr (ls', m) \<Longrightarrow> lex_moves ls ls'"
  by (auto simp: lex_skipeq_def Let_def rbind_eq_Inr dest: moves_skipeq_loop)

lemma moves_longstring_loop [moves]: "longstring_loop ls keep sep = Inr ls' \<Longrightarrow> lex_moves ls ls'"
proof (induction ls keep sep arbitrary: ls' rule: longstring_loop.induct)
  case (1 ls keep sep)
  consider "lx_c ls = LEX_EOF" | "lx_c ls = 0x5d" "lx_c ls \<noteq> LEX_EOF"
    | "lex_iseol ls" "lx_c ls \<noteq> LEX_EOF" "lx_c ls \<noteq> 0x5d"
    | "\<not> lex_iseol ls" "lx_c ls \<noteq> LEX_EOF" "lx_c ls \<noteq> 0x5d" by blast
  then show ?case
  proof cases
    case 1
    then show ?thesis using "1.prems" by (simp add: longstring_loop.simps [of ls])
  next
    case 2
    then obtain l n where l: "lex_skipeq ls = Inr (l, n)"
        "(if n = sep then lex_savenext l else longstring_loop l keep sep) = Inr ls'"
      using "1.prems" by (auto simp: longstring_loop.simps [of ls] rbind_eq_Inr)
    have "lex_moves l ls'" using l(2) "1.IH"(1) [OF 2(2,1) l(1) refl] moves_savenext by (auto split: if_splits)
    then show ?thesis using moves_skipeq [OF l(1)] by (rule moves_trans [rotated])
  next
    case 3
    then obtain l1 l where l: "lex_save ls 0x0a = Inr l1" "lex_newline l1 = Inr l"
        "longstring_loop (if keep then l else lex_reset l) keep sep = Inr ls'"
      using "1.prems" by (auto simp: longstring_loop.simps [of ls] rbind_eq_Inr)
    have "lex_moves l ls'" using "1.IH"(2) [OF 3(2,3,1) l(1,2,3)] by (auto intro: moves_reset_then split: if_splits)
    then show ?thesis using moves_trans [OF moves_save [OF l(1)] moves_newline [OF l(2)]] by (rule moves_trans [rotated])
  next
    case 4
    then obtain l where l: "lex_savenext ls = Inr l" "longstring_loop l keep sep = Inr ls'"
      using "1.prems" by (auto simp: longstring_loop.simps [of ls] rbind_eq_Inr)
    then show ?thesis using moves_trans [OF moves_savenext [OF l(1)] "1.IH"(3) [OF 4(2,3,1) l]] by simp
  qed
qed

lemma moves_longstring [moves]: "lex_longstring ls keep sep = Inr (ls', v) \<Longrightarrow> lex_moves ls ls'"
  by (auto simp: lex_longstring_def Let_def rbind_eq_Inr split: if_splits
      intro: moves_trans [OF moves_savenext moves_trans [OF moves_first_newline moves_longstring_loop]])

lemma moves_unicode_loop [moves]: "unicode_loop ls c = Inr (ls', d) \<Longrightarrow> lex_moves ls ls'"
proof (induction ls c arbitrary: ls' d rule: unicode_loop.induct)
  case (1 ls c)
  show ?case
  proof (cases "xdigit ls")
    case None
    then show ?thesis using 1(2) by (simp add: unicode_loop.simps [of ls])
  next
    case (Some x)
    show ?thesis
      using 1(1) [OF Some refl _ refl] 1(2) Some moves_read [of ls]
      by (fastforce simp: unicode_loop.simps [of ls] Let_def split: if_splits intro: moves_read_then)
  qed
qed

lemma moves_esc_hex [moves]: "esc_hex ls = Inr (ls', c) \<Longrightarrow> lex_moves ls ls'"
  by (auto simp: esc_hex_def Let_def split: option.splits intro: moves_trans [OF moves_read moves_read])

lemma moves_esc_utf8 [moves]: "esc_utf8 ls c = Inr (ls', d) \<Longrightarrow> lex_moves ls ls'"
  by (auto simp: esc_utf8_def rbind_eq_Inr split: if_splits dest!: moves_save intro: moves_trans)

lemma moves_esc_unicode [moves]: "esc_unicode ls = Inr (ls', c) \<Longrightarrow> lex_moves ls ls'"
  using moves_read_then [OF moves_read_then, of ls ls']
  by (auto simp: esc_unicode_def Let_def rbind_eq_Inr split: if_splits dest: moves_trans [OF moves_unicode_loop moves_esc_utf8])

lemma moves_skip_white [moves]: "skip_white ls = Inr ls' \<Longrightarrow> lex_moves ls ls'"
proof (induction ls arbitrary: ls' rule: skip_white.induct)
  case (1 ls)
  show ?case
  proof (cases "lj_char_isspace (lx_c ls) \<and> lex_iseol ls")
    case True
    then obtain l where l: "lex_newline ls = Inr l" "skip_white l = Inr ls'"
      using 1(3) by (auto simp: skip_white.simps [of ls] rbind_eq_Inr)
    then show ?thesis using 1(1) [of l] True moves_trans [OF moves_newline] by blast
  next
    case False
    then show ?thesis using 1(2,3) moves_read_then
      by (fastforce simp: skip_white.simps [of ls] split: if_splits)
  qed
qed

lemma moves_esc_decimal [moves]: "esc_decimal ls c = Inr ls' \<Longrightarrow> lex_moves ls ls'"
  using moves_trans [OF moves_read moves_read] moves_trans [OF moves_read moves_trans [OF moves_read moves_read]]
  by (auto simp: esc_decimal_def Let_def rbind_eq_Inr split: if_splits dest!: moves_save intro: moves_trans moves_read)

lemma moves_escape [moves]:
  assumes "lex_escape ls = Inr ls'"
  shows "lex_moves ls ls'"
proof -
  let ?l = "lex_next ls"
  have sv: "lex_moves l l'" if "rbind (lex_save l c) (\<lambda>ls. Inr (lex_next ls)) = Inr l'" for l l' c
    using that by (auto simp: rbind_eq_Inr intro: moves_trans [OF moves_save moves_read])
  have nl: "lex_moves l l'" if "rbind (lex_save l c) lex_newline = Inr l'" for l l' c
    using that by (auto simp: rbind_eq_Inr intro: moves_trans [OF moves_save moves_newline])
  have pr: "lex_moves l l'" if "rbind m (\<lambda>(ls, c). rbind (lex_save ls c) (\<lambda>ls. Inr (lex_next ls))) = Inr l'"
    and "\<And>x c. m = Inr (x, c) \<Longrightarrow> lex_moves l x" for m l l'
    using that sv by (auto simp: rbind_eq_Inr [of m] split: prod.splits intro: moves_trans)
  have "lex_moves ?l ls'"
    using assms unfolding lex_escape_def Let_def
    by (auto split: option.splits if_splits
        dest: sv nl pr [OF _ moves_esc_hex] pr [OF _ moves_esc_unicode] moves_skip_white moves_esc_decimal intro: moves_read_then)
  then show ?thesis by (rule moves_read_then)
qed

lemma moves_string_loop [moves]: "string_loop ls delim = Inr ls' \<Longrightarrow> lex_moves ls ls'"
proof (induction ls delim arbitrary: ls' rule: string_loop.induct)
  case (1 ls delim)
  then show ?case
    by (subst (asm) (3) string_loop.simps)
      (auto simp: rbind_eq_Inr split: if_splits dest: moves_escape moves_savenext intro: moves_trans)
qed

lemma moves_string [moves]: "lex_string ls = Inr (ls', v) \<Longrightarrow> lex_moves ls ls'"
  by (auto simp: lex_string_def Let_def rbind_eq_Inr
      intro: moves_trans [OF moves_savenext moves_trans [OF moves_string_loop moves_savenext]])

lemma moves_name_loop [moves]: "name_loop ls = Inr ls' \<Longrightarrow> lex_moves ls ls'"
proof (induction ls arbitrary: ls' rule: name_loop.induct)
  case (1 ls)
  obtain l where l: "lex_savenext ls = Inr l" "if lj_char_isident (lx_c l) then name_loop l = Inr ls' else ls' = l"
    using 1(2) by (auto simp: name_loop.simps [of ls] rbind_eq_Inr split: if_splits)
  then show ?case using 1(1) [OF l(1)] moves_savenext [OF l(1)] by (auto split: if_splits)
qed

lemma moves_comment_loop [moves]: "lex_moves ls (comment_loop ls)"
proof (induction ls rule: comment_loop.induct)
  case (1 ls)
  then show ?case by (subst comment_loop.simps) (auto intro: moves_read_then)
qed

lemma moves_number [moves]:
  assumes "lex_number ls = Inr (ls', v)"
  shows "lex_moves ls ls'"
proof -
  obtain l xp l1 l2 where l: "lex_savenext ls = Inr l \<or> l = ls" "number_loop l (lx_c ls) xp = Inr l1" "lex_save l1 0 = Inr l2"
    "l2 = ls'"
    using assms by (auto simp: lex_number_def Let_def rbind_eq_Inr split: if_splits scanval.splits)
  have "lex_moves ls l" using l(1) moves_savenext by blast
  also have "lex_moves l l1" using l(2) by (rule moves_number_loop)
  also have "lex_moves l1 ls'" using l(3,4) moves_save by blast
  finally show ?thesis .
qed

section \<open>The scanner\<close>

lemma moves_scan_comment [moves]: "scan_comment ls = Inr (ls', r) \<Longrightarrow> lex_moves ls ls'"
proof -
  assume a: "scan_comment ls = Inr (ls', r)"
  let ?l = "lex_next ls"
  have "lex_moves ?l ls'"
  proof (cases "lx_c ?l = 0x5b")
    case True
    then obtain l sep where l: "lex_skipeq ?l = Inr (l, sep)"
      "(if 0 \<le> sep then rbind (lex_longstring (lex_reset l) False sep) (\<lambda>(ls, _). Inr (lex_reset ls, None))
        else Inr (comment_loop (lex_reset l), None)) = Inr (ls', r)"
      using a by (auto simp: scan_comment_def Let_def rbind_eq_Inr)
    have "lex_moves l ls'" using l(2)
      by (auto simp: rbind_eq_Inr split: if_splits
          intro: moves_reset_then moves_trans [OF moves_longstring moves_reset] moves_comment_loop)
    then show ?thesis using moves_skipeq [OF l(1)] by (rule moves_trans [rotated])
  next
    case False
    then show ?thesis using a by (auto simp: scan_comment_def Let_def intro: moves_comment_loop)
  qed
  then show ?thesis by (rule moves_read_then)
qed

lemma moves_valued: "scan_valued t m = Inr (ls', r) \<Longrightarrow> (\<And>v. m = Inr (ls', v) \<Longrightarrow> lex_moves ls ls') \<Longrightarrow> lex_moves ls ls'"
  by (auto simp: scan_valued_def rbind_eq_Inr)

lemma moves_tok: "tok1 ls t = Inr (ls', r) \<Longrightarrow> lex_moves ls ls'" "tok2 ls c t = Inr (ls', r) \<Longrightarrow> lex_moves ls ls'"
  using moves_read [of ls] moves_trans [OF moves_read moves_read, of ls]
  by (auto simp: tok1_def tok2_def Let_def split: if_splits)

lemma moves_scan_step [moves]:
  assumes "scan_step ls = Inr (ls', r)"
  shows "lex_moves ls ls'"
proof -
  have v: "lex_moves l ls'" if "scan_valued t (lex_number l) = Inr (ls', r) \<or> scan_valued t (lex_string l) = Inr (ls', r) \<or>
      scan_valued t (lex_longstring l keep sep) = Inr (ls', r)" for l t keep sep
    using that moves_number moves_string moves_longstring by (auto simp: scan_valued_def rbind_eq_Inr)
  have n: "lex_moves l ls'" if "scan_name l = Inr (ls', r)" for l
    using that moves_name_loop by (auto simp: scan_name_def rbind_eq_Inr Let_def)
  have nl: "lex_moves l ls'" if "rbind (lex_newline l) (\<lambda>ls. Inr (ls, None)) = Inr (ls', r)" for l
    using that moves_newline by (auto simp: rbind_eq_Inr)
  have br: "lex_moves l ls'"
    if b: "rbind (lex_skipeq l) (\<lambda>(ls, sep).
           if 0 \<le> sep then scan_valued TK_string (lex_longstring ls True sep)
           else if sep = - 1 then tok1 ls 0x5b
           else lj_lex_error ls TK_string LJ_ERR_XLDELIM) = Inr (ls', r)" for l
  proof -
    obtain x sep where x: "lex_skipeq l = Inr (x, sep)" using b by (auto simp: rbind_eq_Inr)
    have "lex_moves x ls'" using b x by (auto split: if_splits dest: v [OF disjI2 [OF disjI2]] moves_tok)
    then show ?thesis using moves_skipeq [OF x] by (rule moves_trans [rotated])
  qed
  have dot: "lex_moves l ls'"
    if b: "rbind (lex_savenext l) (\<lambda>ls.
           if lx_c ls = 0x2e
           then if lx_c (lex_next ls) = 0x2e then tok1 (lex_next (lex_next ls)) TK_dots else tok1 (lex_next ls) TK_concat
           else if \<not> lj_char_isdigit (lx_c ls) then tok1 ls 0x2e
           else scan_valued TK_number (lex_number ls)) = Inr (ls', r)" for l
  proof -
    obtain x where x: "lex_savenext l = Inr x" using b by (auto simp: rbind_eq_Inr)
    have "lex_moves x ls'" using b x
      by (auto split: if_splits simp: Let_def dest: v [OF disjI1] moves_tok intro: moves_read_then)
    then show ?thesis using moves_savenext [OF x] by (rule moves_trans [rotated])
  qed
  show ?thesis
    using assms unfolding scan_step_def Let_def
    by (simp split: if_splits)
      (auto dest: v [OF disjI1] v [OF disjI2 [OF disjI1]] n nl br dot moves_tok moves_scan_comment
        intro: moves_read_then moves_read)
qed

lemma moves_scan_loop [moves]: "scan_loop ls = Inr (ls', t) \<Longrightarrow> lex_moves ls ls'"
proof (induction ls arbitrary: ls' t rule: scan_loop.induct)
  case (1 ls)
  obtain l r where l: "scan_step ls = Inr (l, r)" "(case r of None \<Rightarrow> scan_loop l | Some t \<Rightarrow> Inr (l, t)) = Inr (ls', t)"
    using 1(2) by (auto simp: scan_loop.simps [of ls] rbind_eq_Inr)
  have "lex_moves l ls'"
    using l(2) 1(1) [OF l(1) refl] by (cases r) auto
  then show ?case using moves_scan_step [OF l(1)] by (rule moves_trans [rotated])
qed

lemma moves_scan [moves]: "lex_scan ls = Inr (ls', t) \<Longrightarrow> lex_moves ls ls'"
  unfolding lex_scan_def by (rule moves_reset_then) (rule moves_scan_loop)

section \<open>What moves keep\<close>

text \<open>The current character is a byte or the end marker, and the buffer is well-formed.\<close>

definition lex_ok :: "LexState \<Rightarrow> bool" where
  "lex_ok ls \<longleftrightarrow> (lx_c ls = LEX_EOF \<or> 0 \<le> lx_c ls \<and> lx_c ls < 256) \<and> sbuf_ok (lx_sb ls)"

lemma uint_byte: "0 \<le> uint (c :: u8)" "uint (c :: u8) < 256"
  using uint_bounded [of c] by simp_all

lemma lex_next_sb [simp]: "lx_sb (lex_next ls) = lx_sb ls"
  by (auto simp: lex_next_def lex_more_def split: list.splits)

lemma lex_next_c: "lx_c (lex_next ls) = LEX_EOF \<or> 0 \<le> lx_c (lex_next ls) \<and> lx_c (lex_next ls) < 256"
  by (auto simp: lex_next_def lex_more_def uint_byte split: list.splits)

lemma appends_putb: "appends 1 [b] (\<lambda>sb. lj_buf_putb sb b)"
  by (rule appends_cong [OF appends_more_put]) (simp_all add: lj_buf_putb_def)

lemma lex_save_buf:
  assumes "lex_save ls c = Inr ls'" "sbuf_ok (lx_sb ls)"
  shows "sbuf_ok (lx_sb ls')" "sb_data (lx_sb ls') = sb_data (lx_sb ls) @ [word_of_int c]"
  using assms appends_Inr [OF appends_putb, of "lx_sb ls"] by (auto simp: lex_save_def rbind_eq_Inr)

lemma move_ok: "lex_move ls ls' \<Longrightarrow> lex_ok ls \<Longrightarrow> lex_ok ls'"
proof (induction rule: lex_move.induct)
  case (read ls)
  then show ?case using lex_next_c [of ls] by (simp add: lex_ok_def)
next
  case (save ls c ls')
  then show ?case using lex_save_buf [OF save(1)] by (simp add: lex_ok_def lex_save_fields)
qed (simp_all add: lex_ok_def lex_reset_def sbuf_ok_reset)

lemma moves_ok: "lex_moves ls ls' \<Longrightarrow> lex_ok ls \<Longrightarrow> lex_ok ls'"
  by (induction rule: rtranclp_induct) (auto intro: move_ok)

lemma move_left: "lex_move ls ls' \<Longrightarrow> left ls' \<le> left ls"
  by (induction rule: lex_move.induct) (simp_all add: left_next_le lex_save_fields, simp add: left_def)

lemma moves_left: "lex_moves ls ls' \<Longrightarrow> left ls' \<le> left ls"
  by (induction rule: rtranclp_induct) (auto dest: move_left)

section \<open>Progress\<close>

lemma left_number_loop:
  assumes "number_loop ls c xp = Inr ls'" "in_number ls c xp"
  shows "left ls' < left ls"
proof -
  obtain l where l: "lex_savenext ls = Inr l" "number_loop l (lx_c ls) xp = Inr ls'"
    using assms by (auto simp: number_loop.simps [of ls] rbind_eq_Inr Let_def)
  have "left l < left ls" using l(1) in_number_not_eof [OF assms(2)] by (rule left_savenext [OF _ disjI1])
  then show ?thesis using moves_left [OF moves_number_loop [OF l(2)]] by simp
qed

lemma left_number:
  assumes "lex_number ls = Inr (ls', v)" "lj_char_isident (lx_c ls)"
  shows "left ls' < left ls"
proof -
  obtain l xp l1 l2 where l: "if lx_c ls = 0x30 then lex_savenext ls = Inr l else l = ls"
    "number_loop l (lx_c ls) xp = Inr l1" "lex_save l1 0 = Inr ls'"
    using assms(1) by (auto simp: lex_number_def Let_def rbind_eq_Inr split: if_splits scanval.splits)
  have e: "left ls' = left l1" using l(3) by (rule lex_save_fields)
  show ?thesis
  proof (cases "lx_c ls = 0x30")
    case True
    then have "left l < left ls" using l(1) isident_not_eof [OF assms(2)] left_savenext by auto
    then show ?thesis using moves_left [OF moves_number_loop [OF l(2)]] e by simp
  next
    case False
    then show ?thesis using l(1) left_number_loop [OF l(2)] assms(2) e by (simp add: in_number_def)
  qed
qed

lemma left_name_loop: "name_loop ls = Inr ls' \<Longrightarrow> lj_char_isident (lx_c ls) \<Longrightarrow> left ls' < left ls"
proof (induction ls arbitrary: ls' rule: name_loop.induct)
  case (1 ls)
  obtain l where l: "lex_savenext ls = Inr l" "if lj_char_isident (lx_c l) then name_loop l = Inr ls' else ls' = l"
    using 1(2) by (auto simp: name_loop.simps [of ls] rbind_eq_Inr split: if_splits)
  have "left l < left ls" using l(1) isident_not_eof [OF 1(3)] by (rule left_savenext [OF _ disjI1])
  then show ?case using l(2) 1(1) [OF l(1)] by (auto split: if_splits)
qed

lemma lex_ok_class: "lex_ok ls \<Longrightarrow> class_spec (lx_c ls)"
  by (auto simp: lex_ok_def LEX_EOF_def intro!: class_spec_eq)

lemma isdigit_isident: "lex_ok ls \<Longrightarrow> lj_char_isdigit (lx_c ls) \<Longrightarrow> lj_char_isident (lx_c ls)"
  using lex_ok_class [of ls] by (simp add: class_spec_def Let_def)

text \<open>Every token but the end of input takes something off the input.\<close>

lemma scan_step_progress:
  assumes "scan_step ls = Inr (ls', Some (tok, v))" "lx_c ls \<noteq> LEX_EOF" "lex_ok ls"
  shows "left ls' < left ls"
proof -
  have lt: "left ls' < left ls" if "lex_moves (lex_next ls) ls'"
    using left_next [of ls] assms(2) moves_left [OF that] by simp
  have ls: "left ls' < left ls" if "lex_savenext ls = Inr l" "lex_moves l ls'" for l
    using left_savenext [OF that(1)] assms(2) moves_left [OF that(2)] by simp
  have nm: "left ls' < left ls" if "scan_name ls = Inr (ls', Some (tok, v))" "lj_char_isident (lx_c ls)"
    using that left_name_loop by (auto simp: scan_name_def rbind_eq_Inr Let_def)
  have nb: "left ls' < left ls" if "scan_valued t (lex_number ls) = Inr (ls', Some (tok, v))" "lj_char_isdigit (lx_c ls)" for t
    using that left_number isdigit_isident [OF assms(3)] by (auto simp: scan_valued_def rbind_eq_Inr)
  have st: "left ls' < left ls" if "scan_valued t (lex_string ls) = Inr (ls', Some (tok, v))" for t
    using that ls moves_trans [OF moves_string_loop moves_savenext] by (auto simp: scan_valued_def rbind_eq_Inr lex_string_def Let_def)
  have br: "left ls' < left ls" if "lex_skipeq ls = Inr (l, sep)" "lex_moves l ls'" for l sep
    using left_skipeq [OF that(1) assms(2)] moves_left [OF that(2)] by simp
  have sk: "left ls' < left ls"
    if b: "rbind (lex_skipeq ls) (\<lambda>(ls, sep).
           if 0 \<le> sep then scan_valued TK_string (lex_longstring ls True sep)
           else if sep = - 1 then tok1 ls 0x5b
           else lj_lex_error ls TK_string LJ_ERR_XLDELIM) = Inr (ls', Some (tok, v))"
  proof -
    obtain x sep where x: "lex_skipeq ls = Inr (x, sep)" using b by (auto simp: rbind_eq_Inr)
    have "lex_moves x ls'" using b x
      by (auto split: if_splits simp: scan_valued_def rbind_eq_Inr dest: moves_tok moves_longstring)
    then show ?thesis by (rule br [OF x])
  qed
  have dot: "left ls' < left ls"
    if b: "rbind (lex_savenext ls) (\<lambda>ls.
           if lx_c ls = 0x2e
           then if lx_c (lex_next ls) = 0x2e then tok1 (lex_next (lex_next ls)) TK_dots else tok1 (lex_next ls) TK_concat
           else if \<not> lj_char_isdigit (lx_c ls) then tok1 ls 0x2e
           else scan_valued TK_number (lex_number ls)) = Inr (ls', Some (tok, v))"
  proof -
    obtain x where x: "lex_savenext ls = Inr x" using b by (auto simp: rbind_eq_Inr)
    have "lex_moves x ls'" using b x
      by (auto split: if_splits simp: scan_valued_def rbind_eq_Inr dest: moves_tok moves_number intro: moves_read_then)
    then show ?thesis by (rule ls [OF x])
  qed
  have t2: "lex_moves (lex_next ls) ls'" if "tok2 ls c t = Inr (ls', Some (tok, v))" for c t
    using that moves_read by (auto simp: tok2_def tok1_def Let_def split: if_splits)
  show ?thesis
    using assms(1,2) unfolding scan_step_def Let_def
    by (simp split: if_splits)
      (auto simp: rbind_eq_Inr [of "lex_newline ls"] dest: nm nb st sk dot lt [OF t2] lt [OF moves_tok(1)] lt [OF moves_scan_comment] intro: lt)
qed

lemma scan_loop_progress: "scan_loop ls = Inr (ls', tok, v) \<Longrightarrow> lex_ok ls \<Longrightarrow> tok = TK_eof \<or> left ls' < left ls"
proof (induction ls arbitrary: ls' tok v rule: scan_loop.induct)
  case (1 ls)
  obtain l r where l: "scan_step ls = Inr (l, r)" "(case r of None \<Rightarrow> scan_loop l | Some t \<Rightarrow> Inr (l, t)) = Inr (ls', tok, v)"
    using 1(2) by (auto simp: scan_loop.simps [of ls] rbind_eq_Inr)
  show ?case
  proof (cases r)
    case None
    then show ?thesis using l 1(1) [OF l(1) refl] 1(3) left_scan_step [of ls l] moves_ok [OF moves_scan_step [OF l(1)]] by fastforce
  next
    case (Some t)
    then show ?thesis using l 1(3) scan_step_progress [of ls l tok v] scan_step_eof [of ls] by (auto simp: tok1_def)
  qed
qed

lemma lex_scan_progress:
  assumes "lex_scan ls = Inr (ls', tok, v)" "lex_ok ls"
  shows "tok = TK_eof \<or> left ls' < left ls"
  using scan_loop_progress [OF assms(1) [unfolded lex_scan_def]] moves_ok [OF moves_reset assms(2)] by simp

end
