(* ===== verification/LexTyped.thy ===== *)
theory LexTyped
  imports LexMoves
begin

text \<open>
  Tokens and their values: which value goes with which token, and what the text of a name and
  the code of a keyword are.
\<close>

definition reserved_words :: "bytes list" where "reserved_words = take TK_RESERVED tokennames"

text \<open>A name: letters, digits, underscores and bytes above 127, no digit first.\<close>

definition name_text :: "bytes \<Rightarrow> bool" where
  "name_text s \<longleftrightarrow> s \<noteq> [] \<and> (\<forall>c \<in> set s. lj_char_isident (uint c)) \<and> \<not> lj_char_isdigit (uint (hd s))"

text \<open>A character that is a token of its own, or starts a longer one.\<close>

definition single_char :: "LexToken \<Rightarrow> bool" where
  "single_char t \<longleftrightarrow> 0 \<le> t \<and> t < 256 \<and> \<not> lj_char_isident t \<and> t \<notin> {0x09, 0x0a, 0x0b, 0x0c, 0x0d, 0x20, 0x22, 0x27}"

fun tok_typed :: "LexToken \<Rightarrow> tokval \<Rightarrow> bool" where
  "tok_typed t NoVal \<longleftrightarrow> t = TK_eof \<or> t \<in> {TK_concat, TK_dots, TK_eq, TK_ge, TK_le, TK_ne, TK_label} \<or> single_char t"
| "tok_typed t (NumVal n) \<longleftrightarrow> t = TK_number"
| "tok_typed t (CdataVal fmt n) \<longleftrightarrow> t = TK_number \<and> fmt \<noteq> STRSCAN_NUM \<and> fmt \<noteq> STRSCAN_ERROR"
| "tok_typed t (StrVal s) \<longleftrightarrow> t = TK_string \<or>
     name_text (s_data s) \<and>
     (if s_data s \<in> set reserved_words
      then TK_OFS < t \<and> t \<le> TK_OFS + 22 \<and> reserved_words ! nat (t - TK_OFS - 1) = s_data s else t = TK_name)"

section \<open>Names and reserved_words\<close>

lemma reserved_loop_cases:
  "reserved_loop ns i s = (if s \<in> set ns then reserved_loop ns i s else 0) \<and>
   (s \<in> set ns \<longrightarrow> i < reserved_loop ns i s \<and> reserved_loop ns i s \<le> i + length ns \<and> ns ! (reserved_loop ns i s - i - 1) = s)"
proof (induction ns arbitrary: i)
  case (Cons n ns)
  have "ns ! (reserved_loop ns (Suc i) s - Suc i - 1) = (n # ns) ! (reserved_loop ns (Suc i) s - i - 1)"
    if "Suc i < reserved_loop ns (Suc i) s"
    using that by (cases "reserved_loop ns (Suc i) s - Suc i") (auto simp: nth_Cons split: nat.splits)
  then show ?case using Cons [of "Suc i"] by auto
qed simp

lemma lj_lex_init_keyword:
  "s \<in> set reserved_words \<Longrightarrow> 0 < lj_lex_init s \<and> lj_lex_init s \<le> 22 \<and> reserved_words ! (lj_lex_init s - 1) = s"
  "s \<notin> set reserved_words \<Longrightarrow> lj_lex_init s = 0"
  using reserved_loop_cases [of reserved_words 0 s]
  by (simp_all add: lj_lex_init_def reserved_words_def [symmetric]) (simp add: reserved_words_def TK_RESERVED_def)

lemma uint_of_c: "lex_ok ls \<Longrightarrow> lx_c ls \<noteq> LEX_EOF \<Longrightarrow> uint (word_of_int (lx_c ls) :: u8) = lx_c ls"
  by (auto simp: lex_ok_def unsigned_of_int take_bit_int_eq_self)

lemma name_loop_text:
  "name_loop ls = Inr ls' \<Longrightarrow> lex_ok ls \<Longrightarrow> lj_char_isident (lx_c ls) \<Longrightarrow>
     \<exists>w. sb_data (lx_sb ls') = sb_data (lx_sb ls) @ w \<and> w \<noteq> [] \<and> uint (hd w) = lx_c ls \<and> (\<forall>c \<in> set w. lj_char_isident (uint c))"
proof (induction ls arbitrary: ls' rule: name_loop.induct)
  case (1 ls)
  obtain l where l: "lex_savenext ls = Inr l" "if lj_char_isident (lx_c l) then name_loop l = Inr ls' else ls' = l"
    using 1(2) by (auto simp: name_loop.simps [of ls] rbind_eq_Inr split: if_splits)
  have c: "uint (word_of_int (lx_c ls) :: u8) = lx_c ls" using uint_of_c [OF 1(3)] isident_not_eof [OF 1(4)] by simp
  have d: "sb_data (lx_sb l) = sb_data (lx_sb ls) @ [word_of_int (lx_c ls)]"
    using l(1) 1(3) lex_save_buf(2) by (auto simp: lex_savenext_def rbind_eq_Inr lex_ok_def)
  show ?case
  proof (cases "lj_char_isident (lx_c l)")
    case True
    with 1(1) [OF l(1) True] l(2) moves_ok [OF moves_savenext [OF l(1)] 1(3)] obtain w where
      "sb_data (lx_sb ls') = sb_data (lx_sb l) @ w" "\<forall>c \<in> set w. lj_char_isident (uint c)" by auto
    then show ?thesis using d c 1(4) by (intro exI [of _ "word_of_int (lx_c ls) # w"]) simp
  next
    case False
    then show ?thesis using d c 1(4) l(2) by simp
  qed
qed

lemma scan_name_typed:
  assumes "scan_name ls = Inr (ls', Some (tok, v))" "lex_ok ls" "sb_data (lx_sb ls) = []"
    and "lj_char_isident (lx_c ls)" "\<not> lj_char_isdigit (lx_c ls)"
  shows "tok_typed tok v"
proof -
  let ?s = "sb_data (lx_sb ls')"
  have n: "name_loop ls = Inr ls'" and v: "v = StrVal (the_str ?s)"
    and t: "tok = (if 0 < lj_lex_init ?s then TK_OFS + int (lj_lex_init ?s) else TK_name)"
    using assms(1) by (auto simp: scan_name_def rbind_eq_Inr Let_def)
  have "name_text ?s" using name_loop_text [OF n assms(2,4)] assms(3,5) by (auto simp: name_text_def)
  moreover have "nat (int (lj_lex_init ?s) - 1) = lj_lex_init ?s - 1" by simp
  ultimately show ?thesis using t lj_lex_init_keyword [of ?s] by (cases "?s \<in> set reserved_words") (auto simp: v the_str_def)
qed

section \<open>The other tokens\<close>

lemma lex_number_typed:
  assumes "lex_number ls = Inr (ls', v)"
  shows "tok_typed TK_number v"
proof -
  obtain l fmt x where "(if fmt = STRSCAN_NUM then (case x of SNum n \<Rightarrow> Inr (l, NumVal n) | _ \<Rightarrow> Inl Abort)
      else if fmt \<noteq> STRSCAN_ERROR
      then (case x of SNum n \<Rightarrow> Inr (l, CdataVal fmt n) | SU64 n \<Rightarrow> Inr (l, CdataVal fmt n) | _ \<Rightarrow> Inl Abort)
      else lj_lex_error l TK_number LJ_ERR_XNUMBER) = Inr (ls', v)"
    using assms unfolding lex_number_def Let_def by (auto simp only: rbind_eq_Inr split_paired_all prod.case)
  then show ?thesis by (cases x) (auto split: if_splits)
qed

lemma scan_number_typed: "scan_valued TK_number (lex_number ls) = Inr (ls', Some (tok, v)) \<Longrightarrow> tok_typed tok v"
  using lex_number_typed by (auto simp: scan_valued_def rbind_eq_Inr)

lemma scan_string_typed:
  "scan_valued TK_string (lex_string ls) = Inr (ls', Some (tok, v)) \<Longrightarrow> tok_typed tok v"
  "scan_valued TK_string (lex_longstring ls True sep) = Inr (ls', Some (tok, v)) \<Longrightarrow> tok_typed tok v"
  by (auto simp: scan_valued_def lex_string_def lex_longstring_def rbind_eq_Inr Let_def)

lemma single_chars: "single_char 0x2d" "single_char 0x5b" "single_char 0x2e" "single_char 0x3d" "single_char 0x3c"
  "single_char 0x3e" "single_char 0x7e" "single_char 0x3a"
  using class_spec_eq [of "0x2d"] class_spec_eq [of "0x5b"] class_spec_eq [of "0x2e"] class_spec_eq [of "0x3d"]
    class_spec_eq [of "0x3c"] class_spec_eq [of "0x3e"] class_spec_eq [of "0x7e"] class_spec_eq [of "0x3a"]
  by (simp_all add: single_char_def class_spec_def Let_def)

lemma tok1_typed: "tok1 ls t = Inr (ls', Some (tok, v)) \<Longrightarrow> tok_typed t NoVal \<Longrightarrow> tok_typed tok v"
  by (auto simp: tok1_def)

lemma tok2_typed:
  "tok2 ls c t = Inr (ls', Some (tok, v)) \<Longrightarrow> single_char (lx_c ls) \<Longrightarrow> tok_typed t NoVal \<Longrightarrow> tok_typed tok v"
  by (auto simp: tok2_def tok1_def Let_def split: if_splits)

lemma scan_step_typed:
  assumes "scan_step ls = Inr (ls', Some (tok, v))" "lex_ok ls" "sb_data (lx_sb ls) = []"
  shows "tok_typed tok v"
proof -
  have br: "tok_typed tok v"
    if b: "rbind (lex_skipeq ls) (\<lambda>(ls, sep).
           if 0 \<le> sep then scan_valued TK_string (lex_longstring ls True sep)
           else if sep = - 1 then tok1 ls 0x5b
           else lj_lex_error ls TK_string LJ_ERR_XLDELIM) = Inr (ls', Some (tok, v))"
    using b by (auto simp: rbind_eq_Inr [of "lex_skipeq ls"] single_chars split: if_splits
        dest!: scan_string_typed tok1_typed)
  have dot: "tok_typed tok v"
    if b: "rbind (lex_savenext ls) (\<lambda>ls.
           if lx_c ls = 0x2e
           then if lx_c (lex_next ls) = 0x2e then tok1 (lex_next (lex_next ls)) TK_dots else tok1 (lex_next ls) TK_concat
           else if \<not> lj_char_isdigit (lx_c ls) then tok1 ls 0x2e
           else scan_valued TK_number (lex_number ls)) = Inr (ls', Some (tok, v))"
    using b by (auto simp: rbind_eq_Inr [of "lex_savenext ls"] single_chars split: if_splits
        dest!: scan_number_typed tok1_typed)
  have cm: "scan_comment l \<noteq> Inr (ls', Some (tok, v))" for l
    by (auto simp: scan_comment_def rbind_eq_Inr Let_def)
  have nl: "rbind (lex_newline l) (\<lambda>ls. Inr (ls, None)) \<noteq> Inr (ls', Some (tok, v))" for l
    by (auto simp: rbind_eq_Inr)
  have el: "tok_typed tok v" if "tok1 (lex_next ls) (lx_c ls) = Inr (ls', Some (tok, v))" "\<not> lj_char_isident (lx_c ls)" "\<not> lex_iseol ls" "lx_c ls \<noteq> LEX_EOF"
    "lx_c ls \<notin> {0x20, 0x09, 0x0b, 0x0c, 0x22, 0x27}"
    using that assms(2) by (intro tok1_typed [OF that(1)]) (auto simp: single_char_def lex_ok_def lex_iseol_def)
  show ?thesis
    using assms(1) unfolding scan_step_def Let_def
    by (simp add: cm nl split: if_splits)
      (auto simp: single_chars dest: scan_number_typed scan_name_typed [OF _ assms(2,3)] scan_string_typed br dot el tok1_typed tok2_typed)
qed

lemma skipped_buffer:
  assumes "scan_step ls = Inr (ls', None)" "sb_data (lx_sb ls) = []"
  shows "sb_data (lx_sb ls') = []"
proof -
  have nl: "lx_sb l' = lx_sb l" if "lex_newline l = Inr l'" for l l'
    using that by (auto simp: lex_newline_def Let_def split: if_splits)
  have co: "lx_sb (comment_loop l) = lx_sb l" for l
  proof (induction l rule: comment_loop.induct)
    case (1 ls)
    then show ?case by (subst comment_loop.simps) auto
  qed
  have rs: "sb_data (lx_sb (lex_reset l)) = []" for l by (simp add: lex_reset_def lj_buf_reset_def)
  have cm: "sb_data (lx_sb ls') = []" if "scan_comment l = Inr (ls', None)" "sb_data (lx_sb l) = []" for l
    using that by (auto simp: scan_comment_def Let_def rbind_eq_Inr co rs split: if_splits)
  have t: "tok1 l t \<noteq> Inr (l', None)" "tok2 l c t \<noteq> Inr (l', None)" "scan_valued t m \<noteq> Inr (l', None)"
    "scan_name l \<noteq> Inr (l', None)" for l c t m l'
    by (auto simp: tok1_def tok2_def scan_valued_def scan_name_def Let_def rbind_eq_Inr)
  show ?thesis
    using assms unfolding scan_step_def Let_def
    by (auto simp: t rbind_eq_Inr split: if_splits dest!: nl dest: cm)
qed

lemma scan_loop_typed:
  "scan_loop ls = Inr (ls', tok, v) \<Longrightarrow> lex_ok ls \<Longrightarrow> sb_data (lx_sb ls) = [] \<Longrightarrow> tok_typed tok v"
proof (induction ls arbitrary: ls' tok v rule: scan_loop.induct)
  case (1 ls)
  obtain l r where l: "scan_step ls = Inr (l, r)" "(case r of None \<Rightarrow> scan_loop l | Some t \<Rightarrow> Inr (l, t)) = Inr (ls', tok, v)"
    using 1(2) by (auto simp: scan_loop.simps [of ls] rbind_eq_Inr)
  show ?case
  proof (cases r)
    case None
    then show ?thesis
      using l 1(1) [OF l(1) refl None] moves_ok [OF moves_scan_step [OF l(1)] 1(3)] skipped_buffer [of ls l] 1(4) by simp
  next
    case (Some t)
    then show ?thesis using l scan_step_typed [OF _ 1(3,4), of l tok v] by simp
  qed
qed

lemma lex_scan_typed: "lex_scan ls = Inr (ls', tok, v) \<Longrightarrow> lex_ok ls \<Longrightarrow> lex_ok ls' \<and> tok_typed tok v"
  using moves_ok [OF moves_scan [of ls ls' "(tok, v)"]] scan_loop_typed [of "lex_reset ls" ls' tok v] moves_ok [OF moves_reset, of ls]
  by (simp add: lex_scan_def) (simp add: lex_reset_def lj_buf_reset_def)

end
