(* ===== verification/LexChunks.thy ===== *)
theory LexChunks
  imports LexMoves
begin

text \<open>
  The scanner and the chunks of its input: it reads what the chunks hold, wherever they are
  cut.
\<close>

section \<open>One chunk\<close>

definition flat :: "LexState \<Rightarrow> LexState" where
  "flat ls = ls\<lparr>lx_in := lx_in ls @ concat (lx_chunks ls), lx_chunks := []\<rparr>"

definition full_chunks :: "LexState \<Rightarrow> bool" where "full_chunks ls \<longleftrightarrow> [] \<notin> set (lx_chunks ls)"

lemma flat_bind:
  assumes "m' = rmap g m" "\<And>x. m = Inr x \<Longrightarrow> f' (g x) = rmap h (f x)"
  shows "rbind m' f' = rmap h (rbind m f)"
  unfolding assms(1) rbind_rmap rmap_rbind using assms(2) by (rule rbind_cong [OF refl])

lemma flat_fields [simp]:
  "lx_c (flat ls) = lx_c ls" "lx_sb (flat ls) = lx_sb ls" "lx_tok (flat ls) = lx_tok ls" "lx_linenumber (flat ls) = lx_linenumber ls"
  "lex_iseol (flat ls) = lex_iseol ls" "xdigit (flat ls) = xdigit ls" "in_number (flat ls) = in_number ls"
  "lx_lookahead (flat ls) = lx_lookahead ls" "lx_tokval (flat ls) = lx_tokval ls" "lx_lookaheadval (flat ls) = lx_lookaheadval ls"
  by (simp_all add: flat_def lex_iseol_def xdigit_def fun_eq_iff in_number_def)

lemma flat_reset [simp]: "lex_reset (flat ls) = flat (lex_reset ls)"
  by (simp add: lex_reset_def flat_def)

lemma flat_next: "full_chunks ls \<Longrightarrow> lex_next (flat ls) = flat (lex_next ls)"
  by (auto simp: full_chunks_def lex_next_def lex_more_def flat_def split: list.splits)

lemma flat_save [simp]: "lex_save (flat ls) c = rmap flat (lex_save ls c)"
  by (simp add: lex_save_def flat_def, rule rbind_cong) simp_all

lemma flat_error [simp]: "lj_lex_error (flat ls) t e = lj_lex_error ls t e" "err_xesc (flat ls) = err_xesc ls"
  by (simp_all add: lj_lex_error_def err_xesc_def)

lemma rmap_error [simp]: "rmap f (lj_lex_error ls t e) = lj_lex_error ls t e" "rmap f (err_xesc ls) = err_xesc ls"
  by (simp_all add: lj_lex_error_def err_xesc_def)

lemma move_full: "lex_move ls ls' \<Longrightarrow> full_chunks ls \<Longrightarrow> full_chunks ls'"
  by (induction rule: lex_move.induct)
    (auto simp: full_chunks_def lex_next_def lex_more_def lex_reset_def lex_save_fields split: list.splits)

lemma moves_full: "lex_moves ls ls' \<Longrightarrow> full_chunks ls \<Longrightarrow> full_chunks ls'"
  by (induction rule: rtranclp_induct) (auto intro: move_full)

lemma full_next [simp]: "full_chunks ls \<Longrightarrow> full_chunks (lex_next ls)"
  by (rule moves_full [OF moves_read])

lemma full_reset [simp]: "full_chunks (lex_reset ls) = full_chunks ls"
  by (simp add: full_chunks_def lex_reset_def)

lemma flat_savenext: "full_chunks ls \<Longrightarrow> lex_savenext (flat ls) = rmap flat (lex_savenext ls)"
  unfolding lex_savenext_def by (auto intro!: rbind_cong dest: moves_full [OF moves_save] simp: flat_next)

lemma flat_line: "(flat ls)\<lparr>lx_linenumber := n\<rparr> = flat (ls\<lparr>lx_linenumber := n\<rparr>)"
  by (simp add: flat_def)

lemma flat_newline: "full_chunks ls \<Longrightarrow> lex_newline (flat ls) = rmap flat (lex_newline ls)"
  by (simp add: lex_newline_def Let_def flat_next flat_line)

section \<open>The loops\<close>

lemmas full_after = moves_full [OF moves_savenext] moves_full [OF moves_save] moves_full [OF moves_newline]
  moves_full [OF moves_skipeq] moves_full [OF moves_first_newline] moves_full [OF moves_number_loop] moves_full [OF moves_skip_white]
  moves_full [OF moves_longstring_loop] moves_full [OF moves_unicode_loop] moves_full [OF moves_esc_hex] moves_full [OF moves_esc_unicode]
  moves_full [OF moves_escape] moves_full [OF moves_string_loop] moves_full [OF moves_name_loop] moves_full [OF moves_longstring]
  moves_full [OF moves_scan_step]

lemma flat_number_loop: "full_chunks ls \<Longrightarrow> number_loop (flat ls) c xp = rmap flat (number_loop ls c xp)"
proof (induction ls c xp rule: number_loop.induct)
  case (1 ls c xp)
  have "number_loop (flat l) d xp = rmap flat (number_loop l d xp)" if "in_number ls c xp" "lex_savenext ls = Inr l" "d = lx_c ls" for l d
    using 1(1) [OF that(1,3,2)] full_after(1) [OF that(2) 1(2)] .
  then show ?case
    by (subst (1 2) number_loop.simps) (simp add: flat_savenext [OF 1(2)] Let_def cong: rbind_cong)
qed

lemma flat_skipeq_loop: "full_chunks ls \<Longrightarrow> skipeq_loop (flat ls) n = rmap (apfst flat) (skipeq_loop ls n)"
proof (induction ls n rule: skipeq_loop.induct)
  case (1 ls n)
  have "skipeq_loop (flat l) (n + 1) = rmap (apfst flat) (skipeq_loop l (n + 1))" if "lex_savenext ls = Inr l" "lx_c l = 0x3d" for l
    using 1(1) [OF that] full_after(1) [OF that(1) 1(2)] .
  then show ?case
    by (subst (1 2) skipeq_loop.simps) (auto simp: flat_savenext [OF 1(2)] intro!: rbind_cong)
qed

lemma flat_skipeq: "full_chunks ls \<Longrightarrow> lex_skipeq (flat ls) = rmap (apfst flat) (lex_skipeq ls)"
  by (auto simp: lex_skipeq_def flat_skipeq_loop Let_def intro!: rbind_cong)

lemma flat_longstring_loop: "full_chunks ls \<Longrightarrow> longstring_loop (flat ls) keep sep = rmap flat (longstring_loop ls keep sep)"
proof (induction ls keep sep rule: longstring_loop.induct)
  case (1 ls keep sep)
  note f = 1(4)
  consider "lx_c ls = LEX_EOF" | "lx_c ls = 0x5d" "lx_c ls \<noteq> LEX_EOF"
    | "lex_iseol ls" "lx_c ls \<noteq> LEX_EOF" "lx_c ls \<noteq> 0x5d"
    | "\<not> lex_iseol ls" "lx_c ls \<noteq> LEX_EOF" "lx_c ls \<noteq> 0x5d" by blast
  then show ?case
  proof cases
    case 1
    then show ?thesis by (subst (1 2) longstring_loop.simps) simp
  next
    case 2
    have "longstring_loop (flat l) keep sep = rmap flat (longstring_loop l keep sep)" "full_chunks l"
      if "lex_skipeq ls = Inr (l, n)" "n \<noteq> sep" for l n
      using "1.IH"(1) [OF 2(2,1) that(1) refl that(2)] full_after(4) [OF that(1) f] by simp_all
    moreover have "lex_savenext (flat l) = rmap flat (lex_savenext l)" if "lex_skipeq ls = Inr (l, n)" for l n
      using flat_savenext [OF full_after(4) [OF that f]] .
    ultimately show ?thesis using 2
      by (subst (1 2) longstring_loop.simps) (auto simp: flat_skipeq [OF f] intro!: rbind_cong)
  next
    case 3
    have nl: "lex_newline (flat l1) = rmap flat (lex_newline l1)" if "lex_save ls 0x0a = Inr l1" for l1
      using flat_newline [OF full_after(2) [OF that f]] .
    have "longstring_loop (flat l) keep sep = rmap flat (longstring_loop l keep sep)"
      if "lex_save ls 0x0a = Inr l1" "lex_newline l1 = Inr l0" "l = (if keep then l0 else lex_reset l0)" for l1 l0 l
      using "1.IH"(2) [OF 3(2,3,1) that(1,2)] full_after(3) [OF that(2) full_after(2) [OF that(1) f]] that(3) by (cases keep) simp_all
    then show ?thesis using 3 nl
      by (subst (1 2) longstring_loop.simps) (auto cong: rbind_cong intro!: rbind_cong)
  next
    case 4
    have "longstring_loop (flat l) keep sep = rmap flat (longstring_loop l keep sep)" if "lex_savenext ls = Inr l" for l
      using "1.IH"(3) [OF 4(2,3,1) that full_after(1) [OF that f]] .
    then show ?thesis using 4
      by (subst (1 2) longstring_loop.simps) (auto simp: flat_savenext [OF f] intro!: rbind_cong)
  qed
qed

lemma flat_first_newline: "full_chunks ls \<Longrightarrow> first_newline (flat ls) = rmap flat (first_newline ls)"
  by (simp add: first_newline_def flat_newline)

lemma flat_longstring: "full_chunks ls \<Longrightarrow> lex_longstring (flat ls) keep sep = rmap (apfst flat) (lex_longstring ls keep sep)"
  unfolding lex_longstring_def
  by (intro flat_bind [OF flat_savenext] flat_bind [OF flat_first_newline] flat_bind [OF flat_longstring_loop])
    (auto simp: Let_def dest: full_after)

lemma flat_unicode_loop: "full_chunks ls \<Longrightarrow> unicode_loop (flat ls) c = rmap (apfst flat) (unicode_loop ls c)"
proof (induction ls c rule: unicode_loop.induct)
  case (1 ls c)
  show ?case
  proof (cases "xdigit ls")
    case None
    then show ?thesis by (subst (1 2) unicode_loop.simps) simp
  next
    case (Some x)
    show ?thesis
      using 1(1) [OF Some refl _ refl] 1(2) Some
      by (subst (1 2) unicode_loop.simps) (auto simp: Let_def flat_next)
  qed
qed

lemma flat_esc_hex: "full_chunks ls \<Longrightarrow> esc_hex (flat ls) = rmap (apfst flat) (esc_hex ls)"
  by (auto simp: esc_hex_def Let_def flat_next split: option.splits)

lemma flat_esc_utf8: "esc_utf8 (flat ls) c = rmap (apfst flat) (esc_utf8 ls c)"
  by (auto simp: esc_utf8_def intro!: rbind_cong)

lemma flat_esc_unicode: "full_chunks ls \<Longrightarrow> esc_unicode (flat ls) = rmap (apfst flat) (esc_unicode ls)"
  by (auto simp: esc_unicode_def Let_def flat_next flat_unicode_loop flat_esc_utf8 intro!: rbind_cong)

lemma flat_skip_white: "full_chunks ls \<Longrightarrow> skip_white (flat ls) = rmap flat (skip_white ls)"
proof (induction ls rule: skip_white.induct)
  case (1 ls)
  have "skip_white (flat l) = rmap flat (skip_white l)" if "lj_char_isspace (lx_c ls)" "lex_iseol ls" "lex_newline ls = Inr l" for l
    using 1(1) [OF that] full_after(3) [OF that(3) 1(3)] .
  then show ?case using 1(2,3)
    by (subst (1 2) skip_white.simps) (auto simp: flat_newline flat_next intro!: rbind_cong)
qed

lemma flat_esc_decimal: "full_chunks ls \<Longrightarrow> esc_decimal (flat ls) c = rmap flat (esc_decimal ls c)"
  by (auto simp: esc_decimal_def Let_def flat_next intro!: rbind_cong)

lemma flat_save_then_next:
  assumes "full_chunks ls"
  shows "rbind (lex_save (flat ls) c) (\<lambda>ls. Inr (lex_next ls)) = rmap flat (rbind (lex_save ls c) (\<lambda>ls. Inr (lex_next ls)))"
  by (intro flat_bind [OF flat_save]) (use assms in \<open>auto simp: flat_next dest: full_after\<close>)

lemma flat_escape:
  assumes "full_chunks ls"
  shows "lex_escape (flat ls) = rmap flat (lex_escape ls)"
proof -
  let ?l = "lex_next ls"
  have f: "full_chunks ?l" using assms by simp
  have p: "rbind m' (\<lambda>(ls, c). rbind (lex_save ls c) (\<lambda>ls. Inr (lex_next ls))) =
      rmap flat (rbind m (\<lambda>(ls, c). rbind (lex_save ls c) (\<lambda>ls. Inr (lex_next ls))))"
    if "m' = rmap (apfst flat) m" "\<And>x c. m = Inr (x, c) \<Longrightarrow> full_chunks x" for m m'
    by (rule flat_bind [OF that(1)]) (use that(2) flat_save_then_next in \<open>auto simp del: flat_save rmap_rbind\<close>)
  have n: "rbind (lex_save (flat ?l) c) lex_newline = rmap flat (rbind (lex_save ?l c) lex_newline)" for c
    by (rule flat_bind [OF flat_save]) (use flat_newline full_after(2) [OF _ f] in auto)
  have hex: "\<And>x c. esc_hex ?l = Inr (x, c) \<Longrightarrow> full_chunks x" "\<And>x c. esc_unicode ?l = Inr (x, c) \<Longrightarrow> full_chunks x"
    using full_after(10,11) f by blast+
  have ident: "Inr (flat ?l) = rmap flat (Inr ?l)" by simp
  show ?thesis
  proof (cases "map_of simple_escapes (lx_c ?l)")
    case None
    show ?thesis
      unfolding lex_escape_def Let_def flat_next [OF assms] flat_fields None option.case rmap_if
      by (intro if_cong refl p [OF flat_esc_hex [OF f] hex(1)] p [OF flat_esc_unicode [OF f] hex(2)] n flat_save_then_next [OF f]
          flat_skip_white [OF full_next [OF f], folded flat_next [OF f]] flat_esc_decimal [OF f] ident)
        simp_all
  next
    case (Some c)
    show ?thesis
      unfolding lex_escape_def Let_def flat_next [OF assms] flat_fields Some by (simp only: option.case flat_save_then_next [OF f])
  qed
qed

lemma flat_string_loop: "full_chunks ls \<Longrightarrow> string_loop (flat ls) delim = rmap flat (string_loop ls delim)"
proof (induction ls delim rule: string_loop.induct)
  case (1 ls delim)
  note e = full_after(12) [OF _ 1(3)] and s = full_after(1) [OF _ 1(3)]
  show ?case using 1(1,2) e s flat_escape [OF 1(3)] flat_savenext [OF 1(3)]
    by (subst (1 2) string_loop.simps) (auto intro!: rbind_cong)
qed

lemma flat_string: "full_chunks ls \<Longrightarrow> lex_string (flat ls) = rmap (apfst flat) (lex_string ls)"
  unfolding lex_string_def Let_def flat_fields
  by (intro flat_bind [OF flat_savenext] flat_bind [OF flat_string_loop]) (auto simp: Let_def dest: full_after)

lemma flat_name_loop: "full_chunks ls \<Longrightarrow> name_loop (flat ls) = rmap flat (name_loop ls)"
proof (induction ls rule: name_loop.induct)
  case (1 ls)
  show ?case using 1(1) full_after(1) [OF _ 1(2)] flat_savenext [OF 1(2)]
    by (subst (1 2) name_loop.simps) (auto intro!: rbind_cong)
qed

lemma flat_comment_loop: "full_chunks ls \<Longrightarrow> comment_loop (flat ls) = flat (comment_loop ls)"
proof (induction ls rule: comment_loop.induct)
  case (1 ls)
  then show ?case by (subst (1 2) comment_loop.simps) (simp add: flat_next)
qed

lemma flat_number: "full_chunks ls \<Longrightarrow> lex_number (flat ls) = rmap (apfst flat) (lex_number ls)"
proof -
  assume f: "full_chunks ls"
  have v: "rbind (lj_strscan_scan s opt) (\<lambda>(fmt, v).
      if fmt = STRSCAN_NUM then (case v of SNum n \<Rightarrow> Inr (flat l, NumVal n) | _ \<Rightarrow> Inl Abort)
      else if fmt \<noteq> STRSCAN_ERROR
      then (case v of SNum n \<Rightarrow> Inr (flat l, CdataVal fmt n) | SU64 n \<Rightarrow> Inr (flat l, CdataVal fmt n) | _ \<Rightarrow> Inl Abort)
      else lj_lex_error l TK_number LJ_ERR_XNUMBER) =
    rmap (apfst flat) (rbind (lj_strscan_scan s opt) (\<lambda>(fmt, v).
      if fmt = STRSCAN_NUM then (case v of SNum n \<Rightarrow> Inr (l, NumVal n) | _ \<Rightarrow> Inl Abort)
      else if fmt \<noteq> STRSCAN_ERROR
      then (case v of SNum n \<Rightarrow> Inr (l, CdataVal fmt n) | SU64 n \<Rightarrow> Inr (l, CdataVal fmt n) | _ \<Rightarrow> Inl Abort)
      else lj_lex_error l TK_number LJ_ERR_XNUMBER))" for s opt l
    unfolding rmap_rbind by (rule rbind_cong) (auto split: scanval.splits)
  show ?thesis unfolding lex_number_def Let_def flat_fields
  proof (rule flat_bind [where g = "apfst flat"], goal_cases)
    case 1
    show ?case by (auto simp: flat_savenext [OF f] intro!: rbind_cong)
  next
    case (2 x)
    obtain l xp where x: "x = (l, xp)" by (cases x)
    have l: "full_chunks l" using 2 f x by (auto simp: rbind_eq_Inr dest: full_after split: if_splits)
    show ?case unfolding x apfst_conv prod.case
      by (intro flat_bind [OF flat_number_loop] flat_bind [OF flat_save] l) (simp only: flat_fields flat_error v)
  qed
qed

section \<open>The scanner\<close>

lemma flat_tok:
  "tok1 (flat ls) t = rmap (apfst flat) (tok1 ls t)"
  "full_chunks ls \<Longrightarrow> tok2 (flat ls) c t = rmap (apfst flat) (tok2 ls c t)"
  by (simp_all add: tok1_def tok2_def Let_def flat_next)

lemma flat_valued: "m' = rmap (apfst flat) m \<Longrightarrow> scan_valued t m' = rmap (apfst flat) (scan_valued t m)"
  unfolding scan_valued_def by (rule flat_bind) auto

lemma flat_name: "full_chunks ls \<Longrightarrow> scan_name (flat ls) = rmap (apfst flat) (scan_name ls)"
  unfolding scan_name_def by (rule flat_bind [OF flat_name_loop]) (auto simp: Let_def)

lemma flat_comment:
  assumes "full_chunks ls"
  shows "scan_comment (flat ls) = rmap (apfst flat) (scan_comment ls)"
proof -
  let ?l = "lex_next ls"
  have f: "full_chunks ?l" using assms by simp
  have sq: "full_chunks x" if "lex_skipeq ?l = Inr (x, n)" for x n using full_after(4) [OF that f] .
  have a: "rbind (lex_skipeq (flat ?l)) (\<lambda>(ls, sep).
         if 0 \<le> sep then rbind (lex_longstring (lex_reset ls) False sep) (\<lambda>(ls, _). Inr (lex_reset ls, None))
         else Inr (comment_loop (lex_reset ls), None)) =
      rmap (apfst flat) (rbind (lex_skipeq ?l) (\<lambda>(ls, sep).
         if 0 \<le> sep then rbind (lex_longstring (lex_reset ls) False sep) (\<lambda>(ls, _). Inr (lex_reset ls, None :: (LexToken \<times> tokval) option))
         else Inr (comment_loop (lex_reset ls), None)))"
    by (rule flat_bind [OF flat_skipeq [OF f]])
      (auto simp: flat_comment_loop sq simp del: rmap_rbind intro!: flat_bind [OF flat_longstring])
  show ?thesis
    unfolding scan_comment_def Let_def flat_next [OF assms] flat_fields rmap_if
    by (intro if_cong refl a) (simp add: flat_comment_loop f)
qed

lemma flat_scan_step:
  assumes "full_chunks ls"
  shows "scan_step (flat ls) = rmap (apfst flat) (scan_step ls)"
proof -
  have sq: "full_chunks x" if "lex_skipeq ls = Inr (x, n)" for x n using full_after(4) [OF that assms] .
  have sn: "full_chunks x" if "lex_savenext ls = Inr x" for x using full_after(1) [OF that assms] .
  have nl: "rbind (lex_newline (flat ls)) (\<lambda>ls. Inr (ls, None)) =
      rmap (apfst flat) (rbind (lex_newline ls) (\<lambda>ls. Inr (ls, None :: (LexToken \<times> tokval) option)))"
    by (rule flat_bind [OF flat_newline [OF assms]]) simp
  have br: "rbind (lex_skipeq (flat ls)) (\<lambda>(ls, sep).
           if 0 \<le> sep then scan_valued TK_string (lex_longstring ls True sep)
           else if sep = - 1 then tok1 ls 0x5b
           else lj_lex_error ls TK_string LJ_ERR_XLDELIM) =
      rmap (apfst flat) (rbind (lex_skipeq ls) (\<lambda>(ls, sep).
           if 0 \<le> sep then scan_valued TK_string (lex_longstring ls True sep)
           else if sep = - 1 then tok1 ls 0x5b
           else lj_lex_error ls TK_string LJ_ERR_XLDELIM))"
    by (rule flat_bind [OF flat_skipeq [OF assms]])
      (auto simp: flat_tok sq simp del: rmap_rbind intro!: flat_valued flat_longstring)
  have dot: "rbind (lex_savenext (flat ls)) (\<lambda>ls.
           if lx_c ls = 0x2e
           then if lx_c (lex_next ls) = 0x2e then tok1 (lex_next (lex_next ls)) TK_dots else tok1 (lex_next ls) TK_concat
           else if \<not> lj_char_isdigit (lx_c ls) then tok1 ls 0x2e
           else scan_valued TK_number (lex_number ls)) =
      rmap (apfst flat) (rbind (lex_savenext ls) (\<lambda>ls.
           if lx_c ls = 0x2e
           then if lx_c (lex_next ls) = 0x2e then tok1 (lex_next (lex_next ls)) TK_dots else tok1 (lex_next ls) TK_concat
           else if \<not> lj_char_isdigit (lx_c ls) then tok1 ls 0x2e
           else scan_valued TK_number (lex_number ls)))"
    by (rule flat_bind [OF flat_savenext [OF assms]])
      (auto simp: flat_tok sn flat_next simp del: rmap_rbind intro!: flat_valued flat_number)
  have sp: "Inr (flat (lex_next ls), None) = rmap (apfst flat) (Inr (lex_next ls, None :: (LexToken \<times> tokval) option))" by simp
  have f: "full_chunks (lex_next ls)" using assms by simp
  show ?thesis
    unfolding scan_step_def Let_def flat_fields flat_next [OF assms] rmap_if
    by (intro if_cong refl flat_valued flat_number flat_name nl br dot flat_tok flat_comment flat_string sp assms f)
qed

lemma flat_scan_loop: "full_chunks ls \<Longrightarrow> scan_loop (flat ls) = rmap (apfst flat) (scan_loop ls)"
proof (induction ls rule: scan_loop.induct)
  case (1 ls)
  have "scan_loop (flat l) = rmap (apfst flat) (scan_loop l)" if "scan_step ls = Inr (l, None)" for l
    using 1(1) [OF that refl refl] full_after(16) [OF that 1(2)] .
  then show ?case
    by (subst (1 2) scan_loop.simps)
      (rule flat_bind [OF flat_scan_step [OF 1(2)]], auto split: option.splits)
qed

lemma flat_scan: "full_chunks ls \<Longrightarrow> lex_scan (flat ls) = rmap (apfst flat) (lex_scan ls)"
  by (simp add: lex_scan_def flat_scan_loop)

end
