(* ===== verification/LexProps.thy ===== *)
theory LexProps
  imports LexTyped LexChunks
begin

text \<open>
  The properties of the lexical analyzer: its tokens are well-typed, it comes to the end of
  every input, the cutting of the input into chunks does not matter, and what the decompiled
  setup does differently.
\<close>

section \<open>Runs\<close>

text \<open>The tokens of at most \<open>n\<close> calls of \<^verbatim>\<open>lj_lex_next\<close>, up to the end of input.\<close>

fun lex_run :: "nat \<Rightarrow> LexState \<Rightarrow> (LexState \<times> LexToken list) res" where
  "lex_run 0 ls = Inr (ls, [])"
| "lex_run (Suc n) ls =
     rbind (lj_lex_next ls) (\<lambda>ls.
     if lx_tok ls = TK_eof then Inr (ls, [TK_eof])
     else rbind (lex_run n ls) (\<lambda>(ls', ts). Inr (ls', lx_tok ls # ts)))"

lemma move_lookahead: "lex_move ls ls' \<Longrightarrow> lx_lookahead ls' = lx_lookahead ls"
proof (induction rule: lex_move.induct)
  case (save ls c ls')
  then show ?case by (auto simp: lex_save_def rbind_eq_Inr)
qed (auto simp: lex_next_def lex_more_def lex_reset_def split: list.splits)

lemma moves_lookahead: "lex_moves ls ls' \<Longrightarrow> lx_lookahead ls' = lx_lookahead ls"
  by (induction rule: rtranclp_induct) (auto dest: move_lookahead)

text \<open>The calls a state still has in it.\<close>

definition calls_left :: "LexState \<Rightarrow> nat" where
  "calls_left ls = left ls + (if lx_lookahead ls = TK_eof then 0 else 1)"

lemma lj_lex_next_progress:
  assumes "lj_lex_next ls = Inr ls'" "lex_ok ls"
  shows "lex_ok ls' \<and> (lx_tok ls' = TK_eof \<or> calls_left ls' < calls_left ls)"
proof (cases "lx_lookahead ls = TK_eof")
  case False
  then show ?thesis using assms by (auto simp: lj_lex_next_def lex_ok_def calls_left_def left_def)
next
  case True
  let ?l = "ls\<lparr>lx_lastline := lx_linenumber ls\<rparr>"
  obtain l tok v where l: "lex_scan ?l = Inr (l, tok, v)" "ls' = l\<lparr>lx_tok := tok, lx_tokval := put_val (lx_tokval l) v\<rparr>"
    using assms(1) True by (auto simp: lj_lex_next_def rbind_eq_Inr)
  have ok: "lex_ok ?l" using assms(2) by (simp add: lex_ok_def)
  have "lx_lookahead l = TK_eof" using moves_lookahead [OF moves_scan [OF l(1)]] True by simp
  moreover have "tok = TK_eof \<or> left l < left ?l" by (rule lex_scan_progress [OF l(1) ok])
  moreover have "lex_ok l" by (rule moves_ok [OF moves_scan [OF l(1)] ok])
  ultimately show ?thesis using True l(2) by (auto simp: calls_left_def lex_ok_def left_def)
qed

text \<open>
  C5: the scanner comes to the end of every input. Calling \<^verbatim>\<open>lj_lex_next\<close> again and again reaches
  \<^verbatim>\<open>TK_eof\<close> or an error, after at most two calls per byte of the input and two more, whatever
  the input and its chunks are.
\<close>

theorem lexer_reaches_eof:
  assumes "lex_ok ls" "calls_left ls < n"
  shows "case lex_run n ls of
      Inr (ls', ts) \<Rightarrow> ts \<noteq> [] \<and> last ts = TK_eof \<and> TK_eof \<notin> set (butlast ts) \<and> length ts \<le> calls_left ls + 1
    | Inl f \<Rightarrow> True"
  using assms
proof (induction n arbitrary: ls)
  case (Suc n)
  show ?case
  proof (cases "lj_lex_next ls")
    case (Inr l)
    note p = lj_lex_next_progress [OF Inr Suc.prems(1)]
    show ?thesis
    proof (cases "lx_tok l = TK_eof")
      case False
      with p Suc.prems(2) have "case lex_run n l of
          Inr (ls', ts) \<Rightarrow> ts \<noteq> [] \<and> last ts = TK_eof \<and> TK_eof \<notin> set (butlast ts) \<and> length ts \<le> calls_left l + 1
        | Inl f \<Rightarrow> True" by (intro Suc.IH) auto
      then show ?thesis using False p Inr by (cases "lex_run n l") auto
    qed (simp add: Inr)
  qed simp
qed simp

text \<open>An input in two chunks: \<^verbatim>\<open>a=\<close> and \<^verbatim>\<open>= 'b'\<close>.\<close>

definition lex_example :: LexState where
  "lex_example = (lex_source [[0x3d, 0x20, 0x27, 0x62, 0x27]])\<lparr>lx_in := [0x3d], lx_c := 0x61, lx_lookahead := TK_eof\<rparr>"

lemma lex_example_ok: "lex_ok lex_example" "full_chunks lex_example" "calls_left lex_example < 14"
  by (simp_all add: lex_example_def lex_source_def lex_ok_def sbuf_ok_init full_chunks_def calls_left_def left_def LEX_EOF_def)

theorem lexer_reaches_eof_witness:
  "case lex_run 14 lex_example of
     Inr (ls', ts) \<Rightarrow> ts \<noteq> [] \<and> last ts = TK_eof \<and> TK_eof \<notin> set (butlast ts) \<and> length ts \<le> calls_left lex_example + 1
   | Inl f \<Rightarrow> True"
  using lexer_reaches_eof [OF lex_example_ok(1,3)] .

section \<open>Types\<close>

text \<open>
  C4: every token has the value of its kind. A number token has a number or the payload of a
  64-bit or complex constant, a string token a string; a name has its text, letters, digits and
  underscores with no digit first, and is a reserved word exactly when the text is one, with the
  code of that word; every other token has no value and is one of the operators, a character
  that starts nothing else, or the end of input. The state is well-formed again.
\<close>

theorem tokens_typed:
  assumes "lex_scan ls = Inr (ls', tok, v)" "lex_ok ls"
  shows "lex_ok ls' \<and> tok_typed tok v"
  using lex_scan_typed [OF assms] .

lemma scan_equals_example: "lex_scan ((lex_source [])\<lparr>lx_c := 0x3d\<rparr>) = Inr ((lex_source [])\<lparr>lx_c := LEX_EOF\<rparr>, 0x3d, NoVal)"
proof -
  let ?l = "(lex_source [])\<lparr>lx_c := 0x3d\<rparr>"
  have "\<not> lj_char_isident 0x3d" using class_spec_eq [of "0x3d"] by (simp add: class_spec_def Let_def)
  then have "scan_step (lex_reset ?l) = tok2 (lex_reset ?l) 0x3d TK_eq"
    by (simp add: scan_step_def lex_reset_def lex_source_def lex_iseol_def)
  also have "\<dots> = Inr ((lex_source [])\<lparr>lx_c := LEX_EOF\<rparr>, Some (0x3d, NoVal))"
    by (simp add: tok2_def tok1_def lex_next_def lex_more_def lex_reset_def lex_source_def lj_buf_reset_def lj_buf_init_def LEX_EOF_def)
  finally show ?thesis unfolding lex_scan_def by (subst scan_loop.simps) simp
qed

theorem tokens_typed_witness: "lex_ok ((lex_source [])\<lparr>lx_c := LEX_EOF\<rparr>) \<and> tok_typed 0x3d NoVal"
  by (rule tokens_typed [OF scan_equals_example]) (simp add: lex_ok_def lex_source_def sbuf_ok_init)

section \<open>Chunks\<close>

text \<open>
  C6: the reader may cut the input wherever it likes. With no empty chunk among them, the
  scanner does on the chunks what it does on the whole input in one piece: it returns the same
  token and value, or throws the same error, and stands at the same byte after it.
\<close>

theorem chunks_do_not_matter:
  assumes "full_chunks ls"
  shows "lex_scan (flat ls) = rmap (apfst flat) (lex_scan ls)"
  using flat_scan [OF assms] .

theorem chunks_do_not_matter_witness: "lex_scan (flat lex_example) = rmap (apfst flat) (lex_scan lex_example)"
  by (rule chunks_do_not_matter [OF lex_example_ok(2)])

section \<open>Setup\<close>

lemma newline_errors: "lex_newline ls = Inl f \<Longrightarrow> f \<noteq> Throw LJ_ERR_BCBAD"
  by (auto simp: lex_newline_def Let_def lj_lex_error_def rbind_eq_Inl lex_save_def lj_buf_putb_def lj_buf_more_def lj_buf_more2_def
      buf_put_def in_range_def split: if_splits)

definition renamed :: "'a res \<Rightarrow> 'a res" where
  "renamed r = (case r of Inl (Throw LJ_ERR_BCBAD) \<Rightarrow> Inl (Throw (Err_offset 2972)) | _ \<Rightarrow> r)"

text \<open>
  C39: the decompiled setup of the lexer. On inputs that start neither with an \<^verbatim>\<open>X\<close> nor with the
  byte 0xef it does what \<^verbatim>\<open>lj_lex_setup\<close> does, \<^verbatim>\<open>#\<close> lines included, but for the number of the error
  message. An input that starts with \<^verbatim>\<open>XANA\<close> is bytecode, and source text in the original; but the
  signature is compared without a look at the end of the window, so that a first chunk that is a
  proper prefix of it is read past its end. A byte order mark is never recognised: the original
  goes on behind it, and rejects bytecode there; the decompiled setup takes the input for source
  text that starts with the mark.
\<close>

theorem lex_setup_twin:
  "let l = lex_next (lex_init ls); p = lx_in l; l' = lex_next (l\<lparr>lx_in := drop 2 p\<rparr>) in
   lj_lex_setup_mod ls =
     (if lx_c l = 0x58
      then if length p < 3 \<and> p = take (length p) [0x41, 0x4e, 0x41] then Inl Undef
           else Inr (l, take 3 p = [0x41, 0x4e, 0x41])
      else if lx_c l = 0xef then Inr (l, False)
      else renamed (lj_lex_setup ls)) \<and>
   (lx_c l = 0x58 \<longrightarrow> lj_lex_setup ls = Inr (l, False)) \<and>
   (lx_c l = 0xef \<and> take 2 p \<noteq> BOM_rest \<longrightarrow> lj_lex_setup ls = Inr (l, False)) \<and>
   (lx_c l = 0xef \<and> take 2 p = BOM_rest \<and> lx_c l' \<noteq> 0x23 \<longrightarrow>
      lj_lex_setup ls = (if lx_c l' = 27 then Inl (Throw LJ_ERR_BCBAD) else Inr (l', False)))"
proof -
  let ?l = "lex_next (lex_init ls)"
  have nl: "lex_newline l = Inl f \<Longrightarrow> renamed (Inl f :: (LexState \<times> bool) res) = Inl f" for l f
    using newline_errors [of l f] by (auto simp: renamed_def split: fault.splits lj_error.splits)
  have ok: "renamed (Inr x :: (LexState \<times> bool) res) = Inr x" for x by (simp add: renamed_def)
  have rest: "setup_rest l header =
      renamed (if lx_c l = 0x23
      then let ls = skip_line l in
           if lx_c ls = LEX_EOF then Inr (ls, False)
           else rbind (lex_newline ls) (\<lambda>ls. if lx_c ls = 27
            then if True then Inl (Throw LJ_ERR_BCBAD) else Inr (ls, True)
            else Inr (ls, False))
      else if lx_c l = 27
            then if header then Inl (Throw LJ_ERR_BCBAD) else Inr (l, True)
            else Inr (l, False))" for l header
    by (cases "lex_newline (skip_line l)") (auto simp: setup_rest_def Let_def nl, auto simp: renamed_def)
  have unsigned: "uint (c :: u8) \<noteq> - 69" for c using uint_ge_0 [of c] by linarith
  have bom: "2 \<le> length p" if "take 2 p = BOM_rest" for p :: bytes
    using arg_cong [OF that, of length] by (simp add: BOM_rest_def)
  consider "lx_c ?l = 0x58" | "lx_c ?l = 0xef" | "lx_c ?l \<noteq> 0x58" "lx_c ?l \<noteq> 0xef" by blast
  then show ?thesis
  proof cases
    case 1
    obtain p where p: "lx_in ?l = p" by blast
    show ?thesis using 1 p
      by (cases p; cases "tl p"; cases "tl (tl p)")
        (auto simp: lj_lex_setup_mod_def lj_lex_setup_def Let_def is_xana_def peek_at_def in_range_def)
  next
    case 2
    then have "lj_lex_setup_mod ls = Inr (?l, False)" by (simp add: lj_lex_setup_mod_def Let_def unsigned)
    then show ?thesis using 2 bom by (simp add: lj_lex_setup_def Let_def)
  next
    case 3
    then show ?thesis by (auto simp: lj_lex_setup_mod_def lj_lex_setup_def Let_def rest ok)
  qed
qed

text \<open>Text and bytecode behind a byte order mark.\<close>

theorem lex_setup_twin_witness:
  "\<exists>ls ls' e. lj_lex_setup_mod (lex_source [[0xef, 0xbb, 0xbf, 0x61]]) = Inr (ls, False) \<and> lx_c ls = 0xef \<and>
     lj_lex_setup (lex_source [[0xef, 0xbb, 0xbf, 0x61]]) = Inr (ls', False) \<and> lx_c ls' = 0x61 \<and>
     lj_lex_setup (lex_source [[0xef, 0xbb, 0xbf, 27]]) = Inl e"
  using lex_setup_twin [of "lex_source [[0xef, 0xbb, 0xbf, 0x61]]"] lex_setup_twin [of "lex_source [[0xef, 0xbb, 0xbf, 27]]"]
  by (simp add: Let_def lex_init_def lex_source_def lex_next_def lex_more_def BOM_rest_def)

end
