(* ===== verification/StrscanRing.thy ===== *)
theory StrscanRing
  imports StrscanHex
begin

text \<open>
  The circular buffer of base-100 digits, scaled up.  The places from \<^verbatim>\<open>hi\<close> to \<^verbatim>\<open>lo\<close> are written, and
  the first digit is never zero, so that a scaling up by 64 gains a digit at least every other time
  and the loop ends.
\<close>

section \<open>Digits in the buffer\<close>

lemma u9_less: "unat (i :: u9) < 512"
  using unsigned_less [of i] by simp

lemma xi_at_set [simp]: "length xi = 512 \<Longrightarrow> xi_at (xi_set xi i d) j = (if i = j then Inr (d mod 256) else xi_at xi j)"
  using u9_less [of i] by (simp add: xi_at_def xi_set_def nth_list_update word_unat_eq_iff)

lemma length_xi_set [simp]: "length (xi_set xi i d) = length xi"
  by (simp add: xi_set_def)

text \<open>The places from \<^verbatim>\<open>hi\<close> to before \<^verbatim>\<open>lo\<close>, all of them when the two are equal.\<close>

definition filled :: "digbuf \<Rightarrow> u9 \<Rightarrow> bool" where
  "filled b j \<longleftrightarrow> j - db_hi b \<le> db_lo b - 1 - db_hi b"

definition ring_ok :: "digbuf \<Rightarrow> bool" where
  "ring_ok b \<longleftrightarrow> length (db_xi b) = 512 \<and> (\<forall>j. filled b j \<longrightarrow> (\<exists>d \<le> 127. xi_at (db_xi b) j = Inr d))"

definition topdig :: "digbuf \<Rightarrow> nat" where "topdig b = the (db_xi b ! unat (db_hi b))"

lemma ring_ok_at:
  assumes "ring_ok b" "filled b i"
  obtains d where "xi_at (db_xi b) i = Inr d" "d \<le> 127"
  using assms by (auto simp: ring_ok_def)

lemma topdig_at: "xi_at (db_xi b) (db_hi b) = Inr d \<Longrightarrow> topdig b = d"
  by (simp add: topdig_def xi_at_def split: option.splits)

lemma filled_hi [simp]: "filled b (db_hi b)"
  by (simp add: filled_def)

lemma ring_ok_top: "ring_ok b \<Longrightarrow> xi_at (db_xi b) (db_hi b) = Inr (topdig b) \<and> topdig b \<le> 127"
  using ring_ok_at [OF _ filled_hi] topdig_at by metis

lemma ring_ok_length: "ring_ok b \<Longrightarrow> length (db_xi b) = 512"
  by (simp add: ring_ok_def)

text \<open>A write of a digit, and a smaller range of places.\<close>

lemma ring_ok_set: "ring_ok b \<Longrightarrow> d \<le> 127 \<Longrightarrow> ring_ok (b\<lparr>db_xi := xi_set (db_xi b) i d\<rparr>)"
  by (auto simp: ring_ok_def filled_def)

lemma ring_ok_less:
  assumes "ring_ok b" "db_xi b' = db_xi b" "\<And>j. filled b' j \<Longrightarrow> filled b j"
  shows "ring_ok b'"
  using assms unfolding ring_ok_def by metis

lemma ring_ok_fields [simp]:
  "ring_ok (b\<lparr>db_idig := n\<rparr>) = ring_ok b" "ring_ok (b\<lparr>db_ex2 := e\<rparr>) = ring_ok b"
  by (simp_all add: ring_ok_def filled_def)

lemma or_less_128: "x \<le> 127 \<Longrightarrow> y \<le> 127 \<Longrightarrow> x OR y \<le> (127 :: nat)"
proof -
  assume "x \<le> 127" "y \<le> 127"
  then have "take_bit 7 x = x" "take_bit 7 y = y" by (simp_all add: take_bit_nat_eq_self)
  then have "take_bit 7 (x OR y) = x OR y" by (simp add: take_bit_or)
  then show ?thesis using take_bit_nat_less_exp [of 7 "x OR y"] by simp
qed

lemma or_one: "x OR 1 = x \<or> x OR 1 = x + (1 :: nat)" "x < 64 \<Longrightarrow> x OR 1 < (64 :: nat)"
proof -
  show o: "x OR 1 = x \<or> x OR 1 = x + (1 :: nat)" unfolding or_one_eq by auto
  have "odd (x OR 1)" by (simp add: even_or_iff)
  then show "x < 64 \<Longrightarrow> x OR 1 < 64" using o by presburger
qed

section \<open>Scaling up\<close>

lemma mul64_exact:
  assumes "x \<le> 127" "cy \<le> 82" "mul64_digit x cy = (d, c)"
  shows "d + 100 * c = 64 * x + cy" "d < 100" "c \<le> 82"
proof -
  let ?n = "x * 64 + cy"
  have n: "?n \<le> 8210" using assms(1,2) by simp
  have quot: "?n div 4 * 5243 div 2 ^ 17 = ?n div 100"
  proof -
    define q where "q = ?n div 4"
    have q: "q \<le> 2052" using n by (simp add: q_def)
    have e: "q = 25 * (q div 25) + q mod 25" by simp
    have "q * 5243 = 2 ^ 17 * (q div 25) + (3 * (q div 25) + 5243 * (q mod 25))"
      by (subst e) (simp only: distrib_left distrib_right mult.commute, simp)
    moreover have "3 * (q div 25) + 5243 * (q mod 25) < 2 ^ 17"
    proof -
      have "q div 25 \<le> 82" using q by simp
      moreover have "q mod 25 \<le> 24" by simp
      ultimately show ?thesis by simp
    qed
    ultimately have "q * 5243 div 2 ^ 17 = q div 25" by (simp only: div_mult_self4 div_less)
    then show ?thesis by (simp add: q_def div_mult2_eq [symmetric])
  qed
  have "mul64_digit x cy = (?n - ?n div 100 * 100, ?n div 100)" by (simp only: mul64_digit_def Let_def quot)
  then have "d = ?n - ?n div 100 * 100" "c = ?n div 100" using assms(3) by simp_all
  then show "d + 100 * c = 64 * x + cy" "d < 100" "c \<le> 82" using n by (simp_all add: algebra_simps minus_div_mult_eq_mod)
qed

lemma u9_pred: "x \<le> y - 1 \<Longrightarrow> y \<noteq> 0 \<Longrightarrow> x \<le> (y :: u9)"
  by (simp add: word_le_nat_alt unat_minus_one)

lemma u9_shift:
  assumes "(y :: u9) \<noteq> - 1" "y + 1 \<le> L + 1 \<or> y + 1 \<le> L"
  shows "y \<le> L"
proof (cases "L = - 1")
  case False
  have u: "unat (z + 1) = unat z + 1" if "z \<noteq> - 1" for z :: u9
  proof -
    have "1 + z \<noteq> 0" using that by (metis add_eq_0_iff)
    from unatSuc [OF this] show ?thesis by (simp only: add.commute [of z] Suc_eq_plus1)
  qed
  note u [OF assms(1)] u [OF False]
  then show ?thesis using assms(2) by (auto simp: word_le_nat_alt)
qed simp

text \<open>The digit before a place that is not the first is a place of the buffer.\<close>

lemma filled_pred: "filled b i \<Longrightarrow> i \<noteq> db_hi b \<Longrightarrow> filled b (i - 1)"
proof -
  assume a: "filled b i" "i \<noteq> db_hi b"
  then have "i - db_hi b \<noteq> 0" by simp
  then have "i - db_hi b - 1 \<le> i - db_hi b" by (metis order_refl u9_pred)
  then have "i - 1 - db_hi b \<le> i - db_hi b" by (simp only: diff_right_commute)
  then show ?thesis using a(1) unfolding filled_def by (rule order_trans)
qed

lemma filled_succ: "filled b i \<Longrightarrow> i + 1 \<noteq> db_lo b \<Longrightarrow> filled b (i + 1)"
proof -
  assume a: "filled b i" "i + 1 \<noteq> db_lo b"
  have "i - db_hi b \<noteq> db_lo b - 1 - db_hi b"
  proof
    assume "i - db_hi b = db_lo b - 1 - db_hi b"
    then have "i - db_hi b + (db_hi b + 1) = db_lo b - 1 - db_hi b + (db_hi b + 1)" by simp
    then show False using a(2) by (simp add: algebra_simps)
  qed
  with a(1) [unfolded filled_def] have "i - db_hi b < db_lo b - 1 - db_hi b" by (metis order.not_eq_order_implies_strict)
  then have "i - db_hi b + 1 \<le> db_lo b - 1 - db_hi b" by (rule inc_le)
  moreover have "i + 1 - db_hi b = i - db_hi b + 1" by simp
  ultimately show ?thesis unfolding filled_def by metis
qed

lemma up_digits_top:
  "ring_ok b \<Longrightarrow> filled b i \<Longrightarrow> hi = db_hi b \<Longrightarrow> cy \<le> 82 \<Longrightarrow>
     \<exists>b' c. up_digits i cy hi b = Inr (b', c) \<and> ring_ok b' \<and> db_hi b' = db_hi b \<and> db_idig b' = db_idig b \<and> c \<le> 82 \<and>
       topdig b' < 100 \<and> (\<exists>e \<le> 82. topdig b' + 100 * c = 64 * topdig b + e)"
proof (induction i cy hi b rule: up_digits.induct)
  case (1 i cy hi b)
  note ok = 1(2) and fi = 1(3) and hi = 1(4) and cy = 1(5)
  obtain x where x: "xi_at (db_xi b) i = Inr x" "x \<le> 127" by (rule ring_ok_at [OF ok fi])
  obtain d c1 where m: "mul64_digit x cy = (d, c1)" by (cases "mul64_digit x cy")
  note e = mul64_exact [OF x(2) cy m]
  let ?b = "b\<lparr>db_xi := xi_set (db_xi b) i d\<rparr>"
  have okb: "ring_ok ?b" using e(2) by (intro ring_ok_set [OF ok]) simp
  have len: "length (db_xi b) = 512" using ok by (rule ring_ok_length)
  show ?case
  proof (cases "i = hi")
    case True
    have "topdig b = x" "topdig ?b = d" using x len e(2) True hi by (auto intro!: topdig_at)
    then show ?thesis using True okb e m x cy by (auto simp: up_digits.simps [of hi])
  next
    case False
    let ?b2 = "if d = 0 \<and> i = db_lo ?b - 1 then ?b\<lparr>db_lo := i\<rparr> else ?b"
    have u: "up_digits i cy hi b = up_digits (i - 1) c1 hi ?b2" using False m x by (simp add: up_digits.simps [of i] Let_def)
    have f1: "filled ?b (i - 1)" using filled_pred [OF fi] False hi by (simp add: filled_def)
    have small: "filled (?b\<lparr>db_lo := i\<rparr>) j \<Longrightarrow> filled ?b j" if "i = db_lo b - 1" for j
    proof -
      assume a: "filled (?b\<lparr>db_lo := i\<rparr>) j"
      have e: "i - 1 - db_hi b = i - db_hi b - 1" by (rule diff_right_commute)
      have "j - db_hi b \<le> i - db_hi b - 1" using a [unfolded filled_def] e by simp
      moreover have "i - db_hi b \<noteq> 0" using False hi by simp
      ultimately have "j - db_hi b \<le> i - db_hi b" by (rule u9_pred)
      then show "filled ?b j" by (simp add: filled_def that)
    qed
    have ok2: "ring_ok ?b2" using okb small by (auto intro: ring_ok_less)
    have f2: "filled ?b2 (i - 1)" using f1 by (simp add: filled_def)
    have h2: "db_hi ?b2 = db_hi b" by simp
    have hd: "xi_at (db_xi ?b2) hi = xi_at (db_xi b) hi" using len False by simp
    have t: "topdig ?b2 = topdig b"
      by (rule topdig_at, subst h2, subst hi [symmetric], subst hd) (simp add: ring_ok_top [OF ok] hi)
    have h: "hi = db_hi ?b2" "db_hi ?b2 = db_hi b" "db_idig ?b2 = db_idig b" using hi by simp_all
    from 1(1) [OF x(1) m [symmetric] refl False ok2 f2 h(1) e(3)] show ?thesis unfolding u t h(2,3) .
  qed
qed

lemma scale_up_top:
  assumes "ring_ok b" "1 \<le> topdig b"
  shows "\<exists>b'. scale_up b = Inr b' \<and> ring_ok b' \<and> 1 \<le> topdig b' \<and>
    (db_idig b' = db_idig b + 1 \<or> db_idig b' = db_idig b \<and> topdig b < 64 \<and> 64 \<le> topdig b')"
proof -
  let ?b = "b\<lparr>db_ex2 := db_ex2 b - 6\<rparr>"
  have "ring_ok ?b" "filled ?b (db_lo b - 1)" "db_hi b = db_hi ?b" using assms(1) by (simp_all add: filled_def)
  from up_digits_top [OF this, of 0] obtain b1 c e where u: "up_digits (db_lo b - 1) 0 (db_hi b) ?b = Inr (b1, c)"
    and e: "ring_ok b1" "db_hi b1 = db_hi b" "db_idig b1 = db_idig b" "c \<le> 82" "topdig b1 < 100"
    "topdig b1 + 100 * c = 64 * topdig b + e" by (auto simp: topdig_def)
  have len: "length (db_xi b1) = 512" using e(1) by (rule ring_ok_length)
  show ?thesis
  proof (cases "c = 0")
    case True
    then show ?thesis using u e assms(2) by (simp add: scale_up_def)
  next
    case False
    define hi where "hi = db_hi b1 - 1"
    have fl: "filled b1 (db_lo b1 - 1)" by (simp add: filled_def)
    obtain x where x: "xi_at (db_xi b1) (db_lo b1 - 1) = Inr x" "x \<le> 127" by (rule ring_ok_at [OF e(1) fl])
    have new: ?thesis if s: "scale_up b = Inr (b1\<lparr>db_xi := xi_set xi hi c, db_hi := hi, db_lo := lo, db_idig := db_idig b1 + 1\<rparr>)"
      and xi: "length xi = 512" "\<And>j. filled b1 j \<Longrightarrow> \<exists>d \<le> 127. xi_at xi j = Inr d"
      and lo: "\<And>j. j - hi \<le> lo - 1 - hi \<Longrightarrow> j \<noteq> hi \<Longrightarrow> filled b1 j" for xi lo
    proof -
      let ?b' = "b1\<lparr>db_xi := xi_set xi hi c, db_hi := hi, db_lo := lo, db_idig := db_idig b1 + 1\<rparr>"
      have "topdig ?b' = c" using xi(1) e(4) by (intro topdig_at) simp
      moreover have "ring_ok ?b'"
        using xi lo e(4) by (auto simp: ring_ok_def filled_def [of ?b'])
      ultimately show ?thesis using s False e(3) by auto
    qed
    have lt: "filled b1 j" if "j - hi \<le> lo - 1 - hi" "j \<noteq> hi" "lo = db_lo b1 \<or> lo = db_lo b1 - 1" for j lo
    proof -
      define y where "y = j - db_hi b1"
      define L where "L = db_lo b1 - 1 - db_hi b1"
      have y: "y \<noteq> - 1" using that(2) by (auto simp: y_def hi_def algebra_simps)
      have "lo - 1 - hi = L + 1 \<or> lo - 1 - hi = L" using that(3) by (auto simp: L_def hi_def)
      then have "y + 1 \<le> L + 1 \<or> y + 1 \<le> L" using that(1) by (auto simp: y_def hi_def algebra_simps)
      with y have "y \<le> L" by (rule u9_shift)
      then show ?thesis by (simp add: filled_def y_def L_def)
    qed
    have same: "\<And>j. filled b1 j \<Longrightarrow> \<exists>d \<le> 127. xi_at (db_xi b1) j = Inr d" using e(1) by (auto simp: ring_ok_def)
    consider "x = 0" | "x \<noteq> 0" "hi = db_lo b1" | "x \<noteq> 0" "hi \<noteq> db_lo b1" by blast
    then show ?thesis
    proof cases
      case 1
      then show ?thesis using u x False by (intro new [OF _ len same lt]) (auto simp: scale_up_def Let_def hi_def)
    next
      case 3
      then show ?thesis using u x False by (intro new [OF _ len same lt]) (auto simp: scale_up_def Let_def hi_def)
    next
      case 2
      have lo: "db_lo b1 = db_hi b1 - 1" using 2(2) by (simp add: hi_def)
      have lo2: "db_lo b1 - 1 - db_hi b1 = - 2" "db_lo b1 - 2 - db_hi b1 = - 3" unfolding lo by simp_all
      have "filled b1 (db_lo b1 - 2)" unfolding filled_def lo2 by simp
      then obtain y where y: "xi_at (db_xi b1) (db_lo b1 - 2) = Inr y" "y \<le> 127" by (rule ring_ok_at [OF e(1)])
      have o: "y OR x \<le> 127" by (rule or_less_128 [OF y(2) x(2)])
      have s: "scale_up b = Inr (b1\<lparr>db_xi := xi_set (xi_set (db_xi b1) (db_lo b1 - 2) (y OR x)) hi c, db_hi := hi,
          db_lo := db_lo b1 - 1, db_idig := db_idig b1 + 1\<rparr>)"
        using u x y False 2 by (simp add: scale_up_def Let_def hi_def)
      show ?thesis
      proof (rule new [OF s])
        show "\<exists>d \<le> 127. xi_at (xi_set (db_xi b1) (db_lo b1 - 2) (y OR x)) j = Inr d" if "filled b1 j" for j
          using same [OF that] o len by auto
        show "filled b1 j" if "j - hi \<le> db_lo b1 - 1 - 1 - hi" "j \<noteq> hi" for j
          using lt [OF that] by blast
      qed (use len in simp)
    qed
  qed
qed

lemma scale_loop_ends:
  assumes "ring_ok b" "1 \<le> topdig b" "nat (2 * (9 - db_idig b)) < n"
  shows "\<exists>b'. scale_loop n b = Inr b' \<and> ring_ok b' \<and> 1 \<le> topdig b' \<and> db_idig b' \<le> max 9 (db_idig b)"
proof -
  have "\<exists>b'. scale_loop n b = Inr b' \<and> ring_ok b' \<and> 1 \<le> topdig b' \<and> db_idig b' \<le> max 9 (db_idig b)"
    if "ring_ok b" "1 \<le> topdig b" "2 * (9 - db_idig b) - (if 64 \<le> topdig b then 1 else 0) < int n" "0 < n" for n b
    using that
  proof (induction n arbitrary: b)
    case (Suc n)
    show ?case
    proof (cases "db_idig b < 9 \<and> db_idig b < DLEN b")
      case True
      obtain b1 where s: "scale_up b = Inr b1" "ring_ok b1" "1 \<le> topdig b1"
        "db_idig b1 = db_idig b + 1 \<or> db_idig b1 = db_idig b \<and> topdig b < 64 \<and> 64 \<le> topdig b1"
        using scale_up_top [OF Suc.prems(1,2)] by blast
      have "2 * (9 - db_idig b1) - (if 64 \<le> topdig b1 then 1 else 0) < int n" "0 < n"
        using Suc.prems(3) s True by (auto split: if_splits)
      then have "\<exists>b'. scale_loop n b1 = Inr b' \<and> ring_ok b' \<and> 1 \<le> topdig b' \<and> db_idig b' \<le> max 9 (db_idig b1)"
        using s by (intro Suc.IH) auto
      moreover have "max 9 (db_idig b1) = max 9 (db_idig b)" using s True by auto
      ultimately show ?thesis using True s(1) by simp
    qed (use Suc.prems in auto)
  qed simp
  from this [OF assms(1,2), of n] show ?thesis using assms(3) by (cases "64 \<le> topdig b") simp_all
qed

section \<open>The conversion of the digits\<close>

lemma int_part_total:
  "ring_ok b \<Longrightarrow> filled b (i - 1) \<Longrightarrow> \<exists>x' i' n'. int_part b i n x = Inr (x', i', n') \<and> filled b (i' - 1)"
proof (induction b i n x rule: int_part.induct)
  case (1 b i n x)
  show ?case
  proof (cases "0 < n - 1 \<and> i \<noteq> db_lo b")
    case True
    then have f: "filled b i" using filled_succ [OF 1(3)] by simp
    obtain d where d: "xi_at (db_xi b) i = Inr d" by (rule ring_ok_at [OF 1(2) f])
    then show ?thesis using 1(1) [OF refl True d 1(2)] f True by (subst int_part.simps) (simp add: Let_def)
  next
    case False
    then show ?thesis using 1(3) by (subst int_part.simps) (auto simp: Let_def)
  qed
qed

lemma round_digit_total: "ring_ok b \<Longrightarrow> filled b i \<Longrightarrow> \<exists>r. round_digit b i = Inr r"
proof (induction b i rule: round_digit.induct)
  case (1 b i)
  obtain d where d: "xi_at (db_xi b) i = Inr d" by (rule ring_ok_at [OF 1(2,3)])
  then show ?case using 1(1) [OF d _ _ 1(2)] filled_succ [OF 1(3)] by (subst round_digit.simps) auto
qed

lemma dec_double_total: "ring_ok b \<Longrightarrow> \<exists>n. dec_double b neg = Inr n"
proof -
  assume b: "ring_ok b"
  obtain x i n where i: "int_part b (db_hi b + 1) (db_idig b) (word_of_nat (topdig b)) = Inr (x, i, n)" "filled b (i - 1)"
    using int_part_total [OF b, of "db_hi b + 1"] by fastforce
  show ?thesis
  proof (cases "i = db_lo b")
    case False
    then have "filled b i" using filled_succ [OF i(2)] by simp
    then obtain r where "round_digit b i = Inr r" using round_digit_total [OF b] by blast
    then show ?thesis using i ring_ok_top [OF b] False by (simp add: dec_double_def)
  qed (use i ring_ok_top [OF b] in \<open>simp add: dec_double_def\<close>)
qed

end
