(* ===== verification/StrscanDown.thy ===== *)
theory StrscanDown
  imports StrscanRing
begin

text \<open>
  Scaling down is long division.  The digits from \<^verbatim>\<open>hi\<close> to \<^verbatim>\<open>lo\<close> are a number to the base 100; one pass
  over them divides it by 64, drops the zeros in front, and the loop over the carry appends the
  digits behind, until the buffer is full.
\<close>

section \<open>Long division\<close>

fun value100 :: "nat list \<Rightarrow> nat" where
  "value100 [] = 0"
| "value100 (d # ds) = d * 100 ^ length ds + value100 ds"

lemma value100_append: "value100 (xs @ ys) = value100 xs * 100 ^ length ys + value100 ys"
  by (induction xs) (simp_all add: power_add algebra_simps)

lemma value100_zeros: "value100 (dropWhile (\<lambda>q. q = 0) qs) = value100 qs"
  by (induction qs) simp_all

lemma value100_hd: "ds \<noteq> [] \<Longrightarrow> hd ds * 100 ^ (length ds - 1) \<le> value100 ds"
  by (cases ds) simp_all

lemma value100_0: "value100 qs = 0 \<longleftrightarrow> (\<forall>q \<in> set qs. q = 0)"
  by (induction qs) auto

fun divs :: "nat \<Rightarrow> nat list \<Rightarrow> nat list \<times> nat" where
  "divs cy [] = ([], cy)"
| "divs cy (d # ds) = (case divs (100 * ((cy + d) mod 64)) ds of (qs, r) \<Rightarrow> ((cy + d) div 64 # qs, r))"

lemma length_divs [simp]: "length (fst (divs cy ds)) = length ds"
  by (induction ds arbitrary: cy) (simp_all split: prod.split add: case_prod_beta)

lemma divs_Cons:
  "fst (divs cy (d # ds)) = (cy + d) div 64 # fst (divs (100 * ((cy + d) mod 64)) ds)"
  "snd (divs cy (d # ds)) = snd (divs (100 * ((cy + d) mod 64)) ds)"
  by (simp_all add: case_prod_beta)

lemma divs_value: "cy * 100 ^ length ds + 100 * value100 ds = 6400 * value100 (fst (divs cy ds)) + snd (divs cy ds)"
proof (induction ds arbitrary: cy)
  case (Cons d ds)
  define c where "c = cy + d"
  have "c * 100 ^ Suc (length ds) = 64 * (c div 64) * 100 ^ Suc (length ds) + c mod 64 * 100 ^ Suc (length ds)"
    by (simp only: distrib_right [symmetric] mult_div_mod_eq)
  then show ?case using Cons.IH [of "100 * (c mod 64)"]
    by (simp add: case_prod_beta c_def [symmetric]) (simp add: c_def algebra_simps)
qed simp

lemma divs_bounds:
  "cy \<le> 6300 \<Longrightarrow> \<forall>d \<in> set ds. d \<le> 127 \<Longrightarrow> (\<forall>q \<in> set (fst (divs cy ds)). q \<le> 127) \<and> snd (divs cy ds) \<le> 6300"
proof (induction ds arbitrary: cy)
  case (Cons d ds)
  have "cy + d \<le> 6427" using Cons.prems by simp
  then have "(cy + d) div 64 \<le> 127" by simp
  moreover have "100 * ((cy + d) mod 64) \<le> 6300" by simp
  from Cons.IH [OF this] have "(\<forall>q \<in> set (fst (divs (100 * ((cy + d) mod 64)) ds)). q \<le> 127) \<and>
      snd (divs (100 * ((cy + d) mod 64)) ds) \<le> 6300" using Cons.prems(2) by simp
  ultimately show ?case by (simp add: case_prod_beta)
qed simp

text \<open>The digits of the carry.\<close>

function tails :: "nat \<Rightarrow> nat list" where
  "tails cy = (if cy = 0 then [] else cy div 64 # tails (100 * (cy mod 64)))"
  by pat_completeness auto
termination by (relation "measure carry_steps") (auto simp: carry_steps_less)

declare tails.simps [simp del]

lemma tails_0 [simp]: "tails 0 = []"
  by (simp add: tails.simps)

lemma tails_pos: "0 < cy \<Longrightarrow> tails cy = cy div 64 # tails (100 * (cy mod 64))"
  by (subst tails.simps) simp

lemma tails_value: "cy * 100 ^ length (tails cy) = 6400 * value100 (tails cy)"
proof (induction cy rule: tails.induct)
  case (1 cy)
  show ?case
  proof (cases "cy = 0")
    case False
    define t where "t = tails (100 * (cy mod 64))"
    have "cy * 100 ^ Suc (length t) = 64 * (cy div 64) * 100 ^ Suc (length t) + cy mod 64 * 100 ^ Suc (length t)"
      by (simp only: distrib_right [symmetric] mult_div_mod_eq)
    moreover have "100 * (cy mod 64) * 100 ^ length t = 6400 * value100 t" using 1 False by (simp add: t_def)
    ultimately show ?thesis using False by (simp add: tails_pos t_def [symmetric] algebra_simps)
  qed simp
qed

lemma tails_bounds: "cy \<le> 6300 \<Longrightarrow> q \<in> set (tails cy) \<Longrightarrow> q \<le> 127"
proof (induction cy rule: tails.induct)
  case (1 cy)
  then show ?case by (cases "cy = 0") (auto simp: tails_pos)
qed

text \<open>The carry ends as soon as the division is exact.\<close>

lemma tails_short: "64 dvd m * 100 ^ u \<Longrightarrow> m < 64 \<Longrightarrow> length (tails (100 * m)) \<le> u"
proof (induction u arbitrary: m)
  case 0
  then have "m = 0" using nat_dvd_not_less [of m 64] by auto
  then show ?case by simp
next
  case (Suc u)
  show ?case
  proof (cases "m = 0")
    case False
    have "64 dvd 100 * m * 100 ^ u" using Suc.prems(1) by (simp add: mult.commute mult.left_commute)
    then have "64 dvd 100 * m mod 64 * 100 ^ u" by (metis dvd_mod_iff dvd_refl mod_mult_left_eq)
    then have "length (tails (100 * (100 * m mod 64))) \<le> u" by (rule Suc.IH) simp
    then show ?thesis using False by (simp add: tails_pos)
  qed simp
qed

section \<open>Digits in the buffer\<close>

fun spells :: "nat option list \<Rightarrow> u9 \<Rightarrow> nat list \<Rightarrow> bool" where
  "spells xi i [] = True"
| "spells xi i (d # ds) = (xi_at xi i = Inr d \<and> spells xi (i + 1) ds)"

lemma spells_append: "spells xi i (xs @ ys) \<longleftrightarrow> spells xi i xs \<and> spells xi (i + of_nat (length xs)) ys"
  by (induction xs arbitrary: i) (simp_all add: algebra_simps)

lemma unat_next: "Suc n \<le> unat (k - i) \<Longrightarrow> k \<noteq> i \<and> n \<le> unat (k - (i + 1 :: u9))"
proof -
  assume n: "Suc n \<le> unat (k - i)"
  then have "k - i \<noteq> 0" by auto
  then have "unat (k - i - 1) = unat (k - i) - 1" by (rule unat_minus_one)
  then show ?thesis using n by (auto simp: diff_diff_eq)
qed

lemma spells_cong: "spells xi i ds \<Longrightarrow> (\<And>k. unat (k - i) < length ds \<Longrightarrow> xi_at xi' k = xi_at xi k) \<Longrightarrow>
    length ds \<le> 512 \<Longrightarrow> spells xi' i ds"
proof (induction ds arbitrary: i)
  case (Cons d ds)
  have "unat (k - i) < length (d # ds)" if k: "unat (k - (i + 1)) < length ds" for k
  proof (rule ccontr)
    assume "\<not> unat (k - i) < length (d # ds)"
    then have "Suc (length ds) \<le> unat (k - i)" by simp
    then show False using unat_next [of "length ds" k i] k by simp
  qed
  then show ?case using Cons by simp
qed simp

lemma spells_set:
  assumes "spells xi i ds" "length ds \<le> unat (k - i)" "length ds \<le> 512" "length xi = 512"
  shows "spells (xi_set xi k d) i ds"
  using assms by (intro spells_cong [OF assms(1)]) auto

section \<open>One pass\<close>

lemma unat_before: "unat (i - (i + 1) :: u9) = 511"
  by (simp add: unsigned_minus_1_eq_mask mask_eq_exp_minus_1)

text \<open>Behind \<^verbatim>\<open>hi\<close> the digits are replaced by those of the quotient.\<close>

lemma down_digits_rest:
  assumes "length (db_xi b) = 512" "spells (db_xi b) i (d # ds)" "\<forall>x \<in> set (d # ds). x \<le> 127" "cy \<le> 6300"
    "db_lo b = i + of_nat (Suc (length ds))" "Suc (length ds) \<le> 512" "Suc (length ds) \<le> unat (db_hi b - i)"
  shows "\<exists>xi. down_digits i cy b = Inr (b\<lparr>db_xi := xi\<rparr>, snd (divs cy (d # ds))) \<and> length xi = 512 \<and>
    spells xi i (fst (divs cy (d # ds))) \<and> (\<forall>k. Suc (length ds) \<le> unat (k - i) \<longrightarrow> xi_at xi k = xi_at (db_xi b) k)"
  using assms
proof (induction ds arbitrary: d i cy b)
  case Nil
  have ne: "db_hi b \<noteq> i" using unat_next [of 0 "db_hi b" i] Nil.prems(7) by simp
  have "cy + d \<le> 6427" using Nil.prems(3,4) by simp
  then have "(cy + d) div 64 < 256" by simp
  then show ?case using Nil.prems ne
    by (subst down_digits.simps) (auto simp: Let_def intro!: exI [of _ "xi_set (db_xi b) i ((cy + d) div 64)"])
next
  case (Cons e ds)
  let ?q = "(cy + d) div 64" and ?c = "100 * ((cy + d) mod 64)"
  let ?b = "b\<lparr>db_xi := xi_set (db_xi b) i ?q\<rparr>"
  note n = unat_next [OF Cons.prems(7)]
  have len: "length (e # ds) \<le> 511" using Cons.prems(6) by simp
  have i511: "unat (i - (i + 1)) = 511" by (rule unat_before)
  have lo: "i + 1 \<noteq> db_lo b"
  proof
    assume "i + 1 = db_lo b"
    then have "(of_nat (length (e # ds)) :: u9) = 0" using Cons.prems(5) by (simp add: algebra_simps)
    then show False using len unat_of_nat_eq [of "length (e # ds)", where 'a = 9] by simp
  qed
  have "cy + d \<le> 6427" using Cons.prems(3,4) by simp
  then have q: "?q < 256" by simp
  have c: "?c \<le> 6300" by simp
  have s: "spells (xi_set (db_xi b) i ?q) (i + 1) (e # ds)"
    using Cons.prems(1,2) len i511 by (intro spells_set) simp_all
  have lo': "db_lo ?b = i + 1 + of_nat (Suc (length ds))" using Cons.prems(5) by (simp add: algebra_simps)
  obtain xi where xi: "down_digits (i + 1) ?c ?b = Inr (?b\<lparr>db_xi := xi\<rparr>, snd (divs ?c (e # ds)))" "length xi = 512"
    "spells xi (i + 1) (fst (divs ?c (e # ds)))"
    "\<forall>k. Suc (length ds) \<le> unat (k - (i + 1)) \<longrightarrow> xi_at xi k = xi_at (xi_set (db_xi b) i ?q) k"
    using Cons.IH [OF _ _ _ _ lo', of e ?c] s c Cons.prems n len by auto
  have step: "down_digits i cy b = down_digits (i + 1) ?c ?b"
    using Cons.prems(2) n lo by (subst down_digits.simps) (auto simp: Let_def)
  have keep: "xi_at xi k = xi_at (db_xi b) k" if "Suc (length (e # ds)) \<le> unat (k - i)" for k
    using unat_next [OF that] xi(4) Cons.prems(1) by auto
  have "xi_at xi i = Inr ?q" using xi(4) len i511 Cons.prems(1) q by simp
  then have "spells xi i (?q # fst (divs ?c (e # ds)))" using xi(3) unfolding spells.simps by blast
  then show ?case unfolding step divs_Cons [of cy d "e # ds"]
    using xi(1,2) keep by (intro exI [of _ xi] conjI) (simp_all del: divs.simps(2))
qed

text \<open>At \<^verbatim>\<open>hi\<close> the zeros in front of the quotient are dropped.\<close>

lemma down_digits_hi:
  assumes "length (db_xi b) = 512" "spells (db_xi b) i (d # ds)" "\<forall>x \<in> set (d # ds). x \<le> 127" "cy \<le> 6300"
    "db_lo b = i + of_nat (Suc (length ds))" "Suc (length ds) \<le> 512" "db_hi b = i"
    "z = length (takeWhile (\<lambda>q. q = 0) (fst (divs cy (d # ds))))"
  shows "\<exists>xi. down_digits i cy b = Inr (b\<lparr>db_xi := xi, db_hi := i + of_nat z, db_idig := db_idig b - int z\<rparr>, snd (divs cy (d # ds))) \<and>
    length xi = 512 \<and> spells xi i (fst (divs cy (d # ds))) \<and>
    (\<forall>k. Suc (length ds) \<le> unat (k - i) \<longrightarrow> xi_at xi k = xi_at (db_xi b) k)"
  using assms
proof (induction ds arbitrary: d i cy b z)
  case Nil
  have "cy + d \<le> 6427" using Nil.prems(3,4) by simp
  then have q: "(cy + d) div 64 < 256" by simp
  show ?case
  proof (cases "(cy + d) div 64 = 0")
    case True
    then show ?thesis using Nil.prems
      by (subst down_digits.simps) (auto simp: Let_def intro!: exI [of _ "xi_set (db_xi b) i 0"])
  next
    case False
    then show ?thesis using Nil.prems q
      by (cases b, subst down_digits.simps) (auto simp: Let_def intro!: exI [of _ "xi_set (db_xi b) i ((cy + d) div 64)"])
  qed
next
  case (Cons e ds)
  let ?q = "(cy + d) div 64" and ?c = "100 * ((cy + d) mod 64)"
  let ?b = "b\<lparr>db_xi := xi_set (db_xi b) i ?q\<rparr>"
  let ?b1 = "?b\<lparr>db_hi := i + 1, db_idig := db_idig b - 1\<rparr>"
  have len: "length (e # ds) \<le> 511" using Cons.prems(6) by simp
  have i511: "unat (i - (i + 1)) = 511" by (rule unat_before)
  have lo: "i + 1 \<noteq> db_lo b"
  proof
    assume "i + 1 = db_lo b"
    then have "(of_nat (length (e # ds)) :: u9) = 0" using Cons.prems(5) by (simp add: algebra_simps)
    then show False using len unat_of_nat_eq [of "length (e # ds)", where 'a = 9] by simp
  qed
  have "cy + d \<le> 6427" using Cons.prems(3,4) by simp
  then have q: "?q < 256" by simp
  have c: "?c \<le> 6300" by simp
  have s: "spells (xi_set (db_xi b) i ?q) (i + 1) (e # ds)"
    using Cons.prems(1,2) len i511 by (intro spells_set) simp_all
  have lo': "db_lo b = i + 1 + of_nat (Suc (length ds))" using Cons.prems(5) by (simp add: algebra_simps)
  have keep: "xi_at xi i = Inr ?q \<and> (\<forall>k. Suc (length (e # ds)) \<le> unat (k - i) \<longrightarrow> xi_at xi k = xi_at (db_xi b) k)"
    if "\<forall>k. Suc (length ds) \<le> unat (k - (i + 1)) \<longrightarrow> xi_at xi k = xi_at (xi_set (db_xi b) i ?q) k" for xi
    using that len i511 Cons.prems(1) q unat_next [of "length (e # ds)" _ i] by auto
  show ?case
  proof (cases "?q = 0")
    case True
    define z' where "z' = length (takeWhile (\<lambda>q. q = 0) (fst (divs ?c (e # ds))))"
    have z: "z = Suc z'" using Cons.prems(8) True by (simp add: case_prod_beta z'_def)
    obtain xi where xi: "down_digits (i + 1) ?c ?b1 =
        Inr (?b1\<lparr>db_xi := xi, db_hi := i + 1 + of_nat z', db_idig := db_idig ?b1 - int z'\<rparr>, snd (divs ?c (e # ds)))" "length xi = 512"
      "spells xi (i + 1) (fst (divs ?c (e # ds)))"
      "\<forall>k. Suc (length ds) \<le> unat (k - (i + 1)) \<longrightarrow> xi_at xi k = xi_at (xi_set (db_xi b) i ?q) k"
      using Cons.IH [of ?b1 "i + 1" e ?c z', OF _ _ _ _ _ _ _ z'_def] s c Cons.prems(1,3) len lo' by auto
    have b1: "?b1\<lparr>db_xi := xi, db_hi := i + 1 + of_nat z', db_idig := db_idig ?b1 - int z'\<rparr> =
        b\<lparr>db_xi := xi, db_hi := i + of_nat z, db_idig := db_idig b - int z\<rparr>"
      by (simp add: z algebra_simps)
    have step: "down_digits i cy b = down_digits (i + 1) ?c ?b1"
      using Cons.prems(2,7) lo True by (subst down_digits.simps) (auto simp: Let_def)
    have "spells xi i (?q # fst (divs ?c (e # ds)))" using keep [OF xi(4)] xi(3) unfolding spells.simps by blast
    then show ?thesis unfolding step divs_Cons [of cy d "e # ds"] xi(1) b1
      using xi(2) keep [OF xi(4)] by (intro exI [of _ xi] conjI) simp_all
  next
    case False
    have z: "z = 0" using Cons.prems(8) False by (simp add: case_prod_beta)
    have hi: "unat (db_hi b - (i + 1)) = 511" using Cons.prems(7) i511 by simp
    obtain xi where xi: "down_digits (i + 1) ?c ?b = Inr (?b\<lparr>db_xi := xi\<rparr>, snd (divs ?c (e # ds)))" "length xi = 512"
      "spells xi (i + 1) (fst (divs ?c (e # ds)))"
      "\<forall>k. Suc (length ds) \<le> unat (k - (i + 1)) \<longrightarrow> xi_at xi k = xi_at (xi_set (db_xi b) i ?q) k"
      using down_digits_rest [of ?b "i + 1" e ds ?c] s c Cons.prems(1,3) len lo' hi by auto
    have step: "down_digits i cy b = down_digits (i + 1) ?c ?b"
      using Cons.prems(2) lo False q by (subst down_digits.simps) (auto simp: Let_def)
    have b1: "?b\<lparr>db_xi := xi\<rparr> = b\<lparr>db_xi := xi, db_hi := i + of_nat z, db_idig := db_idig b - int z\<rparr>"
      using Cons.prems(7) z by (cases b) simp
    have "spells xi i (?q # fst (divs ?c (e # ds)))" using keep [OF xi(4)] xi(3) unfolding spells.simps by blast
    then show ?thesis unfolding step divs_Cons [of cy d "e # ds"] xi(1) b1
      using xi(2) keep [OF xi(4)] by (intro exI [of _ xi] conjI) simp_all
  qed
qed

section \<open>The buffer as a list\<close>

definition holds :: "digbuf \<Rightarrow> nat list \<Rightarrow> bool" where
  "holds b ds \<longleftrightarrow> length (db_xi b) = 512 \<and> ds \<noteq> [] \<and> length ds \<le> 512 \<and>
     db_lo b = db_hi b + of_nat (length ds) \<and> spells (db_xi b) (db_hi b) ds \<and> (\<forall>d \<in> set ds. d \<le> 127) \<and> 1 \<le> hd ds"

lemma spells_at: "spells xi i ds \<Longrightarrow> j < length ds \<Longrightarrow> xi_at xi (i + of_nat j) = Inr (ds ! j)"
proof (induction ds arbitrary: i j)
  case (Cons d ds)
  show ?case
  proof (cases j)
    case (Suc n)
    then have "xi_at xi (i + 1 + of_nat n) = Inr (ds ! n)" using Cons by simp
    then show ?thesis using Suc by (simp add: algebra_simps)
  qed (use Cons.prems in simp)
qed simp

lemma holds_ring:
  assumes "holds b ds"
  shows "ring_ok b" "topdig b = hd ds"
proof -
  note h = assms [unfolded holds_def]
  show "topdig b = hd ds" using h by (intro topdig_at) (cases ds; simp)
  have "\<exists>d \<le> 127. xi_at (db_xi b) j = Inr d" if f: "filled b j" for j
  proof -
    define n where "n = unat (j - db_hi b)"
    have j: "j = db_hi b + of_nat n" by (simp add: n_def)
    have l: "db_lo b - 1 - db_hi b = of_nat (length ds - 1)" using h by (cases ds) simp_all
    have "length ds - 1 < 2 ^ 9" using h by (cases ds) simp_all
    then have "unat (of_nat (length ds - 1) :: u9) = length ds - 1" by (intro unat_of_nat_eq) simp
    then have "n \<le> length ds - 1" using f unfolding filled_def l by (simp add: n_def word_le_nat_alt)
    moreover have "0 < length ds" using h by simp
    ultimately have "n < length ds" by linarith
    then show ?thesis using spells_at [of "db_xi b" "db_hi b" ds n] h j by auto
  qed
  then show "ring_ok b" using h by (simp add: ring_ok_def)
qed

lemma holds_full:
  assumes "holds b ds"
  shows "db_hi b = db_lo b \<longleftrightarrow> length ds = 512"
proof -
  have "db_hi b = db_lo b \<longleftrightarrow> (of_nat (length ds) :: u9) = 0" using assms by (auto simp: holds_def)
  also have "\<dots> \<longleftrightarrow> 512 dvd length ds" by (simp add: word_of_nat_eq_0_iff)
  also have "\<dots> \<longleftrightarrow> length ds = 512" using assms by (auto simp: holds_def dest: dvd_imp_le)
  finally show ?thesis .
qed

lemma down_carry_holds:
  "holds b ds \<Longrightarrow> cy \<le> 6300 \<Longrightarrow> \<exists>b' ds'. down_carry cy b = Inr b' \<and> holds b' ds' \<and> db_hi b' = db_hi b \<and>
    db_idig b' = db_idig b \<and> hd ds' = hd ds \<and> (512 \<le> length ds + length (tails cy) \<and> length ds' = 512 \<or>
      ds' = ds @ tails cy \<and> (\<forall>k. length ds' \<le> unat (k - db_hi b) \<longrightarrow> xi_at (db_xi b') k = xi_at (db_xi b) k))"
proof (induction cy b arbitrary: ds rule: down_carry.induct)
  case (1 cy b)
  note h = "1.prems"(1) [unfolded holds_def]
  consider "cy = 0" | "cy \<noteq> 0" "db_hi b = db_lo b" | "cy \<noteq> 0" "db_hi b \<noteq> db_lo b" by blast
  then show ?case
  proof cases
    case 1
    then show ?thesis using "1.prems" by (auto simp: down_carry.simps)
  next
    case 2
    then have l: "length ds = 512" using holds_full [OF "1.prems"(1)] by simp
    define es where "es = butlast ds"
    have ds: "ds = es @ [last ds]" "length es = 511" using l h by (simp_all add: es_def)
    have "db_hi b + 511 = db_lo b - 1" using 2(2) by simp
    have "spells (db_xi b) (db_hi b) (es @ [last ds])" using h ds(1) by metis
    then have at: "spells (db_xi b) (db_hi b) es" "xi_at (db_xi b) (db_lo b - 1) = Inr (last ds)"
      unfolding spells_append ds(2) of_nat_numeral \<open>db_hi b + 511 = db_lo b - 1\<close> by simp_all
    have o: "last ds OR 1 \<le> 127" using h by (intro or_less_128) simp_all
    let ?xi = "xi_set (db_xi b) (db_lo b - 1) (last ds OR 1)"
    have "unat (db_lo b - 1 - db_hi b) = 511" using 2(2) unat_before [of "db_lo b - 1"] by simp
    then have "spells ?xi (db_hi b) es" using ds(2) h by (intro spells_set [OF at(1)]) simp_all
    moreover have "xi_at ?xi (db_hi b + of_nat (length es)) = Inr (last ds OR 1)"
      unfolding ds(2) of_nat_numeral \<open>db_hi b + 511 = db_lo b - 1\<close> using h o by simp
    ultimately have "spells ?xi (db_hi b) (es @ [last ds OR 1])" unfolding spells_append by simp
    moreover have "hd (es @ [last ds OR 1]) = hd ds"
      using ds(2) arg_cong [OF ds(1), of hd] by (auto simp: hd_append)
    moreover have "\<forall>d \<in> set es. d \<le> 127" using h by (auto simp: es_def dest: in_set_butlastD)
    moreover have "length (es @ [last ds OR 1]) = length ds" using l ds(2) by simp
    ultimately have "holds (b\<lparr>db_xi := ?xi\<rparr>) (es @ [last ds OR 1])"
      using h o unfolding holds_def by (auto simp del: length_append)
    moreover have "down_carry cy b = Inr (b\<lparr>db_xi := ?xi\<rparr>)" using 2 at(2) by (simp add: down_carry.simps [of cy])
    moreover have "512 \<le> length ds + length (tails cy)" using l by simp
    ultimately show ?thesis using ds(2) \<open>hd (es @ [last ds OR 1]) = hd ds\<close>
      by (intro exI [of _ "b\<lparr>db_xi := ?xi\<rparr>"] exI [of _ "es @ [last ds OR 1]"]) simp
  next
    case 3
    let ?q = "cy div 64" and ?c = "100 * (cy mod 64)"
    let ?b = "b\<lparr>db_xi := xi_set (db_xi b) (db_lo b) ?q, db_lo := db_lo b + 1\<rparr>"
    have l: "length ds < 512" using holds_full [OF "1.prems"(1)] 3(2) h by linarith
    have u: "unat (db_lo b - db_hi b) = length ds" using h l by (simp add: unat_of_nat_eq)
    have q: "?q \<le> 127" using "1.prems"(2) by simp
    have "spells (xi_set (db_xi b) (db_lo b) ?q) (db_hi b) (ds @ [?q])"
      using h u q by (simp add: spells_append spells_set)
    then have "holds ?b (ds @ [?q])" using h l q by (simp add: holds_def)
    moreover have "?c \<le> 6300" by simp
    ultimately obtain b' ds' where b': "down_carry ?c ?b = Inr b'" "holds b' ds'"
      "db_hi b' = db_hi b" "db_idig b' = db_idig b" "hd ds' = hd (ds @ [?q])"
      "512 \<le> length (ds @ [?q]) + length (tails ?c) \<and> length ds' = 512 \<or> ds' = (ds @ [?q]) @ tails ?c \<and>
        (\<forall>k. length ds' \<le> unat (k - db_hi b) \<longrightarrow> xi_at (db_xi b') k = xi_at (xi_set (db_xi b) (db_lo b) ?q) k)"
      using "1.IH" [OF 3(1) refl refl 3(2), of "ds @ [?q]"] by auto
    have "down_carry cy b = Inr b'" using b'(1) 3 by (simp add: down_carry.simps [of cy b])
    moreover have "hd ds' = hd ds" using b'(5) h by simp
    moreover have "512 \<le> length ds + length (tails cy) \<and> length ds' = 512 \<or> ds' = ds @ tails cy \<and>
        (\<forall>k. length ds' \<le> unat (k - db_hi b) \<longrightarrow> xi_at (db_xi b') k = xi_at (db_xi b) k)"
      using b'(6)
    proof
      assume a: "ds' = (ds @ [?q]) @ tails ?c \<and>
        (\<forall>k. length ds' \<le> unat (k - db_hi b) \<longrightarrow> xi_at (db_xi b') k = xi_at (xi_set (db_xi b) (db_lo b) ?q) k)"
      have "xi_at (db_xi b') k = xi_at (db_xi b) k" if "length ds' \<le> unat (k - db_hi b)" for k
      proof -
        have "k \<noteq> db_lo b" using that a u by auto
        then show ?thesis using a that h by simp
      qed
      then show ?thesis using a 3(1) by (simp add: tails_pos)
    qed (use 3(1) in \<open>simp add: tails_pos\<close>)
    ultimately show ?thesis using b'(2-4) by blast
  qed
qed

section \<open>One round\<close>

text \<open>A number below 64 is one digit; dividing it empties the buffer.\<close>

lemma holds_small:
  assumes "holds b ds" "value100 ds < 64"
  shows "length ds = 1" "value100 ds = hd ds"
proof -
  note h = assms(1) [unfolded holds_def]
  have "1 * 100 ^ (length ds - 1) \<le> hd ds * 100 ^ (length ds - 1)" using h by (intro mult_right_mono) simp_all
  also have "\<dots> \<le> value100 ds" using h by (intro value100_hd) simp
  finally have "(100::nat) ^ (length ds - 1) < 64" using assms(2) by simp
  moreover have "64 \<le> (100::nat) ^ Suc n" for n
  proof -
    have "(1::nat) \<le> 100 ^ n" by simp
    then show ?thesis by (simp only: power_Suc)
  qed
  ultimately have "length ds - 1 = 0" by (metis not_less old.nat.exhaust)
  then show "length ds = 1" using h by (cases ds) simp_all
  then show "value100 ds = hd ds" by (cases ds) simp_all
qed

lemma scale_down_empty:
  assumes "holds b ds" "value100 ds < 64"
  shows "\<exists>b'. scale_down b = Inr b' \<and> db_hi b' = db_lo b \<and> db_idig b' = db_idig b - 1 \<and>
    xi_at (db_xi b') (db_lo b) = xi_at (db_xi b) (db_lo b)"
proof -
  note h = assms(1) [unfolded holds_def]
  obtain d where ds: "ds = [d]" using holds_small(1) [OF assms] by (auto simp: length_Suc_conv)
  have d: "1 \<le> d" "d < 64" "xi_at (db_xi b) (db_hi b) = Inr d" "db_lo b = db_hi b + 1"
    using h assms(2) ds by simp_all
  have "down_digits (db_hi b) 0 (b\<lparr>db_ex2 := db_ex2 b + 6\<rparr>) =
      Inr (b\<lparr>db_xi := xi_set (db_xi b) (db_hi b) 0, db_hi := db_lo b, db_idig := db_idig b - 1, db_ex2 := db_ex2 b + 6\<rparr>, 100 * d)"
    using d by (subst down_digits.simps) (simp add: Let_def)
  then show ?thesis using d h by (auto simp: scale_down_def down_carry.simps [of "100 * d"])
qed

text \<open>A larger number is divided by 64.\<close>

abbreviation quots :: "nat list \<Rightarrow> nat list" where "quots ds \<equiv> fst (divs 0 ds)"
abbreviation carry100 :: "nat list \<Rightarrow> nat" where "carry100 ds \<equiv> snd (divs 0 ds)"
abbreviation heads :: "nat list \<Rightarrow> nat list" where "heads qs \<equiv> dropWhile (\<lambda>q. q = 0) qs"
abbreviation zeros :: "nat list \<Rightarrow> nat" where "zeros qs \<equiv> length (takeWhile (\<lambda>q. q = 0) qs)"

lemma quots_value: "value100 ds * 100 ^ length (tails (carry100 ds)) = 64 * value100 (heads (quots ds) @ tails (carry100 ds))"
proof -
  let ?p = "100 ^ length (tails (carry100 ds)) :: nat"
  have "100 * (value100 ds * ?p) = (6400 * value100 (quots ds) + carry100 ds) * ?p"
    using divs_value [of 0 ds] by simp
  also have "\<dots> = 6400 * (value100 (quots ds) * ?p + value100 (tails (carry100 ds)))"
    using tails_value [of "carry100 ds"] by (simp add: algebra_simps)
  finally show ?thesis by (simp add: value100_append value100_zeros)
qed

lemma zeros_heads: "zeros qs + length (heads qs) = length qs"
  by (metis length_append takeWhile_dropWhile_id)

lemma scale_down_round:
  assumes h: "holds b ds" and v: "64 \<le> value100 ds"
  shows "\<exists>b' ds'. scale_down b = Inr b' \<and> holds b' ds' \<and> db_hi b' = db_hi b + of_nat (zeros (quots ds)) \<and>
    db_idig b' = db_idig b - int (zeros (quots ds)) \<and> (64 \<le> hd ds \<longrightarrow> hd ds' = 1) \<and>
    (512 \<le> length (heads (quots ds)) + length (tails (carry100 ds)) \<and> length ds' = 512 \<or>
      ds' = heads (quots ds) @ tails (carry100 ds) \<and>
      (\<forall>k. length ds + length (tails (carry100 ds)) \<le> unat (k - db_hi b) \<longrightarrow> xi_at (db_xi b') k = xi_at (db_xi b) k))"
proof -
  note hb = h [unfolded holds_def]
  obtain d es where ds: "ds = d # es" using hb by (cases ds) auto
  let ?b = "b\<lparr>db_ex2 := db_ex2 b + 6\<rparr>" and ?z = "zeros (quots ds)"
  obtain xi where xi: "down_digits (db_hi b) 0 ?b =
      Inr (?b\<lparr>db_xi := xi, db_hi := db_hi b + of_nat ?z, db_idig := db_idig b - int ?z\<rparr>, carry100 ds)" "length xi = 512"
    "spells xi (db_hi b) (quots ds)" "\<forall>k. length ds \<le> unat (k - db_hi b) \<longrightarrow> xi_at xi k = xi_at (db_xi b) k"
    using down_digits_hi [of ?b "db_hi b" d es 0, OF _ _ _ _ _ _ _ refl] hb ds by auto
  let ?b1 = "?b\<lparr>db_xi := xi, db_hi := db_hi b + of_nat ?z, db_idig := db_idig b - int ?z\<rparr>"
  have bd: "\<forall>q \<in> set (quots ds). q \<le> 127" "carry100 ds \<le> 6300" using divs_bounds [of 0 ds] hb by auto
  have ne: "heads (quots ds) \<noteq> []"
  proof
    assume "heads (quots ds) = []"
    then have "value100 (quots ds) = 0" using value100_zeros [of "quots ds"] by (simp only: value100.simps)
    then have "100 * value100 ds = carry100 ds" using divs_value [of 0 ds] by simp
    then show False using bd(2) v by simp
  qed
  have hd1: "1 \<le> hd (heads (quots ds))" using hd_dropWhile [OF ne] by simp
  have len: "?z + length (heads (quots ds)) = length ds" using zeros_heads [of "quots ds"] by simp
  have "spells xi (db_hi b) (takeWhile (\<lambda>q. q = 0) (quots ds) @ heads (quots ds))" using xi(3) by simp
  then have "spells xi (db_hi b + of_nat ?z) (heads (quots ds))" by (simp only: spells_append)
  moreover have "db_lo b = db_hi b + of_nat ?z + of_nat (length (heads (quots ds)))"
    using hb arg_cong [OF len, of "of_nat :: nat \<Rightarrow> u9"] by (simp add: algebra_simps)
  moreover have "\<forall>q \<in> set (heads (quots ds)). q \<le> 127" using bd(1) by (meson set_dropWhileD)
  ultimately have "holds ?b1 (heads (quots ds))" using ne hd1 len xi(2) hb by (simp add: holds_def)
  from down_carry_holds [OF this bd(2)] obtain b' ds' where b': "down_carry (carry100 ds) ?b1 = Inr b'" "holds b' ds'"
    "db_hi b' = db_hi b + of_nat ?z" "db_idig b' = db_idig b - int ?z" "hd ds' = hd (heads (quots ds))"
    "512 \<le> length (heads (quots ds)) + length (tails (carry100 ds)) \<and> length ds' = 512 \<or> ds' = heads (quots ds) @ tails (carry100 ds) \<and>
      (\<forall>k. length ds' \<le> unat (k - (db_hi b + of_nat ?z)) \<longrightarrow> xi_at (db_xi b') k = xi_at xi k)" by auto
  have "hd ds' = 1" if "64 \<le> hd ds"
  proof -
    have "d div 64 = 1" using that ds hb by (simp add: div_nat_eqI)
    then show ?thesis using b'(5) by (simp add: ds case_prod_beta)
  qed
  moreover have "512 \<le> length (heads (quots ds)) + length (tails (carry100 ds)) \<and> length ds' = 512 \<or> ds' = heads (quots ds) @ tails (carry100 ds) \<and>
      (\<forall>k. length ds + length (tails (carry100 ds)) \<le> unat (k - db_hi b) \<longrightarrow> xi_at (db_xi b') k = xi_at (db_xi b) k)"
  proof (cases "512 \<le> length (heads (quots ds)) + length (tails (carry100 ds)) \<and> length ds' = 512")
    case False
    then have app: "ds' = heads (quots ds) @ tails (carry100 ds)"
      "\<forall>k. length ds' \<le> unat (k - (db_hi b + of_nat ?z)) \<longrightarrow> xi_at (db_xi b') k = xi_at xi k" using b'(6) by blast+
    have "length ds' \<le> unat (k - (db_hi b + of_nat ?z))" if k: "length ds + length (tails (carry100 ds)) \<le> unat (k - db_hi b)" for k
    proof -
      have z: "?z \<le> unat (k - db_hi b)" using k len by simp
      then have "unat (of_nat ?z :: u9) = ?z" using u9_less [of "k - db_hi b"] by (intro unat_of_nat_eq) simp
      then have "unat (k - db_hi b - of_nat ?z) = unat (k - db_hi b) - ?z"
        using z by (subst unat_sub) (simp_all add: word_le_nat_alt)
      moreover have "length ds' = length (heads (quots ds)) + length (tails (carry100 ds))" using app(1) by simp
      ultimately show ?thesis using k len by (simp add: diff_diff_eq)
    qed
    then show ?thesis using app xi(4) by simp
  qed blast
  moreover have "scale_down b = Inr b'" using xi(1) b'(1) by (simp add: scale_down_def)
  ultimately show ?thesis using b'(2-4) by blast
qed

lemma zeros_first: "holds b ds \<Longrightarrow> hd ds < 64 \<Longrightarrow> 1 \<le> zeros (quots ds)"
  by (cases ds) (auto simp: holds_def case_prod_beta)

end
