(* ===== verification/StrscanEmpty.thy ===== *)
theory StrscanEmpty
  imports StrscanDown
begin

text \<open>
  When the circular buffer runs empty.  As long as the divisions by 64 are exact up to the digits
  appended, the number in the buffer is known; the buffer runs empty when that number is below 64
  while there are still more than nine base-100 digits before the point.
\<close>

section \<open>The number in the buffer\<close>

text \<open>
  After \<open>s\<close> rounds with \<open>a\<close> digits appended and \<open>p\<close> dropped: the buffer holds the number times
  \<open>100 ^ a\<close> divided by \<open>64 ^ s\<close>, no fewer digits would do, and the bytes behind are not written.
\<close>

definition exact_div :: "nat list \<Rightarrow> digbuf \<Rightarrow> nat list \<Rightarrow> nat \<Rightarrow> nat \<Rightarrow> nat \<Rightarrow> bool" where
  "exact_div xi b ds s a p \<longleftrightarrow>
     value100 xi * 100 ^ a = value100 ds * 64 ^ s \<and> length ds + p = length xi + a \<and> length xi + a \<le> 511 \<and>
     db_hi b = of_nat p \<and> (\<forall>k. length xi + a \<le> unat k \<longrightarrow> xi_at (db_xi b) k = Inl Undef) \<and>
     (\<forall>u. 64 ^ s dvd value100 xi * 100 ^ u \<longrightarrow> a \<le> u)"

lemma carry100_value:
  assumes "holds b ds"
  shows "carry100 ds = 100 * (value100 ds mod 64)"
proof -
  have r: "carry100 ds \<le> 6300" using divs_bounds [of 0 ds] assms by (auto simp: holds_def)
  have e: "100 * value100 ds = 6400 * value100 (quots ds) + carry100 ds" using divs_value [of 0 ds] by simp
  then have "100 * (64 * value100 (quots ds)) \<le> 100 * value100 ds" by simp
  then have "64 * value100 (quots ds) \<le> value100 ds" by simp
  then obtain m where m: "value100 ds = 64 * value100 (quots ds) + m" using le_Suc_ex by blast
  then have "carry100 ds = 100 * m" using e by simp
  moreover have "m < 64" using r \<open>carry100 ds = 100 * m\<close> by simp
  ultimately show ?thesis using m by simp
qed

lemma exact_appended:
  assumes "holds b ds" "exact_div xi b ds s a p" "64 ^ Suc s dvd value100 xi * 100 ^ u"
  shows "a + length (tails (carry100 ds)) \<le> u"
proof -
  have "(64::nat) ^ s dvd 64 ^ Suc s" by simp
  then have "64 ^ s dvd value100 xi * 100 ^ u" using assms(3) by (rule dvd_trans)
  then have au: "a \<le> u" using assms(2) by (simp add: exact_div_def)
  have "value100 xi * 100 ^ u = value100 xi * 100 ^ a * 100 ^ (u - a)"
    using au by (simp add: power_add [symmetric] mult.assoc)
  also have "\<dots> = 64 ^ s * (value100 ds * 100 ^ (u - a))" using assms(2) by (simp add: exact_div_def)
  finally have "64 ^ s * 64 dvd 64 ^ s * (value100 ds * 100 ^ (u - a))" using assms(3) by (simp add: mult.commute)
  then have "64 dvd value100 ds * 100 ^ (u - a)" by simp
  then have "64 dvd value100 ds mod 64 * 100 ^ (u - a)" by (metis dvd_mod_iff dvd_refl mod_mult_left_eq)
  then have "length (tails (carry100 ds)) \<le> u - a" unfolding carry100_value [OF assms(1)] by (rule tails_short) simp
  then show ?thesis using au by simp
qed

lemma exact_round:
  assumes h: "holds b ds" and e: "exact_div xi b ds s a p" and v: "64 \<le> value100 ds"
    and b': "db_hi b' = db_hi b + of_nat (zeros (quots ds))" "ds' = heads (quots ds) @ tails (carry100 ds)"
      "\<forall>k. length ds + length (tails (carry100 ds)) \<le> unat (k - db_hi b) \<longrightarrow> xi_at (db_xi b') k = xi_at (db_xi b) k"
    and len: "length xi + a + length (tails (carry100 ds)) \<le> 511"
  shows "exact_div xi b' ds' (Suc s) (a + length (tails (carry100 ds))) (p + zeros (quots ds))"
proof -
  let ?t = "length (tails (carry100 ds))" and ?z = "zeros (quots ds)"
  note ed = e [unfolded exact_div_def]
  have val: "value100 xi * 100 ^ (a + ?t) = value100 ds' * 64 ^ Suc s"
  proof -
    have "value100 xi * 100 ^ (a + ?t) = value100 xi * 100 ^ a * 100 ^ ?t" by (simp add: power_add)
    also have "\<dots> = value100 ds * 100 ^ ?t * 64 ^ s" using ed by simp
    also have "\<dots> = value100 ds' * 64 ^ Suc s" unfolding quots_value b'(2) by simp
    finally show ?thesis .
  qed
  have l: "length ds' + (p + ?z) = length xi + (a + ?t)" using ed zeros_heads [of "quots ds"] by (simp add: b'(2))
  have fresh: "xi_at (db_xi b') k = Inl Undef" if k: "length xi + (a + ?t) \<le> unat k" for k
  proof -
    have "unat (of_nat p :: u9) = p" using ed by (intro unat_of_nat_eq) simp
    moreover have "p \<le> unat k" using k ed by simp
    ultimately have "unat (k - db_hi b) = unat k - p" using ed by (subst unat_sub) (simp_all add: word_le_nat_alt)
    moreover have "length ds + p = length xi + a" using ed by simp
    then have "length ds + ?t + p \<le> unat k" using k by linarith
    ultimately have "length ds + ?t \<le> unat (k - db_hi b)" by simp
    then show ?thesis using b'(3) ed k by simp
  qed
  show ?thesis unfolding exact_div_def using val l len fresh exact_appended [OF h e] ed b'(1) by simp
qed

lemma exact_small:
  assumes "holds b ds" "exact_div xi b ds s a p" "value100 ds < 64"
  shows "length xi + a = p + 1" "xi_at (db_xi b) (db_lo b) = Inl Undef"
proof -
  show l: "length xi + a = p + 1" using holds_small(1) [OF assms(1,3)] assms(2) by (simp add: exact_div_def)
  have "db_lo b = db_hi b + of_nat (length ds)" "db_hi b = of_nat p" using assms(1,2) by (simp_all add: holds_def exact_div_def)
  then have "db_lo b = of_nat (p + 1)" unfolding holds_small(1) [OF assms(1,3)] by simp
  moreover have "unat (of_nat (p + 1) :: u9) = p + 1" using assms(2) l by (intro unat_of_nat_eq) (simp add: exact_div_def)
  ultimately show "xi_at (db_xi b) (db_lo b) = Inl Undef" using assms(2) l by (simp add: exact_div_def)
qed

section \<open>The loop and the conversion\<close>

definition finish :: "nat \<Rightarrow> digbuf \<Rightarrow> bool \<Rightarrow> u64 res" where
  "finish n b neg = rbind (shrink_loop n b) (\<lambda>b. dec_double b neg)"

lemma finish_stop: "db_idig b \<le> 9 \<Longrightarrow> 0 < n \<Longrightarrow> finish n b neg = dec_double b neg"
  by (cases n) (auto simp: finish_def)

lemma finish_round: "9 < db_idig b \<Longrightarrow> scale_down b = Inr b' \<Longrightarrow> finish (Suc n) b neg = finish n b' neg"
  by (simp add: finish_def)

lemma finish_unwritten: "xi_at (db_xi b) (db_hi b) = Inl Undef \<Longrightarrow> 0 < n \<Longrightarrow> finish n b neg = Inl Undef"
  by (cases n) (auto simp: finish_def scale_down_def down_digits.simps [of "db_hi b"] dec_double_def)

definition fuel_for :: "digbuf \<Rightarrow> nat list \<Rightarrow> int" where
  "fuel_for b ds = 2 * db_idig b + (if 64 \<le> hd ds then 1 else 0) + 2"

lemma fuel_round:
  assumes "holds b ds" "db_idig b' = db_idig b - int (zeros (quots ds))" "64 \<le> hd ds \<longrightarrow> hd ds' = 1"
  shows "fuel_for b' ds' < fuel_for b ds"
  using assms zeros_first [OF assms(1)] by (cases "64 \<le> hd ds") (auto simp: fuel_for_def)

lemma finish_empty:
  assumes "holds b ds" "exact_div xi b ds s a p" "value100 ds < 64" "9 < db_idig b" "1 < n"
  shows "finish n b neg = Inl Undef"
proof -
  obtain b' where b': "scale_down b = Inr b'" "db_hi b' = db_lo b" "xi_at (db_xi b') (db_lo b) = xi_at (db_xi b) (db_lo b)"
    using scale_down_empty [OF assms(1,3)] by blast
  obtain m where n: "n = Suc m" "0 < m" using assms(5) by (cases n) auto
  have "finish m b' neg = Inl Undef" by (rule finish_unwritten [OF _ n(2)]) (simp add: b' exact_small [OF assms(1-3)])
  then show ?thesis using finish_round [OF assms(4) b'(1)] n(1) by simp
qed

text \<open>The digits whose number the loop brings below 64 too early.\<close>

definition runs_empty :: "nat list \<Rightarrow> int \<Rightarrow> bool" where
  "runs_empty xi idig \<longleftrightarrow> idig \<le> 155 \<and>
     (\<exists>a r v. value100 xi * 100 ^ a = v * 64 ^ r \<and> 1 \<le> v \<and> v < 64 \<and> int (length xi + a) + 9 \<le> idig)"

lemma value100_pos: "holds b ds \<Longrightarrow> 1 \<le> value100 ds"
proof -
  assume h: "holds b ds"
  then have "1 * 1 \<le> hd ds * 100 ^ (length ds - 1)" by (intro mult_le_mono) (simp_all add: holds_def)
  also have "\<dots> \<le> value100 ds" using h by (intro value100_hd) (simp add: holds_def)
  finally show ?thesis by simp
qed

lemma finish_total:
  assumes "holds b ds" "db_idig b = idig - int p" "idig \<le> 155" "512 \<le> length ds + p \<or> (\<exists>s a. exact_div xi b ds s a p)"
    "fuel_for b ds \<le> int n" "1 < n"
  shows "(\<exists>x. finish n b neg = Inr x) \<or> (finish n b neg = Inl Undef \<and> runs_empty xi idig)"
  using assms
proof (induction n arbitrary: b ds p)
  case (Suc n)
  note h = Suc.prems(1)
  consider "db_idig b \<le> 9" | "9 < db_idig b" "value100 ds < 64" | "9 < db_idig b" "64 \<le> value100 ds" by linarith
  then show ?case
  proof cases
    case 1
    then show ?thesis using dec_double_total [OF holds_ring(1) [OF h], of neg] by (simp add: finish_stop)
  next
    case 2
    have "length ds + p < 512" using 2 holds_small(1) [OF h 2(2)] Suc.prems(2,3) by simp
    then obtain s a where e: "exact_div xi b ds s a p" using Suc.prems(4) by auto
    have "value100 xi * 100 ^ a = value100 ds * 64 ^ s" using e by (simp add: exact_div_def)
    moreover have "int (length xi + a) + 9 \<le> idig" using exact_small(1) [OF h e 2(2)] 2(1) Suc.prems(2) by simp
    ultimately have "runs_empty xi idig" using 2(2) value100_pos [OF h] Suc.prems(3) unfolding runs_empty_def by blast
    then show ?thesis using finish_empty [OF h e 2(2,1) Suc.prems(6)] by simp
  next
    case 3
    let ?z = "zeros (quots ds)"
    obtain b' ds' where b': "scale_down b = Inr b'" "holds b' ds'" "db_hi b' = db_hi b + of_nat ?z"
      "db_idig b' = db_idig b - int ?z" "64 \<le> hd ds \<longrightarrow> hd ds' = 1"
      "512 \<le> length (heads (quots ds)) + length (tails (carry100 ds)) \<and> length ds' = 512 \<or> ds' = heads (quots ds) @ tails (carry100 ds) \<and>
        (\<forall>k. length ds + length (tails (carry100 ds)) \<le> unat (k - db_hi b) \<longrightarrow> xi_at (db_xi b') k = xi_at (db_xi b) k)"
      using scale_down_round [OF h 3(2)] by blast
    have fuel: "fuel_for b' ds' \<le> int n" using fuel_round [OF h b'(4,5)] Suc.prems(5) by simp
    have more: "db_idig b' \<le> 9 \<or> 1 < n" using fuel by (cases "64 \<le> hd ds'") (auto simp: fuel_for_def)
    have keep: "512 \<le> length ds' + (p + ?z) \<or> (\<exists>s a. exact_div xi b' ds' s a (p + ?z))"
      using b'(6)
    proof
      assume c: "ds' = heads (quots ds) @ tails (carry100 ds) \<and>
        (\<forall>k. length ds + length (tails (carry100 ds)) \<le> unat (k - db_hi b) \<longrightarrow> xi_at (db_xi b') k = xi_at (db_xi b) k)"
      then have l: "length ds' + ?z = length ds + length (tails (carry100 ds))" using zeros_heads [of "quots ds"] by simp
      show ?thesis
      proof (cases "512 \<le> length ds' + (p + ?z)")
        case False
        then obtain s a where e: "exact_div xi b ds s a p" using Suc.prems(4) l by auto
        then have "length xi + a + length (tails (carry100 ds)) \<le> 511" using False l by (simp add: exact_div_def)
        then show ?thesis using exact_round [OF h e 3(2) b'(3)] c by blast
      qed simp
    qed simp
    show ?thesis
    proof (cases "1 < n")
      case True
      have "db_idig b' = idig - int (p + ?z)" using b'(4) Suc.prems(2) by simp
      then show ?thesis using Suc.IH [OF b'(2) _ Suc.prems(3) keep fuel True] finish_round [OF 3(1) b'(1)] by simp
    next
      case False
      then have "db_idig b' \<le> 9" "0 < n" using more Suc.prems(6) by simp_all
      then show ?thesis using finish_round [OF 3(1) b'(1), of n neg] dec_double_total [OF holds_ring(1) [OF b'(2)], of neg]
        by (simp add: finish_stop)
    qed
  qed
qed simp

text \<open>Conversely, such a number is lost in the round \<open>r\<close> at the latest.\<close>

lemma finish_lost:
  assumes "holds b ds" "db_idig b = idig - int p" "exact_div xi b ds s a p" "s \<le> r"
    and lost: "value100 xi * 100 ^ A = v * 64 ^ r" "v < 64" "int (length xi + A) + 9 \<le> idig" "idig \<le> 155"
    and fuel: "fuel_for b ds \<le> int n"
  shows "finish n b neg = Inl Undef"
  using assms(1-4) fuel
proof (induction n arbitrary: b ds s a p)
  case 0
  have "length ds + p = length xi + a" "1 \<le> length ds" using 0 by (auto simp: exact_div_def holds_def Suc_le_eq)
  moreover have "a \<le> A"
  proof -
    have "(64::nat) ^ s dvd v * 64 ^ r" using 0(4) by (simp add: le_imp_power_dvd)
    then show ?thesis using 0(3) lost(1) by (simp add: exact_div_def)
  qed
  ultimately have "9 < db_idig b" using 0(2) lost(3) by simp
  then show ?case using 0(5) by (simp add: fuel_for_def split: if_splits)
next
  case (Suc n)
  note h = Suc.prems(1) and e = Suc.prems(3)
  have "(64::nat) ^ s dvd v * 64 ^ r" using Suc.prems(4) by (simp add: le_imp_power_dvd)
  then have aA: "a \<le> A" using e lost(1) by (simp add: exact_div_def)
  have "length ds + p = length xi + a" "1 \<le> length ds" using h e by (auto simp: exact_div_def holds_def Suc_le_eq)
  then have idig: "9 < db_idig b" using Suc.prems(2) lost(3) aA by simp
  then have n: "1 < Suc n" using Suc.prems(5) by (simp add: fuel_for_def split: if_splits)
  show ?case
  proof (cases "value100 ds < 64")
    case True
    then show ?thesis using finish_empty [OF h e True idig n] by simp
  next
    case False
    then have v64: "64 \<le> value100 ds" by simp
    have "s \<noteq> r"
    proof
      assume sr: "s = r"
      have "value100 ds * 64 ^ s * 100 ^ (A - a) = value100 xi * 100 ^ a * 100 ^ (A - a)" using e by (simp add: exact_div_def)
      also have "\<dots> = value100 xi * 100 ^ A" using aA by (simp add: mult.assoc power_add [symmetric])
      finally have "value100 ds * 100 ^ (A - a) * 64 ^ r = v * 64 ^ r" using lost(1) sr by (simp add: mult.commute mult.left_commute)
      then have "value100 ds * 100 ^ (A - a) = v" by simp
      moreover have "value100 ds * 1 \<le> value100 ds * 100 ^ (A - a)" by (intro mult_left_mono) simp_all
      ultimately show False using v64 lost(2) by simp
    qed
    then have sr: "Suc s \<le> r" using Suc.prems(4) by simp
    have "(64::nat) ^ Suc s dvd v * 64 ^ r" using le_imp_power_dvd [OF sr, of "64::nat"] by simp
    then have "64 ^ Suc s dvd value100 xi * 100 ^ A" unfolding lost(1) .
    from exact_appended [OF h e this] have len: "length xi + a + length (tails (carry100 ds)) \<le> 511" using lost(3,4) by simp
    let ?z = "zeros (quots ds)"
    obtain b' ds' where b': "scale_down b = Inr b'" "holds b' ds'" "db_hi b' = db_hi b + of_nat ?z"
      "db_idig b' = db_idig b - int ?z" "64 \<le> hd ds \<longrightarrow> hd ds' = 1"
      "512 \<le> length (heads (quots ds)) + length (tails (carry100 ds)) \<and> length ds' = 512 \<or> ds' = heads (quots ds) @ tails (carry100 ds) \<and>
        (\<forall>k. length ds + length (tails (carry100 ds)) \<le> unat (k - db_hi b) \<longrightarrow> xi_at (db_xi b') k = xi_at (db_xi b) k)"
      using scale_down_round [OF h v64] by blast
    have "length (heads (quots ds)) + length (tails (carry100 ds)) \<le> 511"
      using len zeros_heads [of "quots ds"] e by (simp add: exact_div_def)
    then have "exact_div xi b' ds' (Suc s) (a + length (tails (carry100 ds))) (p + ?z)"
      using exact_round [OF h e v64 b'(3) _ _ len] b'(6) by auto
    moreover have "fuel_for b' ds' \<le> int n" using fuel_round [OF h b'(4,5)] Suc.prems(5) by simp
    moreover have "db_idig b' = idig - int (p + ?z)" using b'(4) Suc.prems(2) by simp
    ultimately have "finish n b' neg = Inl Undef" using Suc.IH [OF b'(2)] sr by blast
    then show ?thesis using finish_round [OF idig b'(1)] by simp
  qed
qed

section \<open>The slow path\<close>

text \<open>The buffer of base-100 digits a string is collected in; it starts with a digit that is not zero.\<close>

definition dec_digits_ok :: "nat list \<Rightarrow> bool" where
  "dec_digits_ok xi \<longleftrightarrow> xi \<noteq> [] \<and> 1 \<le> hd xi \<and> (\<forall>d \<in> set xi. d \<le> 127)"

lemma spells_nth: "(\<And>j. j < length ds \<Longrightarrow> xi_at xi (i + of_nat j) = Inr (ds ! j)) \<Longrightarrow> spells xi i ds"
proof (induction ds arbitrary: i)
  case (Cons d ds)
  have "xi_at xi (i + 1 + of_nat j) = Inr (ds ! j)" if "j < length ds" for j
    using Cons.prems [of "Suc j"] that by (simp add: algebra_simps)
  then show ?case using Cons.IH [of "i + 1"] Cons.prems [of 0] by simp
qed simp

lemma dec_buf_ok:
  assumes "dec_digits_ok xi" "length xi \<le> 422"
  shows "holds (dec_buf xi idig) xi" "exact_div xi (dec_buf xi idig) xi 0 0 0" "db_idig (dec_buf xi idig) = idig"
proof -
  let ?c = "map Some xi @ replicate (512 - length xi) None"
  have at: "xi_at ?c i = (if unat i < length xi then Inr (xi ! unat i) else Inl Undef)" for i
    using u9_less [of i] by (simp add: xi_at_def nth_append)
  have "spells ?c 0 xi"
  proof (rule spells_nth)
    fix j assume "j < length xi"
    then have "unat (of_nat j :: u9) = j" using assms(2) by (intro unat_of_nat_eq) simp
    then show "xi_at ?c (0 + of_nat j) = Inr (xi ! j)" using at \<open>j < length xi\<close> by simp
  qed
  then show "holds (dec_buf xi idig) xi" using assms by (simp add: holds_def dec_buf_def dec_digits_ok_def)
  show "exact_div xi (dec_buf xi idig) xi 0 0 0" using assms(2) at by (simp add: exact_div_def dec_buf_def)
qed (simp add: dec_buf_def)

lemma scale_stop: "9 \<le> db_idig b \<Longrightarrow> 0 < n \<Longrightarrow> scale_loop n b = Inr b"
  by (cases n) auto

lemma dec_slow_finish:
  assumes "9 < idig" "idig \<le> 155" "idig = int (length xi) + ex10 div 2"
  shows "dec_slow xi fmt ex10 neg = rbind (finish 1024 (dec_buf xi idig) neg) (\<lambda>n. Inr (fmt, SNum n))"
  using assms by (simp add: dec_slow_def Let_def scale_stop dec_buf_def finish_def)

lemma dec_slow_cases:
  assumes xi: "dec_digits_ok xi" "length xi \<le> 422"
  shows "(dec_slow xi fmt ex10 neg = Inl Undef \<and> runs_empty xi (int (length xi) + ex10 div 2)) \<or>
    ((\<exists>n. dec_slow xi fmt ex10 neg = Inr (fmt, SNum n)) \<and> \<not> runs_empty xi (int (length xi) + ex10 div 2))"
proof -
  define idig where "idig = int (length xi) + ex10 div 2"
  have ne: "1 \<le> length xi" using xi(1) by (simp add: dec_digits_ok_def Suc_le_eq)
  then have few: "\<not> runs_empty xi idig" if "idig \<le> 9 \<or> 155 < idig" using that by (auto simp: runs_empty_def)
  consider "155 < idig \<or> idig < - 163" | "idig \<le> 9" "- 163 \<le> idig" | "9 < idig" "idig \<le> 155" by linarith
  then show ?thesis
  proof cases
    case 1
    then show ?thesis using few by (cases "155 < idig") (auto simp: dec_slow_def idig_def [symmetric] Let_def)
  next
    case 2
    let ?b = "dec_buf xi idig"
    note ok = dec_buf_ok [OF xi, of idig]
    have "1 \<le> topdig ?b" using holds_ring(2) [OF ok(1)] xi(1) by (simp add: dec_digits_ok_def)
    moreover have "nat (2 * (9 - db_idig ?b)) < 1024" using 2 ok(3) by simp
    ultimately obtain b where b: "scale_loop 1024 ?b = Inr b" "ring_ok b" "db_idig b \<le> max 9 idig"
      using scale_loop_ends [OF holds_ring(1) [OF ok(1)]] ok(3) by metis
    obtain x where "finish 1024 b neg = Inr x"
      using b(3) 2(1) dec_double_total [OF b(2), of neg] by (auto simp: finish_stop)
    then show ?thesis using 2 b(1) few unfolding finish_def
      by (auto simp: dec_slow_def idig_def [symmetric] Let_def rbind_eq_Inr)
  next
    case 3
    note ok = dec_buf_ok [OF xi, of idig] and slow = dec_slow_finish [OF 3 idig_def, of fmt neg]
    have fuel: "fuel_for (dec_buf xi idig) xi \<le> int 1024" using 3 ok(3) by (simp add: fuel_for_def)
    have idig: "db_idig (dec_buf xi idig) = idig - int 0" using ok(3) by simp
    have "(\<exists>x. finish 1024 (dec_buf xi idig) neg = Inr x) \<or>
        finish 1024 (dec_buf xi idig) neg = Inl Undef \<and> runs_empty xi idig"
      using finish_total [OF ok(1) idig 3(2) _ fuel] ok(2) by auto
    moreover have "finish 1024 (dec_buf xi idig) neg = Inl Undef" if re: "runs_empty xi idig"
    proof -
      obtain a r v where l: "value100 xi * 100 ^ a = v * 64 ^ r" "v < 64" "int (length xi + a) + 9 \<le> idig"
        using re unfolding runs_empty_def by blast
      show ?thesis by (rule finish_lost [OF ok(1) idig ok(2) le0 l 3(2) fuel])
    qed
    ultimately show ?thesis using slow unfolding idig_def [symmetric] by auto
  qed
qed

section \<open>The claim\<close>

text \<open>
  C40: the slow path of \<^verbatim>\<open>strscan_dec\<close> on collected digits (the first not zero, each below 128, the
  buffer not full) reads bytes of its buffer that were never written for exactly these numbers: times a
  power \<open>100 ^ a\<close> the digits are \<open>v * 64 ^ r\<close> with \<open>v\<close> below 64, and at least nine more base-100 digits, all
  zero, stand behind them and the \<open>a\<close> appended ones before the point (and the number is not an infinity
  outright).  The buffer runs empty then, \<^verbatim>\<open>hi\<close> catches up with \<^verbatim>\<open>lo\<close>, and the code goes on as if it were
  full.  For all other digits the path returns a double.
\<close>

theorem strscan_loses_digits:
  assumes "xi \<noteq> []" "1 \<le> hd xi" "\<forall>d \<in> set xi. d \<le> 127" "length xi \<le> 422"
  shows "(dec_slow xi fmt ex10 neg = Inl Undef) =
      (int (length xi) + ex10 div 2 \<le> 155 \<and>
       (\<exists>a r v. value100 xi * 100 ^ a = v * 64 ^ r \<and> 1 \<le> v \<and> v < 64 \<and>
          int (length xi + a) + 9 \<le> int (length xi) + ex10 div 2)) \<and>
    (dec_slow xi fmt ex10 neg = Inl Undef \<or> (\<exists>n. dec_slow xi fmt ex10 neg = Inr (fmt, SNum n)))"
proof -
  have "dec_digits_ok xi" using assms by (simp add: dec_digits_ok_def)
  from dec_slow_cases [OF this assms(4), of fmt ex10 neg] show ?thesis
    unfolding runs_empty_def by auto
qed

text \<open>The characters of \<^verbatim>\<open>288230376151711744e22\<close>, that is \<open>2 ^ 58 * 10 ^ 22\<close>.\<close>

definition lost_text :: bytes where
  "lost_text = [0x32, 0x38, 0x38, 0x32, 0x33, 0x30, 0x33, 0x37, 0x36, 0x31, 0x35, 0x31, 0x37, 0x31, 0x31, 0x37, 0x34, 0x34, 0x65, 0x32, 0x32]"

lemma collect_example:
  "dec_collect lost_text 22 18 =
     Inr ([28, 82, 30, 37, 61, 51, 71, 17, 44, 0], 20, 20)"
  by (simp add: lost_text_def dec_collect_def STRSCAN_MAXDIG_def dec_pairs.simps dval_def pad_exp.simps)

lemma digit_tests:
  "lj_char_isa 0x65 LJ_CHAR_DIGIT = 0" "\<not> lj_char_isdigit 0x65" "lj_char_isdigit 0x32"
  "lj_char_isa 0x30 LJ_CHAR_DIGIT \<noteq> 0" "lj_char_isa 0x31 LJ_CHAR_DIGIT \<noteq> 0" "lj_char_isa 0x32 LJ_CHAR_DIGIT \<noteq> 0"
  "lj_char_isa 0x33 LJ_CHAR_DIGIT \<noteq> 0" "lj_char_isa 0x34 LJ_CHAR_DIGIT \<noteq> 0" "lj_char_isa 0x35 LJ_CHAR_DIGIT \<noteq> 0"
  "lj_char_isa 0x36 LJ_CHAR_DIGIT \<noteq> 0" "lj_char_isa 0x37 LJ_CHAR_DIGIT \<noteq> 0" "lj_char_isa 0x38 LJ_CHAR_DIGIT \<noteq> 0"
  by (simp_all add: lj_char_isdigit_def lj_char_isa_spec bits_spec_def LJ_CHAR_DIGIT_def)

text \<open>Scanning that string reads them: its digits are \<open>2 ^ 58 * 100 = 25 * 64 ^ 10\<close>, ten places before the point follow.\<close>

theorem strscan_loses_digits_witness: "lj_strscan_scan lost_text STRSCAN_OPT_TONUM = Inl Undef"
proof -
  let ?xi = "[28, 82, 30, 37, 61, 51, 71, 17, 44, 0] :: nat list"
  have "value100 ?xi * 100 ^ 0 = 25 * 64 ^ 10" by simp
  moreover have "int (length ?xi + 0) + 9 \<le> int (length ?xi) + 20 div 2" by simp
  ultimately have lost: "\<exists>a r v. value100 ?xi * 100 ^ a = v * 64 ^ r \<and> 1 \<le> v \<and> v < 64 \<and>
      int (length ?xi + a) + 9 \<le> int (length ?xi) + 20 div 2"
    by (intro exI [of _ 0] exI [of _ 10] exI [of _ 25] conjI) simp_all
  have "int (length ?xi) + 20 div 2 \<le> 155" by simp
  with lost have slow: "dec_slow ?xi STRSCAN_NUM 20 False = Inl Undef"
    using strscan_loses_digits [of ?xi STRSCAN_NUM 20 False] by simp
  have t: "opt_set STRSCAN_OPT_TONUM STRSCAN_OPT_C = False" by (simp add: opt_set_def STRSCAN_OPT_TONUM_def STRSCAN_OPT_C_def)
  have "strscan_dec lost_text STRSCAN_NUM STRSCAN_OPT_TONUM 22 False 18 = Inl Undef"
    by (simp add: strscan_dec_def collect_example slow t) (simp add: strscan_fmts)
  moreover have n18: "Suc (Suc (Suc (Suc (Suc (Suc (Suc (Suc (Suc (Suc (Suc (Suc (Suc (Suc (Suc (Suc (Suc (Suc 0))))))))))))))))) = 18" by simp
  ultimately have dec: "strscan_dec lost_text
      (Suc 0) STRSCAN_OPT_TONUM 22 False (Suc (Suc (Suc (Suc (Suc (Suc (Suc (Suc (Suc (Suc (Suc (Suc (Suc (Suc (Suc (Suc (Suc (Suc 0)))))))))))))))))) = Inl Undef"
    by (simp only: n18 STRSCAN_NUM_def One_nat_def)
  have d: "dval 0x32 = 2" by (simp add: dval_def)
  show ?thesis
    by (simp add: lost_text_def lj_strscan_scan_def scan_number_def scan_rest_def scan_point_def scan_exponent_def scan_exp_def casecmp_def
      scan_suffix_def scan_dispatch_def scan_fast_def strscan_fmts digit_tests d) (simp add: dec [unfolded lost_text_def])
qed

end
