(* ===== verification/StrscanTotal.thy ===== *)
theory StrscanTotal
  imports StrscanEmpty
begin

text \<open>
  The scanner on every string: it reads no character twice and none behind the end, its loops end,
  and the value it stores fits the format it returns.  The one way it can fail is the circular
  buffer running empty.
\<close>

section \<open>The digits of a number\<close>










section \<open>Hexadecimal numbers\<close>



text \<open>What is stored for a format: a 32-bit integer is only returned when the options ask for one.\<close>

definition scan_shape :: "u32 \<Rightarrow> nat \<times> scanval \<Rightarrow> bool" where
  "scan_shape opt r \<longleftrightarrow>
     (case snd r of
        SNum n \<Rightarrow> fst r = STRSCAN_NUM \<or> fst r = STRSCAN_IMAG
      | SInt i \<Rightarrow> (fst r = STRSCAN_INT \<or> fst r = STRSCAN_U32) \<and>
          (\<not> opt_set opt STRSCAN_OPT_TONUM \<or> opt_set opt STRSCAN_OPT_C \<or> opt_set opt STRSCAN_OPT_TOINT)
      | SU64 n \<Rightarrow> fst r = STRSCAN_I64 \<or> fst r = STRSCAN_U64
      | SNone \<Rightarrow> fst r = STRSCAN_ERROR)"




section \<open>Octal and binary numbers\<close>




section \<open>Decimal numbers\<close>










text \<open>The digits collected somewhere in \<open>p\<close> are such a number.\<close>

definition loses_digits :: "bytes \<Rightarrow> bool" where
  "loses_digits p \<longleftrightarrow>
     (\<exists>k ex dig xi ex10 d. dec_collect (drop k p) ex dig = Inr (xi, ex10, d) \<and> runs_empty xi (int (length xi) + ex10 div 2))"


definition returns_or_empty :: "u32 \<Rightarrow> bytes \<Rightarrow> scanned \<Rightarrow> bool" where
  "returns_or_empty opt p s \<longleftrightarrow> (\<exists>r. s = Inr r \<and> scan_shape opt r) \<or> (s = Inl Undef \<and> loses_digits p)"



lemma returns_error [simp]: "returns_or_empty opt p scan_error"
  by (simp add: returns_or_empty_def scan_error_def scan_shape_def)




section \<open>The scanner\<close>














end
